(* ===== verification/Prelude.thy ===== *)
theory Prelude
  imports Main "HOL-Library.Word" "HOL-Library.Multiset"
begin

text \<open>
  Shared vocabulary of the development: the machine integers of the Rust sources, byte strings,
  the big- and little-endian conversions \<open>to_be_bytes\<close>/\<open>from_be_bytes\<close> (and their little-endian
  counterparts), slices \<open>data[a..b]\<close>, \<open>chunks(n)\<close>, zero-padded byte-wise XOR, and the generic list
  lemmas the components rely on.

  Conventions. \<open>u8\<close> to \<open>u64\<close> are HOL words, so arithmetic on them wraps as it does in a release
  build; where a build with overflow checks would panic instead and it matters, the definition says so. \<open>usize\<close> lengths and indices are \<open>nat\<close>: they measure objects that fit in memory. A Rust
  panic (slice or index out of range) is an explicit \<open>None\<close> wherever the source can reach one.
\<close>

unbundle bit_operations_syntax

section \<open>Machine types\<close>

type_synonym u8 = "8 word"
type_synonym u16 = "16 word"
type_synonym u32 = "32 word"
type_synonym u64 = "64 word"
type_synonym bytes = "8 word list"
type_synonym rust_str = "nat list" \<comment> \<open>the characters of a \<open>String\<close>\<close>

named_theorems wire_simps \<open>layout of wire formats: conversions, lengths and slices of concatenations\<close>
named_theorems fec_simps \<open>algebra of zero-padded XOR\<close>

section \<open>Byte order\<close>

definition be_bytes :: "nat \<Rightarrow> 'a::len word \<Rightarrow> bytes" where
  "be_bytes n w = map (\<lambda>i. ucast (drop_bit (8 * i) w)) (rev [0..<n])"

definition be_word_from :: "'a::len word \<Rightarrow> bytes \<Rightarrow> 'a word" where
  "be_word_from acc bs = foldl (\<lambda>a b. push_bit 8 a OR ucast b) acc bs"

definition be_word :: "bytes \<Rightarrow> 'a::len word" where
  "be_word bs = be_word_from 0 bs"

definition le_bytes :: "nat \<Rightarrow> 'a::len word \<Rightarrow> bytes" where
  "le_bytes n w = rev (be_bytes n w)"

definition le_word :: "bytes \<Rightarrow> 'a::len word" where
  "le_word bs = be_word (rev bs)"

text \<open>\<open>data[a..b]\<close> for \<open>a \<le> b \<le> data.len()\<close>.\<close>

definition subslice :: "nat \<Rightarrow> nat \<Rightarrow> 'a list \<Rightarrow> 'a list" where
  "subslice a b xs = take (b - a) (drop a xs)"

text \<open>\<open>data[a..b].copy_from_slice(ys)\<close>: the bytes from \<open>a\<close> on are replaced by \<open>ys\<close>.\<close>

definition splice :: "nat \<Rightarrow> 'a list \<Rightarrow> 'a list \<Rightarrow> 'a list" where
  "splice a ys xs = take a xs @ ys @ drop (a + length ys) xs"

text \<open>\<open>slice.chunks(n)\<close> for \<open>n > 0\<close>; Rust panics on \<open>n = 0\<close>, which no caller passes.\<close>

function chunks :: "nat \<Rightarrow> 'a list \<Rightarrow> 'a list list" where
  "chunks n xs = (if xs = [] \<or> n = 0 then [] else take n xs # chunks n (drop n xs))"
  by pat_completeness auto
termination
  by (relation "measure (\<lambda>(n, xs). length xs)") auto

declare chunks.simps [simp del]

text \<open>\<open>usize::div_ceil\<close>.\<close>

definition div_ceil :: "nat \<Rightarrow> nat \<Rightarrow> nat" where
  "div_ceil a b = (a + b - 1) div b"

text \<open>\<open>for (a, b) in acc.iter_mut().zip(data) { *a ^= b }\<close>: the common prefix is XORed.\<close>

fun xor_zip :: "bytes \<Rightarrow> bytes \<Rightarrow> bytes" where
  "xor_zip [] ys = []"
| "xor_zip xs [] = xs"
| "xor_zip (x # xs) (y # ys) = (x XOR y) # xor_zip xs ys"

text \<open>\<open>Vec::resize(n, 0)\<close> for \<open>n \<ge> len\<close>.\<close>

definition pad0 :: "nat \<Rightarrow> bytes \<Rightarrow> bytes" where
  "pad0 n xs = xs @ replicate (n - length xs) 0"

section \<open>Byte-order lemmas\<close>

lemma length_be_bytes [simp, wire_simps]: "length (be_bytes n w) = n"
  by (simp add: be_bytes_def)

lemma length_le_bytes [simp, wire_simps]: "length (le_bytes n w) = n"
  by (simp add: le_bytes_def)

lemma be_bytes_0 [simp]: "be_bytes 0 w = []"
  by (simp add: be_bytes_def)

lemma be_bytes_Suc: "be_bytes (Suc n) w = ucast (drop_bit (8 * n) w) # be_bytes n w"
  by (simp add: be_bytes_def)

lemma be_word_from_Nil [simp]: "be_word_from acc [] = acc"
  by (simp add: be_word_from_def)

lemma be_word_from_Cons [simp]:
  "be_word_from acc (b # bs) = be_word_from (push_bit 8 acc OR ucast b) bs"
  by (simp add: be_word_from_def)

lemma be_word_from_bytes:
  fixes w acc :: "'a::len word"
  shows "be_word_from acc (be_bytes n w) = push_bit (8 * n) acc OR take_bit (8 * n) w"
proof (induction n arbitrary: acc)
  case 0
  show ?case by simp
next
  case (Suc n)
  have "push_bit (8 * n) (push_bit 8 acc OR ucast (ucast (drop_bit (8 * n) w) :: u8))
          OR take_bit (8 * n) w
        = push_bit (8 * Suc n) acc OR take_bit (8 * Suc n) w"
    by (rule bit_word_eqI) (auto simp: bit_simps ac_simps)
  then show ?case by (simp only: be_bytes_Suc be_word_from_Cons Suc.IH)
qed

lemma be_word_be_bytes [simp, wire_simps]:
  fixes w :: "'a::len word"
  shows "LENGTH('a) \<le> 8 * n \<Longrightarrow> be_word (be_bytes n w) = w"
  by (simp add: be_word_def be_word_from_bytes take_bit_word_eq_self)

lemma le_word_le_bytes [simp, wire_simps]:
  fixes w :: "'a::len word"
  shows "LENGTH('a) \<le> 8 * n \<Longrightarrow> le_word (le_bytes n w) = w"
  by (simp add: le_word_def le_bytes_def)

lemma be_word_snoc: "be_word (bs @ [b]) = push_bit 8 (be_word bs) OR ucast b"
  by (simp add: be_word_def be_word_from_def)

lemma be_bytes_snoc: "be_bytes (Suc n) w = be_bytes n (drop_bit 8 w) @ [ucast w]"
  by (induction n) (simp_all add: be_bytes_Suc drop_bit_drop_bit add.commute)

lemma bit_be_word_bound: "bit (be_word bs :: 'a::len word) n \<Longrightarrow> n < 8 * length bs"
proof (induction bs arbitrary: n rule: rev_induct)
  case Nil
  then show ?case by (simp add: be_word_def)
next
  case (snoc b bs)
  have b8: "bit b m \<Longrightarrow> m < 8" for m
    by (drule bit_imp_le_length) simp
  from snoc.prems consider "8 \<le> n" "bit (be_word bs :: 'a word) (n - 8)" | "bit b n"
    by (auto simp: be_word_snoc bit_simps)
  then show ?case
  proof cases
    case 1
    with snoc.IH show ?thesis by fastforce
  next
    case 2
    then show ?thesis by (auto dest: b8)
  qed
qed

lemma be_bytes_be_word:
  "8 * length bs \<le> LENGTH('a) \<Longrightarrow> be_bytes (length bs) (be_word bs :: 'a::len word) = bs"
proof (induction bs rule: rev_induct)
  case Nil
  show ?case by simp
next
  case (snoc b bs)
  have bnd: "bit (be_word bs :: 'a word) m \<Longrightarrow> m + 8 < LENGTH('a)" for m
    using snoc.prems by (auto dest!: bit_be_word_bound)
  have b8: "bit b m \<Longrightarrow> m < 8" for m
    by (drule bit_imp_le_length) simp
  have d: "drop_bit 8 (push_bit 8 (be_word bs) OR ucast b :: 'a word) = be_word bs"
    by (rule bit_word_eqI) (auto simp: bit_simps add.commute dest: b8 bnd)
  have u: "ucast (push_bit 8 (be_word bs) OR ucast b :: 'a word) = b"
    using snoc.prems by (intro bit_word_eqI) (auto simp: bit_simps)
  have "be_bytes (Suc (length bs)) (be_word (bs @ [b]) :: 'a word)
      = be_bytes (length bs) (be_word bs :: 'a word) @ [b]"
    by (simp only: be_word_snoc be_bytes_snoc d u)
  with snoc show ?case by simp
qed

lemma be_bytes_inject:
  fixes v w :: "'a::len word"
  assumes "LENGTH('a) \<le> 8 * n"
  shows "be_bytes n v = be_bytes n w \<longleftrightarrow> v = w"
  using assms be_word_be_bytes by metis

lemma unat_of_nat_id: "n < 2 ^ LENGTH('a) \<Longrightarrow> unat (of_nat n :: 'a::len word) = n"
  by (simp add: unsigned_of_nat take_bit_nat_eq_self_iff)

lemma of_nat_unat_id [simp]: "of_nat (unat w) = (w :: 'a::len word)"
  by simp

lemma unat_of_nat_u16: "n < 65536 \<Longrightarrow> unat (of_nat n :: u16) = n"
  using unat_of_nat_id [of n, where 'a = 16] by simp

lemma unat_of_nat_u8: "n < 256 \<Longrightarrow> unat (of_nat n :: u8) = n"
  using unat_of_nat_id [of n, where 'a = 8] by simp

lemma unat_of_nat_u32: "n < 4294967296 \<Longrightarrow> unat (of_nat n :: u32) = n"
  using unat_of_nat_id [of n, where 'a = 32] by simp

lemma unat_u8_less [simp]: "unat (w :: u8) < 256"
  using unsigned_less [of w] by simp

lemma unat_u16_less [simp]: "unat (w :: u16) < 65536"
  using unsigned_less [of w] by simp

lemma unat_u32_less [simp]: "unat (w :: u32) < 4294967296"
  using unsigned_less [of w] by simp

section \<open>Slices and splices\<close>

lemma length_subslice [simp, wire_simps]: "b \<le> length xs \<Longrightarrow> length (subslice a b xs) = b - a"
  by (simp add: subslice_def)

lemma nth_subslice: "a + i < b \<Longrightarrow> b \<le> length xs \<Longrightarrow> subslice a b xs ! i = xs ! (a + i)"
  by (simp add: subslice_def)

lemma subslice_append_right: "length xs \<le> a \<Longrightarrow> subslice a b (xs @ ys) = subslice (a - length xs) (b - length xs) ys"
  by (simp add: subslice_def)

lemma length_splice [simp]: "a + length ys \<le> length xs \<Longrightarrow> length (splice a ys xs) = length xs"
  by (simp add: splice_def)

lemma nth_splice:
  assumes "a + length ys \<le> length xs" and "i < length xs"
  shows "splice a ys xs ! i = (if a \<le> i \<and> i < a + length ys then ys ! (i - a) else xs ! i)"
  using assms by (auto simp: splice_def nth_append min_def)

lemma subslice_append_subslice [simp]: "a \<le> b \<Longrightarrow> b \<le> c \<Longrightarrow> subslice a b xs @ subslice b c xs = subslice a c xs"
proof -
  assume "a \<le> b" "b \<le> c"
  then have "c - a = (b - a) + (c - b)" "drop b xs = drop (b - a) (drop a xs)" by simp_all
  then show ?thesis by (simp only: subslice_def take_add)
qed

lemma subslice_singleton: "i < length xs \<Longrightarrow> [xs ! i] = subslice i (Suc i) xs"
  by (simp add: subslice_def take_Suc_conv_app_nth)

lemma subslice_append_drop: "a \<le> b \<Longrightarrow> subslice a b xs @ drop b xs = drop a xs"
  by (metis append_take_drop_id drop_drop le_add_diff_inverse2 subslice_def)

lemma be_bytes_be_word_subslice:
  "a + n \<le> length xs \<Longrightarrow> 8 * n \<le> LENGTH('a) \<Longrightarrow>
     be_bytes n (be_word (subslice a (a + n) xs) :: 'a::len word) = subslice a (a + n) xs"
  using be_bytes_be_word [of "subslice a (a + n) xs", where 'a = 'a] by simp

section \<open>Pointwise relations and pairs of lists\<close>

lemma list_all2_ex_left: "list_all2 P xs ys \<Longrightarrow> y \<in> set ys \<Longrightarrow> \<exists>x \<in> set xs. P x y"
  by (induction rule: list_all2_induct) auto

lemma snd_set_zip_map:
  "length xs = length ys \<Longrightarrow> snd ` set (map (\<lambda>(x, y). (f x, y)) (zip xs ys)) = set ys"
  by (induction xs ys rule: list_induct2) auto

lemma distinct_filter_eq_singleton:
  "distinct xs \<Longrightarrow> x \<in> set xs \<Longrightarrow> filter (\<lambda>y. y = x) xs = [x]"
  by (induction xs) (auto simp: filter_empty_conv)

lemma insort_key_map: "insort_key f (g x) (map g xs) = map g (insort_key (\<lambda>x. f (g x)) x xs)"
  by (induction xs) auto

lemma sort_key_map: "sort_key f (map g xs) = map g (sort_key (\<lambda>x. f (g x)) xs)"
  by (induction xs) (simp_all add: insort_key_map)

section \<open>Chunks\<close>

lemma chunks_Nil [simp]: "chunks n [] = []"
  by (simp add: chunks.simps)

lemma chunks_step: "xs \<noteq> [] \<Longrightarrow> 0 < n \<Longrightarrow> chunks n xs = take n xs # chunks n (drop n xs)"
  by (subst chunks.simps) simp

lemma chunks_zero [simp]: "chunks 0 xs = []"
  by (subst chunks.simps) simp

lemma concat_chunks [simp]: "0 < n \<Longrightarrow> concat (chunks n xs) = xs"
proof (induction n xs rule: chunks.induct)
  case (1 n xs)
  then show ?case by (cases "xs = []") (simp_all add: chunks_step)
qed

lemma div_ceil_0 [simp]: "0 < n \<Longrightarrow> div_ceil 0 n = 0"
  by (simp add: div_ceil_def)

lemma div_ceil_step:
  assumes "0 < (a::nat)" and "0 < n"
  shows "div_ceil a n = Suc (div_ceil (a - n) n)"
proof (cases "n \<le> a")
  case True
  with assms have "a + n - 1 = (a - n + n - 1) + n" by simp
  then have "(a + n - 1) div n = (a - n + n - 1) div n + 1"
    using assms by (metis div_add_self2 less_numeral_extra(3))
  then show ?thesis by (simp add: div_ceil_def)
next
  case False
  with assms have "a + n - 1 = (a - 1) + n" by simp
  then have "(a + n - 1) div n = (a - 1) div n + 1"
    using assms by (metis div_add_self2 less_numeral_extra(3))
  with False assms show ?thesis by (simp add: div_ceil_def)
qed

lemma length_chunks: "0 < n \<Longrightarrow> length (chunks n xs) = div_ceil (length xs) n"
proof (induction n xs rule: chunks.induct)
  case (1 n xs)
  show ?case
  proof (cases "xs = []")
    case True
    with 1 show ?thesis by simp
  next
    case False
    with 1 have "length (chunks n (drop n xs)) = div_ceil (length xs - n) n" by simp
    with False 1(2) show ?thesis
      by (simp add: chunks_step div_ceil_step)
  qed
qed

lemma nth_chunks:
  "0 < n \<Longrightarrow> i < length (chunks n xs) \<Longrightarrow> chunks n xs ! i = take n (drop (i * n) xs)"
proof (induction n xs arbitrary: i rule: chunks.induct)
  case (1 n xs)
  then have ne: "xs \<noteq> []" by auto
  show ?case
  proof (cases i)
    case 0
    with ne 1 show ?thesis by (simp add: chunks_step)
  next
    case (Suc j)
    with ne 1 show ?thesis by (simp add: chunks_step add.commute)
  qed
qed

lemma chunks_length_bounds:
  assumes "c \<in> set (chunks n xs)"
  shows "0 < length c \<and> length c \<le> n"
  using assms
proof (induction n xs rule: chunks.induct)
  case (1 n xs)
  then show ?case by (cases "xs = [] \<or> n = 0") (auto simp: chunks_step)
qed

lemma chunks_eq_Nil_iff [simp]: "0 < n \<Longrightarrow> chunks n xs = [] \<longleftrightarrow> xs = []"
  by (cases "xs = []") (simp_all add: chunks_step)

lemma chunk_index_bound: "0 < n \<Longrightarrow> i < length (chunks n xs) \<Longrightarrow> i * n < length xs"
proof (induction n xs arbitrary: i rule: chunks.induct)
  case (1 n xs)
  then have ne: "xs \<noteq> []" by auto
  show ?case
  proof (cases i)
    case 0
    with ne show ?thesis by simp
  next
    case (Suc j)
    with ne 1 have "j * n < length xs - n" by (simp add: chunks_step)
    with Suc show ?thesis by simp
  qed
qed

section \<open>Zero-padded XOR\<close>

lemma length_xor_zip [simp, fec_simps]: "length (xor_zip xs ys) = length xs"
  by (induction xs ys rule: xor_zip.induct) simp_all

definition byte_at :: "bytes \<Rightarrow> nat \<Rightarrow> u8" where
  "byte_at xs i = (if i < length xs then xs ! i else 0)"

lemma byte_at_Cons: "byte_at (x # xs) i = (case i of 0 \<Rightarrow> x | Suc j \<Rightarrow> byte_at xs j)"
  by (cases i) (simp_all add: byte_at_def)

lemma byte_at_Nil [simp]: "byte_at [] i = 0"
  by (simp add: byte_at_def)

lemma byte_at_xor_zip [fec_simps]:
  "byte_at (xor_zip xs ys) i = (if i < length xs then byte_at xs i XOR byte_at ys i else 0)"
proof (induction xs ys arbitrary: i rule: xor_zip.induct)
  case (3 x xs y ys)
  then show ?case by (cases i) (simp_all add: byte_at_Cons)
qed (simp_all add: byte_at_def)

lemma byte_at_replicate0 [fec_simps, simp]: "byte_at (replicate n 0) i = 0"
  by (simp add: byte_at_def)

lemma byte_at_beyond [simp]: "length xs \<le> i \<Longrightarrow> byte_at xs i = 0"
  by (simp add: byte_at_def)

lemma length_pad0 [simp, fec_simps]: "length (pad0 n xs) = max n (length xs)"
  by (simp add: pad0_def)

lemma byte_at_pad0 [simp, fec_simps]: "byte_at (pad0 n xs) i = byte_at xs i"
  by (auto simp: byte_at_def pad0_def nth_append)

lemma byte_list_eqI:
  "length xs = length ys \<Longrightarrow> (\<And>i. i < length xs \<Longrightarrow> byte_at xs i = byte_at ys i) \<Longrightarrow> xs = ys"
  by (auto intro: nth_equalityI simp: byte_at_def)

lemma take_pad0 [simp]: "take (length xs) (pad0 n xs) = xs"
  by (simp add: pad0_def)

section \<open>XOR algebra\<close>

text \<open>\<open>xor_over f is\<close> is the XOR of \<open>f i\<close> over the list of indices.\<close>

definition xor_over :: "(nat \<Rightarrow> 'a::len word) \<Rightarrow> nat list \<Rightarrow> 'a word" where
  "xor_over f is = foldr (\<lambda>i a. f i XOR a) is 0"

lemma xor_over_simps [simp]:
  "xor_over f [] = 0" "xor_over f (i # is) = f i XOR xor_over f is"
  by (simp_all add: xor_over_def)

lemma xor_over_append: "xor_over f (is @ js) = xor_over f is XOR xor_over f js"
  by (induction "is") (simp_all add: xor.assoc)

lemma xor_over_cong: "(\<And>i. i \<in> set is \<Longrightarrow> f i = g i) \<Longrightarrow> xor_over f is = xor_over g is"
  by (induction "is") simp_all

lemma filter_neq_id [simp]: "t \<notin> set is \<Longrightarrow> filter (\<lambda>i. i \<noteq> t) is = is"
  by (rule filter_True) auto

lemma xor_over_remove:
  "distinct is \<Longrightarrow> t \<in> set is \<Longrightarrow> xor_over f is = f t XOR xor_over f (filter (\<lambda>i. i \<noteq> t) is)"
proof (induction "is")
  case (Cons i "is")
  then show ?case
    by (cases "i = t") (auto simp: xor.left_commute)
qed simp

lemma xor_over_map: "xor_over f (map h is) = xor_over (\<lambda>i. f (h i)) is"
  by (induction "is") simp_all

text \<open>Folding the XOR of several byte strings into a buffer.\<close>

lemma length_fold_xor_zip [simp]: "length (fold (\<lambda>c acc. xor_zip acc c) cs acc) = length acc"
  by (induction cs arbitrary: acc) simp_all

lemma byte_at_fold_xor_zip:
  "j < length acc \<Longrightarrow> byte_at (fold (\<lambda>c acc. xor_zip acc c) (map (\<lambda>i. cs ! i) is) acc) j
     = byte_at acc j XOR xor_over (\<lambda>i. byte_at (cs ! i) j) is"
  by (induction "is" arbitrary: acc) (simp_all add: byte_at_xor_zip xor.assoc)

lemma fold_xor_over:
  "fold (\<lambda>c acc. acc XOR g c) (map (\<lambda>i. cs ! i) is) a = (a :: 'a::len word) XOR xor_over (\<lambda>i. g (cs ! i)) is"
  by (induction "is" arbitrary: a) (simp_all add: xor.assoc)

lemma xor_zip_commute: "xor_zip (xor_zip acc a) b = xor_zip (xor_zip acc b) a"
proof (rule byte_list_eqI)
  fix i assume "i < length (xor_zip (xor_zip acc a) b)"
  then have "i < length acc" by simp
  then show "byte_at (xor_zip (xor_zip acc a) b) i = byte_at (xor_zip (xor_zip acc b) a) i"
    by (simp only: byte_at_xor_zip length_xor_zip if_True xor.assoc xor.commute [of "byte_at a i" "byte_at b i"])
qed simp

lemma fold_filtered: "fold (\<lambda>x acc. if P x then f x acc else acc) xs a = fold f (filter P xs) a"
  by (induction xs arbitrary: a) simp_all

lemma find_unique:
  assumes "m \<in> set xs" "P m" "\<forall>x \<in> set xs. P x \<longrightarrow> x = m"
  shows "find P xs = Some m"
  using assms
proof (induction xs)
  case (Cons x xs)
  show ?case
  proof (cases "P x")
    case True
    then have "x = m" using Cons.prems(3) by (metis list.set_intros(1))
    with True show ?thesis by simp
  next
    case False
    then have "m \<in> set xs" using Cons.prems(1,2) by (metis set_ConsD)
    then have "find P xs = Some m" using Cons.prems(2,3) by (intro Cons.IH) (blast intro: list.set_intros(2))+
    with False show ?thesis by simp
  qed
qed simp

lemma unat_plus_one_less:
  fixes x y :: "'a::len word"
  assumes "unat x < unat y"
  shows "unat (x + 1) = Suc (unat x)"
proof -
  have "unat x + 1 < 2 ^ LENGTH('a)" using assms unsigned_less[of y, where 'a = nat] by linarith
  then show ?thesis by (simp add: unat_word_ariths)
qed

section \<open>Hash maps\<close>

text \<open>What is known of the iteration order of a \<open>HashMap\<close>: it is a permutation of the entries.\<close>

definition hash_iter :: "(('k \<times> 'v) list \<Rightarrow> ('k \<times> 'v) list) \<Rightarrow> bool" where
  "hash_iter iter \<longleftrightarrow> (\<forall>xs. mset (iter xs) = mset xs)"

lemma set_hash_iter [simp]: "hash_iter iter \<Longrightarrow> set (iter xs) = set xs"
  unfolding hash_iter_def by (metis set_mset_mset)

lemma hash_iter_small [simp]: "hash_iter iter \<Longrightarrow> iter [] = []" "hash_iter iter \<Longrightarrow> iter [x] = [x]"
  unfolding hash_iter_def by (metis mset_zero_iff, metis mset_single_iff_right mset.simps)

section \<open>Labelled executions\<close>

text \<open>Executions of a labelled step relation, and the two ways the components use them: an
  invariant that every step keeps, and a simulation of an abstract step relation.\<close>

inductive steps :: "('s \<Rightarrow> 'e \<Rightarrow> 's \<Rightarrow> bool) \<Rightarrow> 's \<Rightarrow> 'e list \<Rightarrow> 's \<Rightarrow> bool" for step where
  steps_Nil: "steps step s [] s"
| steps_Cons: "step s e s1 \<Longrightarrow> steps step s1 es s2 \<Longrightarrow> steps step s (e # es) s2"

inductive_cases steps_NilE [elim!]: "steps step s [] s'"
inductive_cases steps_ConsE [elim!]: "steps step s (e # es) s'"

lemma steps_invariant:
  assumes "steps step s es s'" and "I s"
    and "\<And>s e s'. step s e s' \<Longrightarrow> I s \<Longrightarrow> I s'"
  shows "I s'"
  using assms by (induction rule: steps.induct) blast+

locale simulation =
  fixes cstep :: "'s \<Rightarrow> 'e \<Rightarrow> 's \<Rightarrow> bool"
    and astep :: "'a \<Rightarrow> 'l \<Rightarrow> 'a \<Rightarrow> bool"
    and abs :: "'s \<Rightarrow> 'a"
    and label :: "'e \<Rightarrow> 'l"
  assumes step_sim: "cstep s e s' \<Longrightarrow> astep (abs s) (label e) (abs s')"
begin

lemma steps_sim: "steps cstep s es s' \<Longrightarrow> steps astep (abs s) (map label es) (abs s')"
  by (induction rule: steps.induct) (auto intro: steps.intros step_sim)

end

end
