(* ===== verification/Evrt2_Packet.thy ===== *)
theory Evrt2_Packet
  imports Prelude
begin

text \<open>
  The 32-byte EVRT2 packet header of \<^verbatim>\<open>src/src/evrt2_packet.rs\<close>: packet types, mode byte, flag
  bits, \<open>PacketHeader::encode\<close> and \<open>PacketHeader::decode\<close> with all five decode errors. The lemmas
  show that the two codecs are inverse to each other up to the reserved byte, and which byte strings
  are accepted.
\<close>

section \<open>Constants\<close>

definition EVRT2_MAGIC :: u32 where "EVRT2_MAGIC = 0x45565232"
definition EVRT2_VERSION :: u8 where "EVRT2_VERSION = 2"
definition HEADER_LEN :: nat where "HEADER_LEN = 32"
definition MAX_DATAGRAM :: nat where "MAX_DATAGRAM = 1400"
definition MAX_PAYLOAD :: nat where "MAX_PAYLOAD = MAX_DATAGRAM - HEADER_LEN"

section \<open>Packet types and modes\<close>

datatype PacketType =
    SessionHello | SessionAck | CodecConfig | ModeSwitch | VideoFrame | AudioFrame | Feedback
  | Keepalive | FecRepair | IdrRequest | Goodbye | RelayWrap | DegradeSignalType | ApfUpdate

text \<open>The discriminants of \<open>#[repr(u8)] enum PacketType\<close>.\<close>

fun packet_type_u8 :: "PacketType \<Rightarrow> u8" where
  "packet_type_u8 SessionHello = 0x01"
| "packet_type_u8 SessionAck = 0x02"
| "packet_type_u8 CodecConfig = 0x03"
| "packet_type_u8 ModeSwitch = 0x04"
| "packet_type_u8 VideoFrame = 0x05"
| "packet_type_u8 AudioFrame = 0x06"
| "packet_type_u8 Feedback = 0x07"
| "packet_type_u8 Keepalive = 0x08"
| "packet_type_u8 FecRepair = 0x09"
| "packet_type_u8 IdrRequest = 0x0A"
| "packet_type_u8 Goodbye = 0x0B"
| "packet_type_u8 RelayWrap = 0x0C"
| "packet_type_u8 DegradeSignalType = 0x0D"
| "packet_type_u8 ApfUpdate = 0x0E"

definition packet_type_from_u8 :: "u8 \<Rightarrow> PacketType option" where
  "packet_type_from_u8 v =
     (if v = 0x01 then Some SessionHello
      else if v = 0x02 then Some SessionAck
      else if v = 0x03 then Some CodecConfig
      else if v = 0x04 then Some ModeSwitch
      else if v = 0x05 then Some VideoFrame
      else if v = 0x06 then Some AudioFrame
      else if v = 0x07 then Some Feedback
      else if v = 0x08 then Some Keepalive
      else if v = 0x09 then Some FecRepair
      else if v = 0x0A then Some IdrRequest
      else if v = 0x0B then Some Goodbye
      else if v = 0x0C then Some RelayWrap
      else if v = 0x0D then Some DegradeSignalType
      else if v = 0x0E then Some ApfUpdate
      else None)"

datatype Mode = Ar | R2 | Mode47

fun mode_u8 :: "Mode \<Rightarrow> u8" where
  "mode_u8 Ar = 0x01"
| "mode_u8 R2 = 0x02"
| "mode_u8 Mode47 = 0x47"

definition mode_from_u8 :: "u8 \<Rightarrow> Mode option" where
  "mode_from_u8 v =
     (if v = 0x01 then Some Ar
      else if v = 0x02 then Some R2
      else if v = 0x47 then Some Mode47
      else None)"

fun mode_label :: "Mode \<Rightarrow> string" where
  "mode_label Ar = ''AR''"
| "mode_label R2 = ''2R''"
| "mode_label Mode47 = ''47''"

section \<open>Flag bits\<close>

definition IS_KEYFRAME :: u16 where "IS_KEYFRAME = push_bit 0 1"
definition IS_SILICON :: u16 where "IS_SILICON = push_bit 1 1"
definition HAS_AUDIO :: u16 where "HAS_AUDIO = push_bit 2 1"
definition ENCRYPTED :: u16 where "ENCRYPTED = push_bit 3 1"
definition COMPRESSED :: u16 where "COMPRESSED = push_bit 4 1"
definition ROI_HINT :: u16 where "ROI_HINT = push_bit 5 1"
definition FEC_ENABLED :: u16 where "FEC_ENABLED = push_bit 6 1"
definition RELAY_MODE :: u16 where "RELAY_MODE = push_bit 7 1"
definition VISIBLE_REGION :: u16 where "VISIBLE_REGION = push_bit 8 1"
definition IS_H265 :: u16 where "IS_H265 = push_bit 9 1"
definition RESERVED_MASK :: u16 where "RESERVED_MASK = 0xFC00"

lemmas flag_defs = IS_KEYFRAME_def IS_SILICON_def HAS_AUDIO_def ENCRYPTED_def COMPRESSED_def
  ROI_HINT_def FEC_ENABLED_def RELAY_MODE_def VISIBLE_REGION_def IS_H265_def RESERVED_MASK_def

section \<open>The header\<close>

record PacketHeader =
  ph_packet_type :: PacketType
  ph_mode :: Mode
  ph_flags :: u16
  ph_frame_id :: u32
  ph_packet_index :: u16
  ph_packet_count :: u16
  ph_presentation_time_us :: u64
  ph_fec_group :: u8
  ph_fec_idx :: u8
  ph_fec_total :: u8
  ph_auth_tag :: u32

datatype HeaderDecodeError =
    TooShort nat nat
  | BadMagic u32
  | UnsupportedVersion u8
  | UnknownPacketType u8
  | UnknownMode u8

text \<open>\<open>encode\<close> appends to the caller's buffer \<open>out\<close>.\<close>

definition packet_encode :: "PacketHeader \<Rightarrow> bytes \<Rightarrow> bytes \<Rightarrow> bytes" where
  "packet_encode h payload out =
     (let ver_type = push_bit 4 EVRT2_VERSION OR (packet_type_u8 (ph_packet_type h) AND 0x0F) in
      out @ be_bytes 4 EVRT2_MAGIC
      @ [ver_type]
      @ [mode_u8 (ph_mode h)]
      @ be_bytes 2 (ph_flags h)
      @ be_bytes 4 (ph_frame_id h)
      @ be_bytes 2 (ph_packet_index h)
      @ be_bytes 2 (ph_packet_count h)
      @ be_bytes 8 (ph_presentation_time_us h)
      @ [ph_fec_group h]
      @ [ph_fec_idx h]
      @ [ph_fec_total h]
      @ [0]
      @ be_bytes 4 (ph_auth_tag h)
      @ payload)"

definition packet_decode :: "bytes \<Rightarrow> HeaderDecodeError + PacketHeader \<times> bytes" where
  "packet_decode data =
     (if length data < HEADER_LEN then Inl (TooShort (length data) HEADER_LEN)
      else let magic = be_word (subslice 0 4 data) in
      if magic \<noteq> EVRT2_MAGIC then Inl (BadMagic magic)
      else let ver_type = data ! 4; ver = drop_bit 4 ver_type in
      if ver \<noteq> EVRT2_VERSION then Inl (UnsupportedVersion ver)
      else let type_nibble = ver_type AND 0x0F in
      case packet_type_from_u8 type_nibble of
        None \<Rightarrow> Inl (UnknownPacketType type_nibble)
      | Some packet_type \<Rightarrow>
          let mode_byte = data ! 5 in
          case mode_from_u8 mode_byte of
            None \<Rightarrow> Inl (UnknownMode mode_byte)
          | Some mode \<Rightarrow>
              Inr (\<lparr>ph_packet_type = packet_type,
                    ph_mode = mode,
                    ph_flags = be_word (subslice 6 8 data),
                    ph_frame_id = be_word (subslice 8 12 data),
                    ph_packet_index = be_word (subslice 12 14 data),
                    ph_packet_count = be_word (subslice 14 16 data),
                    ph_presentation_time_us = be_word (subslice 16 24 data),
                    ph_fec_group = data ! 24,
                    ph_fec_idx = data ! 25,
                    ph_fec_total = data ! 26,
                    ph_auth_tag = be_word (subslice 28 32 data)\<rparr>,
                   drop HEADER_LEN data))"

definition has_flag :: "PacketHeader \<Rightarrow> u16 \<Rightarrow> bool" where
  "has_flag h flag \<longleftrightarrow> ph_flags h AND flag \<noteq> 0"

definition is_visible_region :: "PacketHeader \<Rightarrow> bool" where
  "is_visible_region h = has_flag h VISIBLE_REGION"

section \<open>Enumerations round-trip\<close>

lemma packet_type_from_u8_u8 [simp]: "packet_type_from_u8 (packet_type_u8 t) = Some t"
  by (cases t) (simp_all add: packet_type_from_u8_def)

lemma packet_type_u8_nibble [simp]: "packet_type_u8 t AND 0x0F = packet_type_u8 t"
  by (cases t) simp_all

lemma packet_type_from_u8_Some: "packet_type_from_u8 v = Some t \<Longrightarrow> v = packet_type_u8 t"
  by (auto simp: packet_type_from_u8_def split: if_splits)

lemma mode_from_u8_u8 [simp]: "mode_from_u8 (mode_u8 m) = Some m"
  by (cases m) (simp_all add: mode_from_u8_def)

lemma mode_from_u8_Some: "mode_from_u8 v = Some m \<Longrightarrow> v = mode_u8 m"
  by (auto simp: mode_from_u8_def split: if_splits)

lemma version_nibble [simp]: "drop_bit 4 (push_bit 4 EVRT2_VERSION) = EVRT2_VERSION"
  by (simp add: EVRT2_VERSION_def)

lemma type_high_nibble [simp]: "drop_bit 4 (packet_type_u8 t) = 0"
  by (cases t) simp_all

lemma type_low_nibble [simp]:
  "(push_bit 4 EVRT2_VERSION OR packet_type_u8 t) AND 0x0F = packet_type_u8 t"
  by (cases t) (simp_all add: EVRT2_VERSION_def)

lemma nibbles_join: "push_bit 4 (drop_bit 4 v) OR (v AND 0x0F) = (v :: u8)"
proof -
  have m: "(0x0F :: u8) = mask 4" by (simp add: mask_eq_exp_minus_1)
  show ?thesis unfolding m by (rule bit_word_eqI) (auto simp: bit_simps)
qed

section \<open>Header codec\<close>

lemma length_packet_encode [simp, wire_simps]:
  "length (packet_encode h payload out) = length out + HEADER_LEN + length payload"
  by (simp add: packet_encode_def HEADER_LEN_def Let_def)

lemma packet_encode_append: "packet_encode h payload out = out @ packet_encode h payload []"
  by (simp add: packet_encode_def Let_def)

lemma packet_decode_encode [simp, wire_simps]:
  "packet_decode (packet_encode h payload []) = Inr (h, payload)"
  by (simp add: packet_decode_def packet_encode_def HEADER_LEN_def subslice_def Let_def nth_append)

lemma packet_decode_accepts:
  "(\<exists>h p. packet_decode data = Inr (h, p)) \<longleftrightarrow>
     HEADER_LEN \<le> length data \<and> be_word (subslice 0 4 data) = EVRT2_MAGIC
     \<and> drop_bit 4 (data ! 4) = EVRT2_VERSION
     \<and> packet_type_from_u8 (data ! 4 AND 0x0F) \<noteq> None \<and> mode_from_u8 (data ! 5) \<noteq> None"
  by (auto simp: packet_decode_def Let_def split: option.splits)

section \<open>Properties\<close>

text \<open>decoding what \<open>PacketHeader::encode\<close> wrote gives back exactly the same header and payload,
  whatever the field values and the payload.\<close>

theorem evrt2_header_roundtrip: "packet_decode (packet_encode h payload []) = Inr (h, payload)"
  by (rule packet_decode_encode)

text \<open>every byte string the decoder accepts is the encoding of the decoded header and payload,
  except that the reserved byte 27, which the decoder ignores, is written as zero.\<close>

theorem evrt2_header_canonical:
  assumes "packet_decode data = Inr (h, payload)"
  shows "packet_encode h payload [] = data[27 := 0]"
proof -
  from assms have len: "32 \<le> length data"
    by (auto simp: packet_decode_def HEADER_LEN_def split: if_splits)
  from assms have magic: "be_word (subslice 0 4 data) = EVRT2_MAGIC"
    and ver: "drop_bit 4 (data ! 4) = EVRT2_VERSION"
    and ty: "data ! 4 AND 0x0F = packet_type_u8 (ph_packet_type h)"
    and mode: "data ! 5 = mode_u8 (ph_mode h)"
    and payload: "payload = drop 32 data"
    and h: "ph_flags h = be_word (subslice 6 8 data)"
      "ph_frame_id h = be_word (subslice 8 12 data)"
      "ph_packet_index h = be_word (subslice 12 14 data)"
      "ph_packet_count h = be_word (subslice 14 16 data)"
      "ph_presentation_time_us h = be_word (subslice 16 24 data)"
      "ph_fec_group h = data ! 24" "ph_fec_idx h = data ! 25" "ph_fec_total h = data ! 26"
      "ph_auth_tag h = be_word (subslice 28 32 data)"
    by (auto simp: packet_decode_def HEADER_LEN_def Let_def dest!: packet_type_from_u8_Some
        mode_from_u8_Some split: if_splits option.splits)
  have vt: "push_bit 4 EVRT2_VERSION OR packet_type_u8 (ph_packet_type h) = data ! 4"
    using nibbles_join [of "data ! 4"] by (simp only: ver ty)
  note be = be_bytes_be_word_subslice [of _ 4 data, where 'a = 32]
    be_bytes_be_word_subslice [of _ 2 data, where 'a = 16]
    be_bytes_be_word_subslice [of 16 8 data, where 'a = 64]
  have "packet_encode h payload [] = subslice 0 4 data @ [data ! 4] @ [data ! 5] @ subslice 6 8 data
      @ subslice 8 12 data @ subslice 12 14 data @ subslice 14 16 data @ subslice 16 24 data
      @ [data ! 24] @ [data ! 25] @ [data ! 26] @ [0] @ subslice 28 32 data @ drop 32 data"
    using len be(1) [of 0] be(1) [of 8] be(1) [of 28] be(2) [of 6] be(2) [of 12] be(2) [of 14] be(3)
    by (simp add: packet_encode_def Let_def vt h payload flip: magic mode)
  also have "\<dots> = subslice 0 27 data @ [0] @ subslice 28 32 data @ drop 32 data"
    using len by (simp add: subslice_singleton flip: append_assoc)
  also have "\<dots> = data[27 := 0]"
    using len by (simp add: subslice_append_drop upd_conv_take_nth_drop) (simp add: subslice_def)
  finally show ?thesis .
qed

theorem evrt2_header_canonical_witness:
  "packet_encode \<lparr>ph_packet_type = Keepalive, ph_mode = Mode47, ph_flags = 0x0102,
       ph_frame_id = 7, ph_packet_index = 0, ph_packet_count = 1, ph_presentation_time_us = 5,
       ph_fec_group = 0, ph_fec_idx = 0, ph_fec_total = 0, ph_auth_tag = 9\<rparr> [1, 2] []
   = ([0x45, 0x56, 0x52, 0x32, 0x28, 0x47, 1, 2, 0, 0, 0, 7, 0, 0, 0, 1,
       0, 0, 0, 0, 0, 0, 0, 5, 0, 0, 0, 99, 0, 0, 0, 9, 1, 2])[27 := 0]"
  by (rule evrt2_header_canonical) code_simp

end
