(* ===== verification/Evrt2_Fec.thy ===== *)
theory Evrt2_Fec
  imports Evrt2_Packet
begin

text \<open>
  XOR forward error correction of \<^verbatim>\<open>src/src/evrt2_fec.rs\<close>: the per-mode configuration,
  \<open>encode_repairs\<close> and \<open>recover\<close>. The \<open>while progressed\<close> loop of \<open>recover\<close> is a terminating HOL
  function (each pass that makes progress fills a missing slot); an index past the end of the
  packet array, where the source panics, is \<open>None\<close>.

  Proof idea: byte \<open>j\<close> of a repair packet is the XOR of byte \<open>j\<close> of the covered units, each
  zero-extended. A slot that \<open>represents\<close> its unit agrees with it at every position, zero-extended,
  and is at least as long; recovery keeps this invariant and ends in a state where no repair packet
  has exactly one missing unit.
\<close>

section \<open>Configuration\<close>

record FecConfig =
  fec_n :: nat
  fec_k :: nat

definition FEC_AR :: FecConfig where "FEC_AR = \<lparr>fec_n = 6, fec_k = 2\<rparr>"
definition FEC_R2 :: FecConfig where "FEC_R2 = \<lparr>fec_n = 8, fec_k = 2\<rparr>"
definition FEC_MODE47 :: FecConfig where "FEC_MODE47 = \<lparr>fec_n = 0, fec_k = 0\<rparr>"

fun fec_for_mode :: "Mode \<Rightarrow> FecConfig" where
  "fec_for_mode Ar = FEC_AR"
| "fec_for_mode R2 = FEC_R2"
| "fec_for_mode Mode47 = FEC_MODE47"

definition fec_is_enabled :: "FecConfig \<Rightarrow> bool" where
  "fec_is_enabled c \<longleftrightarrow> 0 < fec_k c \<and> 0 < fec_n c"

lemmas fec_config_defs = FEC_AR_def FEC_R2_def FEC_MODE47_def

section \<open>Encoding\<close>

definition xor_into :: "bytes \<Rightarrow> bytes \<Rightarrow> bytes" where
  "xor_into acc data =
     (let acc' = (if length acc < length data then pad0 (length data) acc else acc)
      in xor_zip acc' data)"

record RepairPacket =
  rp_repair_idx :: u8
  rp_covers :: "u16 list"
  rp_xor_payload :: bytes
  rp_payload_len :: nat

fun max_len :: "bytes list \<Rightarrow> nat" where
  "max_len [] = 0"
| "max_len (d # ds) = max (length d) (max_len ds)"

text \<open>The loop over \<open>data.iter().enumerate()\<close> that builds repair packet \<open>r\<close>.\<close>

fun repair_loop :: "nat \<Rightarrow> nat \<Rightarrow> nat \<Rightarrow> bytes list \<Rightarrow> bytes \<times> u16 list \<Rightarrow> bytes \<times> u16 list" where
  "repair_loop k r i [] st = st"
| "repair_loop k r i (pkt # pkts) (xor_payload, covers) =
     repair_loop k r (Suc i) pkts
       (if i mod k = r then (xor_into xor_payload pkt, covers @ [of_nat i])
        else (xor_payload, covers))"

definition encode_repair :: "bytes list \<Rightarrow> nat \<Rightarrow> nat \<Rightarrow> RepairPacket" where
  "encode_repair data k r =
     (let payload_len = max_len data;
          (xor_payload, covers) = repair_loop k r 0 data (replicate payload_len 0, [])
      in \<lparr>rp_repair_idx = of_nat r, rp_covers = covers, rp_xor_payload = xor_payload,
          rp_payload_len = payload_len\<rparr>)"

definition encode_repairs :: "bytes list \<Rightarrow> nat \<Rightarrow> RepairPacket list" where
  "encode_repairs data k =
     (if k = 0 \<or> data = [] then [] else map (encode_repair data k) [0..<k])"

section \<open>Recovery\<close>

definition xor_into_truncating :: "bytes \<Rightarrow> bytes \<Rightarrow> bytes" where
  "xor_into_truncating acc data = xor_zip acc data"

definition covered :: "RepairPacket \<Rightarrow> nat list" where
  "covered repair = map unat (rp_covers repair)"

definition missing_of :: "RepairPacket \<Rightarrow> bytes option list \<Rightarrow> nat list" where
  "missing_of repair data = filter (\<lambda>i. data ! i = None) (covered repair)"

text \<open>The inner loop that XORs every present covered packet except the target.\<close>

fun xor_others :: "nat \<Rightarrow> bytes option list \<Rightarrow> nat list \<Rightarrow> bytes \<Rightarrow> bytes" where
  "xor_others target data [] acc = acc"
| "xor_others target data (i # is) acc =
     xor_others target data is
       (if i = target then acc
        else case data ! i of Some pkt \<Rightarrow> xor_into_truncating acc pkt | None \<Rightarrow> acc)"

text \<open>One iteration of \<open>for repair in repairs\<close>: the new packet array and whether it progressed.\<close>

definition recover_step ::
  "nat list \<Rightarrow> RepairPacket \<Rightarrow> bytes option list \<Rightarrow> (bytes option list \<times> bool) option" where
  "recover_step data_lens repair data =
     (if \<exists>i \<in> set (covered repair). length data \<le> i then None
      else let missing = missing_of repair data in
      if length missing \<noteq> 1 then Some (data, False)
      else let target = missing ! 0;
               acc = xor_others target data (covered repair) (rp_xor_payload repair) in
      if length data_lens \<le> target then None
      else Some (data[target := Some (take (min (data_lens ! target) (length acc)) acc)], True))"

fun recover_pass ::
  "nat list \<Rightarrow> RepairPacket list \<Rightarrow> bytes option list \<times> bool \<Rightarrow> (bytes option list \<times> bool) option" where
  "recover_pass data_lens [] st = Some st"
| "recover_pass data_lens (repair # repairs) (data, progressed) =
     (case recover_step data_lens repair data of
        None \<Rightarrow> None
      | Some (data', p) \<Rightarrow> recover_pass data_lens repairs (data', progressed \<or> p))"

definition losses :: "bytes option list \<Rightarrow> nat" where
  "losses data = length (filter (\<lambda>d. d = None) data)"

lemma losses_update_less:
  "i < length data \<Longrightarrow> data ! i = None \<Longrightarrow> losses (data[i := Some x]) < losses data"
proof (induction data arbitrary: i)
  case Nil
  then show ?case by simp
next
  case (Cons d ds)
  then show ?case by (cases i) (auto simp: losses_def)
qed

lemma recover_step_losses:
  assumes "recover_step lens r data = Some (data', p)"
  shows "if p then losses data' < losses data else data' = data"
proof (cases "length (missing_of r data) = 1")
  case True
  then have "missing_of r data ! 0 \<in> set (missing_of r data)" by simp
  with assms True show ?thesis
    by (auto simp: recover_step_def Let_def missing_of_def not_le losses_update_less
        split: if_splits)
next
  case False
  with assms show ?thesis by (auto simp: recover_step_def Let_def split: if_splits)
qed

lemma recover_pass_losses:
  assumes "recover_pass lens repairs (data, p0) = Some (data', p)"
  shows "if p \<and> \<not> p0 then losses data' < losses data else losses data' \<le> losses data"
  using assms
proof (induction repairs arbitrary: data p0)
  case Nil
  then show ?case by auto
next
  case (Cons r rs)
  then obtain d1 p1 where s: "recover_step lens r data = Some (d1, p1)"
    and rest: "recover_pass lens rs (d1, p0 \<or> p1) = Some (data', p)"
    by (auto split: option.splits)
  from Cons.IH [OF rest] recover_step_losses [OF s] show ?case
    by (auto split: if_splits)
qed

function recover ::
  "bytes option list \<Rightarrow> nat list \<Rightarrow> RepairPacket list \<Rightarrow> bytes option list option" where
  "recover data data_lens repairs =
     (case recover_pass data_lens repairs (data, False) of
        None \<Rightarrow> None
      | Some (data', progressed) \<Rightarrow>
          if progressed then recover data' data_lens repairs else Some data')"
  by pat_completeness auto
termination
proof (relation "measure (\<lambda>(data, _, _). losses data)", goal_cases)
  case 1
  show ?case by simp
next
  case (2 data lens repairs st data' progressed)
  then show ?case using recover_pass_losses [of lens repairs data False data' progressed] by simp
qed

declare recover.simps [simp del]

section \<open>XOR into a longer buffer\<close>

lemma length_xor_into [simp, fec_simps]: "length (xor_into acc data) = max (length acc) (length data)"
  by (simp add: xor_into_def Let_def)

lemma byte_at_xor_into [fec_simps]: "byte_at (xor_into acc data) j = byte_at acc j XOR byte_at data j"
  by (simp add: xor_into_def Let_def fec_simps)

section \<open>What a repair packet holds\<close>

lemma max_len_ge: "d \<in> set ds \<Longrightarrow> length d \<le> max_len ds"
  by (induction ds) auto

lemma max_len_le: "(\<And>d. d \<in> set ds \<Longrightarrow> length d \<le> m) \<Longrightarrow> max_len ds \<le> m"
  by (induction ds) auto

lemma length_repair_loop_le:
  "length (fst (repair_loop k r i pkts (x, cs))) \<le> max (length x) (max_len pkts)"
proof (induction pkts arbitrary: i x cs)
  case (Cons p ps)
  show ?case
    using Cons.IH [of "Suc i" "xor_into x p" "cs @ [of_nat i]"] Cons.IH [of "Suc i" x cs]
    by (simp add: max.assoc le_max_iff_disj) linarith
qed simp

lemma length_repair_loop_ge: "length x \<le> length (fst (repair_loop k r i pkts (x, cs)))"
proof (induction pkts arbitrary: i x cs)
  case (Cons p ps)
  show ?case
    using Cons.IH [of "xor_into x p" "Suc i" "cs @ [of_nat i]"] Cons.IH [of x "Suc i" cs] by simp
qed simp

text \<open>The indices of class \<open>r\<close>: those the source selects by \<open>i % k == r\<close>.\<close>

definition class_idx :: "nat \<Rightarrow> nat \<Rightarrow> nat \<Rightarrow> nat \<Rightarrow> nat list" where
  "class_idx k r a b = filter (\<lambda>i. i mod k = r) [a..<b]"

lemma class_idx_step:
  "a < b \<Longrightarrow> class_idx k r a b = (if a mod k = r then a # class_idx k r (Suc a) b else class_idx k r (Suc a) b)"
  by (simp add: class_idx_def upt_conv_Cons)

lemma set_class_idx [simp]: "i \<in> set (class_idx k r a b) \<longleftrightarrow> a \<le> i \<and> i < b \<and> i mod k = r"
  by (auto simp: class_idx_def)

lemma distinct_class_idx [simp]: "distinct (class_idx k r a b)"
  by (simp add: class_idx_def)

lemma repair_loop_correct:
  assumes "repair_loop k r i pkts (x, cs) = (x', cs')"
  shows "cs' = cs @ map of_nat (class_idx k r i (i + length pkts))
    \<and> (\<forall>j. byte_at x' j = byte_at x j
         XOR xor_over (\<lambda>m. byte_at (pkts ! (m - i)) j) (class_idx k r i (i + length pkts)))"
  using assms
proof (induction pkts arbitrary: i x cs)
  case Nil
  then show ?case by (simp add: class_idx_def)
next
  case (Cons p ps)
  let ?C = "class_idx k r (Suc i) (Suc i + length ps)"
  have shift: "xor_over (\<lambda>m. byte_at ((p # ps) ! (m - i)) j) ?C
      = xor_over (\<lambda>m. byte_at (ps ! (m - Suc i)) j) ?C" for j
    by (rule xor_over_cong) (auto simp: nth_Cons' Suc_diff_le)
  let ?st = "if i mod k = r then (xor_into x p, cs @ [of_nat i]) else (x, cs)"
  have "repair_loop k r (Suc i) ps ?st = (x', cs')"
    using Cons.prems by simp
  then have "repair_loop k r (Suc i) ps (fst ?st, snd ?st) = (x', cs')" by simp
  from Cons.IH [OF this] show ?case
    using class_idx_step [of i "i + length (p # ps)" k r] shift
    by (simp add: fec_simps xor.assoc split: if_splits)
qed

lemma encode_repair_correct:
  assumes "length data \<le> 65536"
  shows covered_encode_repair: "covered (encode_repair data k r) = class_idx k r 0 (length data)"
    and byte_at_encode_repair: "byte_at (rp_xor_payload (encode_repair data k r)) j
      = xor_over (\<lambda>m. byte_at (data ! m) j) (class_idx k r 0 (length data))"
    and length_encode_repair: "length (rp_xor_payload (encode_repair data k r)) = max_len data"
proof -
  obtain x cs where l: "repair_loop k r 0 data (replicate (max_len data) 0, []) = (x, cs)"
    by (cases "repair_loop k r 0 data (replicate (max_len data) 0, [])")
  note c = repair_loop_correct [OF l]
  have "map unat (map (of_nat :: nat \<Rightarrow> u16) (class_idx k r 0 (length data))) = class_idx k r 0 (length data)"
    using assms by (auto simp: take_bit_nat_eq_self_iff unsigned_of_nat intro!: map_idI)
  with c show "covered (encode_repair data k r) = class_idx k r 0 (length data)"
    by (simp add: encode_repair_def Let_def l covered_def)
  from c show "byte_at (rp_xor_payload (encode_repair data k r)) j
      = xor_over (\<lambda>m. byte_at (data ! m) j) (class_idx k r 0 (length data))"
    by (simp add: encode_repair_def Let_def l)
  have "length x = max_len data"
    using length_repair_loop_le [of k r 0 data "replicate (max_len data) 0" "[]"]
      length_repair_loop_ge [of "replicate (max_len data) 0" k r 0 data "[]"]
    by (simp add: l)
  then show "length (rp_xor_payload (encode_repair data k r)) = max_len data"
    unfolding encode_repair_def Let_def l by simp
qed

section \<open>Soundness of recovery\<close>

text \<open>A slot represents a unit when it agrees with it at every position, both zero-extended, and is
  not shorter: what XOR recovery of a padded group can promise.\<close>

definition represents :: "bytes \<Rightarrow> bytes \<Rightarrow> bool" where
  "represents p u \<longleftrightarrow> length u \<le> length p \<and> (\<forall>j. byte_at p j = byte_at u j)"

definition slots_ok :: "bytes list \<Rightarrow> bytes option list \<Rightarrow> bool" where
  "slots_ok units data \<longleftrightarrow> length data = length units
     \<and> (\<forall>i < length units. \<forall>p. data ! i = Some p \<longrightarrow> represents p (units ! i))"

text \<open>A repair packet fits the units of a frame: it covers distinct existing units, its payload is
  their XOR and is long enough for each of them.\<close>

definition repair_ok :: "bytes list \<Rightarrow> RepairPacket \<Rightarrow> bool" where
  "repair_ok units r \<longleftrightarrow> distinct (covered r) \<and> (\<forall>i \<in> set (covered r). i < length units)
     \<and> (\<forall>j. byte_at (rp_xor_payload r) j = xor_over (\<lambda>i. byte_at (units ! i) j) (covered r))
     \<and> (\<forall>i \<in> set (covered r). length (units ! i) \<le> length (rp_xor_payload r))"

text \<open>The expected lengths are not shorter than the units the repair packets can restore.\<close>

definition lens_ok :: "bytes list \<Rightarrow> RepairPacket list \<Rightarrow> nat list \<Rightarrow> bool" where
  "lens_ok units repairs lens \<longleftrightarrow> length lens = length units
     \<and> (\<forall>r \<in> set repairs. \<forall>i \<in> set (covered r). length (units ! i) \<le> lens ! i)"

lemma represents_refl [simp]: "represents u u"
  by (simp add: represents_def)

lemma represents_same_length: "represents p u \<Longrightarrow> length p = length u \<Longrightarrow> p = u"
  by (auto simp: represents_def intro: byte_list_eqI)

lemma byte_at_take: "byte_at (take n xs) j = (if j < n then byte_at xs j else 0)"
  by (auto simp: byte_at_def)

lemma xor_others_bytes:
  assumes "\<forall>i \<in> set is. i \<noteq> t \<longrightarrow> (\<exists>p. data ! i = Some p \<and> (\<forall>j. byte_at p j = byte_at (units ! i) j))"
  shows "length (xor_others t data is acc) = length acc
    \<and> (\<forall>j < length acc. byte_at (xor_others t data is acc) j
         = byte_at acc j XOR xor_over (\<lambda>i. byte_at (units ! i) j) (filter (\<lambda>i. i \<noteq> t) is))"
  using assms
proof (induction "is" arbitrary: acc)
  case (Cons i "is")
  show ?case
  proof (cases "i = t")
    case True
    with Cons show ?thesis by simp
  next
    case False
    with Cons.prems obtain p where p: "data ! i = Some p" "\<forall>j. byte_at p j = byte_at (units ! i) j"
      by auto
    from Cons.IH [of "xor_zip acc p"] Cons.prems p False show ?thesis
      by (simp add: xor_into_truncating_def fec_simps xor.assoc)
  qed
qed simp

lemma recovered_represents:
  assumes r: "repair_ok units r" and d: "slots_ok units data" and l: "lens_ok units [r] lens"
    and m: "missing_of r data = [t]"
  shows "represents (take (min (lens ! t) (length (xor_others t data (covered r) (rp_xor_payload r))))
            (xor_others t data (covered r) (rp_xor_payload r))) (units ! t)"
    (is "represents (take (min _ (length ?acc)) ?acc) _")
proof -
  have t: "t \<in> set (covered r)" "t < length units"
    using m r by (auto simp: missing_of_def repair_ok_def filter_eq_Cons_iff)
  have others: "\<forall>i \<in> set (covered r). i \<noteq> t
      \<longrightarrow> (\<exists>p. data ! i = Some p \<and> (\<forall>j. byte_at p j = byte_at (units ! i) j))"
  proof (intro ballI impI)
    fix i assume i: "i \<in> set (covered r)" "i \<noteq> t"
    have "i \<notin> set (missing_of r data)" using m i by simp
    with i obtain p where "data ! i = Some p" by (auto simp: missing_of_def)
    with i r d show "\<exists>p. data ! i = Some p \<and> (\<forall>j. byte_at p j = byte_at (units ! i) j)"
      by (auto simp: repair_ok_def slots_ok_def represents_def)
  qed
  note acc = xor_others_bytes [OF others, of "rp_xor_payload r"]
  have len: "length (units ! t) \<le> length ?acc"
    using acc r t by (simp add: repair_ok_def)
  have bytes: "byte_at ?acc j = byte_at (units ! t) j" for j
  proof (cases "j < length (rp_xor_payload r)")
    case True
    have "byte_at ?acc j = xor_over (\<lambda>i. byte_at (units ! i) j) (covered r)
        XOR xor_over (\<lambda>i. byte_at (units ! i) j) (filter (\<lambda>i. i \<noteq> t) (covered r))"
      using acc r True by (simp add: repair_ok_def)
    then show ?thesis
      using r t by (simp add: repair_ok_def xor_over_remove [OF _ t(1)] xor.assoc)
  next
    case False
    then show ?thesis using acc len by simp
  qed
  show ?thesis
    using l t len bytes by (auto simp: represents_def lens_ok_def byte_at_take)
qed

lemma slots_ok_update:
  assumes "slots_ok units data" and "represents p (units ! t)"
  shows "slots_ok units (data[t := Some p])"
proof -
  have "represents q (units ! i)" if "i < length units" "data[t := Some p] ! i = Some q" for i q
    using assms that by (cases "i = t") (auto simp: slots_ok_def)
  with assms show ?thesis by (auto simp: slots_ok_def)
qed

text \<open>One loop iteration neither panics nor damages a slot, and fills a slot only with its unit.\<close>

lemma recover_step_sound:
  assumes r: "repair_ok units r" and d: "slots_ok units data" and l: "lens_ok units [r] lens"
  shows "\<exists>data' p. recover_step lens r data = Some (data', p) \<and> slots_ok units data'
    \<and> (\<forall>i x. data ! i = Some x \<longrightarrow> data' ! i = Some x)
    \<and> (\<not> p \<longrightarrow> data' = data \<and> length (missing_of r data) \<noteq> 1)"
proof (cases "length (missing_of r data) = 1")
  case False
  moreover have "\<not> (\<exists>i \<in> set (covered r). length data \<le> i)"
    using r d by (auto simp: repair_ok_def slots_ok_def not_le)
  ultimately have "recover_step lens r data = Some (data, False)"
    by (auto simp: recover_step_def Let_def)
  with False d show ?thesis by blast
next
  case True
  then obtain t where m: "missing_of r data = [t]" by (auto simp: length_Suc_conv)
  have t: "t < length units" "data ! t = None"
    using m r by (auto simp: missing_of_def repair_ok_def filter_eq_Cons_iff)
  let ?acc = "xor_others t data (covered r) (rp_xor_payload r)"
  let ?p = "take (min (lens ! t) (length ?acc)) ?acc"
  have "\<not> (\<exists>i \<in> set (covered r). length data \<le> i)"
    using r d by (auto simp: repair_ok_def slots_ok_def not_le)
  then have "recover_step lens r data = Some (data[t := Some ?p], True)"
    using l t by (auto simp: recover_step_def Let_def m lens_ok_def)
  moreover have "slots_ok units (data[t := Some ?p])"
    by (rule slots_ok_update [OF d recovered_represents [OF r d l m]])
  moreover have "data[t := Some ?p] ! i = Some x" if "data ! i = Some x" for i x
    using that t by (cases "i = t") simp_all
  ultimately show ?thesis by blast
qed

lemma recover_pass_flag: "recover_pass lens repairs (data, True) = Some (data', p) \<Longrightarrow> p"
  by (induction repairs arbitrary: data) (auto split: option.splits)

lemma recover_pass_sound:
  assumes "\<forall>r \<in> set repairs. repair_ok units r" and "slots_ok units data" and "lens_ok units repairs lens"
  shows "\<exists>data' p. recover_pass lens repairs (data, p0) = Some (data', p) \<and> slots_ok units data'
     \<and> (\<forall>i x. data ! i = Some x \<longrightarrow> data' ! i = Some x)
     \<and> (\<not> p \<longrightarrow> data' = data \<and> (\<forall>r \<in> set repairs. length (missing_of r data) \<noteq> 1))"
  using assms
proof (induction repairs arbitrary: data p0)
  case Nil
  then show ?case by simp
next
  case (Cons r rs)
  then have r: "repair_ok units r" and rs: "\<forall>r \<in> set rs. repair_ok units r"
    and l: "lens_ok units [r] lens" and ls: "lens_ok units rs lens" by (simp_all add: lens_ok_def)
  obtain d1 p1 where s: "recover_step lens r data = Some (d1, p1)" "slots_ok units d1"
    and keep1: "\<forall>i x. data ! i = Some x \<longrightarrow> d1 ! i = Some x"
    and p1: "\<not> p1 \<longrightarrow> d1 = data \<and> length (missing_of r data) \<noteq> 1"
    using recover_step_sound [OF r Cons.prems(2) l] by blast
  obtain d2 p2 where rest: "recover_pass lens rs (d1, p0 \<or> p1) = Some (d2, p2)" "slots_ok units d2"
    and keep2: "\<forall>i x. d1 ! i = Some x \<longrightarrow> d2 ! i = Some x"
    and p2: "\<not> p2 \<longrightarrow> d2 = d1 \<and> (\<forall>r \<in> set rs. length (missing_of r d1) \<noteq> 1)"
    using Cons.IH [OF rs s(2) ls, of "p0 \<or> p1"] by blast
  have "p1 \<Longrightarrow> p2" using rest(1) recover_pass_flag by (cases p1) simp_all
  with s rest keep1 keep2 p1 p2 show ?case by (cases p1) auto
qed

text \<open>The loop returns (no panic), keeps every packet that arrived, represents every unit it filled,
  and stops only when no repair packet has exactly one missing unit.\<close>

lemma recover_sound:
  assumes "\<forall>r \<in> set repairs. repair_ok units r" and "slots_ok units data" and "lens_ok units repairs lens"
  shows "\<exists>data'. recover data lens repairs = Some data' \<and> slots_ok units data'
     \<and> (\<forall>i x. data ! i = Some x \<longrightarrow> data' ! i = Some x)
     \<and> (\<forall>r \<in> set repairs. length (missing_of r data') \<noteq> 1)"
  using assms
proof (induction data lens repairs rule: recover.induct)
  case (1 data lens repairs)
  obtain d1 p where pass: "recover_pass lens repairs (data, False) = Some (d1, p)" "slots_ok units d1"
    and keep: "\<forall>i x. data ! i = Some x \<longrightarrow> d1 ! i = Some x"
    and stop: "\<not> p \<longrightarrow> d1 = data \<and> (\<forall>r \<in> set repairs. length (missing_of r data) \<noteq> 1)"
    using recover_pass_sound [OF 1(2,3,4)] by blast
  show ?case
  proof (cases p)
    case True
    with 1(1) [OF pass(1) refl True] 1(2,4) pass(2) obtain d2
      where "recover d1 lens repairs = Some d2" "slots_ok units d2"
        "\<forall>i x. d1 ! i = Some x \<longrightarrow> d2 ! i = Some x"
        "\<forall>r \<in> set repairs. length (missing_of r d2) \<noteq> 1"
      by auto
    with keep pass True show ?thesis by (simp add: recover.simps [of data])
  next
    case False
    with pass stop show ?thesis by (simp add: recover.simps [of data])
  qed
qed

text \<open>A missing unit is recovered when some available repair packet covers it and covers nothing else
  that is missing.\<close>

lemma recover_complete:
  assumes "\<forall>r \<in> set repairs. repair_ok units r" and "slots_ok units data" and "lens_ok units repairs lens"
    and "r \<in> set repairs" and "i \<in> set (covered r)"
    and "\<forall>j \<in> set (covered r). j \<noteq> i \<longrightarrow> data ! j \<noteq> None"
    and "recover data lens repairs = Some data'"
  shows "\<exists>p. data' ! i = Some p \<and> represents p (units ! i)"
proof -
  from recover_sound [OF assms(1-3)] assms(7)
  have ok: "slots_ok units data'" and keep: "\<forall>i x. data ! i = Some x \<longrightarrow> data' ! i = Some x"
    and fp: "length (missing_of r data') \<noteq> 1"
    using assms(4) by auto
  have r: "repair_ok units r" using assms(1,4) by blast
  have "data' ! i \<noteq> None"
  proof
    assume none: "data' ! i = None"
    have "data' ! j \<noteq> None" if "j \<in> set (covered r)" "j \<noteq> i" for j
      using assms(6) keep that by fastforce
    then have "missing_of r data' = filter (\<lambda>j. j = i) (covered r)"
      unfolding missing_of_def using none by (intro filter_cong [OF refl]) blast
    moreover have "filter (\<lambda>j. j = i) (covered r) = [i]"
      using r assms(5) by (simp add: repair_ok_def distinct_filter_eq_singleton)
    ultimately show False using fp by simp
  qed
  moreover have "i < length units" using r assms(5) by (auto simp: repair_ok_def)
  ultimately show ?thesis using ok by (auto simp: slots_ok_def)
qed

text \<open>Invariants of the loop body are invariants of the loop.\<close>

lemma recover_pass_invariant:
  assumes "\<And>r d d' p. r \<in> set repairs \<Longrightarrow> P d \<Longrightarrow> recover_step lens r d = Some (d', p) \<Longrightarrow> P d'"
    and "P data" and "recover_pass lens repairs (data, p0) = Some (data', p)"
  shows "P data'"
  using assms
proof (induction repairs arbitrary: data p0)
  case (Cons r rs)
  obtain d1 p1 where s: "recover_step lens r data = Some (d1, p1)"
    and rest: "recover_pass lens rs (d1, p0 \<or> p1) = Some (data', p)"
    using Cons.prems(3) by (auto split: option.splits)
  have "P d1" using Cons.prems(1) [OF _ Cons.prems(2) s] by simp
  from Cons.IH [OF _ this rest] Cons.prems(1) show ?case by (meson list.set_intros(2))
qed simp

lemma recover_invariant:
  assumes "\<And>r d d' p. r \<in> set repairs \<Longrightarrow> P d \<Longrightarrow> recover_step lens r d = Some (d', p) \<Longrightarrow> P d'"
    and "P data" and "recover data lens repairs = Some data'"
  shows "P data'"
  using assms
proof (induction data lens repairs arbitrary: data' rule: recover.induct)
  case (1 data lens repairs)
  from 1(4) obtain d1 p where pass: "recover_pass lens repairs (data, False) = Some (d1, p)"
    and out: "if p then recover d1 lens repairs = Some data' else data' = d1"
    by (auto simp: recover.simps [of data] split: option.splits if_splits)
  have "P d1" by (rule recover_pass_invariant [where P = P, OF 1(2) 1(3) pass])
  then show ?case
    using 1(1) [OF pass refl] 1(2) out by (auto split: if_splits)
qed

lemma recover_step_cases:
  assumes "recover_step lens r data = Some (data', p)"
  obtains "data' = data" "\<not> p"
  | t x where "missing_of r data = [t]" "t < length data" "data ! t = None" "length x \<le> lens ! t"
      "data' = data[t := Some x]" p
proof (cases "length (missing_of r data) = 1")
  case False
  with assms have "data' = data \<and> \<not> p" by (auto simp: recover_step_def Let_def split: if_splits)
  then show ?thesis by (intro that(1)) simp_all
next
  case True
  then obtain t where m: "missing_of r data = [t]" by (auto simp: length_Suc_conv)
  then have "t \<in> set (covered r)" "data ! t = None"
    by (auto simp: missing_of_def filter_eq_Cons_iff)
  let ?acc = "xor_others t data (covered r) (rp_xor_payload r)"
  have "p" "data' = data[t := Some (take (min (lens ! t) (length ?acc)) ?acc)]"
    "\<forall>i \<in> set (covered r). i < length data"
    using assms m by (auto simp: recover_step_def Let_def not_le split: if_splits)
  with \<open>t \<in> set (covered r)\<close> \<open>data ! t = None\<close> m show ?thesis
    by (intro that(2) [of t "take (min (lens ! t) (length ?acc)) ?acc"]) simp_all
qed

lemma recover_length_bound:
  assumes "\<forall>i < length lens. \<forall>p. data ! i = Some p \<longrightarrow> length p \<le> lens ! i"
    and "recover data lens repairs = Some data'"
  shows "\<forall>i < length lens. \<forall>p. data' ! i = Some p \<longrightarrow> length p \<le> lens ! i"
proof (rule recover_invariant [where lens = lens and repairs = repairs and data = data
      and P = "\<lambda>d. \<forall>i < length lens. \<forall>p. d ! i = Some p \<longrightarrow> length p \<le> lens ! i", OF _ assms])
  fix r d d' p
  assume inv: "\<forall>i < length lens. \<forall>p. d ! i = Some p \<longrightarrow> length p \<le> lens ! i"
    and s: "recover_step lens r d = Some (d', p)"
  show "\<forall>i < length lens. \<forall>q. d' ! i = Some q \<longrightarrow> length q \<le> lens ! i"
    using s
  proof (cases rule: recover_step_cases)
    case 1
    with inv show ?thesis by simp
  next
    case (2 t x)
    with inv show ?thesis by (auto simp: nth_list_update)
  qed
qed

section \<open>Recovery of an encoded group\<close>

lemma repair_ok_encode:
  assumes "length units \<le> 65536"
  shows "repair_ok units (encode_repair units k r)"
  using assms by (auto simp: repair_ok_def encode_repair_correct max_len_ge)

definition received_of :: "bytes list \<Rightarrow> bytes option list \<Rightarrow> bool" where
  "received_of units received \<longleftrightarrow>
     list_all2 (\<lambda>u d. d = None \<or> d = Some u) units received"

lemma received_slots_ok: "received_of units received \<Longrightarrow> slots_ok units received"
  by (auto simp: received_of_def list_all2_conv_all_nth slots_ok_def)

section \<open>Properties\<close>



text \<open>two losses in the same class stay unrecovered, whichever of the group's repair packets arrive:
  \<open>recover\<close> leaves both slots empty and never invents their contents. (The comment in the source that
  any \<open>N\<close> of the \<open>N + K\<close> packets recover the group is therefore too strong.)\<close>

theorem fec_two_losses_in_a_class_stay_lost:
  assumes "length units \<le> 65536" and "received_of units received"
    and "i < length units" and "j < length units" and "i \<noteq> j" and "i mod k = j mod k"
    and "received ! i = None" and "received ! j = None"
    and "set repairs \<subseteq> set (encode_repairs units k)"
  shows "\<exists>data'. recover received (map length units) repairs = Some data'
           \<and> data' ! i = None \<and> data' ! j = None"
proof -
  let ?lens = "map length units"
  have reps: "\<exists>c. r = encode_repair units k c" if "r \<in> set repairs" for r
    using assms(9) that by (auto simp: encode_repairs_def split: if_splits)
  then have ok: "\<forall>r \<in> set repairs. repair_ok units r" using repair_ok_encode [OF assms(1)] by metis
  then have "lens_ok units repairs ?lens" by (auto simp: lens_ok_def repair_ok_def)
  from recover_sound [OF ok received_slots_ok [OF assms(2)] this]
  obtain data' where rec: "recover received ?lens repairs = Some data'" by blast
  have "data' ! i = None \<and> data' ! j = None"
  proof (rule recover_invariant [where P = "\<lambda>d. d ! i = None \<and> d ! j = None", OF _ _ rec])
    fix r d d' p
    assume r: "r \<in> set repairs" and inv: "d ! i = None \<and> d ! j = None"
      and s: "recover_step ?lens r d = Some (d', p)"
    from reps [OF r] obtain c where "covered r = class_idx k c 0 (length units)"
      using covered_encode_repair [OF assms(1)] by blast
    then have "i \<in> set (missing_of r d) \<longleftrightarrow> j \<in> set (missing_of r d)"
      using inv assms(3,4,6) by (simp add: missing_of_def)
    then have "t \<noteq> i \<and> t \<noteq> j" if "missing_of r d = [t]" for t
      using that assms(5) by auto
    with s inv show "d' ! i = None \<and> d' ! j = None"
      by (cases rule: recover_step_cases) auto
  qed (use assms(7,8) in simp)
  with rec show ?thesis by blast
qed

theorem fec_two_losses_in_a_class_stay_lost_witness:
  "\<exists>data'. recover [None, Some [1], None] (map length [[9, 9], [1], [7 :: u8]])
        (encode_repairs [[9, 9], [1], [7]] 2) = Some data' \<and> data' ! 0 = None \<and> data' ! 2 = None"
  by (rule fec_two_losses_in_a_class_stay_lost [where k = 2]) (simp_all add: received_of_def)

end
