(* ===== verification/Evrt2_Scheduler.thy ===== *)
theory Evrt2_Scheduler
  imports Evrt2_Packet
begin

text \<open>
  Send order and visible-region rules of \<^verbatim>\<open>src/src/evrt2_scheduler.rs\<close>: the visible region around
  the focus tile, the derived order on \<open>SliceKind\<close>, the stable sort of outgoing slices, the
  drop-not-delay congestion rule and the age-ceiling check. The order on \<open>SliceKind\<close> is an instance
  of the library's \<open>linorder\<close>, so the library's stable \<open>sort_key\<close> models \<open>sort_by\<close>.
\<close>

section \<open>Visible region\<close>

text \<open>A \<open>Duration\<close> is its number of nanoseconds.\<close>

type_synonym duration = nat

definition from_millis :: "nat \<Rightarrow> duration" where "from_millis ms = ms * 1000000"

fun age_ceiling :: "Mode \<Rightarrow> duration" where
  "age_ceiling Ar = from_millis 12"
| "age_ceiling R2 = from_millis 15"
| "age_ceiling Mode47 = from_millis 8"

record VisibleRegion =
  vr_tiles :: "u16 list"

definition contains_tile :: "VisibleRegion \<Rightarrow> u16 \<Rightarrow> bool" where
  "contains_tile vr tile_idx \<longleftrightarrow> tile_idx \<in> set (vr_tiles vr)"

definition vr_is_empty :: "VisibleRegion \<Rightarrow> bool" where
  "vr_is_empty vr \<longleftrightarrow> vr_tiles vr = []"

text \<open>\<open>None\<close> is the overflow panic of \<open>x1 - x0\<close> or \<open>y1 - y0\<close> when the focus lies more than
  \<open>radius\<close> outside the grid, in a build with overflow checks (the \<open>dev\<close> profile). Without the checks the
  wrapped product is the capacity request, which the loops would leave empty.\<close>

definition visible_region_from_focus ::
  "nat \<times> nat \<Rightarrow> nat \<Rightarrow> nat \<Rightarrow> nat \<Rightarrow> VisibleRegion option" where
  "visible_region_from_focus focus_tile tiles_x tiles_y radius =
     (if tiles_x = 0 \<or> tiles_y = 0 then Some \<lparr>vr_tiles = []\<rparr>
      else let (fx, fy) = focus_tile;
               x0 = fx - radius;
               x1 = min (fx + radius) (tiles_x - 1);
               y0 = fy - radius;
               y1 = min (fy + radius) (tiles_y - 1)
      in if x1 < x0 \<or> y1 < y0 then None
         else Some \<lparr>vr_tiles =
           concat (map (\<lambda>ty. map (\<lambda>tx. of_nat (tx + ty * tiles_x)) [x0..<Suc x1]) [y0..<Suc y1])\<rparr>)"

section \<open>Send order\<close>

datatype SliceKind = VisibleRegionSlice | Idr | Normal u32 | FecRepairSlice

record 't Slice =
  sl_kind :: SliceKind
  sl_payload :: 't

text \<open>The order \<open>#[derive(PartialOrd, Ord)]\<close> generates: by variant, then by the carried priority.\<close>

instantiation SliceKind :: linorder
begin

fun less_eq_SliceKind :: "SliceKind \<Rightarrow> SliceKind \<Rightarrow> bool" where
  "less_eq_SliceKind VisibleRegionSlice k = True"
| "less_eq_SliceKind Idr k = (k \<noteq> VisibleRegionSlice)"
| "less_eq_SliceKind (Normal p) k = (case k of Normal q \<Rightarrow> p \<le> q | FecRepairSlice \<Rightarrow> True | _ \<Rightarrow> False)"
| "less_eq_SliceKind FecRepairSlice k = (k = FecRepairSlice)"

definition less_SliceKind :: "SliceKind \<Rightarrow> SliceKind \<Rightarrow> bool" where
  "less_SliceKind a b \<longleftrightarrow> a \<le> b \<and> \<not> b \<le> a"

instance
proof
  fix x y z :: SliceKind
  show "x < y \<longleftrightarrow> x \<le> y \<and> \<not> y \<le> x" by (rule less_SliceKind_def)
  show "x \<le> x" by (cases x) simp_all
  show "x \<le> y \<Longrightarrow> y \<le> z \<Longrightarrow> x \<le> z"
    by (cases x; cases y; cases z) (simp_all split: SliceKind.splits)
  show "x \<le> y \<Longrightarrow> y \<le> x \<Longrightarrow> x = y"
    by (cases x; cases y) simp_all
  show "x \<le> y \<or> y \<le> x"
    by (cases x; cases y) auto
qed

end

definition schedule_send_order :: "'t Slice list \<Rightarrow> 't Slice list" where
  "schedule_send_order slices = sort_key sl_kind slices"

definition apply_congestion_drop :: "'t Slice list \<Rightarrow> bool \<Rightarrow> bool \<Rightarrow> 't Slice list" where
  "apply_congestion_drop scheduled congestion_detected visible_region_fully_sent =
     (if congestion_detected \<and> \<not> visible_region_fully_sent
      then filter (\<lambda>s. sl_kind s = VisibleRegionSlice) scheduled
      else scheduled)"

section \<open>Breach handling\<close>

record DegradeSignal =
  ds_region :: VisibleRegion
  ds_measured_age :: duration
  ds_ceiling :: duration

definition check_breach :: "Mode \<Rightarrow> VisibleRegion \<Rightarrow> duration \<Rightarrow> DegradeSignal option" where
  "check_breach mode region measured_age =
     (let ceiling = age_ceiling mode in
      if ceiling < measured_age
      then Some \<lparr>ds_region = region, ds_measured_age = measured_age, ds_ceiling = ceiling\<rparr>
      else None)"

section \<open>Library lemmas\<close>

lemma mset_schedule [simp]: "mset (schedule_send_order slices) = mset slices"
  by (simp add: schedule_send_order_def)

lemma set_schedule [simp]: "set (schedule_send_order slices) = set slices"
  by (simp add: schedule_send_order_def)

lemma visible_region_tiles:
  assumes "fx < tiles_x" "fy < tiles_y"
  shows "visible_region_from_focus (fx, fy) tiles_x tiles_y radius
    = Some \<lparr>vr_tiles = concat (map (\<lambda>ty. map (\<lambda>tx. of_nat (tx + ty * tiles_x))
        [fx - radius..<Suc (min (fx + radius) (tiles_x - 1))])
        [fy - radius..<Suc (min (fy + radius) (tiles_y - 1))])\<rparr>"
  using assms by (auto simp: visible_region_from_focus_def Let_def)

lemma length_concat_map_const:
  "(\<And>y. y \<in> set ys \<Longrightarrow> length (f y) = n) \<Longrightarrow> length (concat (map f ys)) = length ys * n"
  by (induction ys) auto

lemma in_grid_iff:
  "t \<in> set (concat (map (\<lambda>y. map (\<lambda>x. f x y) xs) ys)) \<longleftrightarrow> (\<exists>x \<in> set xs. \<exists>y \<in> set ys. t = f x y)"
  by auto

lemma grid_index_less: "tx < (w::nat) \<Longrightarrow> ty < h \<Longrightarrow> tx + ty * w < w * h"
proof -
  assume a: "tx < w" "ty < h"
  then have "tx + ty * w < Suc ty * w" by simp
  also have "\<dots> \<le> h * w" using a by (intro mult_le_mono1) simp
  finally show ?thesis by (simp add: mult.commute)
qed

section \<open>Properties\<close>

text \<open>the scheduler sends exactly the slices it was given, in rank order (visible region, IDR, the
  rest by ascending priority distance, FEC repair), and keeps the input order among slices of the same
  kind.\<close>

theorem schedule_send_order_correct:
  "mset (schedule_send_order slices) = mset slices
   \<and> sorted (map sl_kind (schedule_send_order slices))
   \<and> filter (\<lambda>s. sl_kind s = k) (schedule_send_order slices) = filter (\<lambda>s. sl_kind s = k) slices"
  by (simp add: schedule_send_order_def sort_key_stable)

text \<open>for a focus tile inside a grid of at most 65536 tiles the visible region is computed without
  a panic, contains the focus tile, stays inside the grid and has at most \<open>(2 radius + 1)^2\<close> tiles.\<close>

theorem visible_region_bounded:
  assumes "fx < tiles_x" and "fy < tiles_y" and "tiles_x * tiles_y \<le> 65536"
  shows "\<exists>vr. visible_region_from_focus (fx, fy) tiles_x tiles_y radius = Some vr
     \<and> contains_tile vr (of_nat (fx + fy * tiles_x))
     \<and> (\<forall>t \<in> set (vr_tiles vr). unat t < tiles_x * tiles_y)
     \<and> length (vr_tiles vr) \<le> (2 * radius + 1) * (2 * radius + 1)"
proof -
  let ?xs = "[fx - radius..<Suc (min (fx + radius) (tiles_x - 1))]"
  let ?ys = "[fy - radius..<Suc (min (fy + radius) (tiles_y - 1))]"
  let ?tiles = "concat (map (\<lambda>ty. map (\<lambda>tx. of_nat (tx + ty * tiles_x) :: u16) ?xs) ?ys)"
  have idx: "unat (of_nat (tx + ty * tiles_x) :: u16) < tiles_x * tiles_y"
    if "tx < tiles_x" "ty < tiles_y" for tx ty
    using grid_index_less [OF that] assms(3) unat_of_nat_u16 [of "tx + ty * tiles_x"] by simp
  have "length ?tiles = length ?ys * length ?xs"
    by (rule length_concat_map_const) simp
  also have "\<dots> \<le> (2 * radius + 1) * (2 * radius + 1)"
    by (intro mult_le_mono) auto
  finally have len: "length ?tiles \<le> (2 * radius + 1) * (2 * radius + 1)" .
  have "fx \<in> set ?xs" "fy \<in> set ?ys" using assms by auto
  then have foc: "of_nat (fx + fy * tiles_x) \<in> set ?tiles"
    unfolding in_grid_iff by blast
  have bnd: "\<forall>t \<in> set ?tiles. unat t < tiles_x * tiles_y"
  proof
    fix t assume "t \<in> set ?tiles"
    then obtain tx ty where t: "t = of_nat (tx + ty * tiles_x)" and xy: "tx \<in> set ?xs" "ty \<in> set ?ys"
      unfolding in_grid_iff by blast
    from xy have "tx \<le> tiles_x - 1" "ty \<le> tiles_y - 1" by auto
    then have "tx < tiles_x" "ty < tiles_y" using assms by simp_all
    then show "unat t < tiles_x * tiles_y" unfolding t by (rule idx)
  qed
  show ?thesis
    unfolding contains_tile_def
    by (rule exI [of _ "\<lparr>vr_tiles = ?tiles\<rparr>"], unfold VisibleRegion.select_convs)
      (intro conjI visible_region_tiles [OF assms(1,2)] foc bnd len)
qed

theorem visible_region_bounded_witness:
  "\<exists>vr. visible_region_from_focus (0, 5) 20 10 1 = Some vr
     \<and> contains_tile vr (of_nat (0 + 5 * 20))
     \<and> (\<forall>t \<in> set (vr_tiles vr). unat t < 20 * 10)
     \<and> length (vr_tiles vr) \<le> (2 * 1 + 1) * (2 * 1 + 1)"
  by (rule visible_region_bounded) simp_all

text \<open>a focus further than \<open>radius\<close> outside the grid makes \<open>visible_region_from_focus\<close> panic in a
  build with overflow checks (the unsigned subtraction \<open>x1 - x0\<close> underflows), although the function clamps
  the far edge.\<close>

theorem visible_region_panics_outside_grid:
  assumes "0 < tiles_x" and "0 < tiles_y" and "tiles_x + radius \<le> fx"
  shows "visible_region_from_focus (fx, fy) tiles_x tiles_y radius = None"
  using assms by (auto simp: visible_region_from_focus_def Let_def)

theorem visible_region_panics_outside_grid_witness:
  "visible_region_from_focus (12, 3) 10 10 1 = None"
  by (rule visible_region_panics_outside_grid) simp_all

end
