(* ===== verification/Evrt2_Modes.thy ===== *)
theory Evrt2_Modes
  imports Complex_Main Evrt2_Fec Evrt2_Scheduler
begin

text \<open>
  The AR / 2R / 47 mode selector of \<^verbatim>\<open>src/src/evrt2_modes.rs\<close>: the three mode profiles, the switch
  reasons with their wire codes, and \<open>ModeSelector::evaluate\<close>/\<open>apply\<close>. A finite \<open>f32\<close> is its exact
  rational value and NaN is \<open>None\<close>, so the comparisons with the two motion thresholds (written as the
  exact values of the source's \<open>f32\<close> literals) are the source's. Steps of the selector form an
  inductive relation, over which the safety of mode 47 is an invariant.
\<close>

section \<open>Mode profiles\<close>

record ModeProfile =
  mp_mode :: Mode
  mp_bandwidth_min_bps :: u32
  mp_bandwidth_max_bps :: "u32 option"
  mp_max_fps :: u32
  mp_max_resolution :: "u32 \<times> u32"
  mp_latency_target :: duration
  mp_lossless :: bool
  mp_silicon_required :: bool
  mp_tile_engine_enabled :: bool
  mp_fec :: FecConfig

definition PROFILE_AR :: ModeProfile where
  "PROFILE_AR = \<lparr>mp_mode = Ar, mp_bandwidth_min_bps = 10000, mp_bandwidth_max_bps = Some 5000000,
     mp_max_fps = 60, mp_max_resolution = (1920, 1080), mp_latency_target = from_millis 30,
     mp_lossless = True, mp_silicon_required = False, mp_tile_engine_enabled = True,
     mp_fec = FEC_AR\<rparr>"

definition PROFILE_R2 :: ModeProfile where
  "PROFILE_R2 = \<lparr>mp_mode = R2, mp_bandwidth_min_bps = 200000, mp_bandwidth_max_bps = Some 8000000,
     mp_max_fps = 60, mp_max_resolution = (2560, 1440), mp_latency_target = from_millis 20,
     mp_lossless = False, mp_silicon_required = False, mp_tile_engine_enabled = True,
     mp_fec = FEC_R2\<rparr>"

definition PROFILE_MODE47 :: ModeProfile where
  "PROFILE_MODE47 = \<lparr>mp_mode = Mode47, mp_bandwidth_min_bps = 500000, mp_bandwidth_max_bps = None,
     mp_max_fps = 120, mp_max_resolution = (3840, 2160), mp_latency_target = from_millis 8,
     mp_lossless = False, mp_silicon_required = True, mp_tile_engine_enabled = False,
     mp_fec = FEC_MODE47\<rparr>"

fun profile_for_mode :: "Mode \<Rightarrow> ModeProfile" where
  "profile_for_mode Ar = PROFILE_AR"
| "profile_for_mode R2 = PROFILE_R2"
| "profile_for_mode Mode47 = PROFILE_MODE47"

section \<open>Switch reasons\<close>

datatype SwitchReason =
    MotionIncreased | MotionIdle | GameDetected | GameExitedOrMinimized | NoSilicon
  | BandwidthForcedAr | UserRequested

fun to_wire_code :: "SwitchReason \<Rightarrow> u8" where
  "to_wire_code MotionIncreased = 1"
| "to_wire_code MotionIdle = 2"
| "to_wire_code GameDetected = 3"
| "to_wire_code GameExitedOrMinimized = 4"
| "to_wire_code NoSilicon = 5"
| "to_wire_code BandwidthForcedAr = 6"
| "to_wire_code UserRequested = 7"

definition from_wire_code :: "u8 \<Rightarrow> SwitchReason option" where
  "from_wire_code code =
     (if code = 1 then Some MotionIncreased
      else if code = 2 then Some MotionIdle
      else if code = 3 then Some GameDetected
      else if code = 4 then Some GameExitedOrMinimized
      else if code = 5 then Some NoSilicon
      else if code = 6 then Some BandwidthForcedAr
      else if code = 7 then Some UserRequested
      else None)"

section \<open>Signals and the selector\<close>

type_synonym f32 = "rat option"

fun f32_ge :: "f32 \<Rightarrow> rat \<Rightarrow> bool" where
  "f32_ge None c = False"
| "f32_ge (Some x) c = (c \<le> x)"

fun f32_gt :: "f32 \<Rightarrow> rat \<Rightarrow> bool" where
  "f32_gt None c = False"
| "f32_gt (Some x) c = (c < x)"

fun f32_lt :: "f32 \<Rightarrow> rat \<Rightarrow> bool" where
  "f32_lt None c = False"
| "f32_lt (Some x) c = (x < c)"

record ModeSignals =
  ms_motion_ratio :: f32
  ms_idle_duration :: duration
  ms_game_detected :: bool
  ms_silicon_available :: bool
  ms_bandwidth_bps :: u32
  ms_user_requested_game_mode :: bool

text \<open>The \<open>f32\<close> values nearest to 0.30 and 0.70.\<close>

definition MOTION_THRESHOLD_AR_TO_2R :: rat where
  "MOTION_THRESHOLD_AR_TO_2R = 5033165 / 16777216"
definition MOTION_THRESHOLD_2R_TO_47 :: rat where
  "MOTION_THRESHOLD_2R_TO_47 = 11744051 / 16777216"
definition IDLE_DURATION_FOR_AR :: duration where
  "IDLE_DURATION_FOR_AR = 5 * 1000000000"
definition BANDWIDTH_FORCES_AR_BPS :: u32 where
  "BANDWIDTH_FORCES_AR_BPS = 200000"

record ModeSelector =
  sel_current :: Mode

definition selector_new :: "Mode \<Rightarrow> ModeSelector" where
  "selector_new initial = \<lparr>sel_current = initial\<rparr>"

definition current_profile :: "ModeSelector \<Rightarrow> ModeProfile" where
  "current_profile s = profile_for_mode (sel_current s)"

definition evaluate :: "ModeSelector \<Rightarrow> ModeSignals \<Rightarrow> (Mode \<times> SwitchReason) option" where
  "evaluate s signals =
     (if ms_bandwidth_bps signals < BANDWIDTH_FORCES_AR_BPS \<and> sel_current s \<noteq> Ar
      then Some (Ar, BandwidthForcedAr)
      else case sel_current s of
        Ar \<Rightarrow>
          if f32_ge (ms_motion_ratio signals) MOTION_THRESHOLD_AR_TO_2R
             \<and> BANDWIDTH_FORCES_AR_BPS \<le> ms_bandwidth_bps signals
          then Some (R2, MotionIncreased) else None
      | R2 \<Rightarrow>
          let wants_game = ms_user_requested_game_mode signals
                \<or> (ms_game_detected signals
                   \<and> f32_gt (ms_motion_ratio signals) MOTION_THRESHOLD_2R_TO_47)
          in if wants_game then
               if ms_silicon_available signals then
                 Some (Mode47, if ms_user_requested_game_mode signals then UserRequested
                               else GameDetected)
               else None
             else if f32_lt (ms_motion_ratio signals) MOTION_THRESHOLD_AR_TO_2R
                     \<and> IDLE_DURATION_FOR_AR \<le> ms_idle_duration signals
             then Some (Ar, MotionIdle) else None
      | Mode47 \<Rightarrow>
          if \<not> ms_silicon_available signals then Some (R2, NoSilicon)
          else if \<not> ms_game_detected signals \<and> \<not> ms_user_requested_game_mode signals
          then Some (R2, GameExitedOrMinimized) else None)"

definition selector_apply :: "ModeSelector \<Rightarrow> Mode \<Rightarrow> ModeSelector" where
  "selector_apply s new_mode = s\<lparr>sel_current := new_mode\<rparr>"

text \<open>One evaluation of the selector as its clients run it: \<open>apply\<close> what \<open>evaluate\<close> proposes.\<close>

definition selector_tick :: "ModeSelector \<Rightarrow> ModeSignals \<Rightarrow> ModeSelector" where
  "selector_tick s signals =
     (case evaluate s signals of None \<Rightarrow> s | Some (m, _) \<Rightarrow> selector_apply s m)"

text \<open>Reachable selector states together with the signals of the last evaluation.\<close>

inductive selector_reach :: "Mode \<Rightarrow> ModeSelector \<Rightarrow> ModeSignals option \<Rightarrow> bool" for initial where
  init: "selector_reach initial (selector_new initial) None"
| tick: "selector_reach initial s prev \<Longrightarrow> selector_reach initial (selector_tick s sg) (Some sg)"

inductive_cases selector_reach_SomeE: "selector_reach initial s (Some sg)"

section \<open>Library lemmas\<close>

lemma from_wire_code_to_wire_code [simp]: "from_wire_code (to_wire_code r) = Some r"
  by (cases r) (simp_all add: from_wire_code_def)

lemma from_wire_code_Some: "from_wire_code c = Some r \<Longrightarrow> c = to_wire_code r"
  by (auto simp: from_wire_code_def split: if_splits)

lemma selector_tick_Mode47:
  "sel_current (selector_tick s sg) = Mode47 \<Longrightarrow>
     ms_silicon_available sg \<and> BANDWIDTH_FORCES_AR_BPS \<le> ms_bandwidth_bps sg
     \<and> sel_current s \<noteq> Ar \<and> (ms_game_detected sg \<or> ms_user_requested_game_mode sg)"
  by (cases "sel_current s")
    (auto simp: selector_tick_def evaluate_def selector_apply_def Let_def not_less
      split: if_splits option.splits)

section \<open>Properties\<close>

text \<open>every proposed switch leaves the current mode; below the bandwidth floor the only proposal is
  AR; mode 47 is proposed only from 2R, with silicon available and enough bandwidth; and every reason
  code survives the MODE_SWITCH wire encoding.\<close>

theorem mode_evaluate_safe:
  assumes "evaluate s sg = Some (m, reason)"
  shows "m \<noteq> sel_current s
    \<and> (ms_bandwidth_bps sg < BANDWIDTH_FORCES_AR_BPS \<longrightarrow> m = Ar \<and> reason = BandwidthForcedAr)
    \<and> (m = Mode47 \<longrightarrow> sel_current s = R2 \<and> ms_silicon_available sg
         \<and> BANDWIDTH_FORCES_AR_BPS \<le> ms_bandwidth_bps sg \<and> reason \<in> {UserRequested, GameDetected})
    \<and> from_wire_code (to_wire_code reason) = Some reason"
  using assms by (cases "sel_current s")
    (auto simp: evaluate_def Let_def not_less split: if_splits)

theorem mode_evaluate_safe_witness:
  "Mode47 \<noteq> R2
    \<and> (BANDWIDTH_FORCES_AR_BPS \<le> 900000) \<and> UserRequested \<in> {UserRequested, GameDetected}"
  using mode_evaluate_safe [of "selector_new R2"
      "\<lparr>ms_motion_ratio = Some 0, ms_idle_duration = 0, ms_game_detected = False,
        ms_silicon_available = True, ms_bandwidth_bps = 900000,
        ms_user_requested_game_mode = True\<rparr>" Mode47 UserRequested]
  by (simp add: evaluate_def selector_new_def BANDWIDTH_FORCES_AR_BPS_def)

text \<open>in every reachable state of the selector, mode 47 is active after an evaluation only if that
  evaluation saw silicon available, bandwidth above the floor and a detected or requested game; so loss
  of any of the three leaves mode 47 within one evaluation.\<close>

theorem mode47_requires_silicon:
  assumes "selector_reach initial s (Some sg)" and "sel_current s = Mode47"
  shows "ms_silicon_available sg \<and> BANDWIDTH_FORCES_AR_BPS \<le> ms_bandwidth_bps sg
    \<and> (ms_game_detected sg \<or> ms_user_requested_game_mode sg)"
proof -
  from assms(1) obtain s0 where "s = selector_tick s0 sg"
    by (rule selector_reach_SomeE)
  with assms(2) selector_tick_Mode47 [of s0 sg] show ?thesis by simp
qed

theorem mode47_requires_silicon_witness:
  "\<exists>s sg. selector_reach R2 s (Some sg) \<and> sel_current s = Mode47 \<and> ms_silicon_available sg
     \<and> BANDWIDTH_FORCES_AR_BPS \<le> ms_bandwidth_bps sg"
proof -
  let ?sg = "\<lparr>ms_motion_ratio = Some 0, ms_idle_duration = 0, ms_game_detected = False,
        ms_silicon_available = True, ms_bandwidth_bps = 900000,
        ms_user_requested_game_mode = True\<rparr>"
  let ?s = "selector_tick (selector_new R2) ?sg"
  have reach: "selector_reach R2 ?s (Some ?sg)"
    by (rule selector_reach.tick, rule selector_reach.init)
  have m: "sel_current ?s = Mode47"
    by (simp add: selector_tick_def evaluate_def selector_new_def selector_apply_def
        BANDWIDTH_FORCES_AR_BPS_def)
  from mode47_requires_silicon [OF reach m] reach m show ?thesis by blast
qed

end
