(* ===== verification/Evrt2_Crypto.thy ===== *)
theory Evrt2_Crypto
  imports Evrt2_Packet
begin

text \<open>
  Packet authentication and payload encryption of \<^verbatim>\<open>src/src/evrt2_crypto.rs\<close>. The primitives come
  from third-party crates (\<open>hmac\<close>, \<open>sha2\<close>, \<open>dryoc\<close>) and are the fields of the parameter record
  \<open>Crypto\<close>; the two facts the code relies on, the output sizes and that opening a sealed box gives the
  plaintext back, are the named hypotheses \<open>digest_sizes\<close> and \<open>secretbox_law\<close>. A Rust \<open>&str\<close> is the
  list of its Unicode scalar values, so that byte lengths, byte slicing at character boundaries and the
  panic of a slice inside a character can be expressed.
\<close>

section \<open>Primitives\<close>

record Crypto =
  cr_hmac_sha256 :: "bytes \<Rightarrow> bytes \<Rightarrow> bytes"
  cr_sha256 :: "bytes \<Rightarrow> bytes"
  cr_secretbox_easy :: "bytes \<Rightarrow> bytes \<Rightarrow> bytes \<Rightarrow> bytes"
  cr_secretbox_open_easy :: "bytes \<Rightarrow> bytes \<Rightarrow> bytes \<Rightarrow> bytes option"

definition AUTH_TAG_OFFSET :: nat where "AUTH_TAG_OFFSET = 28"
definition AUTH_TAG_LEN :: nat where "AUTH_TAG_LEN = 4"
definition SECRETBOX_MAC_LEN :: nat where "SECRETBOX_MAC_LEN = 16"
definition NONCE_LEN :: nat where "NONCE_LEN = 24"

lemmas crypto_consts = AUTH_TAG_OFFSET_def AUTH_TAG_LEN_def SECRETBOX_MAC_LEN_def NONCE_LEN_def

text \<open>HMAC-SHA256 and SHA-256 digests have 32 bytes.\<close>

definition digest_sizes :: "Crypto \<Rightarrow> bool" where
  "digest_sizes c \<longleftrightarrow> (\<forall>k m. length (cr_hmac_sha256 c k m) = 32) \<and> (\<forall>m. length (cr_sha256 c m) = 32)"

text \<open>\<open>crypto_secretbox_open_easy\<close> inverts \<open>crypto_secretbox_easy\<close>, whose output is 16 bytes longer
  than the plaintext.\<close>

definition secretbox_law :: "Crypto \<Rightarrow> bool" where
  "secretbox_law c \<longleftrightarrow> (\<forall>m n k. cr_secretbox_open_easy c (cr_secretbox_easy c m n k) n k = Some m
     \<and> length (cr_secretbox_easy c m n k) = length m + SECRETBOX_MAC_LEN)"

section \<open>Session keys in hexadecimal\<close>


definition utf8_len :: "nat \<Rightarrow> nat" where
  "utf8_len ch = (if ch < 0x80 then 1 else if ch < 0x800 then 2 else if ch < 0x10000 then 3 else 4)"

definition str_len :: "rust_str \<Rightarrow> nat" where
  "str_len s = sum_list (map utf8_len s)"

text \<open>The characters with the Unicode property \<open>White_Space\<close>, which \<open>str::trim\<close> removes.\<close>

definition is_white_space :: "nat \<Rightarrow> bool" where
  "is_white_space ch \<longleftrightarrow> (9 \<le> ch \<and> ch \<le> 13) \<or> ch = 32 \<or> ch = 0x85 \<or> ch = 0xA0 \<or> ch = 0x1680
     \<or> (0x2000 \<le> ch \<and> ch \<le> 0x200A) \<or> ch = 0x2028 \<or> ch = 0x2029 \<or> ch = 0x202F \<or> ch = 0x205F
     \<or> ch = 0x3000"

definition str_trim :: "rust_str \<Rightarrow> rust_str" where
  "str_trim s = rev (dropWhile is_white_space (rev (dropWhile is_white_space s)))"

text \<open>Splitting at a byte offset; \<open>None\<close> when the offset is not a character boundary or lies past the
  end, where slicing panics.\<close>

fun str_split_at :: "nat \<Rightarrow> rust_str \<Rightarrow> (rust_str \<times> rust_str) option" where
  "str_split_at n s =
     (if n = 0 then Some ([], s)
      else case s of
        [] \<Rightarrow> None
      | ch # chs \<Rightarrow>
          if n < utf8_len ch then None
          else case str_split_at (n - utf8_len ch) chs of
            None \<Rightarrow> None
          | Some (a, b) \<Rightarrow> Some (ch # a, b))"

declare str_split_at.simps [simp del]

definition str_slice :: "nat \<Rightarrow> nat \<Rightarrow> rust_str \<Rightarrow> rust_str option" where
  "str_slice a b s =
     (case str_split_at a s of
        None \<Rightarrow> None
      | Some (_, rest) \<Rightarrow> (case str_split_at (b - a) rest of None \<Rightarrow> None | Some (mid, _) \<Rightarrow> Some mid))"

definition hex_digit :: "nat \<Rightarrow> nat option" where
  "hex_digit ch =
     (if 48 \<le> ch \<and> ch \<le> 57 then Some (ch - 48)
      else if 97 \<le> ch \<and> ch \<le> 102 then Some (ch - 87)
      else if 65 \<le> ch \<and> ch \<le> 70 then Some (ch - 55)
      else None)"

fun hex_digits :: "nat \<Rightarrow> rust_str \<Rightarrow> nat option" where
  "hex_digits acc [] = Some acc"
| "hex_digits acc (ch # chs) =
     (case hex_digit ch of
        None \<Rightarrow> None
      | Some d \<Rightarrow> if 255 < acc * 16 + d then None else hex_digits (acc * 16 + d) chs)"

text \<open>\<open>u8::from_str_radix(src, 16)\<close>: an optional leading \<open>+\<close>, at least one digit, no overflow.\<close>

definition u8_from_str_radix16 :: "rust_str \<Rightarrow> u8 option" where
  "u8_from_str_radix16 src =
     (if src = [] \<or> src = [43] \<or> src = [45] then None
      else map_option of_nat (hex_digits 0 (if hd src = 43 then tl src else src)))"

definition hex_char :: "nat \<Rightarrow> nat" where
  "hex_char d = (if d < 10 then 48 + d else 87 + d)"

definition key_to_hex :: "bytes \<Rightarrow> rust_str" where
  "key_to_hex key = concat (map (\<lambda>b. [hex_char (unat b div 16), hex_char (unat b mod 16)]) key)"

text \<open>The loop of \<open>key_from_hex\<close>: outer \<open>None\<close> is a slicing panic, inner \<open>None\<close> the early return.\<close>

fun hex_loop :: "rust_str \<Rightarrow> nat list \<Rightarrow> bytes \<Rightarrow> bytes option option" where
  "hex_loop s [] key = Some (Some key)"
| "hex_loop s (i # is) key =
     (case str_slice (i * 2) (i * 2 + 2) s of
        None \<Rightarrow> None
      | Some t \<Rightarrow>
          case u8_from_str_radix16 t of
            None \<Rightarrow> Some None
          | Some b \<Rightarrow> hex_loop s is (key[i := b]))"

definition key_from_hex :: "rust_str \<Rightarrow> bytes option option" where
  "key_from_hex s0 =
     (let s = str_trim s0 in
      if str_len s \<noteq> 64 then Some None else hex_loop s [0..<32] (replicate 32 0))"

section \<open>Authentication tags\<close>

definition zero_tag :: "bytes \<Rightarrow> bytes" where
  "zero_tag wire = splice AUTH_TAG_OFFSET (replicate AUTH_TAG_LEN 0) wire"

definition sign_packet :: "Crypto \<Rightarrow> bytes \<Rightarrow> bytes \<Rightarrow> bytes" where
  "sign_packet c key wire =
     (if length wire < AUTH_TAG_OFFSET + AUTH_TAG_LEN then wire
      else let wire' = zero_tag wire;
               tag = cr_hmac_sha256 c key wire'
           in splice AUTH_TAG_OFFSET (take AUTH_TAG_LEN tag) wire')"

definition verify_packet :: "Crypto \<Rightarrow> bytes \<Rightarrow> bytes \<Rightarrow> bool" where
  "verify_packet c key wire =
     (if length wire < AUTH_TAG_OFFSET + AUTH_TAG_LEN then False
      else let received_tag = subslice AUTH_TAG_OFFSET (AUTH_TAG_OFFSET + AUTH_TAG_LEN) wire;
               expected = cr_hmac_sha256 c key (zero_tag wire)
           in received_tag = take AUTH_TAG_LEN expected)"

section \<open>Payload encryption\<close>

text \<open>The bytes of \<open>b"evrt2-encrypt-v1"\<close>.\<close>

definition ENCRYPT_LABEL :: bytes where
  "ENCRYPT_LABEL = [0x65, 0x76, 0x72, 0x74, 0x32, 0x2D, 0x65, 0x6E, 0x63, 0x72, 0x79, 0x70, 0x74,
     0x2D, 0x76, 0x31]"

definition derive_encryption_key :: "Crypto \<Rightarrow> bytes \<Rightarrow> bytes" where
  "derive_encryption_key c session_key = cr_sha256 c (session_key @ ENCRYPT_LABEL)"

definition derive_nonce :: "Crypto \<Rightarrow> bytes \<Rightarrow> bytes" where
  "derive_nonce c header_minus_auth_tag = take NONCE_LEN (cr_sha256 c header_minus_auth_tag)"

text \<open>Bytes 6 and 7 with the \<open>ENCRYPTED\<close> bit set.\<close>

definition set_encrypted_flag :: "bytes \<Rightarrow> bytes" where
  "set_encrypted_flag wire =
     (let flags = (be_word [wire ! 6, wire ! 7] :: u16) OR push_bit 3 1
      in wire[6 := ucast (drop_bit 8 flags), 7 := ucast (flags AND 0xFF)])"

text \<open>\<open>None\<close> is the panic of slicing from byte 32 in a buffer of 28 to 31 bytes, which the guard lets
  through.\<close>

definition encrypt_payload :: "Crypto \<Rightarrow> bytes \<Rightarrow> bytes \<Rightarrow> bytes option" where
  "encrypt_payload c enc_key wire =
     (if length wire < AUTH_TAG_OFFSET then Some wire
      else let wire' = set_encrypted_flag wire;
               nonce = derive_nonce c (take AUTH_TAG_OFFSET wire') in
      if length wire' < AUTH_TAG_OFFSET + AUTH_TAG_LEN then None
      else let plaintext = drop (AUTH_TAG_OFFSET + AUTH_TAG_LEN) wire'
           in Some (take (AUTH_TAG_OFFSET + AUTH_TAG_LEN) wire'
                    @ cr_secretbox_easy c plaintext nonce enc_key))"

definition decrypt_payload :: "Crypto \<Rightarrow> bytes \<Rightarrow> bytes \<Rightarrow> bytes option" where
  "decrypt_payload c enc_key wire =
     (if length wire < AUTH_TAG_OFFSET + AUTH_TAG_LEN then None
      else let flags = (be_word [wire ! 6, wire ! 7] :: u16);
               ciphertext = drop (AUTH_TAG_OFFSET + AUTH_TAG_LEN) wire in
      if flags AND push_bit 3 1 = 0 then Some ciphertext
      else if length ciphertext < SECRETBOX_MAC_LEN then None
      else let nonce = derive_nonce c (take AUTH_TAG_OFFSET wire)
           in cr_secretbox_open_easy c ciphertext nonce enc_key)"

section \<open>Lemmas: signing\<close>

text \<open>A packet long enough to carry a header, split at the tag.\<close>

lemma tag_split:
  assumes "AUTH_TAG_OFFSET + AUTH_TAG_LEN \<le> length wire"
  shows "wire = take 28 wire @ subslice 28 32 wire @ drop 32 wire"
proof -
  have "drop 28 wire = take 4 (drop 28 wire) @ drop 4 (drop 28 wire)"
    by (simp only: append_take_drop_id)
  then show ?thesis
    by (simp add: subslice_def)
qed

lemma zero_tag_eq: "zero_tag wire = take 28 wire @ replicate 4 0 @ drop 32 wire"
  by (simp add: zero_tag_def splice_def crypto_consts)

lemma length_zero_tag [simp]:
  "AUTH_TAG_OFFSET + AUTH_TAG_LEN \<le> length wire \<Longrightarrow> length (zero_tag wire) = length wire"
  by (simp add: zero_tag_eq crypto_consts)

lemma sign_packet_eq:
  assumes "AUTH_TAG_OFFSET + AUTH_TAG_LEN \<le> length wire"
  shows "sign_packet c key wire
       = take 28 wire @ take 4 (cr_hmac_sha256 c key (zero_tag wire)) @ drop (28 + length (take 4 (cr_hmac_sha256 c key (zero_tag wire)))) (zero_tag wire)"
  using assms by (simp add: sign_packet_def splice_def crypto_consts Let_def zero_tag_eq)

lemma sign_packet_long:
  assumes "digest_sizes c" "AUTH_TAG_OFFSET + AUTH_TAG_LEN \<le> length wire"
  shows "sign_packet c key wire
       = take 28 wire @ take 4 (cr_hmac_sha256 c key (zero_tag wire)) @ drop 32 wire"
  using assms by (simp add: sign_packet_eq digest_sizes_def zero_tag_eq crypto_consts)

lemma length_sign_packet [simp]:
  "digest_sizes c \<Longrightarrow> length (sign_packet c key wire) = length wire"
  by (cases "AUTH_TAG_OFFSET + AUTH_TAG_LEN \<le> length wire")
    (simp_all add: sign_packet_long digest_sizes_def crypto_consts, simp add: sign_packet_def crypto_consts)

text \<open>Signing touches the four tag bytes only.\<close>

lemma take_sign_packet:
  assumes "digest_sizes c" "AUTH_TAG_OFFSET + AUTH_TAG_LEN \<le> length wire" "n \<le> AUTH_TAG_OFFSET"
  shows "take n (sign_packet c key wire) = take n wire"
  using assms by (simp add: sign_packet_long crypto_consts min_absorb1)

lemma drop_sign_packet:
  assumes "digest_sizes c" "AUTH_TAG_OFFSET + AUTH_TAG_LEN \<le> length wire"
  shows "drop 32 (sign_packet c key wire) = drop 32 wire"
proof -
  have "length (take 28 wire @ take 4 (cr_hmac_sha256 c key (zero_tag wire))) = 32"
    using assms by (simp add: digest_sizes_def crypto_consts)
  then show ?thesis
    using assms by (simp add: sign_packet_long digest_sizes_def crypto_consts)
qed

lemma zero_tag_sign_packet:
  assumes "digest_sizes c" "AUTH_TAG_OFFSET + AUTH_TAG_LEN \<le> length wire"
  shows "zero_tag (sign_packet c key wire) = zero_tag wire"
  unfolding zero_tag_eq
  using take_sign_packet [OF assms, of 28 key] drop_sign_packet [OF assms, of key]
  by (simp add: crypto_consts)

lemma verify_sign_packet:
  assumes "digest_sizes c" "AUTH_TAG_OFFSET + AUTH_TAG_LEN \<le> length wire"
  shows "verify_packet c key (sign_packet c key wire)"
proof -
  have "subslice 28 32 (sign_packet c key wire) = take 4 (cr_hmac_sha256 c key (zero_tag wire))"
    using assms by (simp add: sign_packet_long subslice_def digest_sizes_def crypto_consts min_absorb1)
  then show ?thesis
    using assms zero_tag_sign_packet [OF assms]
    by (simp add: verify_packet_def crypto_consts Let_def)
qed

lemma verify_packet_iff_resign:
  assumes "digest_sizes c"
  shows "verify_packet c key wire \<longleftrightarrow>
    AUTH_TAG_OFFSET + AUTH_TAG_LEN \<le> length wire \<and> sign_packet c key wire = wire"
proof (cases "AUTH_TAG_OFFSET + AUTH_TAG_LEN \<le> length wire")
  case True
  have "sign_packet c key wire = wire \<longleftrightarrow>
      take 28 wire @ take 4 (cr_hmac_sha256 c key (zero_tag wire)) @ drop 32 wire
      = take 28 wire @ subslice 28 32 wire @ drop 32 wire"
    using sign_packet_long [OF assms True] tag_split [OF True] by metis
  then show ?thesis
    using True by (auto simp: verify_packet_def crypto_consts Let_def)
next
  case False
  then show ?thesis by (simp add: verify_packet_def)
qed

section \<open>Lemmas: encryption\<close>

lemma length_set_encrypted_flag [simp]: "length (set_encrypted_flag wire) = length wire"
  by (simp add: set_encrypted_flag_def Let_def)

lemma drop_set_encrypted_flag [simp]:
  "8 \<le> n \<Longrightarrow> drop n (set_encrypted_flag wire) = drop n wire"
  by (simp add: set_encrypted_flag_def Let_def)

lemma flags_set_encrypted_flag:
  assumes "8 \<le> length wire"
  shows "(be_word [set_encrypted_flag wire ! 6, set_encrypted_flag wire ! 7] :: u16)
       = be_word [wire ! 6, wire ! 7] OR push_bit 3 1"
proof -
  have "(be_word [ucast (drop_bit 8 fl), ucast (fl AND 0xFF)] :: u16) = fl" for fl :: u16
  proof -
    have "(ucast (fl AND 0xFF) :: u8) = ucast fl"
    proof -
      have "fl AND 0xFF = take_bit 8 fl" by (simp add: take_bit_eq_mask mask_eq_exp_minus_1)
      then show ?thesis by (simp only:) (rule bit_word_eqI, auto simp: bit_simps)
    qed
    then have "[ucast (drop_bit 8 fl), ucast (fl AND 0xFF)] = be_bytes 2 fl"
      by (simp add: be_bytes_Suc numeral_2_eq_2)
    then show ?thesis by simp
  qed
  note this [of "be_word [wire ! 6, wire ! 7] OR push_bit 3 1"]
  then show ?thesis using assms by (simp only: set_encrypted_flag_def Let_def) simp
qed

lemma encrypt_payload_long:
  assumes "AUTH_TAG_OFFSET + AUTH_TAG_LEN \<le> length wire"
  shows "encrypt_payload c k wire = Some (take 32 (set_encrypted_flag wire)
     @ cr_secretbox_easy c (drop 32 wire) (derive_nonce c (take 28 (set_encrypted_flag wire))) k)"
  using assms by (simp add: encrypt_payload_def crypto_consts Let_def)

lemma length_encrypt_payload:
  assumes "secretbox_law c" "AUTH_TAG_OFFSET + AUTH_TAG_LEN \<le> length wire" "encrypt_payload c k wire = Some w"
  shows "length w = length wire + SECRETBOX_MAC_LEN"
  using assms by (auto simp: encrypt_payload_long secretbox_law_def crypto_consts)

text \<open>The receiver decrypts the packet as it arrives, that is after it was signed.\<close>

lemma decrypt_sign_encrypt:
  assumes "digest_sizes c" "secretbox_law c" "AUTH_TAG_OFFSET + AUTH_TAG_LEN \<le> length wire"
    and "encrypt_payload c k wire = Some w" "take 28 w' = take 28 w" "drop 32 w' = drop 32 w"
  shows "decrypt_payload c k w' = Some (drop 32 wire)"
proof -
  let ?s = "set_encrypted_flag wire"
  have w: "w = take 32 ?s @ cr_secretbox_easy c (drop 32 wire) (derive_nonce c (take 28 ?s)) k"
    using assms(3,4) by (simp add: encrypt_payload_long)
  have lw: "32 \<le> length wire" using assms(3) by (simp add: crypto_consts)
  have d: "drop 32 w' = cr_secretbox_easy c (drop 32 wire) (derive_nonce c (take 28 ?s)) k"
    using assms(6) w lw by simp
  have "length (drop 32 w') = length wire - 32 + 16"
    using assms(2) unfolding d by (simp add: secretbox_law_def crypto_consts)
  then have l: "length w' = length wire + 16" using lw by simp
  have t: "take 28 w' = take 28 ?s" using assms(5) w lw by (simp add: min_absorb1)
  have "w' ! 6 = ?s ! 6" "w' ! 7 = ?s ! 7"
    using arg_cong [OF t, of "\<lambda>xs. xs ! 6"] arg_cong [OF t, of "\<lambda>xs. xs ! 7"] by simp_all
  then have "(be_word [w' ! 6, w' ! 7] :: u16) = be_word [wire ! 6, wire ! 7] OR push_bit 3 1"
    using flags_set_encrypted_flag [of wire] lw by simp
  moreover have "(x OR push_bit 3 1) AND push_bit 3 1 \<noteq> 0" for x :: u16
  proof -
    have "bit ((x OR push_bit 3 1) AND push_bit 3 1) 3" by (simp add: bit_simps)
    then show ?thesis by (metis bit_0_eq bot_apply bot_bool_def)
  qed
  ultimately show ?thesis
    using assms(2) d l t lw
    by (simp add: decrypt_payload_def crypto_consts Let_def secretbox_law_def)
qed

section \<open>Lemmas: hexadecimal keys\<close>

lemma utf8_len_ascii [simp]: "ch < 128 \<Longrightarrow> utf8_len ch = 1"
  by (simp add: utf8_len_def)

lemma str_split_at_ascii:
  "\<forall>ch\<in>set s. ch < 128 \<Longrightarrow> n \<le> length s \<Longrightarrow> str_split_at n s = Some (take n s, drop n s)"
proof (induction s arbitrary: n)
  case Nil
  then show ?case by (subst str_split_at.simps) simp
next
  case (Cons ch s)
  then show ?case by (subst str_split_at.simps) (cases n, simp_all)
qed

lemma str_slice_ascii:
  assumes "\<forall>ch\<in>set s. ch < 128" "a \<le> b" "b \<le> length s"
  shows "str_slice a b s = Some (subslice a b s)"
proof -
  have "\<forall>ch\<in>set (drop a s). ch < 128" using assms(1) in_set_dropD by fastforce
  then show ?thesis
    using assms by (simp add: str_slice_def str_split_at_ascii subslice_def)
qed

lemma str_len_ascii: "\<forall>ch\<in>set s. ch < 128 \<Longrightarrow> str_len s = length s"
  by (induction s) (simp_all add: str_len_def)

lemma hex_digit_hex_char [simp]: "d < 16 \<Longrightarrow> hex_digit (hex_char d) = Some d"
  by (auto simp: hex_digit_def hex_char_def)

lemma hex_char_props:
  assumes "d < 16"
  shows "hex_char d < 128" "\<not> is_white_space (hex_char d)" "hex_char d \<noteq> 43" "hex_char d \<noteq> 45"
  using assms by (auto simp: hex_char_def is_white_space_def)

lemma high_nibble_less: "unat (b :: u8) div 16 < 16"
  by (rule less_mult_imp_div_less) (use unat_u8_less [of b] in linarith)

lemma from_radix_byte:
  "u8_from_str_radix16 [hex_char (unat b div 16), hex_char (unat b mod 16)] = Some b"
proof -
  have "\<not> 255 < unat b" using unat_u8_less [of b] by linarith
  moreover have "\<not> 255 < unat b div 16" using high_nibble_less [of b] by linarith
  ultimately show ?thesis
    by (simp add: u8_from_str_radix16_def hex_char_props high_nibble_less)
qed

lemma length_key_to_hex [simp]: "length (key_to_hex key) = 2 * length key"
  by (induction key) (simp_all add: key_to_hex_def)

lemma key_to_hex_chars:
  assumes "ch \<in> set (key_to_hex key)"
  shows "ch < 128" "\<not> is_white_space ch"
proof -
  obtain d where "d < 16" "ch = hex_char d"
  proof -
    obtain b :: u8 where "ch = hex_char (unat b div 16) \<or> ch = hex_char (unat b mod 16)"
      using assms by (auto simp: key_to_hex_def)
    moreover have "unat b mod 16 < 16" by simp
    ultimately show ?thesis using that high_nibble_less by blast
  qed
  then show "ch < 128" "\<not> is_white_space ch" by (simp_all add: hex_char_props)
qed

lemma dropWhile_none: "\<forall>x\<in>set xs. \<not> P x \<Longrightarrow> dropWhile P xs = xs"
  by (cases xs) auto

lemma str_trim_none: "\<forall>ch\<in>set s. \<not> is_white_space ch \<Longrightarrow> str_trim s = s"
  by (simp add: str_trim_def dropWhile_none)

lemma subslice_key_to_hex:
  "i < length key \<Longrightarrow>
    subslice (2 * i) (2 * i + 2) (key_to_hex key)
      = [hex_char (unat (key ! i) div 16), hex_char (unat (key ! i) mod 16)]"
proof (induction key arbitrary: i)
  case (Cons b key)
  then show ?case
    by (cases i) (simp_all add: key_to_hex_def subslice_def numeral_2_eq_2)
qed simp

lemma hex_loop_key_to_hex:
  assumes "j + n = length key" "length key0 = length key" "take j key0 = take j key"
  shows "hex_loop (key_to_hex key) [j..<length key] key0 = Some (Some key)"
  using assms
proof (induction n arbitrary: j key0)
  case 0
  then show ?case by simp
next
  case (Suc n)
  then have j: "j < length key" by simp
  have "str_slice (j * 2) (j * 2 + 2) (key_to_hex key)
      = Some [hex_char (unat (key ! j) div 16), hex_char (unat (key ! j) mod 16)]"
    using str_slice_ascii [of "key_to_hex key" "j * 2" "j * 2 + 2"] key_to_hex_chars(1) j
      subslice_key_to_hex [OF j] by (simp add: mult.commute)
  moreover have "take (Suc j) (key0[j := key ! j]) = take (Suc j) key"
    using Suc.prems j by (simp add: take_Suc_conv_app_nth)
  ultimately show ?case
    using Suc.IH [of "Suc j" "key0[j := key ! j]"] Suc.prems j
    by (simp add: upt_conv_Cons from_radix_byte)
qed

lemma key_from_to_hex:
  assumes "length key = 32"
  shows "key_from_hex (key_to_hex key) = Some (Some key)"
  using assms hex_loop_key_to_hex [of 0 32 key "replicate 32 0"]
    str_len_ascii [of "key_to_hex key"] key_to_hex_chars
  by (simp add: key_from_hex_def str_trim_none Let_def)

section \<open>Properties\<close>

text \<open>a packet verifies under a key exactly when it has room for a tag and signing it again under
  that key would not change it; in particular every packet that \<open>sign_packet\<close> produced verifies, and a
  packet differing from it only in its tag does not.\<close>

theorem verify_packet_characterised:
  assumes "digest_sizes c"
  shows "(verify_packet c key wire \<longleftrightarrow>
            AUTH_TAG_OFFSET + AUTH_TAG_LEN \<le> length wire \<and> sign_packet c key wire = wire)
       \<and> (AUTH_TAG_OFFSET + AUTH_TAG_LEN \<le> length wire \<longrightarrow>
            verify_packet c key (sign_packet c key wire)
          \<and> (\<forall>wire'. zero_tag wire' = zero_tag wire \<and> length wire' = length wire
                 \<and> verify_packet c key wire' \<longrightarrow> wire' = sign_packet c key wire))"
proof -
  have "wire' = sign_packet c key wire"
    if "AUTH_TAG_OFFSET + AUTH_TAG_LEN \<le> length wire" "zero_tag wire' = zero_tag wire"
      "length wire' = length wire" "verify_packet c key wire'" for wire'
  proof -
    have "wire' = sign_packet c key wire'" using that(4) verify_packet_iff_resign [OF assms] by metis
    also have "\<dots> = sign_packet c key wire"
      using that(1,2,3) by (simp add: sign_packet_def)
    finally show ?thesis .
  qed
  then show ?thesis
    using verify_packet_iff_resign [OF assms] verify_sign_packet [OF assms] by blast
qed

definition toy_crypto :: Crypto where
  "toy_crypto = \<lparr>cr_hmac_sha256 = (\<lambda>k m. replicate 32 (sum_list (k @ m))),
     cr_sha256 = (\<lambda>m. replicate 32 (sum_list m)),
     cr_secretbox_easy = (\<lambda>m n k. replicate 16 (sum_list (n @ k)) @ m),
     cr_secretbox_open_easy = (\<lambda>x n k. if take 16 x = replicate 16 (sum_list (n @ k)) then Some (drop 16 x) else None)\<rparr>"

lemma toy_crypto_laws: "digest_sizes toy_crypto" "secretbox_law toy_crypto"
  by (simp_all add: digest_sizes_def secretbox_law_def toy_crypto_def crypto_consts)

theorem verify_packet_characterised_witness:
  "digest_sizes toy_crypto
   \<and> verify_packet toy_crypto [1, 2] (sign_packet toy_crypto [1, 2] (replicate 40 7))
   \<and> \<not> verify_packet toy_crypto [1, 2] (replicate 40 7)"
proof -
  have "sign_packet toy_crypto [1, 2] (replicate 40 7) \<noteq> replicate 40 7" by code_simp
  then show ?thesis
    using verify_packet_characterised [OF toy_crypto_laws(1), of "[1, 2]" "replicate 40 7"]
      toy_crypto_laws(1)
    by (simp add: crypto_consts)
qed

text \<open>for a packet of at least 32 bytes, encrypting the payload succeeds, makes the packet 16 bytes
  longer, leaves the header's first six bytes alone, and decrypting what arrives after the packet was
  signed under any key gives the payload back.\<close>

theorem encrypt_sign_decrypt_roundtrip:
  assumes "digest_sizes c" "secretbox_law c" "AUTH_TAG_OFFSET + AUTH_TAG_LEN \<le> length wire"
  shows "\<exists>w. encrypt_payload c k wire = Some w
     \<and> length w = length wire + SECRETBOX_MAC_LEN \<and> take 6 w = take 6 wire
     \<and> decrypt_payload c k (sign_packet c key w) = Some (drop (AUTH_TAG_OFFSET + AUTH_TAG_LEN) wire)"
proof -
  obtain w where w: "encrypt_payload c k wire = Some w"
    using encrypt_payload_long [OF assms(3)] by blast
  have l: "length w = length wire + SECRETBOX_MAC_LEN"
    using length_encrypt_payload [OF assms(2,3) w] .
  have "take 6 (set_encrypted_flag wire) = take 6 wire"
    by (simp add: set_encrypted_flag_def Let_def)
  moreover have lw: "AUTH_TAG_OFFSET + AUTH_TAG_LEN \<le> length w" using l assms(3) by simp
  note len = take_sign_packet [OF assms(1) lw, of 28 key] drop_sign_packet [OF assms(1) lw, of key]
  ultimately have "take 6 w = take 6 wire"
    using w encrypt_payload_long [OF assms(3), of c k] assms(3) by (auto simp: crypto_consts)
  then show ?thesis
    using w l decrypt_sign_encrypt [OF assms w, of "sign_packet c key w"] len
    by (simp add: crypto_consts)
qed

theorem encrypt_sign_decrypt_roundtrip_witness:
  "\<exists>w. encrypt_payload toy_crypto [5] (replicate 40 7) = Some w
     \<and> length w = 56 \<and> take 6 w = replicate 6 7
     \<and> decrypt_payload toy_crypto [5] (sign_packet toy_crypto [1] w) = Some (replicate 8 7)"
  using encrypt_sign_decrypt_roundtrip [OF toy_crypto_laws, of "replicate 40 7" "[5]" "[1]"]
  by (simp add: crypto_consts)

text \<open>a 32-byte session key survives the trip through its hexadecimal form.\<close>

theorem key_hex_roundtrip:
  "length key = 32 \<Longrightarrow> key_from_hex (key_to_hex key) = Some (Some key)"
  by (rule key_from_to_hex)

theorem key_hex_roundtrip_witness:
  "key_from_hex (key_to_hex (replicate 32 0xAB)) = Some (Some (replicate 32 0xAB))"
  by (rule key_hex_roundtrip) simp

text \<open>two inputs on which the code panics instead of failing. A string of 64 bytes with a two-byte
  character at an odd byte offset makes the byte slice of \<open>key_from_hex\<close> cut a character, and a buffer of
  28 to 31 bytes passes the length guard of \<open>encrypt_payload\<close> and is then sliced from byte 32.\<close>

theorem crypto_panics:
  "key_from_hex (48 # 233 # replicate 61 48) = None
   \<and> (\<forall>wire. AUTH_TAG_OFFSET \<le> length wire \<and> length wire < AUTH_TAG_OFFSET + AUTH_TAG_LEN
        \<longrightarrow> encrypt_payload c k wire = None)"
proof -
  have "key_from_hex (48 # 233 # replicate 61 48) = None" by code_simp
  then show ?thesis by (simp add: encrypt_payload_def Let_def)
qed

theorem crypto_panics_witness: "encrypt_payload toy_crypto [5] (replicate 30 7) = None"
  using crypto_panics [of toy_crypto "[5]"] by (simp add: crypto_consts)

end
