(* ===== verification/Evrt2_Reassembly.thy ===== *)
theory Evrt2_Reassembly
  imports Evrt2_Fec Evrt2_Scheduler "HOL-Library.AList"
begin

text \<open>
  The frame path of \<^verbatim>\<open>src/src/evrt2_session.rs\<close>: fragmentation of a frame into packets with repair
  packets in send order, and reassembly with recovery on the receiving side. The lemmas follow one
  frame from \<open>build_frame_packets\<close> through \<open>ingest\<close>.

  A \<open>HashMap\<close> is an association list without duplicate keys. Its iteration order is unspecified in
  Rust, so the code that iterates takes a parameter \<open>iter\<close> that reorders the entries; the lemmas assume
  only that it is a permutation (\<open>hash_iter\<close>). A panic is \<open>None\<close>; the clock is an argument.
\<close>

section \<open>Fragmentation\<close>

definition LEN_PREFIX_BYTES :: nat where "LEN_PREFIX_BYTES = 2"
definition CHUNK_MAX :: nat where "CHUNK_MAX = MAX_PAYLOAD - LEN_PREFIX_BYTES"

record DataFragment =
  df_packet_index :: u16
  df_unit :: bytes
  df_is_visible_region :: bool

definition fragment_of :: "(nat \<times> nat) list \<Rightarrow> nat \<Rightarrow> bytes \<Rightarrow> DataFragment" where
  "fragment_of visible_region_byte_ranges i chunk =
     (let start = i * CHUNK_MAX; end = start + length chunk in
      \<lparr>df_packet_index = of_nat i,
       df_unit = be_bytes 2 (of_nat (length chunk) :: u16) @ chunk,
       df_is_visible_region =
         list_ex (\<lambda>(vr_start, vr_end). start < vr_end \<and> end > vr_start) visible_region_byte_ranges\<rparr>)"

definition fragment :: "bytes \<Rightarrow> (nat \<times> nat) list \<Rightarrow> DataFragment list" where
  "fragment frame_bytes visible_region_byte_ranges =
     map (\<lambda>(i, chunk). fragment_of visible_region_byte_ranges i chunk)
       (List.enumerate 0 (chunks CHUNK_MAX frame_bytes))"

definition strip_len_prefix :: "bytes \<Rightarrow> bytes option" where
  "strip_len_prefix unit =
     (if length unit < LEN_PREFIX_BYTES then None
      else let true_len = unat (be_word (subslice 0 2 unit) :: u16) in
           if length unit < LEN_PREFIX_BYTES + true_len then None
           else Some (subslice LEN_PREFIX_BYTES (LEN_PREFIX_BYTES + true_len) unit))"

section \<open>Building the packets of a frame\<close>

type_synonym group_repairs = "(u8 \<times> RepairPacket list) list"

definition base_flags_of :: "bool \<Rightarrow> bool \<Rightarrow> bool \<Rightarrow> FecConfig \<Rightarrow> u16" where
  "base_flags_of is_keyframe is_silicon is_h265 fec =
     (if is_keyframe then IS_KEYFRAME else 0)
     OR (if is_silicon then IS_SILICON else 0)
     OR (if is_h265 then IS_H265 else 0)
     OR (if fec_is_enabled fec then FEC_ENABLED else 0)"

text \<open>The loop over \<open>fragments.chunks(fec.n).enumerate()\<close>; \<open>group_idx as u8\<close> may repeat a key.\<close>

fun repairs_loop :: "nat \<Rightarrow> nat \<Rightarrow> DataFragment list list \<Rightarrow> group_repairs \<Rightarrow> group_repairs" where
  "repairs_loop k group_idx [] m = m"
| "repairs_loop k group_idx (grp # groups) m =
     repairs_loop k (Suc group_idx) groups
       (AList.update (of_nat group_idx) (encode_repairs (map df_unit grp) k) m)"

definition repairs_by_group_of :: "FecConfig \<Rightarrow> DataFragment list \<Rightarrow> group_repairs" where
  "repairs_by_group_of fec fragments =
     (if fec_is_enabled fec then repairs_loop (fec_k fec) 0 (chunks (fec_n fec) fragments) [] else [])"

definition data_header ::
  "u32 \<Rightarrow> Mode \<Rightarrow> u16 \<Rightarrow> u64 \<Rightarrow> FecConfig \<Rightarrow> u16 \<Rightarrow> DataFragment \<Rightarrow> PacketHeader" where
  "data_header frame_id mode base_flags pts fec packet_count frag =
     \<lparr>ph_packet_type = VideoFrame,
      ph_mode = mode,
      ph_flags = (if df_is_visible_region frag then base_flags OR VISIBLE_REGION else base_flags),
      ph_frame_id = frame_id,
      ph_packet_index = df_packet_index frag,
      ph_packet_count = packet_count,
      ph_presentation_time_us = pts,
      ph_fec_group = (if fec_is_enabled fec then of_nat (unat (df_packet_index frag) div fec_n fec) else 0),
      ph_fec_idx = (if fec_is_enabled fec then of_nat (unat (df_packet_index frag) mod fec_n fec) else 0),
      ph_fec_total = of_nat (fec_n fec + fec_k fec),
      ph_auth_tag = 0\<rparr>"

definition data_slice ::
  "u32 \<Rightarrow> Mode \<Rightarrow> bool \<Rightarrow> u16 \<Rightarrow> u64 \<Rightarrow> FecConfig \<Rightarrow> u16 \<Rightarrow> DataFragment \<Rightarrow> bytes Slice" where
  "data_slice frame_id mode is_keyframe base_flags pts fec packet_count frag =
     \<lparr>sl_kind = (if df_is_visible_region frag then VisibleRegionSlice
                 else if is_keyframe then Idr
                 else Normal (ucast (df_packet_index frag))),
      sl_payload = packet_encode (data_header frame_id mode base_flags pts fec packet_count frag)
        (df_unit frag) []\<rparr>"

definition repair_header ::
  "u32 \<Rightarrow> Mode \<Rightarrow> u16 \<Rightarrow> u64 \<Rightarrow> FecConfig \<Rightarrow> u16 \<Rightarrow> u8 \<Rightarrow> RepairPacket \<Rightarrow> PacketHeader" where
  "repair_header frame_id mode base_flags pts fec packet_count group_idx repair =
     \<lparr>ph_packet_type = FecRepair,
      ph_mode = mode,
      ph_flags = base_flags AND NOT VISIBLE_REGION,
      ph_frame_id = frame_id,
      ph_packet_index = packet_count + ucast (rp_repair_idx repair),
      ph_packet_count = packet_count,
      ph_presentation_time_us = pts,
      ph_fec_group = group_idx,
      ph_fec_idx = of_nat (fec_n fec + unat (rp_repair_idx repair)),
      ph_fec_total = of_nat (fec_n fec + fec_k fec),
      ph_auth_tag = 0\<rparr>"

definition repair_slice ::
  "u32 \<Rightarrow> Mode \<Rightarrow> u16 \<Rightarrow> u64 \<Rightarrow> FecConfig \<Rightarrow> u16 \<Rightarrow> u8 \<Rightarrow> RepairPacket \<Rightarrow> bytes Slice" where
  "repair_slice frame_id mode base_flags pts fec packet_count group_idx repair =
     \<lparr>sl_kind = FecRepairSlice,
      sl_payload = packet_encode (repair_header frame_id mode base_flags pts fec packet_count group_idx repair)
        (rp_xor_payload repair) []\<rparr>"

definition build_frame_packets ::
  "(group_repairs \<Rightarrow> group_repairs) \<Rightarrow> bytes \<Rightarrow> u32 \<Rightarrow> Mode \<Rightarrow> bool \<Rightarrow> bool \<Rightarrow> bool \<Rightarrow> u64
     \<Rightarrow> (nat \<times> nat) list \<Rightarrow> FecConfig \<Rightarrow> bytes list" where
  "build_frame_packets iter frame_bytes frame_id mode is_keyframe is_silicon is_h265
     presentation_time_us visible_region_byte_ranges fec =
     (let fragments = fragment frame_bytes visible_region_byte_ranges;
          packet_count = of_nat (length fragments);
          base_flags = base_flags_of is_keyframe is_silicon is_h265 fec;
          repairs_by_group = repairs_by_group_of fec fragments;
          slices = map (data_slice frame_id mode is_keyframe base_flags presentation_time_us fec packet_count)
              fragments
            @ concat (map (\<lambda>(group_idx, repairs).
                map (repair_slice frame_id mode base_flags presentation_time_us fec packet_count group_idx)
                  repairs) (iter repairs_by_group))
      in map sl_payload (schedule_send_order slices))"

section \<open>Reassembly\<close>

record PendingFrame =
  pf_packet_count :: u16
  pf_data :: "bytes option list"
  pf_data_lens :: "nat list"
  pf_repairs_by_group :: group_repairs
  pf_fec_n :: nat
  pf_received_count :: u16
  pf_first_seen :: duration

definition pending_new :: "duration \<Rightarrow> u16 \<Rightarrow> nat \<Rightarrow> PendingFrame" where
  "pending_new now packet_count n =
     \<lparr>pf_packet_count = packet_count,
      pf_data = replicate (unat packet_count) None,
      pf_data_lens = replicate (unat packet_count) 0,
      pf_repairs_by_group = [],
      pf_fec_n = n,
      pf_received_count = 0,
      pf_first_seen = now\<rparr>"

definition pf_is_complete :: "PendingFrame \<Rightarrow> bool" where
  "pf_is_complete f = list_all (\<lambda>d. d \<noteq> None) (pf_data f)"

definition note_group_padded_len :: "nat \<Rightarrow> nat \<Rightarrow> PendingFrame \<Rightarrow> PendingFrame" where
  "note_group_padded_len packet_index len f =
     (let n = max (pf_fec_n f) 1;
          group_idx = packet_index div n;
          start = group_idx * n;
          end = min (start + n) (length (pf_data f))
      in f\<lparr>pf_data_lens := map (\<lambda>(i, slot). if start \<le> i \<and> i < end then max slot len else slot)
            (List.enumerate 0 (pf_data_lens f))\<rparr>)"

fun recover_groups ::
  "nat list \<Rightarrow> group_repairs \<Rightarrow> bytes option list \<Rightarrow> bytes option list option" where
  "recover_groups lens [] data = Some data"
| "recover_groups lens ((_, repairs) # gs) data =
     (case recover data lens repairs of
        None \<Rightarrow> None
      | Some data' \<Rightarrow> recover_groups lens gs data')"

definition try_recover :: "(group_repairs \<Rightarrow> group_repairs) \<Rightarrow> PendingFrame \<Rightarrow> PendingFrame option" where
  "try_recover iter f =
     (if pf_repairs_by_group f = [] then Some f
      else map_option (\<lambda>d. f\<lparr>pf_data := d\<rparr>)
        (recover_groups (pf_data_lens f) (iter (pf_repairs_by_group f)) (pf_data f)))"

fun reassemble_pieces :: "bytes option list \<Rightarrow> bytes \<Rightarrow> bytes option" where
  "reassemble_pieces [] out = Some out"
| "reassemble_pieces (piece # pieces) out =
     (case piece of
        None \<Rightarrow> None
      | Some unit \<Rightarrow>
          case strip_len_prefix unit of
            None \<Rightarrow> None
          | Some chunk \<Rightarrow> reassemble_pieces pieces (out @ chunk))"

definition pf_reassemble :: "PendingFrame \<Rightarrow> bytes option" where
  "pf_reassemble f = (if \<not> pf_is_complete f then None else reassemble_pieces (pf_data f) [])"

definition REASSEMBLY_TIMEOUT :: duration where "REASSEMBLY_TIMEOUT = 2 * 10 ^ 9"

record FrameReassembler =
  fr_pending :: "(u32 \<times> PendingFrame) list"

datatype IngestResult = Pending | FrameComplete u32 bytes

definition reassembler_new :: FrameReassembler where
  "reassembler_new = \<lparr>fr_pending = []\<rparr>"

text \<open>\<open>pending.entry(id).or_insert_with(..)\<close>\<close>

definition entry_or_new :: "duration \<Rightarrow> PacketHeader \<Rightarrow> nat \<Rightarrow> FrameReassembler \<Rightarrow> PendingFrame" where
  "entry_or_new now h n r =
     (case map_of (fr_pending r) (ph_frame_id h) of
        Some f \<Rightarrow> f
      | None \<Rightarrow> pending_new now (ph_packet_count h) n)"

definition ingest_video :: "PacketHeader \<Rightarrow> bytes \<Rightarrow> PendingFrame \<Rightarrow> PendingFrame" where
  "ingest_video h payload f =
     (let idx = unat (ph_packet_index h) in
      if idx < length (pf_data f) \<and> pf_data f ! idx = None
      then let f' = note_group_padded_len idx (length payload) f
           in f'\<lparr>pf_data := (pf_data f')[idx := Some payload],
                 pf_received_count := pf_received_count f' + 1\<rparr>
      else f)"

definition repair_of_header :: "PacketHeader \<Rightarrow> bytes \<Rightarrow> RepairPacket" where
  "repair_of_header h payload =
     (let fec = fec_for_mode (ph_mode h);
          n = max (fec_n fec) 1;
          group_start = unat (ph_fec_group h) * n;
          group_end = min (group_start + n) (unat (ph_packet_count h));
          repair_idx = (of_nat (unat (ph_fec_idx h) - fec_n fec) :: u8);
          covers = (if 0 < fec_k fec
            then map of_nat (filter (\<lambda>i. (i - group_start) mod fec_k fec = unat repair_idx)
                   [group_start..<group_end])
            else [])
      in \<lparr>rp_repair_idx = repair_idx, rp_covers = covers, rp_xor_payload = payload,
          rp_payload_len = length payload\<rparr>)"

definition ingest_repair :: "PacketHeader \<Rightarrow> bytes \<Rightarrow> PendingFrame \<Rightarrow> PendingFrame" where
  "ingest_repair h payload f =
     (let n = max (fec_n (fec_for_mode (ph_mode h))) 1;
          group_start = unat (ph_fec_group h) * n;
          f' = (if group_start < length (pf_data f)
                then note_group_padded_len group_start (length payload) f else f);
          grp = (case map_of (pf_repairs_by_group f') (ph_fec_group h) of Some rs \<Rightarrow> rs | None \<Rightarrow> [])
      in f'\<lparr>pf_repairs_by_group :=
            AList.update (ph_fec_group h) (grp @ [repair_of_header h payload]) (pf_repairs_by_group f')\<rparr>)"

text \<open>What follows the \<open>match\<close>: recovery, completion, removal. The packet has put the entry into
  \<open>pending\<close>, so the \<open>let .. else\<close> after the match always finds it.\<close>

definition ingest_finish ::
  "(group_repairs \<Rightarrow> group_repairs) \<Rightarrow> u32 \<Rightarrow> PendingFrame \<Rightarrow> FrameReassembler
     \<Rightarrow> (FrameReassembler \<times> IngestResult) option" where
  "ingest_finish iter frame_id f r =
     (case (if pf_is_complete f then Some f else try_recover iter f) of
        None \<Rightarrow> None
      | Some f' \<Rightarrow>
          if pf_is_complete f'
          then Some (r\<lparr>fr_pending := AList.delete frame_id (fr_pending r)\<rparr>,
                 FrameComplete frame_id (case pf_reassemble f' of Some b \<Rightarrow> b | None \<Rightarrow> []))
          else Some (r\<lparr>fr_pending := AList.update frame_id f' (fr_pending r)\<rparr>, Pending))"

definition ingest ::
  "(group_repairs \<Rightarrow> group_repairs) \<Rightarrow> duration \<Rightarrow> PacketHeader \<Rightarrow> bytes \<Rightarrow> FrameReassembler
     \<Rightarrow> (FrameReassembler \<times> IngestResult) option" where
  "ingest iter now h payload r =
     (let n = max (fec_n (fec_for_mode (ph_mode h))) 1 in
      case ph_packet_type h of
        VideoFrame \<Rightarrow> ingest_finish iter (ph_frame_id h) (ingest_video h payload (entry_or_new now h n r)) r
      | FecRepair \<Rightarrow> ingest_finish iter (ph_frame_id h) (ingest_repair h payload (entry_or_new now h n r)) r
      | _ \<Rightarrow> Some (r, Pending))"

definition expire_stale ::
  "((u32 \<times> PendingFrame) list \<Rightarrow> (u32 \<times> PendingFrame) list) \<Rightarrow> duration \<Rightarrow> FrameReassembler
     \<Rightarrow> FrameReassembler \<times> u32 list" where
  "expire_stale iter now r =
     (let expired = map fst (filter (\<lambda>(_, f). REASSEMBLY_TIMEOUT < now - pf_first_seen f) (iter (fr_pending r)))
      in (r\<lparr>fr_pending := fold AList.delete expired (fr_pending r)\<rparr>, expired))"

definition pending_frame_count :: "FrameReassembler \<Rightarrow> nat" where
  "pending_frame_count r = length (fr_pending r)"

section \<open>Lemmas: fragments\<close>

lemmas frame_consts = MAX_PAYLOAD_def MAX_DATAGRAM_def HEADER_LEN_def CHUNK_MAX_def LEN_PREFIX_BYTES_def

lemma CHUNK_MAX_value: "CHUNK_MAX = 1366"
  by (simp add: frame_consts)

definition units_of :: "bytes \<Rightarrow> bytes list" where
  "units_of fb = map (\<lambda>chunk. be_bytes 2 (of_nat (length chunk) :: u16) @ chunk) (chunks CHUNK_MAX fb)"

lemma length_fragment [simp]: "length (fragment fb vr) = length (chunks CHUNK_MAX fb)"
  by (simp add: fragment_def)

lemma length_units_of [simp]: "length (units_of fb) = length (chunks CHUNK_MAX fb)"
  by (simp add: units_of_def)

lemma nth_fragment:
  "i < length (chunks CHUNK_MAX fb) \<Longrightarrow> fragment fb vr ! i = fragment_of vr i (chunks CHUNK_MAX fb ! i)"
  by (simp add: fragment_def nth_enumerate_eq)

lemma units_fragment: "map df_unit (fragment fb vr) = units_of fb"
  by (rule nth_equalityI) (simp_all add: nth_fragment fragment_of_def units_of_def Let_def)

lemma nth_units_of:
  "i < length (chunks CHUNK_MAX fb) \<Longrightarrow>
     units_of fb ! i = be_bytes 2 (of_nat (length (chunks CHUNK_MAX fb ! i)) :: u16) @ chunks CHUNK_MAX fb ! i"
  by (simp add: units_of_def)

lemma unit_length:
  assumes "u \<in> set (units_of fb)"
  shows "LEN_PREFIX_BYTES < length u" "length u \<le> MAX_PAYLOAD"
  using assms chunks_length_bounds [of _ CHUNK_MAX fb]
  by (fastforce simp: units_of_def frame_consts)+

text \<open>A slot that represents a unit yields the chunk of that unit, also when it is padded.\<close>

lemma strip_len_prefix_represents:
  assumes "represents p (be_bytes 2 (of_nat (length c) :: u16) @ c)" and "length c < 65536"
  shows "strip_len_prefix p = Some c"
proof -
  let ?u = "be_bytes 2 (of_nat (length c) :: u16) @ c"
  have l: "2 + length c \<le> length p" using assms(1) by (simp add: represents_def)
  have nth: "p ! i = ?u ! i" if "i < length ?u" for i
    using assms(1) that l by (simp add: represents_def byte_at_def) (metis order_less_le_trans)
  have pre: "take (length ?u) p = ?u"
    using l nth by (intro nth_equalityI) simp_all
  have "subslice 0 2 p = take 2 (take (length ?u) p)" by (simp add: subslice_def numeral_2_eq_2)
  also have "\<dots> = be_bytes 2 (of_nat (length c) :: u16)" by (simp only: pre) simp
  finally have len: "unat (be_word (subslice 0 2 p) :: u16) = length c"
    using assms(2) by (simp add: unat_of_nat_u16)
  have "subslice 2 (2 + length c) p = drop 2 (take (length ?u) p)"
    by (simp add: subslice_def drop_take)
  also have "\<dots> = c" by (simp only: pre) simp
  finally show ?thesis
    using l len by (simp add: strip_len_prefix_def Let_def LEN_PREFIX_BYTES_def)
qed

lemma reassemble_pieces_correct:
  assumes "list_all2 (\<lambda>d c. \<exists>p. d = Some p \<and> strip_len_prefix p = Some c) data cs"
  shows "reassemble_pieces data out = Some (out @ concat cs)"
  using assms by (induction data cs arbitrary: out rule: list_all2_induct) auto

lemma reassemble_slots:
  assumes "slots_ok (units_of fb) data" and "list_all (\<lambda>d. d \<noteq> None) data"
  shows "reassemble_pieces data [] = Some fb"
proof -
  have "\<exists>p. data ! i = Some p \<and> strip_len_prefix p = Some (chunks CHUNK_MAX fb ! i)"
    if i: "i < length (chunks CHUNK_MAX fb)" for i
  proof -
    obtain p where p: "data ! i = Some p"
      using assms i by (auto simp: slots_ok_def list_all_length)
    have "length (chunks CHUNK_MAX fb ! i) \<le> 1366"
      using chunks_length_bounds [OF nth_mem [OF i]] by (simp add: CHUNK_MAX_value)
    then have "strip_len_prefix p = Some (chunks CHUNK_MAX fb ! i)"
      using assms(1) p i by (intro strip_len_prefix_represents) (auto simp: slots_ok_def nth_units_of)
    with p show ?thesis by blast
  qed
  then have "list_all2 (\<lambda>d c. \<exists>p. d = Some p \<and> strip_len_prefix p = Some c) data (chunks CHUNK_MAX fb)"
    using assms(1) by (simp add: list_all2_conv_all_nth slots_ok_def)
  from reassemble_pieces_correct [OF this] show ?thesis by (simp add: CHUNK_MAX_value)
qed

section \<open>Lemmas: the packets of a frame\<close>

text \<open>The largest frame whose packet indices and FEC groups fit their header fields.\<close>

definition frame_fits :: "Mode \<Rightarrow> bytes \<Rightarrow> bool" where
  "frame_fits mode fb \<longleftrightarrow> length (chunks CHUNK_MAX fb) \<le>
     (if fec_is_enabled (fec_for_mode mode) then 256 * fec_n (fec_for_mode mode) else 65535)"

lemma frame_fits_u16: "frame_fits mode fb \<Longrightarrow> length (chunks CHUNK_MAX fb) < 65536"
  by (cases mode) (auto simp: frame_fits_def fec_is_enabled_def fec_config_defs)

lemma fec_mode_bounds:
  "fec_is_enabled (fec_for_mode mode) \<Longrightarrow>
     fec_n (fec_for_mode mode) + fec_k (fec_for_mode mode) < 256
     \<and> 0 < fec_n (fec_for_mode mode) \<and> 0 < fec_k (fec_for_mode mode)"
  by (cases mode) (auto simp: fec_is_enabled_def fec_config_defs)

lemma map_of_repairs_loop:
  assumes "g0 + length groups \<le> 256"
  shows "map_of (repairs_loop k g0 groups m) key =
    (if g0 \<le> unat key \<and> unat key < g0 + length groups
     then Some (encode_repairs (map df_unit (groups ! (unat key - g0))) k) else map_of m key)"
  using assms
proof (induction groups arbitrary: g0 m)
  case (Cons grp groups)
  have u: "unat (of_nat g0 :: u8) = g0" using Cons.prems by (simp add: unat_of_nat_u8)
  have eq: "key = of_nat g0 \<longleftrightarrow> unat key = g0"
    using u by (metis of_nat_unat_id)
  show ?case
    using Cons.IH [of "Suc g0"] Cons.prems eq u
    by (auto simp: update_conv' nth_Cons' Suc_diff_Suc not_less_eq_eq)
qed auto

lemma distinct_repairs_loop:
  "distinct (map fst m) \<Longrightarrow> distinct (map fst (repairs_loop k g0 groups m))"
  by (induction k g0 groups m rule: repairs_loop.induct) (simp_all add: distinct_update)

text \<open>The data packet \<open>i\<close> and the repair packet of class \<open>c\<close> of group \<open>g\<close>, as header and payload.\<close>

record frame_params =
  fp_id :: u32
  fp_mode :: Mode
  fp_flags :: u16
  fp_pts :: u64
  fp_ranges :: "(nat \<times> nat) list"

definition fp_fec :: "frame_params \<Rightarrow> FecConfig" where
  "fp_fec fp = fec_for_mode (fp_mode fp)"

definition data_packet :: "frame_params \<Rightarrow> bytes \<Rightarrow> nat \<Rightarrow> PacketHeader \<times> bytes" where
  "data_packet fp fb i =
     (data_header (fp_id fp) (fp_mode fp) (fp_flags fp) (fp_pts fp) (fp_fec fp)
        (of_nat (length (chunks CHUNK_MAX fb))) (fragment fb (fp_ranges fp) ! i), units_of fb ! i)"

definition group_units :: "frame_params \<Rightarrow> bytes \<Rightarrow> nat \<Rightarrow> bytes list" where
  "group_units fp fb g = chunks (fec_n (fp_fec fp)) (units_of fb) ! g"

definition repair_packet :: "frame_params \<Rightarrow> bytes \<Rightarrow> nat \<Rightarrow> nat \<Rightarrow> PacketHeader \<times> bytes" where
  "repair_packet fp fb g c =
     (let rp = encode_repair (group_units fp fb g) (fec_k (fp_fec fp)) c in
      (repair_header (fp_id fp) (fp_mode fp) (fp_flags fp) (fp_pts fp) (fp_fec fp)
        (of_nat (length (chunks CHUNK_MAX fb))) (of_nat g) rp, rp_xor_payload rp))"

definition group_count :: "frame_params \<Rightarrow> bytes \<Rightarrow> nat" where
  "group_count fp fb = (if fec_is_enabled (fp_fec fp)
     then length (chunks (fec_n (fp_fec fp)) (units_of fb)) else 0)"

definition frame_packets :: "frame_params \<Rightarrow> bytes \<Rightarrow> (PacketHeader \<times> bytes) set" where
  "frame_packets fp fb = {data_packet fp fb i | i. i < length (chunks CHUNK_MAX fb)}
     \<union> {repair_packet fp fb g c | g c. g < group_count fp fb \<and> c < fec_k (fp_fec fp)}"

lemma map_chunks: "chunks n (map f xs) = map (map f) (chunks n xs)"
proof (induction n xs rule: chunks.induct)
  case (1 n xs)
  then show ?case
    by (cases "xs = [] \<or> n = 0") (auto simp: chunks_step take_map drop_map)
qed

lemma group_count_le:
  assumes "frame_fits (fp_mode fp) fb"
  shows "group_count fp fb \<le> 256"
proof (cases "fec_is_enabled (fp_fec fp)")
  case True
  have "div_ceil (length (chunks CHUNK_MAX fb)) (fec_n (fp_fec fp)) \<le> 256"
    using assms fec_mode_bounds [of "fp_mode fp"] True
    by (cases "fp_mode fp") (auto simp: frame_fits_def fp_fec_def div_ceil_def fec_config_defs)
  then show ?thesis
    using True fec_mode_bounds [of "fp_mode fp"] by (simp add: group_count_def length_chunks fp_fec_def)
qed (simp add: group_count_def)

lemma repairs_of_frame:
  assumes "frame_fits (fp_mode fp) fb"
  shows "set (repairs_by_group_of (fp_fec fp) (fragment fb vr))
    = {(of_nat g, map (encode_repair (group_units fp fb g) (fec_k (fp_fec fp))) [0..<fec_k (fp_fec fp)])
        | g. g < group_count fp fb}" (is "set ?m = ?R")
proof (cases "fec_is_enabled (fp_fec fp)")
  case True
  let ?n = "fec_n (fp_fec fp)" and ?k = "fec_k (fp_fec fp)"
  let ?gs = "chunks ?n (fragment fb vr)"
  have nk: "0 < ?n" "0 < ?k" using fec_mode_bounds True by (auto simp: fp_fec_def)
  have units: "map (map df_unit) ?gs = chunks ?n (units_of fb)"
    by (simp add: map_chunks [symmetric] units_fragment)
  have gc: "group_count fp fb = length ?gs" using True units by (metis group_count_def length_map)
  have le: "0 + length ?gs \<le> 256" using group_count_le [OF assms] gc by simp
  have m: "?m = repairs_loop ?k 0 ?gs []" using True by (simp add: repairs_by_group_of_def)
  have mem: "(key, v) \<in> set ?m \<longleftrightarrow> map_of ?m key = Some v" for key v
    using distinct_repairs_loop [of "[]" ?k 0 ?gs] m by (simp add: map_of_eq_Some_iff)
  have reps: "encode_repairs (map df_unit (?gs ! g)) ?k = map (encode_repair (group_units fp fb g) ?k) [0..<?k]"
    if "g < length ?gs" for g
  proof -
    have "map df_unit (?gs ! g) = group_units fp fb g"
      using that units by (metis group_units_def nth_map)
    moreover have "?gs ! g \<noteq> []"
      using chunks_length_bounds [OF nth_mem [OF that]] by auto
    ultimately show ?thesis using nk by (auto simp: encode_repairs_def)
  qed
  have "(key, v) \<in> set ?m \<longleftrightarrow> (key, v) \<in> ?R" for key v
  proof -
    have "(key, v) \<in> set ?m \<longleftrightarrow>
        unat key < length ?gs \<and> v = encode_repairs (map df_unit (?gs ! unat key)) ?k"
      unfolding mem unfolding m map_of_repairs_loop [OF le] by auto
    also have "\<dots> \<longleftrightarrow> (\<exists>g. key = of_nat g \<and> g < length ?gs
        \<and> v = map (encode_repair (group_units fp fb g) ?k) [0..<?k])"
    proof -
      have "unat (of_nat g :: u8) = g" if "g < length ?gs" for g
        using that le by (simp add: unat_of_nat_u8)
      then show ?thesis using reps by (metis of_nat_unat_id)
    qed
    finally show ?thesis by (auto simp: gc)
  qed
  then show ?thesis by auto
qed (simp add: repairs_by_group_of_def group_count_def)

lemma union_over_groups:
  "(\<Union>(g, rs) \<in> {(a g, map (e g) [0..<k]) | g. P g}. q g ` set rs)
    = {q (a g) (e g c) | g c. P g \<and> c < k}" (is "(\<Union>(g, rs) \<in> ?S. _) = ?R")
proof (intro subset_antisym subsetI)
  fix x assume "x \<in> ?R"
  then obtain g c where x: "x = q (a g) (e g c)" "P g" "c < k" by blast
  then have mem: "(a g, map (e g) [0..<k]) \<in> ?S" and img: "x \<in> q (a g) ` set (map (e g) [0..<k])"
    by auto
  show "x \<in> (\<Union>(g, rs) \<in> ?S. q g ` set rs)" by (rule UN_I [OF mem]) (use img in simp)
next
  fix x assume "x \<in> (\<Union>(g, rs) \<in> ?S. q g ` set rs)"
  then obtain g c where "x = q (a g) (e g c)" "P g" "c < k" by auto
  then show "x \<in> ?R" by blast
qed

lemma build_frame_packets_set:
  assumes "hash_iter iter" and "frame_fits mode fb"
  shows "set (build_frame_packets iter fb fid mode kf sil h265 pts vr (fec_for_mode mode))
    = (\<lambda>(h, p). packet_encode h p []) ` frame_packets
        \<lparr>fp_id = fid, fp_mode = mode, fp_flags = base_flags_of kf sil h265 (fec_for_mode mode),
         fp_pts = pts, fp_ranges = vr\<rparr> fb" (is "_ = ?enc ` frame_packets ?fp fb")
proof -
  let ?n = "length (chunks CHUNK_MAX fb)"
  let ?fl = "base_flags_of kf sil h265 (fec_for_mode mode)"
  have fec: "fp_fec ?fp = fec_for_mode mode" by (simp add: fp_fec_def)
  let ?ds = "data_slice fid mode kf ?fl pts (fec_for_mode mode) (of_nat ?n)"
  have d: "(\<lambda>s. sl_payload (?ds s)) ` set (fragment fb vr) = ?enc ` {data_packet ?fp fb i | i. i < ?n}"
  proof -
    have "sl_payload (?ds (fragment fb vr ! i)) = ?enc (data_packet ?fp fb i)" if "i < ?n" for i
    proof -
      have "df_unit (fragment fb vr ! i) = units_of fb ! i"
        using that units_fragment [of fb vr] by (metis length_fragment nth_map)
      then show ?thesis by (simp add: data_slice_def data_packet_def fec)
    qed
    moreover have "set (fragment fb vr) = (!) (fragment fb vr) ` {i. i < ?n}"
      by (auto simp: set_conv_nth)
    ultimately show ?thesis by (simp add: image_image setcompr_eq_image)
  qed
  have r: "(\<Union>(g, rs) \<in> set (repairs_by_group_of (fec_for_mode mode) (fragment fb vr)).
        (\<lambda>r. sl_payload (repair_slice fid mode ?fl pts (fec_for_mode mode) (of_nat ?n) g r)) ` set rs)
      = ?enc ` {repair_packet ?fp fb g c | g c. g < group_count ?fp fb \<and> c < fec_k (fp_fec ?fp)}"
  proof -
    let ?k = "fec_k (fp_fec ?fp)"
    have s: "set (repairs_by_group_of (fec_for_mode mode) (fragment fb vr))
      = {(of_nat g, map (encode_repair (group_units ?fp fb g) ?k) [0..<?k]) | g. g < group_count ?fp fb}"
      using repairs_of_frame [of ?fp fb vr] assms(2) by (simp add: fec)
    have "sl_payload (repair_slice fid mode ?fl pts (fec_for_mode mode) (of_nat ?n) (of_nat g)
        (encode_repair (group_units ?fp fb g) ?k c)) = ?enc (repair_packet ?fp fb g c)" for g c
      by (simp add: repair_packet_def repair_slice_def Let_def fec)
    note eq = this
    show ?thesis unfolding s union_over_groups eq by blast
  qed
  have "set (build_frame_packets iter fb fid mode kf sil h265 pts vr (fec_for_mode mode))
      = (\<lambda>s. sl_payload (?ds s)) ` set (fragment fb vr)
        \<union> (\<Union>(g, rs) \<in> set (repairs_by_group_of (fec_for_mode mode) (fragment fb vr)).
        (\<lambda>r. sl_payload (repair_slice fid mode ?fl pts (fec_for_mode mode) (of_nat ?n) g r)) ` set rs)"
    using assms(1)
    by (simp add: build_frame_packets_def Let_def image_Un image_image image_UN split_def)
  then show ?thesis unfolding d r by (simp add: frame_packets_def image_Un)
qed

lemma group_units_props:
  assumes "g < group_count fp fb"
  shows "group_units fp fb g = take (fec_n (fp_fec fp)) (drop (g * fec_n (fp_fec fp)) (units_of fb))"
    and "g * fec_n (fp_fec fp) < length (units_of fb)" and "0 < fec_n (fp_fec fp)" "0 < fec_k (fp_fec fp)"
proof -
  have e: "fec_is_enabled (fp_fec fp)" using assms by (simp add: group_count_def split: if_splits)
  then show n: "0 < fec_n (fp_fec fp)" "0 < fec_k (fp_fec fp)" by (simp_all add: fec_is_enabled_def)
  have g: "g < length (chunks (fec_n (fp_fec fp)) (units_of fb))"
    using assms e by (simp add: group_count_def)
  then show "group_units fp fb g = take (fec_n (fp_fec fp)) (drop (g * fec_n (fp_fec fp)) (units_of fb))"
    unfolding group_units_def using n by (simp add: nth_chunks)
  show "g * fec_n (fp_fec fp) < length (units_of fb)" by (rule chunk_index_bound [OF n(1) g])
qed

lemma filter_shift: "filter P [a..<a + n] = map ((+) a) (filter (\<lambda>i. P (a + i)) [0..<n])"
proof -
  have "[a..<a + n] = map ((+) a) [0..<n]" by (rule nth_equalityI) simp_all
  then show ?thesis by (simp only: filter_map o_def)
qed

text \<open>The units the receiver computes from a repair header are the ones the sender combined.\<close>

lemma repair_packet_received:
  assumes fits: "frame_fits (fp_mode fp) fb" and g: "g < group_count fp fb" and c: "c < fec_k (fp_fec fp)"
    and p: "repair_packet fp fb g c = (h, payload)"
  defines "gs \<equiv> g * fec_n (fp_fec fp)"
  shows "covered (repair_of_header h payload) = map ((+) gs) (class_idx (fec_k (fp_fec fp)) c 0 (length (group_units fp fb g)))"
    and "repair_ok (units_of fb) (repair_of_header h payload)"
    and "length payload = max_len (group_units fp fb g)"
proof -
  let ?n = "fec_n (fp_fec fp)" and ?k = "fec_k (fp_fec fp)" and ?N = "length (chunks CHUNK_MAX fb)"
  let ?gu = "group_units fp fb g"
  note gp = group_units_props [OF g]
  have e: "fec_is_enabled (fp_fec fp)" using gp by (simp add: fec_is_enabled_def)
  have nk: "?n + ?k < 256" using fec_mode_bounds e by (simp add: fp_fec_def)
  have N: "?N < 65536" using frame_fits_u16 [OF fits] .
  have g256: "g < 256" using group_count_le [OF fits] g by simp
  have lgu: "length ?gu = min ?n (?N - gs)" using gp(1) by (simp add: gs_def)
  have gsN: "gs < ?N" using gp(2) by (simp add: gs_def)
  have ge: "min (gs + ?n) ?N = gs + length ?gu" using lgu gsN by simp
  have nth: "?gu ! i = units_of fb ! (gs + i)" if "i < length ?gu" for i
    using that gp(1) gp(2) by (simp add: gs_def)
  have hdr: "ph_mode h = fp_mode fp" "unat (ph_fec_group h) = g" "unat (ph_packet_count h) = ?N"
    "unat (ph_fec_idx h) = ?n + c" "payload = rp_xor_payload (encode_repair ?gu ?k c)"
    using p g256 N nk c unat_of_nat_u8 [of "?n + c"]
    by (auto simp: repair_packet_def repair_header_def Let_def encode_repair_def unat_of_nat_u8
        unat_of_nat_u16 split: prod.splits)
  have cls: "filter (\<lambda>i. (i - gs) mod ?k = c) [gs..<gs + length ?gu]
      = map ((+) gs) (class_idx ?k c 0 (length ?gu))"
    by (simp add: filter_shift class_idx_def)
  have c256: "unat (of_nat c :: u8) = c" using nk c by (simp add: unat_of_nat_u8)
  have cov: "rp_covers (repair_of_header h payload) = map of_nat (map ((+) gs) (class_idx ?k c 0 (length ?gu)))"
    using hdr gp(4) ge cls c256 max_absorb1 [of 1 ?n] gp(3)
    by (simp add: repair_of_header_def Let_def fp_fec_def [symmetric] gs_def)
  have idN: "map unat (map (of_nat :: nat \<Rightarrow> u16) xs) = xs" if "\<forall>x \<in> set xs. x < ?N" for xs
    using that N by (auto simp: unat_of_nat_u16 intro!: map_idI)
  have bound: "\<forall>x \<in> set (map ((+) gs) (class_idx ?k c 0 (length ?gu))). x < ?N"
    using lgu by auto
  show covered: "covered (repair_of_header h payload) = map ((+) gs) (class_idx ?k c 0 (length ?gu))"
    unfolding covered_def cov by (rule idN [OF bound])
  have small: "length ?gu \<le> 65536" using lgu N by simp
  show lp: "length payload = max_len ?gu" by (simp add: hdr(5) length_encode_repair [OF small])
  have xp: "rp_xor_payload (repair_of_header h payload) = payload"
    by (simp add: repair_of_header_def Let_def)
  have "byte_at payload j = xor_over (\<lambda>i. byte_at (units_of fb ! i) j) (covered (repair_of_header h payload))" for j
    unfolding covered xor_over_map unfolding hdr(5) byte_at_encode_repair [OF small]
    by (rule xor_over_cong) (simp add: nth)
  moreover have "length (units_of fb ! i) \<le> length payload"
    if "i \<in> set (covered (repair_of_header h payload))" for i
    using that unfolding covered lp by (auto simp: nth [symmetric] intro: max_len_ge)
  ultimately show "repair_ok (units_of fb) (repair_of_header h payload)"
    using bound unfolding repair_ok_def covered xp
    by (simp add: distinct_map)
qed

section \<open>Lemmas: one packet into a pending frame\<close>

text \<open>Every slot represents its unit, every stored repair packet fits the units and the recorded
  lengths reach the units it can restore.\<close>

definition pending_ok :: "Mode \<Rightarrow> bytes list \<Rightarrow> PendingFrame \<Rightarrow> bool" where
  "pending_ok mode units f \<longleftrightarrow> slots_ok units (pf_data f) \<and> pf_fec_n f = max (fec_n (fec_for_mode mode)) 1
     \<and> length (pf_data_lens f) = length units
     \<and> (\<forall>(g, rs) \<in> set (pf_repairs_by_group f).
          (\<forall>r \<in> set rs. repair_ok units r) \<and> lens_ok units rs (pf_data_lens f))"

text \<open>Progress: slots stay filled and repair packets stay stored.\<close>

definition has_repair :: "PendingFrame \<Rightarrow> nat list \<Rightarrow> bool" where
  "has_repair f is \<longleftrightarrow> (\<exists>(g, rs) \<in> set (pf_repairs_by_group f). \<exists>r \<in> set rs. covered r = is)"

lemma has_repairI:
  "(g, rs) \<in> set (pf_repairs_by_group f) \<Longrightarrow> r \<in> set rs \<Longrightarrow> covered r = is \<Longrightarrow> has_repair f is"
  unfolding has_repair_def by blast

definition grows :: "PendingFrame \<Rightarrow> PendingFrame \<Rightarrow> bool" where
  "grows f f' \<longleftrightarrow> (\<forall>i. pf_data f ! i \<noteq> None \<longrightarrow> pf_data f' ! i \<noteq> None)
     \<and> (\<forall>is. has_repair f is \<longrightarrow> has_repair f' is)"

lemma lens_ok_mono:
  assumes "lens_ok units rs lens" "length lens' = length lens" "\<forall>i < length lens. lens ! i \<le> lens' ! i"
    and "\<forall>r \<in> set rs. repair_ok units r"
  shows "lens_ok units rs lens'"
proof -
  have "length (units ! i) \<le> lens' ! i" if "r \<in> set rs" "i \<in> set (covered r)" for r i
  proof -
    have "i < length lens" "length (units ! i) \<le> lens ! i"
      using assms(1,4) that by (auto simp: lens_ok_def repair_ok_def)
    with assms(3) show ?thesis using le_trans by blast
  qed
  with assms(1,2) show ?thesis by (simp add: lens_ok_def)
qed

lemma note_group_padded_len_simps [simp]:
  "pf_data (note_group_padded_len i l f) = pf_data f"
  "pf_repairs_by_group (note_group_padded_len i l f) = pf_repairs_by_group f"
  "pf_fec_n (note_group_padded_len i l f) = pf_fec_n f"
  "pf_received_count (note_group_padded_len i l f) = pf_received_count f"
  "length (pf_data_lens (note_group_padded_len i l f)) = length (pf_data_lens f)"
  by (simp_all add: note_group_padded_len_def Let_def)

lemma nth_note_group_padded_len:
  assumes "j < length (pf_data_lens f)"
  shows "pf_data_lens (note_group_padded_len i l f) ! j =
    (if i div max (pf_fec_n f) 1 * max (pf_fec_n f) 1 \<le> j
        \<and> j < min (i div max (pf_fec_n f) 1 * max (pf_fec_n f) 1 + max (pf_fec_n f) 1) (length (pf_data f))
     then max (pf_data_lens f ! j) l else pf_data_lens f ! j)"
  using assms by (simp add: note_group_padded_len_def Let_def nth_enumerate_eq)

lemma pending_ok_note:
  assumes "pending_ok mode units f"
  shows "pending_ok mode units (note_group_padded_len i l f)"
proof -
  have "\<forall>j < length (pf_data_lens f). pf_data_lens f ! j \<le> pf_data_lens (note_group_padded_len i l f) ! j"
    by (simp add: nth_note_group_padded_len)
  then show ?thesis
    using assms lens_ok_mono [of units _ "pf_data_lens f" "pf_data_lens (note_group_padded_len i l f)"]
    by (fastforce simp: pending_ok_def)
qed

lemma pending_ok_new:
  assumes "unat pc = length units"
  shows "pending_ok mode units (pending_new now pc (max (fec_n (fec_for_mode mode)) 1))"
  using assms by (simp add: pending_ok_def pending_new_def slots_ok_def)

lemma ingest_video_ok:
  assumes "pending_ok mode units f" and "unat (ph_packet_index h) = i" and "i < length units"
  shows "pending_ok mode units (ingest_video h (units ! i) f)"
    and "grows f (ingest_video h (units ! i) f)" and "pf_data (ingest_video h (units ! i) f) ! i \<noteq> None"
proof -
  let ?f = "note_group_padded_len i (length (units ! i)) f"
  have len: "length (pf_data f) = length units" using assms(1) by (simp add: pending_ok_def slots_ok_def)
  have "slots_ok units ((pf_data f)[i := Some (units ! i)])"
    using assms(1) by (intro slots_ok_update) (simp_all add: pending_ok_def)
  then show "pending_ok mode units (ingest_video h (units ! i) f)"
    using pending_ok_note [OF assms(1), of i "length (units ! i)"] assms
    by (auto simp: ingest_video_def Let_def pending_ok_def)
  show "grows f (ingest_video h (units ! i) f)"
    using len assms(2,3)
    by (auto simp: grows_def ingest_video_def Let_def has_repair_def nth_list_update)
  show "pf_data (ingest_video h (units ! i) f) ! i \<noteq> None"
    using len assms(2,3) by (auto simp: ingest_video_def Let_def)
qed

lemma map_of_in_set: "map_of m k = Some v \<Longrightarrow> (k, v) \<in> set m"
  by (rule map_of_SomeD)

lemma update_groups:
  assumes "x \<in> set (AList.update k (v :: 'b) m)"
  shows "x = (k, v) \<or> x \<in> set m"
  using assms by (induction m) (auto split: if_splits)

lemma update_keeps:
  assumes "(k', v') \<in> set m"
  shows "(k', v') \<in> set (AList.update k v m) \<or> k' = k \<and> map_of m k = Some v'"
  using assms by (induction m) (auto split: if_splits)

lemma pending_ok_put:
  assumes "pending_ok mode units f" "\<forall>r \<in> set rs. repair_ok units r" "lens_ok units rs (pf_data_lens f)"
  shows "pending_ok mode units (f\<lparr>pf_repairs_by_group := AList.update k rs (pf_repairs_by_group f)\<rparr>)"
proof -
  have "(\<forall>r \<in> set rs'. repair_ok units r) \<and> lens_ok units rs' (pf_data_lens f)"
    if "(g, rs') \<in> set (AList.update k rs (pf_repairs_by_group f))" for g rs'
    using update_groups [OF that] assms by (fastforce simp: pending_ok_def)
  with assms(1) show ?thesis by (auto simp: pending_ok_def)
qed

lemma ingest_repair_ok:
  assumes ok: "pending_ok mode units f" and m: "ph_mode h = mode"
    and r: "repair_ok units (repair_of_header h payload)"
    and lo: "\<forall>i \<in> set (covered (repair_of_header h payload)).
       unat (ph_fec_group h) * max (fec_n (fec_for_mode mode)) 1 \<le> i
       \<and> i < unat (ph_fec_group h) * max (fec_n (fec_for_mode mode)) 1 + max (fec_n (fec_for_mode mode)) 1"
  shows "pending_ok mode units (ingest_repair h payload f)"
    and "grows f (ingest_repair h payload f)"
    and "has_repair (ingest_repair h payload f) (covered (repair_of_header h payload))"
proof -
  let ?n = "max (fec_n (fec_for_mode mode)) 1" and ?r = "repair_of_header h payload"
  let ?gs = "unat (ph_fec_group h) * ?n"
  let ?f = "if ?gs < length (pf_data f) then note_group_padded_len ?gs (length payload) f else f"
  let ?old = "case map_of (pf_repairs_by_group ?f) (ph_fec_group h) of Some rs \<Rightarrow> rs | None \<Rightarrow> []"
  have res: "ingest_repair h payload f = ?f\<lparr>pf_repairs_by_group :=
      AList.update (ph_fec_group h) (?old @ [?r]) (pf_repairs_by_group ?f)\<rparr>"
    by (simp add: ingest_repair_def Let_def m)
  have okf: "pending_ok mode units ?f" using ok pending_ok_note [OF ok] by simp
  have xp: "rp_xor_payload ?r = payload" by (simp add: repair_of_header_def Let_def)
  have new: "lens_ok units [?r] (pf_data_lens ?f)"
  proof -
    have "length (units ! i) \<le> pf_data_lens ?f ! i" if i: "i \<in> set (covered ?r)" for i
    proof -
      have b: "?gs \<le> i" "i < ?gs + ?n" "i < length units" "length (units ! i) \<le> length payload"
        using lo i r xp by (auto simp: repair_ok_def)
      have l: "length (pf_data f) = length units" "length (pf_data_lens f) = length units" "pf_fec_n f = ?n"
        using ok by (auto simp: pending_ok_def slots_ok_def)
      have "?gs div ?n * ?n = ?gs" by simp
      then show ?thesis
        using b l by (simp add: nth_note_group_padded_len le_max_iff_disj)
    qed
    then show ?thesis using okf by (simp add: lens_ok_def pending_ok_def)
  qed
  have old: "(\<forall>r \<in> set ?old. repair_ok units r) \<and> lens_ok units ?old (pf_data_lens ?f)"
  proof (cases "map_of (pf_repairs_by_group ?f) (ph_fec_group h)")
    case None
    with okf show ?thesis by (simp add: lens_ok_def pending_ok_def)
  next
    case (Some rs)
    from map_of_in_set [OF this] okf
    have "(\<forall>r \<in> set rs. repair_ok units r) \<and> lens_ok units rs (pf_data_lens ?f)"
      by (fastforce simp: pending_ok_def)
    with Some show ?thesis by simp
  qed
  have grp: "(\<forall>r \<in> set (?old @ [?r]). repair_ok units r) \<and> lens_ok units (?old @ [?r]) (pf_data_lens ?f)"
    using old new r by (auto simp: lens_ok_def)
  show "pending_ok mode units (ingest_repair h payload f)"
    unfolding res by (rule pending_ok_put [OF okf]) (use grp in blast)+
  have key: "map_of (AList.update (ph_fec_group h) (?old @ [?r]) (pf_repairs_by_group ?f)) (ph_fec_group h)
      = Some (?old @ [?r])"
    by (simp add: update_conv')
  have reps: "pf_repairs_by_group (ingest_repair h payload f)
      = AList.update (ph_fec_group h) (?old @ [?r]) (pf_repairs_by_group ?f)" unfolding res by simp
  note stored = has_repairI [where f = "ingest_repair h payload f", unfolded reps, OF map_of_in_set [OF key]]
  show "has_repair (ingest_repair h payload f) (covered ?r)" by (rule stored) simp_all
  have "has_repair (ingest_repair h payload f) is" if repair: "has_repair f is" for "is"
  proof -
    obtain g rs r where r: "(g, rs) \<in> set (pf_repairs_by_group ?f)" "r \<in> set rs" "covered r = is"
      using repair by (auto simp: has_repair_def)
    from update_keeps [OF r(1), of "ph_fec_group h" "?old @ [?r]"] show ?thesis
    proof
      assume "(g, rs) \<in> set (AList.update (ph_fec_group h) (?old @ [?r]) (pf_repairs_by_group ?f))"
      from has_repairI [where f = "ingest_repair h payload f", unfolded reps, OF this r(2,3)]
      show ?thesis .
    next
      assume "g = ph_fec_group h \<and> map_of (pf_repairs_by_group ?f) (ph_fec_group h) = Some rs"
      then have "r \<in> set (?old @ [?r])" using r(2) by simp
      from stored [OF this r(3)] show ?thesis .
    qed
  qed
  then show "grows f (ingest_repair h payload f)"
    unfolding res by (auto simp: grows_def)
qed

section \<open>Lemmas: recovery and completion\<close>

lemma recover_groups_ok:
  assumes "\<forall>(g, rs) \<in> set gs. (\<forall>r \<in> set rs. repair_ok units r) \<and> lens_ok units rs lens"
    and "slots_ok units data"
  shows "\<exists>data'. recover_groups lens gs data = Some data' \<and> slots_ok units data'
    \<and> (\<forall>i. data ! i \<noteq> None \<longrightarrow> data' ! i \<noteq> None)
    \<and> (\<forall>(g, rs) \<in> set gs. \<forall>r \<in> set rs. \<forall>i \<in> set (covered r).
         (\<forall>j \<in> set (covered r). j \<noteq> i \<longrightarrow> data ! j \<noteq> None) \<longrightarrow> data' ! i \<noteq> None)"
  using assms
proof (induction gs arbitrary: data)
  case (Cons grp gs)
  obtain g rs where grp: "grp = (g, rs)" by (cases grp)
  have ok: "\<forall>r \<in> set rs. repair_ok units r" and lo: "lens_ok units rs lens"
    and rest: "\<forall>(g, rs) \<in> set gs. (\<forall>r \<in> set rs. repair_ok units r) \<and> lens_ok units rs lens"
    using Cons.prems(1) grp by auto
  obtain d1 where d1: "recover data lens rs = Some d1" "slots_ok units d1"
    and k1: "\<forall>i x. data ! i = Some x \<longrightarrow> d1 ! i = Some x"
    using recover_sound [OF ok Cons.prems(2) lo] by blast
  have c1: "d1 ! i \<noteq> None" if "r \<in> set rs" "i \<in> set (covered r)"
      "\<forall>j \<in> set (covered r). j \<noteq> i \<longrightarrow> data ! j \<noteq> None" for r i
    using recover_complete [OF ok Cons.prems(2) lo that d1(1)] by auto
  have k1': "\<forall>i. data ! i \<noteq> None \<longrightarrow> d1 ! i \<noteq> None" using k1 by fastforce
  obtain d2 where d2: "recover_groups lens gs d1 = Some d2" "slots_ok units d2"
    and k2: "\<forall>i. d1 ! i \<noteq> None \<longrightarrow> d2 ! i \<noteq> None"
    and c2: "\<forall>(g, rs) \<in> set gs. \<forall>r \<in> set rs. \<forall>i \<in> set (covered r).
         (\<forall>j \<in> set (covered r). j \<noteq> i \<longrightarrow> d1 ! j \<noteq> None) \<longrightarrow> d2 ! i \<noteq> None"
    using Cons.IH [OF rest d1(2)] by blast
  have "d2 ! i \<noteq> None" if "(g', rs') \<in> set (grp # gs)" "r \<in> set rs'" "i \<in> set (covered r)"
      "\<forall>j \<in> set (covered r). j \<noteq> i \<longrightarrow> data ! j \<noteq> None" for g' rs' r i
  proof (cases "(g', rs') = grp")
    case True
    then have "d1 ! i \<noteq> None" using c1 that grp by blast
    with k2 show ?thesis by blast
  next
    case False
    then have "(g', rs') \<in> set gs" using that(1) by simp
    moreover have "\<forall>j \<in> set (covered r). j \<noteq> i \<longrightarrow> d1 ! j \<noteq> None" using that(4) k1' by blast
    ultimately show ?thesis using c2 that(2,3) by fast
  qed
  then have c: "\<forall>(g, rs) \<in> set (grp # gs). \<forall>r \<in> set rs. \<forall>i \<in> set (covered r).
         (\<forall>j \<in> set (covered r). j \<noteq> i \<longrightarrow> data ! j \<noteq> None) \<longrightarrow> d2 ! i \<noteq> None" by blast
  have "recover_groups lens (grp # gs) data = Some d2" by (simp add: grp d1(1) d2(1))
  moreover have "\<forall>i. data ! i \<noteq> None \<longrightarrow> d2 ! i \<noteq> None" using k1' k2 by blast
  ultimately show ?case using d2(2) c by blast
qed simp

text \<open>Everything that is needed to fill slot \<open>i\<close> is there: the slot itself, or a repair packet whose
  other units are.\<close>

definition restorable :: "PendingFrame \<Rightarrow> nat \<Rightarrow> bool" where
  "restorable f i \<longleftrightarrow> pf_data f ! i \<noteq> None
     \<or> (\<exists>is. has_repair f is \<and> i \<in> set is \<and> (\<forall>j \<in> set is. j \<noteq> i \<longrightarrow> pf_data f ! j \<noteq> None))"

lemma restorable_grows: "restorable f i \<Longrightarrow> grows f f' \<Longrightarrow> restorable f' i"
  unfolding restorable_def grows_def by blast

lemma try_recover_ok:
  assumes "hash_iter iter" and ok: "pending_ok mode units f"
  shows "\<exists>f'. try_recover iter f = Some f' \<and> pending_ok mode units f' \<and> grows f f'
    \<and> (\<forall>i. restorable f i \<longrightarrow> pf_data f' ! i \<noteq> None)"
proof (cases "pf_repairs_by_group f = []")
  case True
  then have "\<not> has_repair f is" for "is" by (simp add: has_repair_def)
  with True ok show ?thesis by (auto simp: try_recover_def grows_def restorable_def)
next
  case False
  let ?gs = "iter (pf_repairs_by_group f)"
  have gs: "set ?gs = set (pf_repairs_by_group f)" using assms(1) by simp
  have gok: "\<forall>(g, rs) \<in> set ?gs. (\<forall>r \<in> set rs. repair_ok units r) \<and> lens_ok units rs (pf_data_lens f)"
    and sok: "slots_ok units (pf_data f)"
    using ok unfolding gs by (simp_all add: pending_ok_def)
  obtain d where d: "recover_groups (pf_data_lens f) ?gs (pf_data f) = Some d" "slots_ok units d"
    and keep: "\<forall>i. pf_data f ! i \<noteq> None \<longrightarrow> d ! i \<noteq> None"
    and fill: "\<forall>(g, rs) \<in> set ?gs. \<forall>r \<in> set rs. \<forall>i \<in> set (covered r).
         (\<forall>j \<in> set (covered r). j \<noteq> i \<longrightarrow> pf_data f ! j \<noteq> None) \<longrightarrow> d ! i \<noteq> None"
    using recover_groups_ok [OF gok sok] by blast
  have res: "try_recover iter f = Some (f\<lparr>pf_data := d\<rparr>)"
    using False d(1) by (simp add: try_recover_def)
  have "d ! i \<noteq> None" if "restorable f i" for i
    using that keep fill unfolding restorable_def has_repair_def gs by fast
  then show ?thesis
    using res ok d(2) keep by (auto simp: pending_ok_def grows_def has_repair_def)
qed

lemma pf_is_complete_iff: "pf_is_complete f \<longleftrightarrow> (\<forall>i < length (pf_data f). pf_data f ! i \<noteq> None)"
  by (simp add: pf_is_complete_def list_all_length)

lemma ingest_finish_ok:
  assumes "hash_iter iter" and ok: "pending_ok mode (units_of fb) f"
  shows "\<exists>r' res. ingest_finish iter fid f r = Some (r', res)
    \<and> (if res = Pending
       then \<exists>f'. fr_pending r' = AList.update fid f' (fr_pending r) \<and> pending_ok mode (units_of fb) f' \<and> grows f f'
            \<and> \<not> (\<forall>i < length (units_of fb). restorable f i)
       else res = FrameComplete fid fb \<and> fr_pending r' = AList.delete fid (fr_pending r))"
proof -
  obtain f' where f': "(if pf_is_complete f then Some f else try_recover iter f) = Some f'"
      "pending_ok mode (units_of fb) f'" "grows f f'"
      "\<not> pf_is_complete f \<longrightarrow> (\<forall>i. restorable f i \<longrightarrow> pf_data f' ! i \<noteq> None)"
    using try_recover_ok [OF assms] ok by (cases "pf_is_complete f") (auto simp: grows_def)
  have so: "slots_ok (units_of fb) (pf_data f')" using f'(2) by (simp add: pending_ok_def)
  show ?thesis
  proof (cases "pf_is_complete f'")
    case True
    then have "pf_reassemble f' = Some fb"
      using reassemble_slots [OF so] by (simp add: pf_reassemble_def pf_is_complete_def)
    with True f'(1) show ?thesis by (simp add: ingest_finish_def)
  next
    case False
    have "length (pf_data f') = length (units_of fb)" "length (pf_data f) = length (units_of fb)"
      using so ok by (simp_all add: slots_ok_def pending_ok_def)
    with False obtain i where i: "i < length (units_of fb)" "pf_data f' ! i = None"
      "i < length (pf_data f)" by (auto simp: pf_is_complete_iff)
    then have "pf_data f ! i = None" using f'(3) by (auto simp: grows_def)
    with i(3) have "\<not> pf_is_complete f" by (auto simp: pf_is_complete_iff)
    with f'(4) i have "\<not> (\<forall>i < length (units_of fb). restorable f i)" by auto
    with False f' show ?thesis by (simp add: ingest_finish_def) blast
  qed
qed

section \<open>Lemmas: a stream of packets\<close>

text \<open>The receiver's loop over incoming datagrams: decode, drop what does not decode, ingest.\<close>

fun ingest_wires ::
  "(group_repairs \<Rightarrow> group_repairs) \<Rightarrow> (duration \<times> bytes) list \<Rightarrow> FrameReassembler
     \<Rightarrow> (FrameReassembler \<times> IngestResult list) option" where
  "ingest_wires iter [] r = Some (r, [])"
| "ingest_wires iter ((now, wire) # arrivals) r =
     (case packet_decode wire of
        Inl _ \<Rightarrow> ingest_wires iter arrivals r
      | Inr (h, payload) \<Rightarrow>
          case ingest iter now h payload r of
            None \<Rightarrow> None
          | Some (r', res) \<Rightarrow>
              case ingest_wires iter arrivals r' of
                None \<Rightarrow> None
              | Some (r'', ress) \<Rightarrow> Some (r'', res # ress))"

definition wire_of :: "PacketHeader \<times> bytes \<Rightarrow> bytes" where
  "wire_of hp = packet_encode (fst hp) (snd hp) []"

lemma wire_of_eq: "(\<lambda>(h, p). packet_encode h p []) = wire_of"
  by (simp add: wire_of_def fun_eq_iff)

text \<open>The units of class \<open>c\<close> of group \<open>g\<close>.\<close>

definition class_members :: "frame_params \<Rightarrow> bytes \<Rightarrow> nat \<Rightarrow> nat \<Rightarrow> nat list" where
  "class_members fp fb g c =
     map ((+) (g * fec_n (fp_fec fp))) (class_idx (fec_k (fp_fec fp)) c 0 (length (group_units fp fb g)))"

definition absorbed :: "frame_params \<Rightarrow> bytes \<Rightarrow> PacketHeader \<times> bytes \<Rightarrow> PendingFrame \<Rightarrow> bool" where
  "absorbed fp fb pkt f \<longleftrightarrow>
     (\<exists>i. pkt = data_packet fp fb i \<and> i < length (chunks CHUNK_MAX fb) \<and> pf_data f ! i \<noteq> None)
     \<or> (\<exists>g c. pkt = repair_packet fp fb g c \<and> g < group_count fp fb \<and> c < fec_k (fp_fec fp)
          \<and> has_repair f (class_members fp fb g c))"

lemma absorbed_grows: "absorbed fp fb pkt f \<Longrightarrow> grows f f' \<Longrightarrow> absorbed fp fb pkt f'"
  unfolding absorbed_def grows_def by blast

lemma data_packet_header:
  assumes "frame_fits (fp_mode fp) fb" "i < length (chunks CHUNK_MAX fb)" "data_packet fp fb i = (h, payload)"
  shows "ph_packet_type h = VideoFrame" "ph_mode h = fp_mode fp" "ph_frame_id h = fp_id fp"
    "unat (ph_packet_index h) = i" "unat (ph_packet_count h) = length (chunks CHUNK_MAX fb)"
    "payload = units_of fb ! i"
  using assms frame_fits_u16 [OF assms(1)]
  by (auto simp: data_packet_def data_header_def nth_fragment fragment_of_def Let_def unat_of_nat_u16)

lemma repair_packet_header:
  assumes "frame_fits (fp_mode fp) fb" "g < group_count fp fb" "repair_packet fp fb g c = (h, payload)"
  shows "ph_packet_type h = FecRepair" "ph_mode h = fp_mode fp" "ph_frame_id h = fp_id fp"
    "unat (ph_fec_group h) = g" "unat (ph_packet_count h) = length (chunks CHUNK_MAX fb)"
  using assms frame_fits_u16 [OF assms(1)] group_count_le [OF assms(1)]
  by (auto simp: repair_packet_def repair_header_def Let_def unat_of_nat_u16 unat_of_nat_u8)

definition entry_ok :: "frame_params \<Rightarrow> bytes \<Rightarrow> FrameReassembler \<Rightarrow> bool" where
  "entry_ok fp fb r \<longleftrightarrow> (\<forall>f. map_of (fr_pending r) (fp_id fp) = Some f
     \<longrightarrow> pending_ok (fp_mode fp) (units_of fb) f)"

lemma data_packet_inj:
  assumes "frame_fits (fp_mode fp) fb" "i < length (chunks CHUNK_MAX fb)" "j < length (chunks CHUNK_MAX fb)"
    and "data_packet fp fb i = data_packet fp fb j"
  shows "i = j"
proof -
  obtain h p where hp: "data_packet fp fb i = (h, p)" by (cases "data_packet fp fb i")
  have "unat (ph_packet_index h) = i" using data_packet_header(4) [OF assms(1,2) hp] .
  moreover have "unat (ph_packet_index h) = j"
    by (rule data_packet_header(4) [OF assms(1,3), of h p]) (use assms(4) hp in simp)
  ultimately show ?thesis by simp
qed

text \<open>The entry after the \<open>match\<close> of \<open>ingest\<close>, before recovery.\<close>

lemma ingest_packet_entry:
  assumes fits: "frame_fits (fp_mode fp) fb" and pkt: "(h, p) \<in> frame_packets fp fb" and ok: "entry_ok fp fb r"
  shows "\<exists>f0. pending_ok (fp_mode fp) (units_of fb) f0 \<and> absorbed fp fb (h, p) f0
    \<and> (\<forall>f. map_of (fr_pending r) (fp_id fp) = Some f \<longrightarrow> grows f f0)
    \<and> ingest iter now h p r = ingest_finish iter (fp_id fp) f0 r"
proof -
  let ?e = "entry_or_new now h (max (fec_n (fp_fec fp)) 1) r"
  have e: "pending_ok (fp_mode fp) (units_of fb) ?e" "map_of (fr_pending r) (fp_id fp) = Some f \<longrightarrow> ?e = f"
    if "unat (ph_packet_count h) = length (chunks CHUNK_MAX fb)" "ph_frame_id h = fp_id fp" for f
    using ok that pending_ok_new [of "ph_packet_count h" "units_of fb" "fp_mode fp" now]
    by (auto simp: entry_or_new_def entry_ok_def fp_fec_def split: option.splits)
  from pkt consider (d) i where "i < length (chunks CHUNK_MAX fb)" "data_packet fp fb i = (h, p)"
    | (r) g c where "g < group_count fp fb" "c < fec_k (fp_fec fp)" "repair_packet fp fb g c = (h, p)"
    by (auto simp: frame_packets_def)
  then show ?thesis
  proof cases
    case d
    note hd = data_packet_header [OF fits d]
    note e = e [OF hd(5,3)]
    have i: "i < length (units_of fb)" using d(1) by simp
    note v = ingest_video_ok [OF e(1) hd(4) i, folded hd(6)]
    have "ingest iter now h p r = ingest_finish iter (fp_id fp) (ingest_video h p ?e) r"
      using hd by (simp add: ingest_def fp_fec_def)
    with v e(2) d show ?thesis unfolding absorbed_def by (intro exI [of _ "ingest_video h p ?e"]) fastforce
  next
    case r
    note hd = repair_packet_header [OF fits r(1,3)] and rr = repair_packet_received [OF fits r]
    note e = e [OF hd(5,3)] and gp = group_units_props [OF r(1)]
    have n: "max (fec_n (fec_for_mode (fp_mode fp))) 1 = fec_n (fp_fec fp)"
      using gp(3) by (simp add: fp_fec_def)
    have "\<forall>i \<in> set (covered (repair_of_header h p)).
       unat (ph_fec_group h) * max (fec_n (fec_for_mode (fp_mode fp))) 1 \<le> i
       \<and> i < unat (ph_fec_group h) * max (fec_n (fec_for_mode (fp_mode fp))) 1
             + max (fec_n (fec_for_mode (fp_mode fp))) 1"
      unfolding rr(1) n hd(4) gp(1) by auto
    note v = ingest_repair_ok [OF e(1) hd(2) rr(2) this]
    have "ingest iter now h p r = ingest_finish iter (fp_id fp) (ingest_repair h p ?e) r"
      using hd by (simp add: ingest_def fp_fec_def)
    moreover have "has_repair (ingest_repair h p ?e) (class_members fp fb g c)"
      using v(3) rr(1) by (simp add: class_members_def)
    ultimately show ?thesis
      using v(1,2) e(2) r unfolding absorbed_def by (intro exI [of _ "ingest_repair h p ?e"]) fastforce
  qed
qed

text \<open>Enough packets arrived: every data packet is there, or the repair packet of its class together
  with all other data packets of that class.\<close>

definition enough :: "frame_params \<Rightarrow> bytes \<Rightarrow> (PacketHeader \<times> bytes) set \<Rightarrow> bool" where
  "enough fp fb A \<longleftrightarrow> (\<forall>i < length (chunks CHUNK_MAX fb). data_packet fp fb i \<in> A
     \<or> (\<exists>g < group_count fp fb. \<exists>c < fec_k (fp_fec fp). repair_packet fp fb g c \<in> A
          \<and> i \<in> set (class_members fp fb g c)
          \<and> (\<forall>j \<in> set (class_members fp fb g c). j \<noteq> i \<longrightarrow> data_packet fp fb j \<in> A)))"

lemma class_members_bound:
  "g < group_count fp fb \<Longrightarrow> j \<in> set (class_members fp fb g c) \<Longrightarrow> j < length (chunks CHUNK_MAX fb)"
  using group_units_props(1) by (auto simp: class_members_def)

lemma absorbed_data:
  assumes "frame_fits (fp_mode fp) fb" "i < length (chunks CHUNK_MAX fb)" "absorbed fp fb (data_packet fp fb i) f"
  shows "pf_data f ! i \<noteq> None"
proof -
  have "data_packet fp fb i \<noteq> repair_packet fp fb g c" for g c
    by (auto simp: data_packet_def repair_packet_def data_header_def repair_header_def Let_def)
  with assms show ?thesis using data_packet_inj [OF assms(1,2)] unfolding absorbed_def by blast
qed

lemma absorbed_repair:
  assumes "frame_fits (fp_mode fp) fb" "g < group_count fp fb" "c < fec_k (fp_fec fp)"
    and "absorbed fp fb (repair_packet fp fb g c) f"
  shows "has_repair f (class_members fp fb g c)"
proof -
  have "repair_packet fp fb g c \<noteq> data_packet fp fb i" for i
    by (auto simp: data_packet_def repair_packet_def data_header_def repair_header_def Let_def)
  then obtain g' c' where e: "repair_packet fp fb g c = repair_packet fp fb g' c'" "g' < group_count fp fb"
      "c' < fec_k (fp_fec fp)" "has_repair f (class_members fp fb g' c')"
    using assms(4) unfolding absorbed_def by blast
  obtain h p where hp: "repair_packet fp fb g c = (h, p)" by (cases "repair_packet fp fb g c")
  have "class_members fp fb g c = covered (repair_of_header h p)"
    using repair_packet_received(1) [OF assms(1-3) hp] by (simp add: class_members_def)
  moreover have "class_members fp fb g' c' = covered (repair_of_header h p)"
    using repair_packet_received(1) [OF assms(1) e(2,3)] hp e(1) by (simp add: class_members_def)
  ultimately show ?thesis using e(4) by simp
qed

lemma enough_restorable:
  assumes fits: "frame_fits (fp_mode fp) fb" and "enough fp fb A" and ab: "\<forall>pkt \<in> A. absorbed fp fb pkt f"
    and i: "i < length (chunks CHUNK_MAX fb)"
  shows "restorable f i"
proof -
  from assms(2) i consider "data_packet fp fb i \<in> A"
    | g c where "g < group_count fp fb" "c < fec_k (fp_fec fp)" "repair_packet fp fb g c \<in> A"
        "i \<in> set (class_members fp fb g c)"
        "\<forall>j \<in> set (class_members fp fb g c). j \<noteq> i \<longrightarrow> data_packet fp fb j \<in> A"
    unfolding enough_def by blast
  then show ?thesis
  proof cases
    case 1
    with absorbed_data [OF fits i] ab show ?thesis by (auto simp: restorable_def)
  next
    case 2
    have "has_repair f (class_members fp fb g c)" using absorbed_repair [OF fits 2(1,2)] ab 2(3) by blast
    moreover have "pf_data f ! j \<noteq> None" if "j \<in> set (class_members fp fb g c)" "j \<noteq> i" for j
      using absorbed_data [OF fits class_members_bound [OF 2(1) that(1)]] ab 2(5) that by blast
    ultimately show ?thesis using 2(4) unfolding restorable_def by blast
  qed
qed

lemma ingest_packet_step:
  assumes it: "hash_iter iter" and fits: "frame_fits (fp_mode fp) fb" and pkt: "(h, p) \<in> frame_packets fp fb"
    and ok: "entry_ok fp fb r"
  shows "\<exists>r' res. ingest iter now h p r = Some (r', res) \<and> entry_ok fp fb r'
    \<and> (res = Pending \<or> res = FrameComplete (fp_id fp) fb)
    \<and> (\<forall>k. k \<noteq> fp_id fp \<longrightarrow> map_of (fr_pending r') k = map_of (fr_pending r) k)
    \<and> (res \<noteq> Pending \<longrightarrow> map_of (fr_pending r') (fp_id fp) = None)
    \<and> (res = Pending \<longrightarrow> (\<exists>f0 f'. map_of (fr_pending r') (fp_id fp) = Some f'
          \<and> (\<forall>f. map_of (fr_pending r) (fp_id fp) = Some f \<longrightarrow> grows f f0)
          \<and> absorbed fp fb (h, p) f0 \<and> grows f0 f'
          \<and> \<not> (\<forall>i < length (chunks CHUNK_MAX fb). restorable f0 i)))"
proof -
  obtain f0 where f0: "pending_ok (fp_mode fp) (units_of fb) f0" "absorbed fp fb (h, p) f0"
      "\<forall>f. map_of (fr_pending r) (fp_id fp) = Some f \<longrightarrow> grows f f0"
    and eq: "ingest iter now h p r = ingest_finish iter (fp_id fp) f0 r"
    using ingest_packet_entry [OF fits pkt ok] by blast
  obtain r' res where fin: "ingest_finish iter (fp_id fp) f0 r = Some (r', res)"
    and cs: "if res = Pending
       then \<exists>f'. fr_pending r' = AList.update (fp_id fp) f' (fr_pending r)
            \<and> pending_ok (fp_mode fp) (units_of fb) f' \<and> grows f0 f'
            \<and> \<not> (\<forall>i < length (units_of fb). restorable f0 i)
       else res = FrameComplete (fp_id fp) fb \<and> fr_pending r' = AList.delete (fp_id fp) (fr_pending r)"
    using ingest_finish_ok [OF it f0(1)] by blast
  show ?thesis
  proof (cases "res = Pending")
    case True
    with cs obtain f' where f': "fr_pending r' = AList.update (fp_id fp) f' (fr_pending r)"
        "pending_ok (fp_mode fp) (units_of fb) f'" "grows f0 f'"
        "\<not> (\<forall>i < length (units_of fb). restorable f0 i)" by auto
    then have "map_of (fr_pending r') (fp_id fp) = Some f'" "entry_ok fp fb r'"
      "\<forall>k. k \<noteq> fp_id fp \<longrightarrow> map_of (fr_pending r') k = map_of (fr_pending r) k"
      by (simp_all add: update_conv' entry_ok_def)
    then show ?thesis using eq fin True f0 f'(3,4) by auto
  next
    case False
    with cs have "res = FrameComplete (fp_id fp) fb" "fr_pending r' = AList.delete (fp_id fp) (fr_pending r)"
      by simp_all
    then show ?thesis using eq fin by (auto simp: entry_ok_def delete_conv')
  qed
qed

lemma packet_decode_wire_of [simp]: "packet_decode (wire_of hp) = Inr hp"
  by (simp add: wire_of_def)

text \<open>No arrival sequence panics, other frames are left alone and every completion carries the frame.\<close>

lemma ingest_wires_sound:
  assumes it: "hash_iter iter" and fits: "frame_fits (fp_mode fp) fb"
    and "snd ` set pkts \<subseteq> frame_packets fp fb" and "entry_ok fp fb r"
  shows "\<exists>r' ress. ingest_wires iter (map (\<lambda>(t, pkt). (t, wire_of pkt)) pkts) r = Some (r', ress)
    \<and> (\<forall>res \<in> set ress. res = Pending \<or> res = FrameComplete (fp_id fp) fb)
    \<and> (\<forall>k. k \<noteq> fp_id fp \<longrightarrow> map_of (fr_pending r') k = map_of (fr_pending r) k)"
  using assms(3,4)
proof (induction pkts arbitrary: r)
  case (Cons x pkts)
  obtain t h p where x: "x = (t, h, p)" by (cases x)
  have hp: "(h, p) \<in> frame_packets fp fb" and rest: "snd ` set pkts \<subseteq> frame_packets fp fb"
    using Cons.prems(1) x by auto
  from ingest_packet_step [OF it fits hp Cons.prems(2), of t]
  obtain r1 res where st: "ingest iter t h p r = Some (r1, res)" "entry_ok fp fb r1"
      "res = Pending \<or> res = FrameComplete (fp_id fp) fb"
      "\<forall>k. k \<noteq> fp_id fp \<longrightarrow> map_of (fr_pending r1) k = map_of (fr_pending r) k"
    by blast
  from Cons.IH [OF rest st(2)] st show ?case by (auto simp: x)
qed simp

lemma ingest_wires_complete:
  assumes it: "hash_iter iter" and fits: "frame_fits (fp_mode fp) fb"
    and "snd ` set pkts \<subseteq> frame_packets fp fb" and "entry_ok fp fb r"
    and "ingest_wires iter (map (\<lambda>(t, pkt). (t, wire_of pkt)) pkts) r = Some (r', ress)"
    and "FrameComplete (fp_id fp) fb \<notin> set ress" and "\<not> enough fp fb A"
    and "A \<noteq> {} \<longrightarrow> (\<exists>f. map_of (fr_pending r) (fp_id fp) = Some f \<and> (\<forall>pkt \<in> A. absorbed fp fb pkt f))"
  shows "\<not> enough fp fb (A \<union> snd ` set pkts)"
  using assms(3-8)
proof (induction pkts arbitrary: r A ress)
  case (Cons x pkts)
  obtain t h p where x: "x = (t, h, p)" by (cases x)
  have hp: "(h, p) \<in> frame_packets fp fb" and rest: "snd ` set pkts \<subseteq> frame_packets fp fb"
    using Cons.prems(1) x by auto
  from ingest_packet_step [OF it fits hp Cons.prems(2), of t]
  obtain r1 res where st: "ingest iter t h p r = Some (r1, res)" "entry_ok fp fb r1"
    and res: "res = Pending \<or> res = FrameComplete (fp_id fp) fb"
    and pend: "res = Pending \<longrightarrow> (\<exists>f0 f'. map_of (fr_pending r1) (fp_id fp) = Some f'
          \<and> (\<forall>f. map_of (fr_pending r) (fp_id fp) = Some f \<longrightarrow> grows f f0)
          \<and> absorbed fp fb (h, p) f0 \<and> grows f0 f'
          \<and> \<not> (\<forall>i < length (chunks CHUNK_MAX fb). restorable f0 i))"
    by blast
  obtain ress' where run: "ingest_wires iter (map (\<lambda>(t, pkt). (t, wire_of pkt)) pkts) r1 = Some (r', ress')"
      "ress = res # ress'"
    using Cons.prems(3) by (auto simp: x st(1) split: option.splits)
  with res Cons.prems(4) have "res = Pending" by auto
  with pend obtain f0 f' where f: "map_of (fr_pending r1) (fp_id fp) = Some f'"
      "\<forall>f. map_of (fr_pending r) (fp_id fp) = Some f \<longrightarrow> grows f f0" "absorbed fp fb (h, p) f0"
      "grows f0 f'" "\<not> (\<forall>i < length (chunks CHUNK_MAX fb). restorable f0 i)" by blast
  have ab: "\<forall>pkt \<in> insert (h, p) A. absorbed fp fb pkt f0"
    using Cons.prems(6) f(2,3) absorbed_grows by blast
  then have "\<not> enough fp fb (insert (h, p) A)" using enough_restorable [OF fits _ ab] f(5) by blast
  moreover have "\<forall>pkt \<in> insert (h, p) A. absorbed fp fb pkt f'" using ab f(4) absorbed_grows by blast
  ultimately have "\<not> enough fp fb (insert (h, p) A \<union> snd ` set pkts)"
    using Cons.IH [OF rest st(2) run(1), of "insert (h, p) A"] Cons.prems(4) run(2) f(1) by auto
  then show ?case by (simp add: x)
qed simp

lemma single_packet_completes:
  assumes it: "hash_iter iter" and fits: "frame_fits (fp_mode fp) fb" and pkt: "(h, p) \<in> frame_packets fp fb"
    and none: "map_of (fr_pending r) (fp_id fp) = None" and "enough fp fb {(h, p)}"
  shows "\<exists>r'. ingest iter now h p r = Some (r', FrameComplete (fp_id fp) fb)
    \<and> map_of (fr_pending r') (fp_id fp) = None"
proof -
  have "entry_ok fp fb r" using none by (simp add: entry_ok_def)
  from ingest_packet_step [OF it fits pkt this, of now]
  obtain r' res where st: "ingest iter now h p r = Some (r', res)"
      "res = Pending \<or> res = FrameComplete (fp_id fp) fb"
      "res \<noteq> Pending \<longrightarrow> map_of (fr_pending r') (fp_id fp) = None"
    and pend: "res = Pending \<longrightarrow> (\<exists>f0. absorbed fp fb (h, p) f0
        \<and> \<not> (\<forall>i < length (chunks CHUNK_MAX fb). restorable f0 i))" by blast
  have "res \<noteq> Pending" using pend enough_restorable [OF fits assms(5)] by blast
  with st show ?thesis by auto
qed

lemma small_frame:
  assumes "fb \<noteq> []" "length fb \<le> CHUNK_MAX" "fec_is_enabled (fp_fec fp)"
  shows "length (chunks CHUNK_MAX fb) = 1" "group_count fp fb = 1" "class_members fp fb 0 0 = [0]"
proof -
  show n: "length (chunks CHUNK_MAX fb) = 1" using assms by (simp add: chunks_step CHUNK_MAX_value)
  then have u: "length (units_of fb) = 1" by simp
  then have c: "chunks (fec_n (fp_fec fp)) (units_of fb) = [units_of fb]"
  proof (subst chunks_step)
    show "units_of fb \<noteq> []" using u by (metis list.size(3) zero_neq_one)
    show "take (fec_n (fp_fec fp)) (units_of fb) # chunks (fec_n (fp_fec fp)) (drop (fec_n (fp_fec fp)) (units_of fb))
        = [units_of fb]"
      using u assms(3) by (simp add: fec_is_enabled_def)
  qed (use assms(3) in \<open>simp add: fec_is_enabled_def\<close>)
  with assms(3) show "group_count fp fb = 1" by (simp add: group_count_def)
  show "class_members fp fb 0 0 = [0]" using u c by (simp add: class_members_def group_units_def class_idx_def)
qed

lemma ingest_repair_groups:
  "\<exists>rs. pf_repairs_by_group (ingest_repair h payload f)
    = AList.update (ph_fec_group h) (rs @ [repair_of_header h payload]) (pf_repairs_by_group f)"
  by (auto simp: ingest_repair_def Let_def)

text \<open>A repair packet whose class reaches beyond the slots of the pending frame.\<close>

lemma recover_pass_panics:
  assumes "r \<in> set repairs" "i \<in> set (covered r)" "length data \<le> i"
  shows "recover_pass lens repairs (data, p0) = None"
  using assms
proof (induction repairs arbitrary: data p0)
  case (Cons a repairs)
  show ?case
  proof (cases "recover_step lens a data")
    case (Some x)
    obtain d p where x: "x = (d, p)" by (cases x)
    have "length d = length data"
      using Some x by (auto simp: recover_step_def Let_def split: if_splits)
    moreover have "r \<noteq> a" using Some Cons.prems by (auto simp: recover_step_def split: if_splits)
    ultimately show ?thesis using Cons Some x by auto
  qed simp
qed simp

lemma length_recover: "recover data lens repairs = Some data' \<Longrightarrow> length data' = length data"
proof (rule recover_invariant [where P = "\<lambda>d. length d = length data" and lens = lens and repairs = repairs])
  fix r d d' p
  assume "length d = length data" "recover_step lens r d = Some (d', p)"
  then show "length d' = length data" by (auto simp: recover_step_def Let_def split: if_splits)
qed simp_all

lemma recover_groups_panics:
  assumes "(g, rs) \<in> set gs" "r \<in> set rs" "i \<in> set (covered r)" "length data \<le> i"
  shows "recover_groups lens gs data = None"
  using assms
proof (induction gs arbitrary: data)
  case (Cons x gs)
  obtain g' rs' where x: "x = (g', rs')" by (cases x)
  show ?case
  proof (cases "recover data lens rs'")
    case (Some d)
    have "recover data lens rs = None"
      using recover_pass_panics [OF Cons.prems(2-4)] by (simp add: recover.simps)
    then have "(g, rs) \<in> set gs" using Cons.prems(1) Some x by auto
    then show ?thesis using Cons length_recover [OF Some] Some x by simp
  qed (simp add: x)
qed simp

section \<open>Properties\<close>

text \<open>C1: end-to-end delivery. Whatever order the datagrams of one frame arrive in, with repetitions and
  losses, the receiver does not panic, leaves the other frames alone, and every completion it reports
  carries exactly the bytes that were sent; and it does report a completion as soon as the packets that
  arrived are enough, that is if at most one data packet of each FEC class is missing and the repair
  packet of that class arrived. The hash map iteration orders of sender and receiver are arbitrary.\<close>

theorem frame_delivery:
  assumes "hash_iter iter\<^sub>s" "hash_iter iter\<^sub>r" and "frame_fits mode fb" and "fb \<noteq> []"
    and "wires = build_frame_packets iter\<^sub>s fb fid mode kf sil h265 pts vr (fec_for_mode mode)"
    and "fp = \<lparr>fp_id = fid, fp_mode = mode, fp_flags = base_flags_of kf sil h265 (fec_for_mode mode),
           fp_pts = pts, fp_ranges = vr\<rparr>"
    and "snd ` set arrivals \<subseteq> set wires" and "map_of (fr_pending r) fid = None"
  shows "\<exists>r' ress. ingest_wires iter\<^sub>r arrivals r = Some (r', ress)
    \<and> (\<forall>res \<in> set ress. res = Pending \<or> res = FrameComplete fid fb)
    \<and> (\<forall>k. k \<noteq> fid \<longrightarrow> map_of (fr_pending r') k = map_of (fr_pending r) k)
    \<and> (enough fp fb {pkt. wire_of pkt \<in> snd ` set arrivals} \<longrightarrow> FrameComplete fid fb \<in> set ress)"
proof -
  have fp: "fp_id fp = fid" "fp_mode fp = mode" using assms(6) by simp_all
  have fits: "frame_fits (fp_mode fp) fb" using assms(3) fp by simp
  have sent: "set wires = wire_of ` frame_packets fp fb"
    using build_frame_packets_set [OF assms(1,3)] assms(5,6) by (simp add: wire_of_def split_def)
  define pkts where "pkts = map (\<lambda>(t, w). (t, case packet_decode w of Inr hp \<Rightarrow> hp | Inl _ \<Rightarrow> undefined)) arrivals"
  have dec: "\<exists>pkt \<in> frame_packets fp fb. w = wire_of pkt" if "(t, w) \<in> set arrivals" for t w
    using assms(7) sent that by force
  have arr: "arrivals = map (\<lambda>(t, pkt). (t, wire_of pkt)) pkts"
    unfolding pkts_def by (auto simp: map_idI o_def dest!: dec intro!: map_idI [symmetric])
  have inset: "snd ` set pkts \<subseteq> frame_packets fp fb"
    unfolding pkts_def by (auto dest!: dec)
  have ok: "entry_ok fp fb r" using assms(8) fp by (simp add: entry_ok_def)
  obtain r' ress where run: "ingest_wires iter\<^sub>r arrivals r = Some (r', ress)"
      "\<forall>res \<in> set ress. res = Pending \<or> res = FrameComplete fid fb"
      "\<forall>k. k \<noteq> fid \<longrightarrow> map_of (fr_pending r') k = map_of (fr_pending r) k"
    using ingest_wires_sound [OF assms(2) fits inset ok] arr fp by auto
  have "inj wire_of" by (rule injI) (metis packet_decode_wire_of sum.inject(2))
  then have same: "{pkt. wire_of pkt \<in> snd ` set arrivals} = snd ` set pkts"
    unfolding arr by (auto simp: inj_eq image_iff split_def)
  have "0 < length (chunks CHUNK_MAX fb)" using assms(4) by (simp add: CHUNK_MAX_value)
  then have "\<not> enough fp fb {}" by (auto simp: enough_def)
  then have "FrameComplete fid fb \<in> set ress" if "enough fp fb (snd ` set pkts)"
    using ingest_wires_complete [OF assms(2) fits inset ok, of r' ress "{}"] run(1) arr that fp by auto
  with run same show ?thesis by auto
qed


definition demo_fp :: frame_params where
  "demo_fp = \<lparr>fp_id = 9, fp_mode = Ar, fp_flags = base_flags_of True False False FEC_AR, fp_pts = 77,
     fp_ranges = [(0, 1)]\<rparr>"

lemma demo_facts:
  "build_frame_packets id [1, 2, 3] 9 Ar True False False 77 [(0, 1)] FEC_AR ! 1 = wire_of (repair_packet demo_fp [1, 2, 3] 0 0)"
  "length (build_frame_packets id [1, 2, 3] 9 Ar True False False 77 [(0, 1)] FEC_AR) = 3"
  "class_members demo_fp [1, 2, 3] 0 0 = [0]" "group_count demo_fp [1, 2, 3] = 1"
  "fec_k (fp_fec demo_fp) = 2" "length (chunks CHUNK_MAX [1, 2, 3 :: u8]) = 1"
  by code_simp+

theorem frame_delivery_witness:
  "\<exists>r' ress. ingest_wires id [(5, build_frame_packets id [1, 2, 3] 9 Ar True False False 77 [(0, 1)] FEC_AR ! 1)]
      reassembler_new = Some (r', ress) \<and> FrameComplete 9 [1, 2, 3] \<in> set ress"
proof -
  let ?w = "build_frame_packets id [1, 2, 3] 9 Ar True False False 77 [(0, 1)] FEC_AR"
  have it: "hash_iter id" by (simp add: hash_iter_def)
  have "frame_fits Ar [1, 2, 3]"
    by (simp add: frame_fits_def demo_facts fec_is_enabled_def fec_config_defs)
  moreover have "snd ` set [(5 :: nat, ?w ! 1)] \<subseteq> set ?w" using demo_facts(2) by simp
  moreover have "enough demo_fp [1, 2, 3] {pkt. wire_of pkt \<in> snd ` set [(5 :: nat, ?w ! 1)]}"
    unfolding enough_def using demo_facts by simp (rule disjI2, rule exI [of _ 0], simp)
  ultimately show ?thesis
    using frame_delivery [OF it it, of Ar "[1, 2, 3]" ?w 9 True False False 77 "[(0, 1)]" demo_fp
        "[(5, ?w ! 1)]" reassembler_new]
    by (auto simp: demo_fp_def reassembler_new_def)
qed


text \<open>every datagram built for a frame that fits, data or repair, is at most \<open>MAX_DATAGRAM\<close> bytes
  long and decodes to a video or repair packet of that frame and mode.\<close>

theorem frame_datagrams_bounded:
  assumes "hash_iter iter" and "frame_fits mode fb"
    and "w \<in> set (build_frame_packets iter fb fid mode kf sil h265 pts vr (fec_for_mode mode))"
  shows "length w \<le> MAX_DATAGRAM \<and> (\<exists>h p. packet_decode w = Inr (h, p) \<and> ph_frame_id h = fid \<and> ph_mode h = mode
     \<and> ph_packet_type h \<in> {VideoFrame, FecRepair}
     \<and> unat (ph_packet_count h) = length (chunks CHUNK_MAX fb))"
proof -
  define fp where "fp = \<lparr>fp_id = fid, fp_mode = mode,
      fp_flags = base_flags_of kf sil h265 (fec_for_mode mode), fp_pts = pts, fp_ranges = vr\<rparr>"
  have fits: "frame_fits (fp_mode fp) fb" using assms(2) by (simp add: fp_def)
  obtain h p where hp: "(h, p) \<in> frame_packets fp fb" "w = wire_of (h, p)"
    using assms(3) unfolding build_frame_packets_set [OF assms(1,2)] fp_def [symmetric]
    by (auto simp: wire_of_def)
  have "length p \<le> MAX_PAYLOAD \<and> ph_frame_id h = fid \<and> ph_mode h = mode
     \<and> ph_packet_type h \<in> {VideoFrame, FecRepair} \<and> unat (ph_packet_count h) = length (chunks CHUNK_MAX fb)"
  proof -
    from hp(1) consider i where "i < length (chunks CHUNK_MAX fb)" "data_packet fp fb i = (h, p)"
      | g c where "g < group_count fp fb" "c < fec_k (fp_fec fp)" "repair_packet fp fb g c = (h, p)"
      by (auto simp: frame_packets_def)
    then show ?thesis
    proof cases
      case 1
      then have "p \<in> set (units_of fb)" using data_packet_header(6) [OF fits 1] by simp
      then show ?thesis using data_packet_header [OF fits 1] unit_length(2) by (simp add: fp_def)
    next
      case 2
      have "max_len (group_units fp fb g) \<le> MAX_PAYLOAD"
        by (rule max_len_le)
          (auto simp: group_units_props(1) [OF 2(1)] dest!: in_set_takeD in_set_dropD intro: unit_length(2))
      then show ?thesis
        using repair_packet_received(3) [OF fits 2] repair_packet_header [OF fits 2(1,3)] by (simp add: fp_def)
    qed
  qed
  moreover have "length w = HEADER_LEN + length p"
    by (simp add: hp(2) wire_of_def packet_encode_def Let_def HEADER_LEN_def)
  ultimately show ?thesis using hp(2) by (simp add: frame_consts)
qed

theorem frame_datagrams_bounded_witness:
  "length (build_frame_packets id [1, 2, 3] 9 Ar True False False 77 [(0, 1)] FEC_AR ! 1) \<le> MAX_DATAGRAM"
  using frame_datagrams_bounded [of id Ar "[1, 2, 3]" "build_frame_packets id [1, 2, 3] 9 Ar True False False 77 [(0, 1)] FEC_AR ! 1"
      9 True False False 77 "[(0, 1)]"] demo_facts(2)
  by (simp add: hash_iter_def frame_fits_def demo_facts fec_is_enabled_def fec_config_defs)

text \<open>a frame of one data packet is delivered twice. Its data packet completes it and removes the
  entry; the first repair packet, which the sender always sends later, then makes a new entry and
  completes the same frame once more.\<close>

theorem small_frame_delivered_twice:
  assumes "hash_iter iter" and "fec_is_enabled (fp_fec fp)" and "fb \<noteq> []" and "length fb \<le> CHUNK_MAX"
    and "map_of (fr_pending r) (fp_id fp) = None"
  shows "\<exists>r'. ingest_wires iter [(t1, wire_of (data_packet fp fb 0)), (t2, wire_of (repair_packet fp fb 0 0))] r
    = Some (r', [FrameComplete (fp_id fp) fb, FrameComplete (fp_id fp) fb])"
proof -
  note sm = small_frame [OF assms(3,4,2)]
  have k: "0 < fec_k (fp_fec fp)" using assms(2) by (simp add: fec_is_enabled_def)
  have fits: "frame_fits (fp_mode fp) fb" using sm(1) assms(2) by (cases "fp_mode fp") (simp_all add: frame_fits_def fp_fec_def fec_is_enabled_def fec_config_defs)
  obtain h1 p1 h2 p2 where d: "data_packet fp fb 0 = (h1, p1)" and rp: "repair_packet fp fb 0 0 = (h2, p2)"
    by (meson surj_pair)
  have in1: "(h1, p1) \<in> frame_packets fp fb" using d sm(1) by (force simp: frame_packets_def)
  have in2: "(h2, p2) \<in> frame_packets fp fb" using rp sm(2) k by (force simp: frame_packets_def)
  have en: "enough fp fb {(h1, p1)}" "enough fp fb {(h2, p2)}"
    using sm d rp k by (auto simp: enough_def)
  obtain r1 where r1: "ingest iter t1 h1 p1 r = Some (r1, FrameComplete (fp_id fp) fb)"
      "map_of (fr_pending r1) (fp_id fp) = None"
    using single_packet_completes [OF assms(1) fits in1 assms(5) en(1)] by blast
  obtain r2 where "ingest iter t2 h2 p2 r1 = Some (r2, FrameComplete (fp_id fp) fb)"
    using single_packet_completes [OF assms(1) fits in2 r1(2) en(2)] by blast
  with r1 d rp show ?thesis by simp
qed

theorem small_frame_delivered_twice_witness:
  "\<exists>r'. ingest_wires id [(1, wire_of (data_packet demo_fp [1, 2, 3] 0)),
      (2, wire_of (repair_packet demo_fp [1, 2, 3] 0 0))] reassembler_new
    = Some (r', [FrameComplete 9 [1, 2, 3], FrameComplete 9 [1, 2, 3]])"
  using small_frame_delivered_twice [of id demo_fp "[1, 2, 3]" reassembler_new 1 2]
  by (simp add: hash_iter_def demo_fp_def fp_fec_def fec_is_enabled_def fec_config_defs reassembler_new_def
      CHUNK_MAX_value)

text \<open>a repair packet whose header announces more packets than the packet that opened the frame did
  makes the receiver index beyond the slot array and panic, when a unit it claims to cover lies there.\<close>

theorem reassembler_panics_on_count_mismatch:
  assumes "hash_iter iter" and "ph_packet_type h = FecRepair"
    and "map_of (fr_pending r) (ph_frame_id h) = Some f" and "\<not> pf_is_complete f"
    and "i \<in> set (covered (repair_of_header h payload))" and "length (pf_data f) \<le> i"
  shows "ingest iter now h payload r = None"
proof -
  define f' where "f' = ingest_repair h payload f"
  have data: "pf_data f' = pf_data f" by (simp add: f'_def ingest_repair_def Let_def)
  obtain rs where rs: "(ph_fec_group h, rs @ [repair_of_header h payload]) \<in> set (pf_repairs_by_group f')"
  proof -
    have "(k, v) \<in> set (AList.update k v m)" for k v and m :: group_repairs
      by (rule map_of_in_set) (simp add: update_conv')
    then show ?thesis
      using ingest_repair_groups [of h payload f] that unfolding f'_def by metis
  qed
  have "recover_groups (pf_data_lens f') (iter (pf_repairs_by_group f')) (pf_data f') = None"
    by (rule recover_groups_panics [where r = "repair_of_header h payload" and i = i,
          of "ph_fec_group h" "rs @ [repair_of_header h payload]"])
      (use rs assms data in simp_all)
  moreover have "pf_repairs_by_group f' \<noteq> []" using rs by auto
  moreover have "\<not> pf_is_complete f'" using assms(4) data by (simp add: pf_is_complete_def)
  ultimately have "ingest_finish iter (ph_frame_id h) f' r = None"
    by (simp add: ingest_finish_def try_recover_def)
  then show ?thesis using assms(2,3) by (simp add: ingest_def entry_or_new_def f'_def)
qed

theorem reassembler_panics_on_count_mismatch_witness:
  "\<exists>f h. ingest id 0 h [1, 2] \<lparr>fr_pending = [(7, f)]\<rparr> = None \<and> ph_packet_count h = 6 \<and> pf_packet_count f = 2"
proof -
  let ?f = "pending_new 0 2 6"
  let ?h = "\<lparr>ph_packet_type = FecRepair, ph_mode = Ar, ph_flags = 0, ph_frame_id = 7, ph_packet_index = 6,
    ph_packet_count = 6, ph_presentation_time_us = 0, ph_fec_group = 0, ph_fec_idx = 6, ph_fec_total = 8,
    ph_auth_tag = 0\<rparr>"
  have cov: "covered (repair_of_header ?h [1, 2]) = [0, 2, 4]" by code_simp
  have nc: "\<not> pf_is_complete ?f" by code_simp
  have "ingest id 0 ?h [1, 2] \<lparr>fr_pending = [(7, ?f)]\<rparr> = None"
    by (rule reassembler_panics_on_count_mismatch [where i = 2 and f = ?f])
      (simp_all only: cov, simp_all add: nc hash_iter_def, simp add: pending_new_def)
  moreover have "ph_packet_count ?h = 6" "pf_packet_count ?f = 2" by (simp_all add: pending_new_def)
  ultimately show ?thesis by blast
qed

end
