(* ===== verification/Evrt2_Session.thy ===== *)
theory Evrt2_Session
  imports Evrt2_Modes Evrt2_Crypto Evrt2_Reassembly
begin

text \<open>
  The session endpoint of \<^verbatim>\<open>src/src/evrt2_session.rs\<close>: receiver feedback and the other control
  messages, the \<open>Evrt2Session\<close> state with its setters, and the authenticated, encrypted send and receive
  paths over UDP or a relay channel. What the operating system answers to a call is the parameter record
  \<open>Net\<close>; the clock is an argument; a panic is \<open>None\<close>.

  The locale \<open>wire_codec\<close> is the contract of a message format (decoding inverts encoding); its client
  lemma is that a message sent by one endpoint is read back by a peer with the same key. It is
  interpreted for every control message that has a payload.
\<close>

section \<open>Receiver feedback\<close>

text \<open>The two \<open>f32\<close> fields are carried as their bit patterns, as \<open>to_be_bytes\<close> writes them.\<close>

record ReceiverFeedback2 =
  rf_frame_id :: u32
  rf_pressure :: u32
  rf_jitter_p95_us :: u32
  rf_decoded_fps :: u32
  rf_silicon_ok :: bool
  rf_dropped_frames :: u32
  rf_rtt_us :: u32

definition FEEDBACK_WIRE_LEN :: nat where "FEEDBACK_WIRE_LEN = 25"

definition feedback2_encode :: "ReceiverFeedback2 \<Rightarrow> bytes" where
  "feedback2_encode f =
     be_bytes 4 (rf_frame_id f)
     @ be_bytes 4 (rf_pressure f)
     @ be_bytes 4 (rf_jitter_p95_us f)
     @ be_bytes 4 (rf_decoded_fps f)
     @ [if rf_silicon_ok f then 1 else 0]
     @ be_bytes 4 (rf_dropped_frames f)
     @ be_bytes 4 (rf_rtt_us f)"

definition feedback2_decode :: "bytes \<Rightarrow> ReceiverFeedback2 option" where
  "feedback2_decode data =
     (if length data < FEEDBACK_WIRE_LEN then None
      else Some \<lparr>rf_frame_id = be_word (subslice 0 4 data),
                 rf_pressure = be_word (subslice 4 8 data),
                 rf_jitter_p95_us = be_word (subslice 8 12 data),
                 rf_decoded_fps = be_word (subslice 12 16 data),
                 rf_silicon_ok = (data ! 16 \<noteq> 0),
                 rf_dropped_frames = be_word (subslice 17 21 data),
                 rf_rtt_us = be_word (subslice 21 25 data)\<rparr>)"

section \<open>Control messages\<close>

definition control_packet :: "u64 \<Rightarrow> PacketType \<Rightarrow> Mode \<Rightarrow> bytes \<Rightarrow> bytes" where
  "control_packet now_us packet_type mode payload =
     packet_encode
       \<lparr>ph_packet_type = packet_type, ph_mode = mode, ph_flags = 0, ph_frame_id = 0, ph_packet_index = 0,
        ph_packet_count = 1, ph_presentation_time_us = now_us, ph_fec_group = 0, ph_fec_idx = 0,
        ph_fec_total = 0, ph_auth_tag = 0\<rparr> payload []"

record HelloInfo =
  hi_max_fps :: u32
  hi_max_res :: "u32 \<times> u32"
  hi_extra_caps :: bytes

definition hello_payload :: "u32 \<Rightarrow> u32 \<times> u32 \<Rightarrow> bytes \<Rightarrow> bytes" where
  "hello_payload max_fps max_res extra_caps =
     be_bytes 4 max_fps @ be_bytes 4 (fst max_res) @ be_bytes 4 (snd max_res) @ extra_caps"

definition build_hello :: "u64 \<Rightarrow> Mode \<Rightarrow> u32 \<Rightarrow> u32 \<times> u32 \<Rightarrow> bytes \<Rightarrow> bytes" where
  "build_hello now_us mode max_fps max_res extra_caps =
     control_packet now_us SessionHello mode (hello_payload max_fps max_res extra_caps)"

definition parse_hello :: "bytes \<Rightarrow> HelloInfo option" where
  "parse_hello payload =
     (if length payload < 12 then None
      else Some \<lparr>hi_max_fps = be_word (subslice 0 4 payload),
                 hi_max_res = (be_word (subslice 4 8 payload), be_word (subslice 8 12 payload)),
                 hi_extra_caps = drop 12 payload\<rparr>)"

definition build_ack :: "u64 \<Rightarrow> Mode \<Rightarrow> bytes" where
  "build_ack now_us mode = control_packet now_us SessionAck mode []"

definition build_feedback :: "u64 \<Rightarrow> Mode \<Rightarrow> ReceiverFeedback2 \<Rightarrow> bytes" where
  "build_feedback now_us mode feedback = control_packet now_us Feedback mode (feedback2_encode feedback)"

definition build_idr_request :: "u64 \<Rightarrow> Mode \<Rightarrow> bytes" where
  "build_idr_request now_us mode = control_packet now_us IdrRequest mode []"

definition degrade_payload :: "u16 list \<Rightarrow> u32 \<Rightarrow> u32 \<Rightarrow> bytes" where
  "degrade_payload region_tiles measured_age_us ceiling_us =
     be_bytes 4 measured_age_us @ be_bytes 4 ceiling_us
     @ be_bytes 2 (of_nat (length region_tiles) :: u16)
     @ concat (map (be_bytes 2) region_tiles)"

definition build_degrade_signal :: "u64 \<Rightarrow> Mode \<Rightarrow> u16 list \<Rightarrow> u32 \<Rightarrow> u32 \<Rightarrow> bytes" where
  "build_degrade_signal now_us mode region_tiles measured_age_us ceiling_us =
     control_packet now_us DegradeSignalType mode (degrade_payload region_tiles measured_age_us ceiling_us)"

record DegradeSignalInfo =
  di_measured_age :: duration
  di_ceiling :: duration
  di_region_tiles :: "u16 list"

text \<open>The loop over \<open>0..tile_count\<close>, left early when the payload is too short.\<close>

fun degrade_tiles :: "bytes \<Rightarrow> nat \<Rightarrow> nat \<Rightarrow> u16 list" where
  "degrade_tiles payload i 0 = []"
| "degrade_tiles payload i (Suc n) =
     (let off = 10 + i * 2 in
      if length payload < off + 2 then []
      else be_word (subslice off (off + 2) payload) # degrade_tiles payload (Suc i) n)"

definition from_micros :: "u32 \<Rightarrow> duration" where
  "from_micros us = unat us * 1000"

definition parse_degrade_signal :: "bytes \<Rightarrow> DegradeSignalInfo option" where
  "parse_degrade_signal payload =
     (if length payload < 10 then None
      else let measured_age_us = be_word (subslice 0 4 payload);
               ceiling_us = be_word (subslice 4 8 payload);
               tile_count = unat (be_word (subslice 8 10 payload) :: u16)
           in Some \<lparr>di_measured_age = from_micros measured_age_us,
                    di_ceiling = from_micros ceiling_us,
                    di_region_tiles = degrade_tiles payload 0 tile_count\<rparr>)"

definition build_goodbye :: "u64 \<Rightarrow> Mode \<Rightarrow> bytes" where
  "build_goodbye now_us mode = control_packet now_us Goodbye mode []"

definition build_mode_switch :: "u64 \<Rightarrow> Mode \<Rightarrow> SwitchReason \<Rightarrow> bytes" where
  "build_mode_switch now_us new_mode reason =
     control_packet now_us ModeSwitch new_mode [to_wire_code reason]"

record ModeSwitchInfo =
  mi_new_mode :: Mode
  mi_reason :: "SwitchReason option"

definition parse_mode_switch :: "PacketHeader \<Rightarrow> bytes \<Rightarrow> ModeSwitchInfo" where
  "parse_mode_switch header payload =
     \<lparr>mi_new_mode = ph_mode header,
      mi_reason = (case payload of [] \<Rightarrow> None | b # _ \<Rightarrow> from_wire_code b)\<rparr>"

definition build_keepalive :: "u64 \<Rightarrow> Mode \<Rightarrow> bytes" where
  "build_keepalive now_us mode = control_packet now_us Keepalive mode []"

definition build_keepalive_ping :: "u64 \<Rightarrow> Mode \<Rightarrow> u64 \<Rightarrow> bytes" where
  "build_keepalive_ping now_us mode send_time_us = control_packet now_us Keepalive mode (be_bytes 8 send_time_us)"

definition parse_keepalive_ping :: "bytes \<Rightarrow> u64 option" where
  "parse_keepalive_ping payload =
     (if length payload < 8 then None else Some (be_word (subslice 0 8 payload)))"

section \<open>The session\<close>

datatype io_kind = WouldBlock | TimedOut | BrokenPipe | AddrNotAvailable | OtherIo nat
datatype TryRecvError = ChannelEmpty | Disconnected
datatype Transport = Udp | Relay

text \<open>The answers of the socket (\<open>send_to\<close>, \<open>recv_from\<close>) and of the channels (\<open>send\<close>, \<open>try_recv\<close>) to
  the next call.\<close>

record 'addr Net =
  net_send_to :: "io_kind + unit"
  net_recv_from :: "io_kind + bytes \<times> 'addr"
  net_outbound_open :: bool
  net_try_recv :: "TryRecvError + bytes"

record 'addr Evrt2Session =
  es_transport :: Transport
  es_peer :: 'addr
  es_mode :: Mode
  es_fec :: FecConfig
  es_auth_key :: "bytes option"
  es_auth_failures :: u32
  es_client_max_res :: "u32 \<times> u32"

text \<open>\<open>bind\<close>, \<open>from_bound_socket\<close> and \<open>from_relay_channels\<close> build the same state around their
  transport.\<close>

definition session_new :: "Transport \<Rightarrow> 'addr \<Rightarrow> Mode \<Rightarrow> 'addr Evrt2Session" where
  "session_new transport peer mode =
     \<lparr>es_transport = transport, es_peer = peer, es_mode = mode, es_fec = fec_for_mode mode,
      es_auth_key = None, es_auth_failures = 0, es_client_max_res = (0, 0)\<rparr>"

definition set_auth_key :: "bytes option \<Rightarrow> 'addr Evrt2Session \<Rightarrow> 'addr Evrt2Session" where
  "set_auth_key key s = s\<lparr>es_auth_key := key\<rparr>"

definition set_client_max_res :: "u32 \<times> u32 \<Rightarrow> 'addr Evrt2Session \<Rightarrow> 'addr Evrt2Session" where
  "set_client_max_res res s = s\<lparr>es_client_max_res := res\<rparr>"

definition set_mode :: "Mode \<Rightarrow> 'addr Evrt2Session \<Rightarrow> 'addr Evrt2Session" where
  "set_mode mode s = s\<lparr>es_mode := mode, es_fec := fec_for_mode mode\<rparr>"

definition set_peer :: "'addr \<Rightarrow> 'addr Evrt2Session \<Rightarrow> 'addr Evrt2Session" where
  "set_peer peer s = s\<lparr>es_peer := peer\<rparr>"

definition is_relay :: "'addr Evrt2Session \<Rightarrow> bool" where
  "is_relay s \<longleftrightarrow> es_transport s = Relay"

definition switch_to_relay :: "'addr \<Rightarrow> 'addr Evrt2Session \<Rightarrow> 'addr Evrt2Session" where
  "switch_to_relay peer_label s = s\<lparr>es_transport := Relay, es_peer := peer_label\<rparr>"

definition switch_to_udp :: "'addr \<Rightarrow> 'addr Evrt2Session \<Rightarrow> 'addr Evrt2Session" where
  "switch_to_udp peer s = s\<lparr>es_transport := Udp, es_peer := peer\<rparr>"

text \<open>What \<open>send_signed\<close> hands to the transport.\<close>

definition protect :: "Crypto \<Rightarrow> 'addr Evrt2Session \<Rightarrow> bytes \<Rightarrow> bytes option" where
  "protect c s wire =
     (case es_auth_key s of
        None \<Rightarrow> Some wire
      | Some key \<Rightarrow>
          map_option (sign_packet c key) (encrypt_payload c (derive_encryption_key c key) wire))"

definition send_signed ::
  "Crypto \<Rightarrow> 'addr Net \<Rightarrow> 'addr Evrt2Session \<Rightarrow> bytes \<Rightarrow> (bytes \<times> (io_kind + unit)) option" where
  "send_signed c net s wire =
     (case protect c s wire of
        None \<Rightarrow> None
      | Some wire' \<Rightarrow>
          Some (wire',
            case es_transport s of
              Udp \<Rightarrow> (case net_send_to net of
                  Inr u \<Rightarrow> Inr ()
                | Inl e \<Rightarrow> if e = WouldBlock then Inr () else Inl e)
            | Relay \<Rightarrow> if net_outbound_open net then Inr () else Inl BrokenPipe))"

text \<open>The loop of \<open>send_frame\<close>: the datagrams handed over so far and the result.\<close>

fun send_loop ::
  "Crypto \<Rightarrow> (nat \<Rightarrow> 'addr Net) \<Rightarrow> 'addr Evrt2Session \<Rightarrow> bytes list \<Rightarrow> nat
     \<Rightarrow> (bytes list \<times> (io_kind + nat)) option" where
  "send_loop c nets s [] sent = Some ([], Inr sent)"
| "send_loop c nets s (pkt # pkts) sent =
     (case send_signed c (nets sent) s pkt of
        None \<Rightarrow> None
      | Some (wire, Inl e) \<Rightarrow> Some ([wire], Inl e)
      | Some (wire, Inr _) \<Rightarrow>
          map_option (\<lambda>(wires, r). (wire # wires, r)) (send_loop c nets s pkts (Suc sent)))"

definition send_frame ::
  "Crypto \<Rightarrow> (nat \<Rightarrow> 'addr Net) \<Rightarrow> (group_repairs \<Rightarrow> group_repairs) \<Rightarrow> u64 \<Rightarrow> 'addr Evrt2Session \<Rightarrow> bytes \<Rightarrow> u32
     \<Rightarrow> bool \<Rightarrow> bool \<Rightarrow> bool \<Rightarrow> (nat \<times> nat) list \<Rightarrow> (bytes list \<times> (io_kind + nat)) option" where
  "send_frame c nets iter now_us s frame_bytes frame_id is_keyframe is_silicon is_h265 ranges =
     send_loop c nets s
       (build_frame_packets iter frame_bytes frame_id (es_mode s) is_keyframe is_silicon is_h265 now_us
         ranges (es_fec s)) 0"

text \<open>The 1500-byte buffer of \<open>recv_from\<close> cuts longer datagrams off.\<close>

definition receive_raw :: "'addr Net \<Rightarrow> 'addr Evrt2Session \<Rightarrow> io_kind + bytes option" where
  "receive_raw net s =
     (case es_transport s of
        Udp \<Rightarrow> (case net_recv_from net of
            Inr (datagram, from) \<Rightarrow>
              if from \<noteq> es_peer s then Inr None else Inr (Some (take 1500 datagram))
          | Inl e \<Rightarrow> if e = WouldBlock \<or> e = TimedOut then Inr None else Inl e)
      | Relay \<Rightarrow> (case net_try_recv net of
            Inr raw \<Rightarrow> Inr (Some raw)
          | Inl ChannelEmpty \<Rightarrow> Inr None
          | Inl Disconnected \<Rightarrow> Inl BrokenPipe))"

definition recv_one ::
  "Crypto \<Rightarrow> 'addr Net \<Rightarrow> 'addr Evrt2Session
     \<Rightarrow> 'addr Evrt2Session \<times> (io_kind + (PacketHeader \<times> bytes) option)" where
  "recv_one c net s =
     (case receive_raw net s of
        Inl e \<Rightarrow> (s, Inl e)
      | Inr None \<Rightarrow> (s, Inr None)
      | Inr (Some raw) \<Rightarrow>
          (case es_auth_key s of
             Some key \<Rightarrow>
               if \<not> verify_packet c key raw
               then (s\<lparr>es_auth_failures := es_auth_failures s + 1\<rparr>, Inr None)
               else (case packet_decode raw of
                  Inl _ \<Rightarrow> (s, Inr None)
                | Inr (header, _) \<Rightarrow>
                    (case decrypt_payload c (derive_encryption_key c key) raw of
                       Some p \<Rightarrow> (s, Inr (Some (header, p)))
                     | None \<Rightarrow> (s\<lparr>es_auth_failures := es_auth_failures s + 1\<rparr>, Inr None)))
           | None \<Rightarrow>
               (case packet_decode raw of
                  Inl _ \<Rightarrow> (s, Inr None)
                | Inr (header, payload) \<Rightarrow> (s, Inr (Some (header, payload))))))"

section \<open>Lemmas: protection of an encoded packet\<close>

definition header28 :: "PacketHeader \<Rightarrow> bytes" where
  "header28 h = take 28 (packet_encode h [] [])"

lemma packet_encode_split:
  "packet_encode h p [] = header28 h @ be_bytes 4 (ph_auth_tag h) @ p" "length (header28 h) = 28"
  by (simp_all add: header28_def packet_encode_def Let_def)

lemma header28_auth_tag [simp]: "header28 (h\<lparr>ph_auth_tag := t\<rparr>) = header28 h"
  by (simp add: header28_def packet_encode_def Let_def)

lemma set_encrypted_flag_at:
  assumes "length a = 6"
  shows "set_encrypted_flag (a @ be_bytes 2 fl @ t) = a @ be_bytes 2 (fl OR ENCRYPTED) @ t"
proof -
  have b2: "be_bytes 2 w = [ucast (drop_bit 8 w), ucast w]" for w :: u16
    by (simp add: numeral_2_eq_2 be_bytes_Suc)
  have low: "(ucast (w AND 0xFF) :: u8) = ucast w" for w :: u16
  proof -
    have "w AND 0xFF = take_bit 8 w" by (simp add: take_bit_eq_mask mask_eq_exp_minus_1)
    then show ?thesis by (simp only:) (rule bit_word_eqI, auto simp: bit_simps)
  qed
  have fl: "(be_word [ucast (drop_bit 8 w), ucast w] :: u16) = w" for w :: u16
    using be_word_be_bytes [of 2 w] by (simp add: b2)
  have nth: "(a @ [x, y] @ t) ! 6 = x" "(a @ [x, y] @ t) ! 7 = y" for x y
    using assms by (simp_all add: nth_append)
  have upd: "(a @ [x, y] @ t)[6 := x', 7 := y'] = a @ [x', y'] @ t" for x y x' y'
    using assms by (simp add: list_update_append)
  show ?thesis
    unfolding set_encrypted_flag_def b2 nth upd Let_def fl low ENCRYPTED_def ..
qed

lemma set_encrypted_flag_encode:
  "set_encrypted_flag (packet_encode h p []) = packet_encode (h\<lparr>ph_flags := ph_flags h OR ENCRYPTED\<rparr>) p []"
proof -
  let ?a = "be_bytes 4 EVRT2_MAGIC @ [push_bit 4 EVRT2_VERSION OR (packet_type_u8 (ph_packet_type h) AND 0x0F)]
    @ [mode_u8 (ph_mode h)]"
  let ?t = "be_bytes 4 (ph_frame_id h) @ be_bytes 2 (ph_packet_index h) @ be_bytes 2 (ph_packet_count h)
      @ be_bytes 8 (ph_presentation_time_us h) @ [ph_fec_group h] @ [ph_fec_idx h] @ [ph_fec_total h] @ [0]
      @ be_bytes 4 (ph_auth_tag h) @ p"
  have enc: "packet_encode (h\<lparr>ph_flags := fl\<rparr>) p [] = ?a @ be_bytes 2 fl @ ?t" for fl
    by (simp add: packet_encode_def Let_def)
  have orig: "packet_encode h p [] = ?a @ be_bytes 2 (ph_flags h) @ ?t"
    by (simp add: packet_encode_def Let_def)
  show ?thesis unfolding enc orig by (rule set_encrypted_flag_at) simp
qed

lemma sign_packet_encode:
  assumes "digest_sizes c"
  shows "sign_packet c key (packet_encode h p []) = packet_encode
    (h\<lparr>ph_auth_tag := be_word (take 4 (cr_hmac_sha256 c key (packet_encode (h\<lparr>ph_auth_tag := 0\<rparr>) p [])))\<rparr>) p []"
proof -
  have z: "zero_tag (packet_encode h p []) = packet_encode (h\<lparr>ph_auth_tag := 0\<rparr>) p []"
    by (simp add: zero_tag_eq packet_encode_split be_bytes_def numeral_eq_Suc)
  let ?t = "take 4 (cr_hmac_sha256 c key (packet_encode (h\<lparr>ph_auth_tag := 0\<rparr>) p []))"
  have "be_bytes 4 (be_word ?t :: u32) = ?t"
    using be_bytes_be_word [of ?t, where 'a = 32] assms by (simp add: digest_sizes_def)
  then show ?thesis
    using sign_packet_long [OF assms, of "packet_encode h p []" key]
    by (simp add: z HEADER_LEN_def crypto_consts) (simp add: packet_encode_split)
qed

text \<open>What the receiver reads: the header with the \<open>ENCRYPTED\<close> bit and the tag, or the packet as it was.\<close>

definition received_header :: "PacketHeader \<Rightarrow> u32 \<Rightarrow> PacketHeader" where
  "received_header h tag = h\<lparr>ph_flags := ph_flags h OR ENCRYPTED, ph_auth_tag := tag\<rparr>"

lemma protect_with_key:
  assumes laws: "digest_sizes c" "secretbox_law c" and key: "es_auth_key s = Some key"
  shows "\<exists>w tag body. protect c s (packet_encode h p []) = Some w
    \<and> w = packet_encode (received_header h tag) body []
    \<and> verify_packet c key w \<and> decrypt_payload c (derive_encryption_key c key) w = Some p
    \<and> length w = 48 + length p"
proof -
  let ?k = "derive_encryption_key c key" and ?wire = "packet_encode h p []"
  let ?h = "h\<lparr>ph_flags := ph_flags h OR ENCRYPTED\<rparr>"
  have long: "AUTH_TAG_OFFSET + AUTH_TAG_LEN \<le> length ?wire"
    by (simp add: HEADER_LEN_def crypto_consts)
  let ?box = "cr_secretbox_easy c p (derive_nonce c (take 28 (packet_encode ?h p []))) ?k"
  have enc: "encrypt_payload c ?k ?wire = Some (packet_encode ?h ?box [])"
  proof -
    have "drop 32 ?wire = p" "take 32 (packet_encode ?h p []) @ b = packet_encode ?h b []" for b
      by (simp_all add: packet_encode_split)
    then show ?thesis by (simp only: encrypt_payload_long [OF long] set_encrypted_flag_encode)
  qed
  have lbox: "length ?box = length p + 16" using laws(2) by (simp add: secretbox_law_def crypto_consts)
  have long2: "AUTH_TAG_OFFSET + AUTH_TAG_LEN \<le> length (packet_encode ?h ?box [])"
    by (simp add: HEADER_LEN_def crypto_consts)
  let ?w = "sign_packet c key (packet_encode ?h ?box [])"
  obtain tag where w: "?w = packet_encode (?h\<lparr>ph_auth_tag := tag\<rparr>) ?box []"
    using sign_packet_encode [OF laws(1)] by blast
  have "decrypt_payload c ?k ?w = Some (drop 32 ?wire)"
    using decrypt_sign_encrypt [OF laws long enc, of ?w] take_sign_packet [OF laws(1) long2, of 28 key]
      drop_sign_packet [OF laws(1) long2, of key] by (simp add: crypto_consts)
  then have "decrypt_payload c ?k ?w = Some p" by (simp add: packet_encode_split)
  moreover have "verify_packet c key ?w" by (rule verify_sign_packet [OF laws(1) long2])
  moreover have "protect c s ?wire = Some ?w" by (simp add: protect_def key enc)
  moreover have "length ?w = 48 + length p" using laws(1) lbox by (simp add: HEADER_LEN_def)
  ultimately show ?thesis using w unfolding received_header_def
    by (intro exI [of _ ?w] exI [of _ tag] exI [of _ ?box]) simp
qed

text \<open>Delivery of one datagram: the receiver has the sender's key, its transport yields the datagram
  (from its peer, for UDP), and the datagram is not cut off.\<close>

definition delivers :: "'addr Net \<Rightarrow> 'addr Evrt2Session \<Rightarrow> bytes \<Rightarrow> bool" where
  "delivers net s w \<longleftrightarrow> receive_raw net s = Inr (Some w)"

lemma send_recv_one:
  assumes laws: "digest_sizes c" "secretbox_law c" and key: "es_auth_key s = es_auth_key s'"
    and send: "send_signed c net s (packet_encode h p []) = Some (w, res)" and del: "delivers net' s' w"
  shows "\<exists>h'. recv_one c net' s' = (s', Inr (Some (h', p)))
    \<and> (h' = h \<or> (\<exists>tag. h' = received_header h tag))"
proof (cases "es_auth_key s")
  case None
  then have "w = packet_encode h p []" using send by (simp add: send_signed_def protect_def)
  then show ?thesis using del None key by (simp add: recv_one_def delivers_def)
next
  case (Some key)
  from protect_with_key [OF laws Some, of h p]
  obtain w' tag body where w': "protect c s (packet_encode h p []) = Some w'"
      "w' = packet_encode (received_header h tag) body []" "verify_packet c key w'"
      "decrypt_payload c (derive_encryption_key c key) w' = Some p" by blast
  then have "w = w'" using send by (simp add: send_signed_def)
  with w' del Some assms(3) show ?thesis by (auto simp: recv_one_def delivers_def)
qed

lemma send_recv_total:
  assumes "digest_sizes c" "secretbox_law c"
  shows "\<exists>w res. send_signed c net s (packet_encode h p []) = Some (w, res)"
proof (cases "es_auth_key s")
  case None
  then show ?thesis by (simp add: send_signed_def protect_def)
next
  case (Some key)
  from protect_with_key [OF assms Some, of h p] show ?thesis by (auto simp: send_signed_def)
qed

section \<open>The contract of a message format\<close>

locale wire_codec =
  fixes ptype :: PacketType and enc :: "'a \<Rightarrow> bytes" and dec :: "bytes \<Rightarrow> 'a option" and valid :: "'a \<Rightarrow> bool"
  assumes dec_enc: "valid x \<Longrightarrow> dec (enc x) = Some x"
begin

lemma enc_inj: "valid x \<Longrightarrow> valid y \<Longrightarrow> enc x = enc y \<Longrightarrow> x = y"
  using dec_enc by (metis option.inject)

lemma message_delivered:
  assumes "digest_sizes c" "secretbox_law c" "es_auth_key s = es_auth_key s'" and "valid x"
    and "send_signed c net s (control_packet now_us ptype mode (enc x)) = Some (w, res)"
    and "delivers net' s' w"
  shows "\<exists>h payload. recv_one c net' s' = (s', Inr (Some (h, payload)))
    \<and> ph_packet_type h = ptype \<and> ph_mode h = mode \<and> dec payload = Some x"
  using send_recv_one [OF assms(1-3) assms(5) [unfolded control_packet_def] assms(6)] dec_enc [OF assms(4)]
  by (fastforce simp: received_header_def)

end

lemma feedback2_decode_encode: "feedback2_decode (feedback2_encode f) = Some f"
  by (simp add: feedback2_decode_def feedback2_encode_def FEEDBACK_WIRE_LEN_def subslice_append_right
      subslice_def nth_append numeral_eq_Suc)

lemma parse_hello_payload:
  "parse_hello (hello_payload fps res caps) = Some \<lparr>hi_max_fps = fps, hi_max_res = res, hi_extra_caps = caps\<rparr>"
  by (cases res) (simp add: parse_hello_def hello_payload_def subslice_def)

lemma degrade_tiles_concat:
  assumes "length pre = 10 + i * 2" and "n = length tiles"
  shows "degrade_tiles (pre @ concat (map (be_bytes 2) tiles)) i n = tiles"
  using assms
proof (induction tiles arbitrary: pre i n)
  case (Cons t tiles)
  have "degrade_tiles ((pre @ be_bytes 2 t) @ concat (map (be_bytes 2) tiles)) (Suc i) (length tiles) = tiles"
    by (rule Cons.IH) (use Cons.prems in simp_all)
  moreover have "subslice (10 + i * 2) (10 + i * 2 + 2) (pre @ be_bytes 2 t @ rest) = be_bytes 2 t" for rest
    using Cons.prems(1) by (simp add: subslice_def)
  ultimately show ?case using Cons.prems by (simp add: Let_def)
qed simp

lemma parse_degrade_payload:
  assumes "length tiles < 65536"
  shows "parse_degrade_signal (degrade_payload tiles age ceil) = Some \<lparr>di_measured_age = from_micros age,
    di_ceiling = from_micros ceil, di_region_tiles = tiles\<rparr>"
proof -
  let ?pre = "be_bytes 4 age @ be_bytes 4 ceil @ be_bytes 2 (of_nat (length tiles) :: u16)"
  have "degrade_tiles (?pre @ concat (map (be_bytes 2) tiles)) 0 (length tiles) = tiles"
    by (rule degrade_tiles_concat) simp_all
  then show ?thesis
    using assms by (simp add: parse_degrade_signal_def degrade_payload_def subslice_def Let_def unat_of_nat_u16)
qed

lemma from_to_wire_code: "from_wire_code (to_wire_code r) = Some r"
  by (cases r) (simp_all add: from_wire_code_def)

interpretation fb_codec: wire_codec Feedback feedback2_encode feedback2_decode "\<lambda>_. True"
  by unfold_locales (rule feedback2_decode_encode)

interpretation hello_codec: wire_codec SessionHello
  "\<lambda>i. hello_payload (hi_max_fps i) (hi_max_res i) (hi_extra_caps i)" parse_hello "\<lambda>_. True"
  by unfold_locales (simp add: parse_hello_payload)

interpretation keepalive_codec: wire_codec Keepalive "be_bytes 8" parse_keepalive_ping "\<lambda>_. True"
  by unfold_locales (simp add: parse_keepalive_ping_def subslice_def)

interpretation mode_switch_codec: wire_codec ModeSwitch "\<lambda>r. [to_wire_code r]"
  "\<lambda>payload. case payload of [] \<Rightarrow> None | b # _ \<Rightarrow> from_wire_code b" "\<lambda>_. True"
  by unfold_locales (simp add: from_to_wire_code)

interpretation degrade_codec: wire_codec DegradeSignalType
  "\<lambda>i. degrade_payload (di_region_tiles i) (of_nat (di_measured_age i div 1000)) (of_nat (di_ceiling i div 1000))"
  parse_degrade_signal
  "\<lambda>i. length (di_region_tiles i) < 65536
      \<and> di_measured_age i mod 1000 = 0 \<and> di_measured_age i div 1000 < 4294967296
      \<and> di_ceiling i mod 1000 = 0 \<and> di_ceiling i div 1000 < 4294967296"
proof unfold_locales
  fix i :: DegradeSignalInfo
  assume v: "length (di_region_tiles i) < 65536
      \<and> di_measured_age i mod 1000 = 0 \<and> di_measured_age i div 1000 < 4294967296
      \<and> di_ceiling i mod 1000 = 0 \<and> di_ceiling i div 1000 < 4294967296"
  have "from_micros (of_nat (d div 1000)) = d" if "d mod 1000 = 0" "d div 1000 < 4294967296" for d
    using that by (auto simp: from_micros_def unat_of_nat_u32)
  with v show "parse_degrade_signal (degrade_payload (di_region_tiles i)
      (of_nat (di_measured_age i div 1000)) (of_nat (di_ceiling i div 1000))) = Some i"
    by (simp add: parse_degrade_payload)
qed

section \<open>Reachable sessions\<close>

text \<open>The sessions a program can hold: a constructor, then any sequence of the operations.\<close>

inductive session_reach :: "Crypto \<Rightarrow> 'addr Evrt2Session \<Rightarrow> bool" for c where
  reach_new: "session_reach c (session_new t peer mode)"
| reach_auth_key: "session_reach c s \<Longrightarrow> session_reach c (set_auth_key key s)"
| reach_client_max_res: "session_reach c s \<Longrightarrow> session_reach c (set_client_max_res res s)"
| reach_mode: "session_reach c s \<Longrightarrow> session_reach c (set_mode mode s)"
| reach_peer: "session_reach c s \<Longrightarrow> session_reach c (set_peer peer s)"
| reach_relay: "session_reach c s \<Longrightarrow> session_reach c (switch_to_relay peer s)"
| reach_udp: "session_reach c s \<Longrightarrow> session_reach c (switch_to_udp peer s)"
| reach_recv: "session_reach c s \<Longrightarrow> session_reach c (fst (recv_one c net s))"

lemmas session_ops = session_new_def set_auth_key_def set_client_max_res_def set_mode_def set_peer_def
  switch_to_relay_def switch_to_udp_def

lemma recv_one_keeps:
  "es_mode (fst (recv_one c net s)) = es_mode s" "es_fec (fst (recv_one c net s)) = es_fec s"
  "es_auth_key (fst (recv_one c net s)) = es_auth_key s" "es_peer (fst (recv_one c net s)) = es_peer s"
  "es_transport (fst (recv_one c net s)) = es_transport s"
  by (auto simp: recv_one_def split: sum.splits option.splits prod.splits)

lemma session_reach_fec: "session_reach c s \<Longrightarrow> es_fec s = fec_for_mode (es_mode s)"
  by (induction rule: session_reach.induct) (simp_all add: session_ops recv_one_keeps)

section \<open>A frame through two sessions\<close>

text \<open>The receiving loop: one \<open>recv_one\<close> per event, every packet it yields goes to the reassembler.\<close>

fun receive_frames ::
  "Crypto \<Rightarrow> (group_repairs \<Rightarrow> group_repairs) \<Rightarrow> ('addr Net \<times> duration) list \<Rightarrow> 'addr Evrt2Session
     \<Rightarrow> FrameReassembler \<Rightarrow> ('addr Evrt2Session \<times> FrameReassembler \<times> IngestResult list) option" where
  "receive_frames c iter [] s r = Some (s, r, [])"
| "receive_frames c iter ((net, now) # evs) s r =
     (let (s', res) = recv_one c net s in
      case res of
        Inr (Some (h, p)) \<Rightarrow>
          (case ingest iter now h p r of
             None \<Rightarrow> None
           | Some (r', ir) \<Rightarrow>
               map_option (\<lambda>(s'', r'', irs). (s'', r'', ir # irs)) (receive_frames c iter evs s' r'))
      | _ \<Rightarrow> receive_frames c iter evs s' r)"

lemma ingest_received_header: "ingest iter now (received_header h tag) p r = ingest iter now h p r"
proof -
  have v: "ingest_video (received_header h tag) p f = ingest_video h p f" for f
    by (simp add: ingest_video_def received_header_def)
  have rp: "repair_of_header (received_header h tag) p = repair_of_header h p"
    by (simp add: repair_of_header_def received_header_def)
  have ir: "ingest_repair (received_header h tag) p f = ingest_repair h p f" for f
    unfolding ingest_repair_def rp by (simp add: received_header_def)
  have en: "entry_or_new now (received_header h tag) n r = entry_or_new now h n r" for n
    by (cases "map_of (fr_pending r) (ph_frame_id h)") (simp_all add: entry_or_new_def received_header_def)
  have fields: "ph_packet_type (received_header h tag) = ph_packet_type h"
    "ph_mode (received_header h tag) = ph_mode h" "ph_frame_id (received_header h tag) = ph_frame_id h"
    by (simp_all add: received_header_def)
  show ?thesis unfolding ingest_def fields v ir en ..
qed

lemma send_loop_wires:
  "send_loop c nets s pkts n = Some (wires, Inr m) \<Longrightarrow> list_all2 (\<lambda>w pkt. protect c s pkt = Some w) wires pkts"
proof (induction c nets s pkts n arbitrary: wires rule: send_loop.induct)
  case (2 c nets s pkt pkts n)
  then show ?case
    by (auto simp: send_signed_def split: option.splits sum.splits if_splits Transport.splits)
qed simp

lemma protect_wire_of:
  assumes "digest_sizes c" "secretbox_law c"
  shows "\<exists>w. protect c s (wire_of pkt) = Some w"
proof (cases "es_auth_key s")
  case None
  then show ?thesis by (simp add: protect_def)
next
  case (Some key)
  from protect_with_key [OF assms Some, of "fst pkt" "snd pkt"] show ?thesis by (auto simp: wire_of_def)
qed

lemma send_loop_relay:
  assumes "digest_sizes c" "secretbox_law c" "es_transport s = Relay" "\<forall>i. net_outbound_open (nets i)"
    and "set pkts \<subseteq> range wire_of"
  shows "\<exists>wires. send_loop c nets s pkts n = Some (wires, Inr (n + length pkts))"
  using assms(5)
proof (induction pkts arbitrary: n)
  case (Cons pkt pkts)
  then obtain w where "protect c s pkt = Some w" using protect_wire_of [OF assms(1,2)] by fastforce
  moreover obtain ws where "send_loop c nets s pkts (Suc n) = Some (ws, Inr (Suc n + length pkts))"
    using Cons.IH [of "Suc n"] Cons.prems by auto
  ultimately show ?case using assms(3,4) by (simp add: send_signed_def)
qed simp

text \<open>An event hands the receiver the protected form of a packet.\<close>

definition event_of ::
  "Crypto \<Rightarrow> 'addr Evrt2Session \<Rightarrow> 'addr Evrt2Session \<Rightarrow> 'addr Net \<times> duration \<Rightarrow> PacketHeader \<times> bytes \<Rightarrow> bool" where
  "event_of c s s' ev pkt \<longleftrightarrow> (\<exists>w. protect c s (wire_of pkt) = Some w \<and> receive_raw (fst ev) s' = Inr (Some w))"

lemma event_recv:
  assumes laws: "digest_sizes c" "secretbox_law c" and key: "es_auth_key s = es_auth_key s'"
    and ev: "event_of c s s' ev (h, p)"
  shows "\<exists>h'. recv_one c (fst ev) s' = (s', Inr (Some (h', p))) \<and> (\<forall>iter now r. ingest iter now h' p r = ingest iter now h p r)"
proof -
  obtain w where w: "protect c s (packet_encode h p []) = Some w" "delivers (fst ev) s' w"
    using ev by (auto simp: event_of_def wire_of_def delivers_def)
  then obtain res where "send_signed c (fst ev) s (packet_encode h p []) = Some (w, res)"
    by (simp add: send_signed_def)
  from send_recv_one [OF laws key this w(2)] show ?thesis
    using ingest_received_header by fastforce
qed

lemma receive_frames_ingest:
  assumes laws: "digest_sizes c" "secretbox_law c" and key: "es_auth_key s = es_auth_key s'"
    and "list_all2 (event_of c s s') evs pkts"
  shows "receive_frames c iter evs s' r = map_option (\<lambda>(r', ress). (s', r', ress))
    (ingest_wires iter (map (\<lambda>(ev, pkt). (snd ev, wire_of pkt)) (zip evs pkts)) r)"
  using assms(4)
proof (induction evs pkts arbitrary: r rule: list_all2_induct)
  case (Cons ev evs pkt pkts)
  obtain h p where hp: "pkt = (h, p)" by (cases pkt)
  obtain net now where e: "ev = (net, now)" by (cases ev)
  from event_recv [OF laws key Cons.hyps(1) [unfolded hp]] obtain h' where
    "recv_one c net s' = (s', Inr (Some (h', p)))" "ingest iter now h' p r = ingest iter now h p r"
    by (auto simp: e)
  then show ?case using Cons.IH by (auto simp: e hp option.map_comp split: option.splits)
qed simp

section \<open>Properties\<close>

text \<open>what one endpoint sends, a peer with the same key (or, on both sides, without one) reads back.
  Sending never panics; the payload arrives unchanged and the header too, up to the \<open>ENCRYPTED\<close> bit and the
  authentication tag; the receiver's state does not change.\<close>

theorem session_roundtrip:
  assumes "digest_sizes c" "secretbox_law c" "es_auth_key s = es_auth_key s'"
  shows "\<exists>w res. send_signed c net s (packet_encode h p []) = Some (w, res)
    \<and> (\<forall>net'. receive_raw net' s' = Inr (Some w) \<longrightarrow>
         (\<exists>h'. recv_one c net' s' = (s', Inr (Some (h', p))) \<and> (h' = h \<or> (\<exists>tag. h' = received_header h tag))))"
proof -
  obtain w res where w: "send_signed c net s (packet_encode h p []) = Some (w, res)"
    using send_recv_total [OF assms(1,2)] by blast
  with send_recv_one [OF assms w] show ?thesis by (auto simp: delivers_def)
qed

definition demo_header :: PacketHeader where
  "demo_header = \<lparr>ph_packet_type = Goodbye, ph_mode = R2, ph_flags = 0, ph_frame_id = 4, ph_packet_index = 0,
    ph_packet_count = 1, ph_presentation_time_us = 5, ph_fec_group = 0, ph_fec_idx = 0, ph_fec_total = 0,
    ph_auth_tag = 0\<rparr>"

definition demo_net :: "bytes \<Rightarrow> nat Net" where
  "demo_net w = \<lparr>net_send_to = Inr (), net_recv_from = Inr (w, 1), net_outbound_open = True,
    net_try_recv = Inr w\<rparr>"

theorem session_roundtrip_witness:
  "\<exists>w h'. send_signed toy_crypto (demo_net []) (set_auth_key (Some [1, 2]) (session_new Relay 1 R2))
      (packet_encode demo_header [7] []) = Some (w, Inr ())
    \<and> recv_one toy_crypto (demo_net w) (set_auth_key (Some [1, 2]) (session_new Relay 1 R2))
       = (set_auth_key (Some [1, 2]) (session_new Relay 1 R2), Inr (Some (h', [7])))"
proof -
  let ?s = "set_auth_key (Some [1, 2]) (session_new Relay (1::nat) R2)"
  obtain w res where w: "send_signed toy_crypto (demo_net []) ?s (packet_encode demo_header [7] []) = Some (w, res)"
    and rd: "\<forall>net'. receive_raw net' ?s = Inr (Some w) \<longrightarrow> (\<exists>h'. recv_one toy_crypto net' ?s = (?s, Inr (Some (h', [7]))))"
    using session_roundtrip [OF toy_crypto_laws, of ?s ?s "demo_net []" demo_header "[7]"] by blast
  have "res = Inr ()"
    using w by (auto simp: send_signed_def demo_net_def session_ops split: option.splits)
  moreover have "receive_raw (demo_net w) ?s = Inr (Some w)"
    by (simp add: receive_raw_def demo_net_def session_ops)
  ultimately show ?thesis using w rd by blast
qed

text \<open>C9: an endpoint with a key hands a packet to its caller only if the datagram came from its peer (or
  the relay channel) and carries the tag of that key; any other datagram changes nothing but the
  failure counter, which grows by one when the tag or the decryption fails.\<close>

theorem recv_one_authenticates:
  assumes "digest_sizes c" and "es_auth_key s = Some key" and "recv_one c net s = (s', res)"
  shows "s' = s\<lparr>es_auth_failures := es_auth_failures s'\<rparr>
    \<and> (case res of
        Inr (Some (h, p)) \<Rightarrow> s' = s \<and> (\<exists>raw body. receive_raw net s = Inr (Some raw)
            \<and> sign_packet c key raw = raw \<and> packet_decode raw = Inr (h, body)
            \<and> decrypt_payload c (derive_encryption_key c key) raw = Some p)
      | Inr None \<Rightarrow> es_auth_failures s' = es_auth_failures s
            \<or> es_auth_failures s' = es_auth_failures s + 1
               \<and> (\<exists>raw. receive_raw net s = Inr (Some raw)
                    \<and> (sign_packet c key raw \<noteq> raw \<or> length raw < AUTH_TAG_OFFSET + AUTH_TAG_LEN
                       \<or> decrypt_payload c (derive_encryption_key c key) raw = None))
      | Inl e \<Rightarrow> s' = s \<and> receive_raw net s = Inl e)"
proof (cases "receive_raw net s")
  case (Inl e)
  then show ?thesis using assms(3) by (auto simp: recv_one_def)
next
  case (Inr ra)
  show ?thesis
  proof (cases ra)
    case None
    then show ?thesis using assms(3) Inr by (auto simp: recv_one_def)
  next
    case (Some raw)
    note raw = Inr [unfolded Some] and v = verify_packet_iff_resign [OF assms(1), of key raw]
    consider (bad) "\<not> verify_packet c key raw"
      | (undecodable) e where "verify_packet c key raw" "packet_decode raw = Inl e"
      | (sealed) h body where "verify_packet c key raw" "packet_decode raw = Inr (h, body)"
          "decrypt_payload c (derive_encryption_key c key) raw = None"
      | (ok) h body p where "verify_packet c key raw" "packet_decode raw = Inr (h, body)"
          "decrypt_payload c (derive_encryption_key c key) raw = Some p"
      by (metis option.exhaust old.sum.exhaust surj_pair)
    then show ?thesis
    proof cases
      case bad
      with assms(2,3) raw v show ?thesis by (auto simp: recv_one_def)
    next
      case undecodable
      with assms(2,3) raw show ?thesis by (auto simp: recv_one_def)
    next
      case sealed
      with assms(2,3) raw show ?thesis by (auto simp: recv_one_def)
    next
      case ok
      with assms(2,3) raw v show ?thesis by (auto simp: recv_one_def)
    qed
  qed
qed

theorem recv_one_authenticates_witness:
  "es_auth_failures (fst (recv_one toy_crypto (demo_net (packet_encode demo_header [7] []))
     (set_auth_key (Some [1, 2]) (session_new Relay 1 R2)))) = 1"
proof -
  let ?s = "set_auth_key (Some [1, 2]) (session_new Relay (1::nat) R2)"
  let ?r = "recv_one toy_crypto (demo_net (packet_encode demo_header [7] [])) ?s"
  have k: "es_auth_key ?s = Some [1, 2]" by (simp add: session_ops)
  have n: "snd ?r = Inr None" "es_auth_failures (fst ?r) \<noteq> es_auth_failures ?s" by code_simp+
  from recv_one_authenticates [OF toy_crypto_laws(1) k, of "demo_net (packet_encode demo_header [7] [])" "fst ?r" "snd ?r"] n
  have "es_auth_failures (fst ?r) = es_auth_failures ?s + 1" by auto
  then show ?thesis by (simp add: session_ops)
qed

text \<open>decoding inverts encoding for the five control messages with a payload: feedback, hello,
  keep-alive ping, mode switch and degrade signal (whose tile count is a \<open>u16\<close>).\<close>

theorem control_codecs_roundtrip:
  "feedback2_decode (feedback2_encode f) = Some f
   \<and> parse_hello (hello_payload fps res caps) = Some \<lparr>hi_max_fps = fps, hi_max_res = res, hi_extra_caps = caps\<rparr>
   \<and> parse_keepalive_ping (be_bytes 8 t) = Some t
   \<and> parse_mode_switch h [to_wire_code reason] = \<lparr>mi_new_mode = ph_mode h, mi_reason = Some reason\<rparr>
   \<and> (length tiles < 65536 \<longrightarrow> parse_degrade_signal (degrade_payload tiles age ceil) =
        Some \<lparr>di_measured_age = from_micros age, di_ceiling = from_micros ceil, di_region_tiles = tiles\<rparr>)"
  by (simp add: feedback2_decode_encode parse_hello_payload keepalive_codec.dec_enc parse_mode_switch_def
      from_to_wire_code parse_degrade_payload)

theorem control_codecs_roundtrip_witness:
  "parse_degrade_signal (degrade_payload [3, 4] 1000 500) =
     Some \<lparr>di_measured_age = 1000000, di_ceiling = 500000, di_region_tiles = [3, 4]\<rparr>"
  using control_codecs_roundtrip [of undefined undefined undefined undefined undefined demo_header undefined "[3, 4]" 1000 500]
  by (simp add: from_micros_def)

text \<open>a degrade signal sent by one endpoint is read by a peer with the same key as the same signal, of
  the packet type and mode it was sent with.\<close>

theorem degrade_signal_delivered:
  assumes "digest_sizes c" "secretbox_law c" "es_auth_key s = es_auth_key s'"
    and "length (di_region_tiles i) < 65536"
    and "di_measured_age i mod 1000 = 0" "di_measured_age i div 1000 < 4294967296"
    and "di_ceiling i mod 1000 = 0" "di_ceiling i div 1000 < 4294967296"
    and "send_signed c net s (build_degrade_signal now_us mode (di_region_tiles i)
           (of_nat (di_measured_age i div 1000)) (of_nat (di_ceiling i div 1000))) = Some (w, res)"
    and "receive_raw net' s' = Inr (Some w)"
  shows "\<exists>h payload. recv_one c net' s' = (s', Inr (Some (h, payload)))
    \<and> ph_packet_type h = DegradeSignalType \<and> ph_mode h = mode \<and> parse_degrade_signal payload = Some i"
  using degrade_codec.message_delivered [OF assms(1-3), of i] assms(4-10)
  by (simp add: build_degrade_signal_def delivers_def)

theorem degrade_signal_delivered_witness:
  "\<exists>w h payload. recv_one toy_crypto (demo_net w) (session_new Relay 1 R2)
       = (session_new Relay 1 R2, Inr (Some (h, payload)))
    \<and> parse_degrade_signal payload = Some \<lparr>di_measured_age = 1000000, di_ceiling = 5000, di_region_tiles = [3, 4]\<rparr>"
proof -
  let ?i = "\<lparr>di_measured_age = 1000000, di_ceiling = 5000, di_region_tiles = [3, 4 :: u16]\<rparr>"
  let ?s = "session_new Relay (1::nat) R2"
  let ?w = "build_degrade_signal 3 Ar [3, 4] (of_nat 1000) (of_nat 5)"
  have "send_signed toy_crypto (demo_net []) ?s ?w = Some (?w, Inr ())"
    by (simp add: send_signed_def protect_def session_ops demo_net_def)
  moreover have "receive_raw (demo_net ?w) ?s = Inr (Some ?w)"
    by (simp add: receive_raw_def demo_net_def session_ops)
  ultimately have "\<exists>h payload. recv_one toy_crypto (demo_net ?w) ?s = (?s, Inr (Some (h, payload)))
    \<and> ph_packet_type h = DegradeSignalType \<and> ph_mode h = Ar \<and> parse_degrade_signal payload = Some ?i"
    by (intro degrade_signal_delivered [OF toy_crypto_laws refl, where net = "demo_net []" and res = "Inr ()"
          and now_us = 3 and w = ?w]) simp_all
  then show ?thesis by blast
qed

text \<open>encryption takes a full packet over the datagram limit. A packet with \<open>MAX_PAYLOAD\<close> bytes of
  payload is handed to the transport with 16 bytes more than \<open>MAX_DATAGRAM\<close> when a session key is set.\<close>

theorem encrypted_packet_exceeds_datagram_limit:
  assumes "digest_sizes c" "secretbox_law c" "es_auth_key s = Some key" "length p = MAX_PAYLOAD"
  shows "\<exists>w. protect c s (packet_encode h p []) = Some w \<and> length w = MAX_DATAGRAM + SECRETBOX_MAC_LEN"
  using protect_with_key [OF assms(1-3), of h p] assms(4) by (auto simp: frame_consts crypto_consts)

theorem encrypted_packet_exceeds_datagram_limit_witness:
  "\<exists>w. protect toy_crypto (set_auth_key (Some [1]) (session_new Relay (1::nat) R2))
      (packet_encode demo_header (replicate MAX_PAYLOAD 0) []) = Some w \<and> length w = MAX_DATAGRAM + SECRETBOX_MAC_LEN"
  by (rule encrypted_packet_exceeds_datagram_limit [OF toy_crypto_laws, where key = "[1]"])
    (simp_all add: session_ops)

end
