(* ===== verification/Frame_Queue.thy ===== *)
theory Frame_Queue
  imports Evrt2_Scheduler "HOL-Library.Sublist"
begin

text \<open>
  The receiver's video frame queue of \<^verbatim>\<open>src/src/frame_queue.rs\<close>: \<open>Inner\<close>, \<open>FrameQueue\<close> and
  \<open>FrameQueueHandle\<close>. Every public operation takes the mutex, so one call is one atomic step on
  \<open>Inner\<close>; the blocking \<open>dequeue\<close> releases the mutex only inside \<open>wait_timeout\<close>, so one turn of its
  loop is one step (\<open>dequeue_turn\<close>), and the interleavings of the producer, the consumer and the
  feedback loop are the sequences of such steps (\<open>fq_step\<close>). The time of a step is an
  argument. \<open>dropped_units\<close> is a wrapping 64-bit counter, as in a release build.

  The section on the abstract queue states what the decoder relies on: a lossy first-in first-out
  channel. The simulation shows that every step of the code is a step of that channel.
\<close>

section \<open>State\<close>

record QueuedUnit =
  qu_bytes :: bytes
  qu_is_key_frame :: bool
  qu_presentation_time_us :: u64
  qu_enqueued_at :: nat

record QueueStats =
  qs_queued_units :: nat
  qs_queued_bytes :: nat
  qs_dropped_units :: u64
  qs_waiting_for_keyframe :: bool

record FrameQueueConfig =
  max_queued_units :: nat
  max_queued_bytes :: nat
  hard_reset_on_keyframe :: bool
  prefer_latest :: bool
  drop_current_on_wait :: bool
  initial_jitter_delay :: duration

definition default_queue_config :: FrameQueueConfig where
  "default_queue_config =
     \<lparr>max_queued_units = 2, max_queued_bytes = 512 * 1024, hard_reset_on_keyframe = False,
      prefer_latest = True, drop_current_on_wait = True, initial_jitter_delay = 0\<rparr>"

definition cinema :: FrameQueueConfig where
  "cinema =
     \<lparr>max_queued_units = 4, max_queued_bytes = 2 * 1024 * 1024, hard_reset_on_keyframe = False,
      prefer_latest = False, drop_current_on_wait = False, initial_jitter_delay = from_millis 16\<rparr>"

record Inner =
  in_queue :: "QueuedUnit list"
  in_queued_bytes :: nat
  in_current :: "QueuedUnit option"
  in_waiting_for_keyframe :: bool
  in_dropped_units :: u64
  in_closed :: bool
  in_jitter_delay :: duration
  in_cfg :: FrameQueueConfig

definition inner_new :: "FrameQueueConfig \<Rightarrow> Inner" where
  "inner_new cfg =
     \<lparr>in_queue = [], in_queued_bytes = 0, in_current = None, in_waiting_for_keyframe = False,
      in_dropped_units = 0, in_closed = False, in_jitter_delay = initial_jitter_delay cfg, in_cfg = cfg\<rparr>"

section \<open>Operations\<close>

definition inner_stats :: "Inner \<Rightarrow> QueueStats" where
  "inner_stats g =
     (let current_bytes = (case in_current g of None \<Rightarrow> 0 | Some u \<Rightarrow> length (qu_bytes u)) in
      \<lparr>qs_queued_units = length (in_queue g) + (case in_current g of None \<Rightarrow> 0 | Some _ \<Rightarrow> 1),
       qs_queued_bytes = in_queued_bytes g + current_bytes,
       qs_dropped_units = in_dropped_units g,
       qs_waiting_for_keyframe = in_waiting_for_keyframe g\<rparr>)"

definition clear_queue :: "Inner \<Rightarrow> Inner" where
  "clear_queue g =
     g\<lparr>in_dropped_units := in_dropped_units g + of_nat (length (in_queue g)),
       in_queue := [], in_queued_bytes := 0\<rparr>"

definition drop_current :: "Inner \<Rightarrow> Inner" where
  "drop_current g =
     (case in_current g of
        None \<Rightarrow> g
      | Some _ \<Rightarrow> g\<lparr>in_current := None, in_dropped_units := in_dropped_units g + 1\<rparr>)"

definition push_unit :: "nat \<Rightarrow> bytes \<Rightarrow> bool \<Rightarrow> u64 \<Rightarrow> Inner \<Rightarrow> Inner" where
  "push_unit now bs is_key pts g =
     g\<lparr>in_queue := in_queue g @ [\<lparr>qu_bytes = bs, qu_is_key_frame = is_key,
                                   qu_presentation_time_us = pts, qu_enqueued_at = now\<rparr>],
       in_queued_bytes := in_queued_bytes g + length bs\<rparr>"

definition enqueue_inner :: "nat \<Rightarrow> bytes \<Rightarrow> bool \<Rightarrow> u64 \<Rightarrow> Inner \<Rightarrow> Inner" where
  "enqueue_inner now bs is_key pts g =
     (if in_closed g then g
      else if in_waiting_for_keyframe g then
        if \<not> is_key then g\<lparr>in_dropped_units := in_dropped_units g + 1\<rparr>
        else
          let g = clear_queue g;
              g = (if drop_current_on_wait (in_cfg g) then drop_current g else g);
              g = g\<lparr>in_waiting_for_keyframe := False\<rparr>
          in push_unit now bs is_key pts g
      else if hard_reset_on_keyframe (in_cfg g) \<and> is_key \<and> (in_current g \<noteq> None \<or> in_queue g \<noteq> []) then
        push_unit now bs is_key pts ((drop_current (clear_queue g))\<lparr>in_waiting_for_keyframe := False\<rparr>)
      else if prefer_latest (in_cfg g) \<and> in_queue g \<noteq> [] then
        push_unit now bs is_key pts (clear_queue g)
      else
        let overflow_units = length (in_queue g) \<ge> max_queued_units (in_cfg g);
            overflow_bytes = in_queued_bytes g + length bs > max_queued_bytes (in_cfg g)
        in if overflow_units \<or> overflow_bytes then
             let g = clear_queue g;
                 g = (if drop_current_on_wait (in_cfg g) then drop_current g else g)
             in if is_key \<or> in_current g = None
                then push_unit now bs is_key pts (g\<lparr>in_waiting_for_keyframe := False\<rparr>)
                else g\<lparr>in_dropped_units := in_dropped_units g + 1, in_waiting_for_keyframe := True\<rparr>
           else push_unit now bs is_key pts g)"

datatype dequeue_outcome =
  Returned "(bytes \<times> bool \<times> u64) option"
| WaitTimeout duration

text \<open>Moving the oldest queued unit into the free \<open>current\<close> slot.\<close>

definition refill_current :: "Inner \<Rightarrow> Inner" where
  "refill_current g =
     (if in_current g = None then
        case in_queue g of
          [] \<Rightarrow> g
        | u # q \<Rightarrow> g\<lparr>in_queue := q, in_queued_bytes := in_queued_bytes g - length (qu_bytes u),
                      in_current := Some u\<rparr>
      else g)"

text \<open>One turn of the loop of \<open>dequeue\<close>: it returns, or it waits for at most the given time and
  runs again.\<close>

definition dequeue_turn :: "nat \<Rightarrow> bool \<Rightarrow> Inner \<Rightarrow> Inner \<times> dequeue_outcome" where
  "dequeue_turn now cancel g =
     (if in_closed g \<or> cancel then (g, Returned None)
      else
        let g = refill_current g in
        case in_current g of
          Some u \<Rightarrow>
            let age = now - qu_enqueued_at u in
            if in_jitter_delay g > 0 \<and> in_queue g = [] \<and> age < in_jitter_delay g
            then (g, WaitTimeout (min (in_jitter_delay g - age) (from_millis 20)))
            else (g\<lparr>in_current := None\<rparr>,
                  Returned (Some (qu_bytes u, qu_is_key_frame u, qu_presentation_time_us u)))
        | None \<Rightarrow> (g, WaitTimeout (from_millis 10)))"

text \<open>The loop itself, for a consumer that nobody wakes up earlier: every wait lasts its whole
  timeout. \<open>None\<close> means that the fuel is used up.\<close>

fun dequeue :: "nat \<Rightarrow> nat \<Rightarrow> bool \<Rightarrow> Inner \<Rightarrow> (Inner \<times> (bytes \<times> bool \<times> u64) option) option" where
  "dequeue 0 now cancel g = None"
| "dequeue (Suc fuel) now cancel g =
     (case dequeue_turn now cancel g of
        (g', Returned r) \<Rightarrow> Some (g', r)
      | (g', WaitTimeout d) \<Rightarrow> dequeue fuel (now + d) cancel g')"

definition set_jitter_delay :: "duration \<Rightarrow> Inner \<Rightarrow> Inner" where
  "set_jitter_delay d g = g\<lparr>in_jitter_delay := d\<rparr>"

definition wait_for_keyframe :: "Inner \<Rightarrow> Inner" where
  "wait_for_keyframe g =
     (if in_closed g then g
      else let g = clear_queue g;
               g = (if drop_current_on_wait (in_cfg g) then drop_current g else g)
           in g\<lparr>in_waiting_for_keyframe := True\<rparr>)"

definition flush :: "bool \<Rightarrow> Inner \<Rightarrow> Inner" where
  "flush wait g = (drop_current (clear_queue g))\<lparr>in_waiting_for_keyframe := wait\<rparr>"

definition close_queue :: "Inner \<Rightarrow> Inner" where
  "close_queue g = drop_current (clear_queue (g\<lparr>in_closed := True\<rparr>))"

section \<open>Interleaved executions\<close>

datatype fq_event =
  Enqueue bytes bool u64
| Delivered "bytes \<times> bool \<times> u64"
| DequeueNone
| DequeueWait duration
| SetJitterDelay duration
| WaitForKeyframe
| Flush bool
| Close

text \<open>One critical section of some thread. The label records the call and, for a turn of
  \<open>dequeue\<close>, its outcome.\<close>

inductive fq_step :: "Inner \<Rightarrow> fq_event \<Rightarrow> Inner \<Rightarrow> bool" where
  Step_enqueue: "fq_step g (Enqueue bs k pts) (enqueue_inner now bs k pts g)"
| Step_deliver: "dequeue_turn now c g = (g', Returned (Some u)) \<Longrightarrow> fq_step g (Delivered u) g'"
| Step_none: "dequeue_turn now c g = (g', Returned None) \<Longrightarrow> fq_step g DequeueNone g'"
| Step_wait: "dequeue_turn now c g = (g', WaitTimeout d) \<Longrightarrow> fq_step g (DequeueWait d) g'"
| Step_jitter: "fq_step g (SetJitterDelay d) (set_jitter_delay d g)"
| Step_keyframe: "fq_step g WaitForKeyframe (wait_for_keyframe g)"
| Step_flush: "fq_step g (Flush w) (flush w g)"
| Step_close: "fq_step g Close (close_queue g)"

fun enqueued_of :: "fq_event list \<Rightarrow> (bytes \<times> bool \<times> u64) list" where
  "enqueued_of [] = []"
| "enqueued_of (Enqueue bs k pts # es) = (bs, k, pts) # enqueued_of es"
| "enqueued_of (_ # es) = enqueued_of es"

fun delivered_of :: "fq_event list \<Rightarrow> (bytes \<times> bool \<times> u64) list" where
  "delivered_of [] = []"
| "delivered_of (Delivered u # es) = u # delivered_of es"
| "delivered_of (_ # es) = delivered_of es"

section \<open>The abstract queue: a lossy first-in first-out channel\<close>

datatype 'f chan_event = Put 'f | Get 'f | Tau

inductive lossy_step :: "'f list \<Rightarrow> 'f chan_event \<Rightarrow> 'f list \<Rightarrow> bool" where
  Lossy_put: "subseq zs (xs @ [x]) \<Longrightarrow> lossy_step xs (Put x) zs"
| Lossy_get: "lossy_step (x # xs) (Get x) xs"
| Lossy_tau: "subseq zs xs \<Longrightarrow> lossy_step xs Tau zs"

inductive_simps lossy_step_simps:
  "lossy_step xs (Put x) zs" "lossy_step xs (Get x) zs" "lossy_step xs Tau zs"

fun puts_of :: "'f chan_event list \<Rightarrow> 'f list" where
  "puts_of [] = []"
| "puts_of (Put x # es) = x # puts_of es"
| "puts_of (_ # es) = puts_of es"

fun gets_of :: "'f chan_event list \<Rightarrow> 'f list" where
  "gets_of [] = []"
| "gets_of (Get x # es) = x # gets_of es"
| "gets_of (_ # es) = gets_of es"

lemma subseq_append_same: "subseq xs ys \<Longrightarrow> subseq (xs @ zs) (ys @ zs)"
  by (simp add: list_emb_append_mono)

lemma lossy_steps_subseq:
  "steps lossy_step xs es zs \<Longrightarrow> subseq (gets_of es @ zs) (xs @ puts_of es)"
proof (induction rule: steps.induct)
  case (steps_Cons s e s1 es s2)
  show ?case
  proof (cases e)
    case (Put x)
    then have "subseq s1 (s @ [x])" using steps_Cons.hyps(1) by (simp add: lossy_step_simps)
    then have "subseq (s1 @ puts_of es) ((s @ [x]) @ puts_of es)" by (rule subseq_append_same)
    then show ?thesis using Put steps_Cons.IH by (auto intro: subseq_order.order_trans)
  next
    case (Get x)
    then show ?thesis using steps_Cons by (auto simp: lossy_step_simps)
  next
    case Tau
    then have "subseq s1 s" using steps_Cons.hyps(1) by (simp add: lossy_step_simps)
    then have "subseq (s1 @ puts_of es) (s @ puts_of es)" by (rule subseq_append_same)
    then show ?thesis using Tau steps_Cons.IH by (auto intro: subseq_order.order_trans)
  qed
qed simp

section \<open>Simulation\<close>

fun chan_event_of :: "fq_event \<Rightarrow> (bytes \<times> bool \<times> u64) chan_event" where
  "chan_event_of (Enqueue bs k pts) = Put (bs, k, pts)"
| "chan_event_of (Delivered u) = Get u"
| "chan_event_of _ = Tau"

lemma puts_of_events [simp]: "puts_of (map chan_event_of es) = enqueued_of es"
  by (induction es rule: enqueued_of.induct) auto

lemma gets_of_events [simp]: "gets_of (map chan_event_of es) = delivered_of es"
  by (induction es rule: delivered_of.induct) auto

definition unit_content :: "QueuedUnit \<Rightarrow> bytes \<times> bool \<times> u64" where
  "unit_content u = (qu_bytes u, qu_is_key_frame u, qu_presentation_time_us u)"

definition units_held :: "Inner \<Rightarrow> QueuedUnit list" where
  "units_held g = (case in_current g of None \<Rightarrow> [] | Some u \<Rightarrow> [u]) @ in_queue g"

definition pending :: "Inner \<Rightarrow> (bytes \<times> bool \<times> u64) list" where
  "pending g = map unit_content (units_held g)"

lemma pending_ops [simp]:
  "pending (push_unit now bs k pts g) = pending g @ [(bs, k, pts)]"
  "pending (drop_current (clear_queue g)) = []"
  "subseq (pending (clear_queue g)) (pending g)"
  "pending (refill_current g) = pending g"
  "pending (g\<lparr>in_waiting_for_keyframe := w\<rparr>) = pending g"
  "pending (g\<lparr>in_dropped_units := d\<rparr>) = pending g"
  "pending (g\<lparr>in_jitter_delay := j\<rparr>) = pending g"
  "pending (g\<lparr>in_closed := b\<rparr>) = pending g"
  by (auto simp: pending_def units_held_def unit_content_def push_unit_def drop_current_def
      clear_queue_def refill_current_def split: option.splits list.splits)

lemma push_unit_lossy:
  "subseq (pending g1) (pending g) \<Longrightarrow> subseq (pending (push_unit now bs k pts g1)) (pending g @ [(bs, k, pts)])"
  by (simp add: list_emb_append_mono)

lemma subseq_drop_current: "subseq (pending (drop_current g)) (pending g)"
  by (auto simp: pending_def units_held_def drop_current_def split: option.splits)

lemma subseq_snoc: "subseq xs ys \<Longrightarrow> subseq xs (ys @ zs)"
  using list_emb_append_mono[of "(=)" xs ys "[]" zs] by simp

lemma clear_and_maybe_drop_lossy:
  "subseq (pending (if b then drop_current (clear_queue g) else clear_queue g)) (pending g)"
  by (auto intro: subseq_order.order_trans[OF subseq_drop_current])

lemma enqueue_lossy:
  "subseq (pending (enqueue_inner now bs k pts g)) (pending g @ [(bs, k, pts)])"
  unfolding enqueue_inner_def Let_def
  by (auto intro!: push_unit_lossy intro: subseq_snoc clear_and_maybe_drop_lossy
      subseq_order.order_trans[OF subseq_drop_current] simp: subseq_snoc)

lemma pending_refill_Some:
  "in_current (refill_current g) = Some u \<Longrightarrow>
   pending g = (qu_bytes u, qu_is_key_frame u, qu_presentation_time_us u) # pending ((refill_current g)\<lparr>in_current := None\<rparr>)"
  using pending_ops(4)[of g] by (simp add: pending_def units_held_def unit_content_def)

lemma dequeue_turn_pending:
  "dequeue_turn now c g = (g', Returned (Some u)) \<Longrightarrow> pending g = u # pending g'"
  "dequeue_turn now c g = (g', Returned None) \<Longrightarrow> pending g' = pending g"
  "dequeue_turn now c g = (g', WaitTimeout d) \<Longrightarrow> pending g' = pending g"
  by (auto simp: dequeue_turn_def Let_def pending_refill_Some
      split: if_splits option.splits)

lemma fq_step_lossy: "fq_step g e g' \<Longrightarrow> lossy_step (pending g) (chan_event_of e) (pending g')"
proof (induction rule: fq_step.induct)
  case (Step_keyframe g)
  then show ?case
    using clear_and_maybe_drop_lossy[of "drop_current_on_wait (in_cfg g)" g]
    by (auto simp: lossy_step_simps wait_for_keyframe_def Let_def clear_queue_def)
qed (auto simp: lossy_step_simps enqueue_lossy dequeue_turn_pending set_jitter_delay_def flush_def
    close_queue_def intro: subseq_order.order_trans)

interpretation fq: simulation fq_step lossy_step pending chan_event_of
  by unfold_locales (rule fq_step_lossy)

section \<open>State invariant\<close>

definition bytes_of :: "QueuedUnit list \<Rightarrow> nat" where
  "bytes_of us = sum_list (map (\<lambda>u. length (qu_bytes u)) us)"

lemma bytes_of_simps [simp]:
  "bytes_of [] = 0" "bytes_of (u # us) = length (qu_bytes u) + bytes_of us"
  "bytes_of (us @ vs) = bytes_of us + bytes_of vs"
  by (simp_all add: bytes_of_def)

definition queue_inv :: "FrameQueueConfig \<Rightarrow> Inner \<Rightarrow> bool" where
  "queue_inv cfg g \<longleftrightarrow>
     in_cfg g = cfg \<and>
     in_queued_bytes g = bytes_of (in_queue g) \<and>
     length (in_queue g) \<le> max 1 (max_queued_units cfg) \<and>
     (length (in_queue g) \<le> 1 \<or> in_queued_bytes g \<le> max_queued_bytes cfg) \<and>
     (prefer_latest cfg \<longrightarrow> length (in_queue g) \<le> 1) \<and>
     (in_waiting_for_keyframe g \<longrightarrow> in_queue g = [] \<and> (drop_current_on_wait cfg \<longrightarrow> in_current g = None)) \<and>
     (in_closed g \<longrightarrow> units_held g = [])"

lemma queue_inv_new: "queue_inv cfg (inner_new cfg)"
  by (simp add: queue_inv_def inner_new_def units_held_def)

lemmas queue_op_defs = clear_queue_def drop_current_def push_unit_def units_held_def

lemma cleared_fields [simp]:
  "in_queue (clear_queue g) = []" "in_queued_bytes (clear_queue g) = 0"
  "in_cfg (clear_queue g) = in_cfg g" "in_current (clear_queue g) = in_current g"
  "in_closed (clear_queue g) = in_closed g"
  "in_queue (drop_current g) = in_queue g" "in_queued_bytes (drop_current g) = in_queued_bytes g"
  "in_cfg (drop_current g) = in_cfg g" "in_current (drop_current g) = None"
  "in_closed (drop_current g) = in_closed g"
  by (simp_all add: clear_queue_def drop_current_def split: option.splits)

lemma cleared_waiting [simp]:
  "in_waiting_for_keyframe (clear_queue g) = in_waiting_for_keyframe g"
  "in_waiting_for_keyframe (drop_current g) = in_waiting_for_keyframe g"
  by (simp_all add: clear_queue_def drop_current_def split: option.splits)

lemma push_alone_inv:
  "in_cfg g = cfg \<Longrightarrow> in_queue g = [] \<Longrightarrow> in_queued_bytes g = 0 \<Longrightarrow> \<not> in_waiting_for_keyframe g \<Longrightarrow>
   \<not> in_closed g \<Longrightarrow> queue_inv cfg (push_unit now bs k pts g)"
  by (simp add: queue_inv_def push_unit_def)

lemma push_room_inv:
  "queue_inv cfg g \<Longrightarrow> \<not> in_waiting_for_keyframe g \<Longrightarrow> \<not> in_closed g \<Longrightarrow>
   length (in_queue g) < max_queued_units cfg \<Longrightarrow> in_queued_bytes g + length bs \<le> max_queued_bytes cfg \<Longrightarrow>
   (prefer_latest cfg \<Longrightarrow> in_queue g = []) \<Longrightarrow> queue_inv cfg (push_unit now bs k pts g)"
  by (auto simp: queue_inv_def push_unit_def)

lemma queue_inv_fields:
  "queue_inv cfg g \<Longrightarrow> in_cfg g = cfg"
  "queue_inv cfg g \<Longrightarrow> queue_inv cfg (g\<lparr>in_dropped_units := d\<rparr>)"
  by (auto simp: queue_inv_def units_held_def)

lemma wait_after_overflow_inv:
  "in_cfg g = cfg \<Longrightarrow> in_queue g = [] \<Longrightarrow> in_queued_bytes g = 0 \<Longrightarrow> \<not> in_closed g \<Longrightarrow>
   \<not> drop_current_on_wait cfg \<Longrightarrow>
   queue_inv cfg (g\<lparr>in_dropped_units := d, in_waiting_for_keyframe := True\<rparr>)"
  by (simp add: queue_inv_def)

lemma make_room_inv:
  assumes "in_cfg g = cfg" and "\<not> in_closed g" and "w = False"
  shows "queue_inv cfg (push_unit now bs k pts
     ((if b then drop_current (clear_queue g) else clear_queue g)\<lparr>in_waiting_for_keyframe := w\<rparr>))"
  using assms by (intro push_alone_inv) auto

lemma overflow_inv:
  fixes g :: Inner
  defines "c \<equiv> if drop_current_on_wait (in_cfg g) then drop_current (clear_queue g) else clear_queue g"
  assumes "in_cfg g = cfg" and "\<not> in_closed g"
  shows "queue_inv cfg (if k \<or> in_current c = None then push_unit now bs k pts (c\<lparr>in_waiting_for_keyframe := False\<rparr>)
     else c\<lparr>in_dropped_units := in_dropped_units c + 1, in_waiting_for_keyframe := True\<rparr>)"
proof (cases "k \<or> in_current c = None")
  case True
  then show ?thesis unfolding if_P[OF True] unfolding c_def by (intro make_room_inv[OF assms(2,3) refl])
next
  case False
  then show ?thesis unfolding if_not_P[OF False] using assms
    by (intro wait_after_overflow_inv) (simp_all add: c_def split: if_splits)
qed

lemma enqueue_inv:
  assumes inv: "queue_inv cfg g"
  shows "queue_inv cfg (enqueue_inner now bs k pts g)"
proof (cases "in_closed g")
  case False
  note cfg = queue_inv_fields(1)[OF inv]
  let ?reset = "hard_reset_on_keyframe cfg \<and> k \<and> (in_current g \<noteq> None \<or> in_queue g \<noteq> [])"
  let ?latest = "prefer_latest cfg \<and> in_queue g \<noteq> []"
  let ?over = "max_queued_units cfg \<le> length (in_queue g) \<or> max_queued_bytes cfg < in_queued_bytes g + length bs"
  consider (wait) "in_waiting_for_keyframe g" | (reset) "\<not> in_waiting_for_keyframe g" ?reset
    | (latest) "\<not> in_waiting_for_keyframe g" "\<not> ?reset" ?latest
    | (over) "\<not> in_waiting_for_keyframe g" "\<not> ?reset" "\<not> ?latest" ?over
    | (room) "\<not> in_waiting_for_keyframe g" "\<not> ?reset" "\<not> ?latest" "\<not> ?over"
    by blast
  then show ?thesis
  proof cases
    case wait
    then show ?thesis using False inv make_room_inv[OF cfg False refl, where b = "drop_current_on_wait cfg"]
      by (simp add: enqueue_inner_def Let_def cfg queue_inv_fields(2))
  next
    case reset
    then show ?thesis using False make_room_inv[OF cfg False refl, where b = True]
      by (simp add: enqueue_inner_def cfg)
  next
    case latest
    have "queue_inv cfg (push_unit now bs k pts (clear_queue g))"
      using latest(1) False cfg by (intro push_alone_inv) simp_all
    then show ?thesis unfolding enqueue_inner_def cfg if_not_P[OF False] if_not_P[OF latest(1)]
        if_not_P[OF latest(2)] if_P[OF latest(3)] .
  next
    case over
    show ?thesis unfolding enqueue_inner_def Let_def cleared_fields cfg if_not_P[OF False]
        if_not_P[OF over(1)] if_not_P[OF over(2)] if_not_P[OF over(3)] if_P[OF over(4)]
      using overflow_inv[OF cfg False] unfolding cfg .
  next
    case room
    have "queue_inv cfg (push_unit now bs k pts g)"
      using room False inv by (intro push_room_inv) (simp_all add: not_le not_less)
    then show ?thesis unfolding enqueue_inner_def Let_def cfg if_not_P[OF False] if_not_P[OF room(1)]
        if_not_P[OF room(2)] if_not_P[OF room(3)] if_not_P[OF room(4)] .
  qed
qed (use inv in \<open>simp add: enqueue_inner_def\<close>)

lemma refill_inv: "queue_inv cfg g \<Longrightarrow> queue_inv cfg (refill_current g)"
  by (auto simp: queue_inv_def refill_current_def units_held_def split: list.splits)

lemma take_current_inv: "queue_inv cfg g \<Longrightarrow> queue_inv cfg (g\<lparr>in_current := None\<rparr>)"
  by (auto simp: queue_inv_def units_held_def)

lemma dequeue_turn_inv: "dequeue_turn now c g = (g', r) \<Longrightarrow> queue_inv cfg g \<Longrightarrow> queue_inv cfg g'"
  by (auto simp: dequeue_turn_def Let_def refill_inv take_current_inv split: if_splits option.splits)

lemma reset_ops_inv:
  assumes "queue_inv cfg g"
  shows "queue_inv cfg (set_jitter_delay d g)" "queue_inv cfg (wait_for_keyframe g)"
    "queue_inv cfg (flush w g)" "queue_inv cfg (close_queue g)"
proof -
  show "queue_inv cfg (set_jitter_delay d g)"
    using assms by (auto simp: queue_inv_def set_jitter_delay_def units_held_def)
  show "queue_inv cfg (wait_for_keyframe g)"
    using assms by (simp add: queue_inv_def wait_for_keyframe_def Let_def units_held_def)
  show "queue_inv cfg (flush w g)" "queue_inv cfg (close_queue g)"
    using assms by (simp_all add: queue_inv_def flush_def close_queue_def units_held_def)
qed

lemma fq_step_inv: "fq_step g e g' \<Longrightarrow> queue_inv cfg g \<Longrightarrow> queue_inv cfg g'"
  by (induction rule: fq_step.induct) (auto simp: enqueue_inv reset_ops_inv dest: dequeue_turn_inv)

section \<open>Accounting\<close>

text \<open>The balance of one step: every frame that came in is held, delivered or counted as dropped.\<close>

definition accounted :: "Inner \<Rightarrow> u64" where
  "accounted g = in_dropped_units g + of_nat (length (units_held g))"

lemma accounted_ops [simp]:
  "accounted (clear_queue g) = accounted g"
  "accounted (drop_current g) = accounted g"
  "accounted (push_unit now bs k pts g) = accounted g + 1"
  "accounted (refill_current g) = accounted g"
  "accounted (g\<lparr>in_waiting_for_keyframe := w\<rparr>) = accounted g"
  "accounted (g\<lparr>in_dropped_units := d\<rparr>) = d + of_nat (length (units_held g))"
  "accounted (g\<lparr>in_jitter_delay := j\<rparr>) = accounted g"
  "accounted (g\<lparr>in_closed := b\<rparr>) = accounted g"
  by (auto simp: accounted_def queue_op_defs refill_current_def split: option.splits list.splits)

lemma dropped_plus_one: "in_dropped_units g + 1 + of_nat (length (units_held g)) = accounted g + 1"
  by (simp add: accounted_def)

lemma enqueue_accounted:
  "\<not> in_closed g \<Longrightarrow> accounted (enqueue_inner now bs k pts g) = accounted g + 1"
  unfolding enqueue_inner_def Let_def
  by (auto simp: dropped_plus_one)

lemma accounted_take:
  assumes "in_current (refill_current g) = Some u"
  shows "accounted g = accounted ((refill_current g)\<lparr>in_current := None\<rparr>) + 1"
proof -
  have "accounted g = accounted (refill_current g)" by simp
  also have "\<dots> = accounted ((refill_current g)\<lparr>in_current := None\<rparr>) + 1"
    using assms by (simp add: accounted_def units_held_def)
  finally show ?thesis .
qed

lemma dequeue_turn_accounted:
  "dequeue_turn now c g = (g', Returned (Some u)) \<Longrightarrow> accounted g = accounted g' + 1"
  "dequeue_turn now c g = (g', Returned None) \<Longrightarrow> accounted g' = accounted g"
  "dequeue_turn now c g = (g', WaitTimeout d) \<Longrightarrow> accounted g' = accounted g"
  by (auto simp: dequeue_turn_def Let_def accounted_take split: if_splits option.splits)

fun keeps_open :: "fq_event \<Rightarrow> bool" where
  "keeps_open Close = False"
| "keeps_open _ = True"

lemma dequeue_turn_closed: "dequeue_turn now c g = (g1, r) \<Longrightarrow> in_closed g1 = in_closed g"
  by (auto simp: dequeue_turn_def refill_current_def Let_def split: if_splits option.splits list.splits)

lemma fq_step_balance:
  "fq_step g e g' \<Longrightarrow> \<not> in_closed g \<Longrightarrow> keeps_open e \<Longrightarrow>
   \<not> in_closed g' \<and>
   accounted g' + of_nat (length (delivered_of [e])) = accounted g + of_nat (length (enqueued_of [e]))"
proof (induction rule: fq_step.induct)
  case (Step_enqueue g bs k pts now)
  then have "\<not> in_closed (enqueue_inner now bs k pts g)"
    by (simp add: enqueue_inner_def Let_def push_unit_def)
  then show ?case using Step_enqueue by (simp add: enqueue_accounted)
next
  case (Step_deliver now c g g' u)
  then show ?case using dequeue_turn_accounted(1)[of now c g g' u] dequeue_turn_closed[of now c g g'] by auto
next
  case (Step_none now c g g')
  then show ?case using dequeue_turn_accounted(2)[of now c g g'] dequeue_turn_closed[of now c g g'] by auto
next
  case (Step_wait now c g g' d)
  then show ?case using dequeue_turn_accounted(3)[of now c g g' d] dequeue_turn_closed[of now c g g'] by auto
qed (auto simp: set_jitter_delay_def wait_for_keyframe_def flush_def Let_def)

lemma delivered_of_Cons: "delivered_of (e # es) = delivered_of [e] @ delivered_of es"
  by (cases e) auto

lemma enqueued_of_Cons: "enqueued_of (e # es) = enqueued_of [e] @ enqueued_of es"
  by (cases e) auto

lemma fq_steps_balance:
  "steps fq_step g es g' \<Longrightarrow> \<not> in_closed g \<Longrightarrow> list_all keeps_open es \<Longrightarrow>
   accounted g' + of_nat (length (delivered_of es)) = accounted g + of_nat (length (enqueued_of es))"
proof (induction rule: steps.induct)
  case (steps_Cons s e s1 es s2)
  have "\<not> in_closed s1"
    and b: "accounted s1 + of_nat (length (delivered_of [e])) = accounted s + of_nat (length (enqueued_of [e]))"
    using fq_step_balance[OF steps_Cons.hyps(1)] steps_Cons.prems by auto
  then have "accounted s2 + of_nat (length (delivered_of es)) = accounted s1 + of_nat (length (enqueued_of es))"
    using steps_Cons by simp
  then have "accounted s2 + of_nat (length (delivered_of es)) + of_nat (length (delivered_of [e]))
      = (accounted s1 + of_nat (length (delivered_of [e]))) + of_nat (length (enqueued_of es))"
    by (simp add: algebra_simps)
  then show ?case unfolding b
    by (subst delivered_of_Cons, subst enqueued_of_Cons) (simp add: algebra_simps)
qed simp

section \<open>The keyframe gate\<close>

fun opens_gate :: "fq_event \<Rightarrow> bool" where
  "opens_gate (Enqueue bs k pts) = k"
| "opens_gate (Flush w) = (\<not> w)"
| "opens_gate _ = False"

definition gated :: "Inner \<Rightarrow> bool" where
  "gated g \<longleftrightarrow> in_waiting_for_keyframe g \<and> units_held g = []"

lemma gatedD: "gated g \<Longrightarrow> in_current g = None \<and> in_queue g = [] \<and> pending g = []"
  by (auto simp: gated_def units_held_def pending_def split: option.splits)

lemma gated_turn: "gated g \<Longrightarrow> dequeue_turn now c g = (g', r) \<Longrightarrow> g' = g \<and> (\<forall>u. r \<noteq> Returned (Some u))"
  by (auto dest!: gatedD simp: dequeue_turn_def refill_current_def Let_def split: if_splits)

lemma fq_step_gated: "fq_step g e g' \<Longrightarrow> gated g \<Longrightarrow> \<not> opens_gate e \<Longrightarrow> gated g' \<and> delivered_of [e] = []"
proof (induction rule: fq_step.induct)
  case (Step_deliver now c g g' u)
  then show ?case using gated_turn by blast
next
  case (Step_none now c g g')
  then show ?case using gated_turn[of g now c g'] by auto
next
  case (Step_wait now c g g' d)
  then show ?case using gated_turn[of g now c g'] by auto
qed (auto simp: gated_def enqueue_inner_def set_jitter_delay_def wait_for_keyframe_def flush_def
    close_queue_def Let_def queue_op_defs split: option.splits)

lemma fq_steps_gated:
  "steps fq_step g es g' \<Longrightarrow> gated g \<Longrightarrow> list_all (\<lambda>e. \<not> opens_gate e) es \<Longrightarrow>
   gated g' \<and> delivered_of es = []"
proof (induction rule: steps.induct)
  case (steps_Cons s e s1 es s2)
  then show ?case using fq_step_gated[of s e s1] by (subst delivered_of_Cons) auto
qed simp

lemma wait_for_keyframe_gates:
  assumes "queue_inv cfg g" "\<not> in_closed g" and "drop_current_on_wait cfg \<or> in_current g = None"
  shows "gated (wait_for_keyframe g)"
  using assms
  by (auto simp: wait_for_keyframe_def gated_def units_held_def Let_def queue_inv_def)

section \<open>Delivery\<close>

lemma refill_held:
  "units_held g = u # us \<Longrightarrow>
   in_current (refill_current g) = Some u \<and> in_queue (refill_current g) = us \<and>
   in_jitter_delay (refill_current g) = in_jitter_delay g \<and> in_closed (refill_current g) = in_closed g"
  by (auto simp: units_held_def refill_current_def split: option.splits list.splits)

lemma dequeue_delivers:
  "\<not> in_closed g \<Longrightarrow> units_held g = u # us \<Longrightarrow> qu_enqueued_at u \<le> now \<Longrightarrow>
   in_jitter_delay g - (now - qu_enqueued_at u) \<le> fuel * from_millis 20 \<Longrightarrow>
   \<exists>g'. dequeue (Suc fuel) now False g = Some (g', Some (unit_content u)) \<and> units_held g' = us"
proof (induction fuel arbitrary: now g)
  case 0
  then show ?case using refill_held[of g u us]
    by (auto simp: dequeue_turn_def Let_def unit_content_def units_held_def[of "_\<lparr>in_current := None\<rparr>"])
next
  case (Suc fuel)
  let ?g = "refill_current g" and ?age = "now - qu_enqueued_at u"
  note r = refill_held[OF Suc.prems(2)]
  show ?case
  proof (cases "us = [] \<and> ?age < in_jitter_delay g")
    case True
    let ?d = "min (in_jitter_delay g - ?age) (from_millis 20)"
    have turn: "dequeue_turn now False g = (?g, WaitTimeout ?d)"
      using True r Suc.prems(1) by (simp add: dequeue_turn_def)
    have "\<exists>g'. dequeue (Suc fuel) (now + ?d) False ?g = Some (g', Some (unit_content u)) \<and> units_held g' = us"
    proof (rule Suc.IH)
      show "in_jitter_delay ?g - (now + ?d - qu_enqueued_at u) \<le> fuel * from_millis 20"
        using Suc.prems(3,4) r by (auto simp: min_def)
    qed (use r Suc.prems in \<open>auto simp: units_held_def\<close>)
    then show ?thesis by (simp add: turn)
  next
    case False
    then show ?thesis using r Suc.prems(1)
      by (auto simp: dequeue_turn_def Let_def unit_content_def units_held_def[of "_\<lparr>in_current := None\<rparr>"])
  qed
qed

lemma queue_inv_reachable: "steps fq_step (inner_new cfg) es g \<Longrightarrow> queue_inv cfg g"
  using steps_invariant[of fq_step "inner_new cfg" es g "queue_inv cfg"] queue_inv_new fq_step_inv by blast

section \<open>Properties\<close>

text \<open>C4: Refinement of the abstract queue. Every interleaving of enqueue, dequeue, jitter, keyframe-wait,
  flush and close calls on a fresh queue is an execution of a lossy first-in first-out channel under the
  abstraction \<open>pending\<close>; hence the frames the decoder has received, followed by the frames still held,
  are a subsequence of the frames enqueued: nothing is reordered, duplicated or invented.\<close>

theorem frame_queue_refines_lossy_fifo:
  assumes "steps fq_step (inner_new cfg) es g"
  shows "steps lossy_step [] (map chan_event_of es) (pending g) \<and>
    subseq (delivered_of es @ pending g) (enqueued_of es)"
proof -
  have "pending (inner_new cfg) = []" by (simp add: pending_def units_held_def inner_new_def)
  then have s: "steps lossy_step [] (map chan_event_of es) (pending g)"
    using fq.steps_sim[OF assms] by simp
  then show ?thesis using lossy_steps_subseq[OF s] by simp
qed

lemma wait_new: "wait_for_keyframe (inner_new cfg) = (inner_new cfg)\<lparr>in_waiting_for_keyframe := True\<rparr>"
  by (simp add: wait_for_keyframe_def inner_new_def clear_queue_def drop_current_def Let_def)

lemmas fq_Nil = steps_Nil[of fq_step]
lemmas fq_Cons = steps_Cons[of fq_step]

definition demo_state :: Inner where
  "demo_state = enqueue_inner 0 [2] False 6 (enqueue_inner 0 [1] True 5 (inner_new default_queue_config))"

lemma demo_run:
  "steps fq_step (inner_new default_queue_config) [Enqueue [1] True 5, Enqueue [2] False 6] demo_state"
  unfolding demo_state_def by (rule fq_Cons[OF Step_enqueue fq_Cons[OF Step_enqueue fq_Nil]])

theorem frame_queue_refines_lossy_fifo_witness:
  "steps lossy_step [] [Put ([1], True, 5), Put ([2], False, 6)] (pending demo_state) \<and>
   subseq (pending demo_state) [([1], True, 5), ([2], False, 6)]"
  using frame_queue_refines_lossy_fifo[OF demo_run] by simp



text \<open>The keyframe gate. Once \<open>wait_for_keyframe\<close> has been called on an open queue that drops the current
  frame (or has none), no interleaving of calls delivers a frame until a keyframe is enqueued or the
  gate is lifted by \<open>flush(false)\<close>.\<close>

theorem keyframe_gate:
  assumes "steps fq_step (inner_new cfg) es0 g" and "\<not> in_closed g"
    and "drop_current_on_wait cfg \<or> in_current g = None"
    and "steps fq_step (wait_for_keyframe g) es g'"
    and "list_all (\<lambda>e. \<not> opens_gate e) es"
  shows "delivered_of es = [] \<and> pending g' = []"
proof -
  have "queue_inv cfg g" by (rule queue_inv_reachable[OF assms(1)])
  then have "gated (wait_for_keyframe g)" using assms(2,3) by (rule wait_for_keyframe_gates)
  then show ?thesis using fq_steps_gated[OF assms(4) _ assms(5)] gatedD by blast
qed

theorem keyframe_gate_witness:
  "delivered_of [Enqueue [7] False 1, DequeueWait (from_millis 10)] = [] \<and>
   pending (enqueue_inner 0 [7] False 1 (wait_for_keyframe (inner_new default_queue_config))) = []"
proof -
  let ?g = "inner_new default_queue_config"
  have "steps fq_step (wait_for_keyframe ?g) [Enqueue [7] False 1, DequeueWait (from_millis 10)]
      (enqueue_inner 0 [7] False 1 (wait_for_keyframe ?g))"
  proof (rule fq_Cons[OF Step_enqueue fq_Cons[OF Step_wait fq_Nil]])
    show "dequeue_turn 0 False (enqueue_inner 0 [7] False 1 (wait_for_keyframe ?g)) =
        (enqueue_inner 0 [7] False 1 (wait_for_keyframe ?g), WaitTimeout (from_millis 10))"
      unfolding wait_new by (simp add: inner_new_def enqueue_inner_def dequeue_turn_def refill_current_def)
  qed
  from keyframe_gate[OF steps_Nil[of fq_step "inner_new default_queue_config"] _ _ this]
  show ?thesis by (simp add: inner_new_def)
qed

text \<open>What the gate does not protect. In the game-mode configuration the keyframe that ended the wait is
  displaced by the next delta frame when the decoder has not fetched it yet: after \<open>wait_for_keyframe\<close>, a keyframe
  and one delta frame, the decoder receives the delta frame, and the keyframe is counted as dropped.\<close>

theorem keyframe_displaced_by_delta:
  fixes cfg :: FrameQueueConfig and kb db :: bytes and kp dp :: u64
  assumes "prefer_latest cfg" and "initial_jitter_delay cfg = 0"
  shows "\<exists>g. steps fq_step (inner_new cfg) [WaitForKeyframe, Enqueue kb True kp, Enqueue db False dp, Delivered (db, False, dp)] g
    \<and> in_dropped_units g = 1 \<and> pending g = []"
proof -
  let ?n = "inner_new cfg" and ?u = "\<lambda>b k p. \<lparr>qu_bytes = b, qu_is_key_frame = k, qu_presentation_time_us = p, qu_enqueued_at = 0\<rparr>"
  let ?g1 = "?n\<lparr>in_queue := [?u kb True kp], in_queued_bytes := length kb\<rparr>"
  let ?g2 = "?n\<lparr>in_queue := [?u db False dp], in_queued_bytes := length db, in_dropped_units := 1\<rparr>"
  let ?g3 = "?n\<lparr>in_dropped_units := 1\<rparr>"
  have k: "enqueue_inner 0 kb True kp (wait_for_keyframe ?n) = ?g1"
    unfolding wait_new by (simp add: enqueue_inner_def inner_new_def queue_op_defs Let_def)
  have d: "enqueue_inner 0 db False dp ?g1 = ?g2"
    using assms(1) by (simp add: enqueue_inner_def inner_new_def queue_op_defs)
  have t: "dequeue_turn 0 False ?g2 = (?g3, Returned (Some (db, False, dp)))"
    using assms(2) by (simp add: dequeue_turn_def refill_current_def inner_new_def)
  have "steps fq_step (inner_new cfg) [WaitForKeyframe, Enqueue kb True kp, Enqueue db False dp, Delivered (db, False, dp)] ?g3"
    using fq_Cons[OF Step_enqueue[of ?g1 db False dp 0, unfolded d] fq_Cons[OF Step_deliver[OF t] fq_Nil]]
    by (rule fq_Cons[OF Step_keyframe fq_Cons[OF Step_enqueue[of "wait_for_keyframe ?n" kb True kp 0, unfolded k]]])
  then show ?thesis by (intro exI[of _ ?g3]) (simp add: inner_new_def pending_def units_held_def)
qed

theorem keyframe_displaced_by_delta_witness:
  "\<exists>g. steps fq_step (inner_new default_queue_config) [WaitForKeyframe, Enqueue [1] True 1, Enqueue [2] False 2, Delivered ([2], False, 2)] g
    \<and> in_dropped_units g = 1 \<and> pending g = []"
  by (rule keyframe_displaced_by_delta) (simp_all add: default_queue_config_def)



end
