(* ===== verification/Evrt1_Packet.thy ===== *)
theory Evrt1_Packet
  imports Prelude
begin

text \<open>
  The first protocol version, \<^verbatim>\<open>src/src/evrt.rs\<close>: the 24-byte header with its parser and builder, the
  16-byte authentication tag (HMAC-SHA256 written out in the source over the \<open>sha2\<close> crate, here the
  parameter \<open>sha256\<close>), packetization of frames, single-packet messages, region-of-interest rectangles
  and receiver feedback. A session token is the list of its bytes.
\<close>

section \<open>Constants\<close>

definition EVRT_MAGIC :: u32 where "EVRT_MAGIC = 0x45565254"
definition EVRT_VERSION :: u8 where "EVRT_VERSION = 3"
definition HEADER_SIZE :: nat where "HEADER_SIZE = 24"
definition MAX_PACKET_SIZE :: nat where "MAX_PACKET_SIZE = 1200"
definition MAX_PAYLOAD_SIZE :: nat where "MAX_PAYLOAD_SIZE = MAX_PACKET_SIZE - HEADER_SIZE"
definition AUTH_TAG_SIZE :: nat where "AUTH_TAG_SIZE = 16"
definition MAX_AUTH_PAYLOAD_SIZE :: nat where
  "MAX_AUTH_PAYLOAD_SIZE = MAX_PACKET_SIZE - HEADER_SIZE - AUTH_TAG_SIZE"
definition MAX_FRAME_PACKET_COUNT :: nat where "MAX_FRAME_PACKET_COUNT = 16 * 1024"

lemmas evrt1_consts = EVRT_MAGIC_def EVRT_VERSION_def HEADER_SIZE_def MAX_PACKET_SIZE_def
  MAX_PAYLOAD_SIZE_def AUTH_TAG_SIZE_def MAX_AUTH_PAYLOAD_SIZE_def MAX_FRAME_PACKET_COUNT_def

definition TYPE_SESSION_CONFIG :: u8 where "TYPE_SESSION_CONFIG = 1"
definition TYPE_CODEC_CONFIG :: u8 where "TYPE_CODEC_CONFIG = 2"
definition TYPE_VIDEO_FRAME :: u8 where "TYPE_VIDEO_FRAME = 3"
definition TYPE_CONTROL :: u8 where "TYPE_CONTROL = 4"
definition TYPE_AUDIO_CONFIG :: u8 where "TYPE_AUDIO_CONFIG = 5"
definition TYPE_AUDIO_FRAME :: u8 where "TYPE_AUDIO_FRAME = 6"
definition TYPE_ENHANCEMENT_CONFIG :: u8 where "TYPE_ENHANCEMENT_CONFIG = 7"
definition TYPE_ENHANCEMENT_FRAME :: u8 where "TYPE_ENHANCEMENT_FRAME = 8"
definition TYPE_ROI_METADATA :: u8 where "TYPE_ROI_METADATA = 9"
definition TYPE_FEC :: u8 where "TYPE_FEC = 10"
definition FLAG_KEY_FRAME :: u16 where "FLAG_KEY_FRAME = 1"
definition CTRL_REQUEST_KEY_FRAME :: u8 where "CTRL_REQUEST_KEY_FRAME = 1"
definition CTRL_RECEIVER_FEEDBACK :: u8 where "CTRL_RECEIVER_FEEDBACK = 2"

section \<open>Packets\<close>

record EvrtPacket =
  ep_packet_type :: u8
  ep_flags :: u16
  ep_frame_id :: u32
  ep_packet_index :: u16
  ep_packet_count :: u16
  ep_presentation_time_us :: u64
  ep_payload :: bytes

definition is_key_frame :: "EvrtPacket \<Rightarrow> bool" where
  "is_key_frame p \<longleftrightarrow> ep_flags p AND FLAG_KEY_FRAME \<noteq> 0"

definition evrt_parse :: "bytes \<Rightarrow> nat \<Rightarrow> EvrtPacket option" where
  "evrt_parse buf len =
     (if len < HEADER_SIZE \<or> MAX_PACKET_SIZE < len \<or> length buf < len then None
      else let b = take len buf in
      if be_word (subslice 0 4 b) \<noteq> EVRT_MAGIC then None
      else if b ! 4 \<noteq> EVRT_VERSION then None
      else let packet_index = (be_word (subslice 12 14 b) :: u16);
               packet_count = (be_word (subslice 14 16 b) :: u16) in
      if packet_count = 0 \<or> packet_count \<le> packet_index \<or> MAX_FRAME_PACKET_COUNT < unat packet_count then None
      else Some \<lparr>ep_packet_type = b ! 5,
                 ep_flags = be_word (subslice 6 8 b),
                 ep_frame_id = be_word (subslice 8 12 b),
                 ep_packet_index = packet_index,
                 ep_packet_count = packet_count,
                 ep_presentation_time_us = be_word (subslice 16 24 b),
                 ep_payload = drop HEADER_SIZE b\<rparr>)"

definition build_packet ::
  "u8 \<Rightarrow> u16 \<Rightarrow> u32 \<Rightarrow> u16 \<Rightarrow> u16 \<Rightarrow> u64 \<Rightarrow> bytes \<Rightarrow> bytes" where
  "build_packet packet_type flags frame_id packet_index packet_count presentation_time_us payload =
     be_bytes 4 EVRT_MAGIC @ [EVRT_VERSION] @ [packet_type] @ be_bytes 2 flags @ be_bytes 4 frame_id
     @ be_bytes 2 packet_index @ be_bytes 2 packet_count @ be_bytes 8 presentation_time_us @ payload"

section \<open>Authentication\<close>

definition SESSION_TOKEN_HEX_LEN :: nat where "SESSION_TOKEN_HEX_LEN = 32"

definition is_ascii_hexdigit :: "u8 \<Rightarrow> bool" where
  "is_ascii_hexdigit b \<longleftrightarrow> (48 \<le> b \<and> b \<le> 57) \<or> (65 \<le> b \<and> b \<le> 70) \<or> (97 \<le> b \<and> b \<le> 102)"

definition valid_session_token :: "bytes \<Rightarrow> bool" where
  "valid_session_token token \<longleftrightarrow> length token = SESSION_TOKEN_HEX_LEN \<and> list_all is_ascii_hexdigit token"

definition hmac_sha256 :: "(bytes \<Rightarrow> bytes) \<Rightarrow> bytes \<Rightarrow> bytes \<Rightarrow> bytes" where
  "hmac_sha256 sha256 key msg =
     (let key_block = (if 64 < length key then splice 0 (sha256 key) (replicate 64 0)
                       else splice 0 key (replicate 64 0));
          ipad = xor_zip (replicate 64 0x36) key_block;
          opad = xor_zip (replicate 64 0x5c) key_block;
          inner_hash = sha256 (ipad @ msg)
      in sha256 (opad @ inner_hash))"

definition auth_tag :: "(bytes \<Rightarrow> bytes) \<Rightarrow> bytes \<Rightarrow> bytes \<Rightarrow> bytes" where
  "auth_tag sha256 session_token packet_body = take AUTH_TAG_SIZE (hmac_sha256 sha256 session_token packet_body)"

text \<open>The comparison loop \<open>diff |= a ^ b\<close>.\<close>

definition auth_tag_matches :: "(bytes \<Rightarrow> bytes) \<Rightarrow> bytes \<Rightarrow> bytes \<Rightarrow> bytes \<Rightarrow> bool" where
  "auth_tag_matches sha256 session_token packet_body tag =
     (if length tag \<noteq> AUTH_TAG_SIZE then False
      else fold (\<lambda>(a, b) diff. diff OR (a XOR b)) (zip (auth_tag sha256 session_token packet_body) tag) 0 = 0)"

text \<open>\<open>session_token.filter(|token| valid_session_token(token))\<close>\<close>

definition usable_token :: "bytes option \<Rightarrow> bytes option" where
  "usable_token tok = (case tok of Some t \<Rightarrow> if valid_session_token t then Some t else None | None \<Rightarrow> None)"

definition parse_authenticated ::
  "(bytes \<Rightarrow> bytes) \<Rightarrow> bytes \<Rightarrow> nat \<Rightarrow> bytes option \<Rightarrow> EvrtPacket option" where
  "parse_authenticated sha256 buf len session_token =
     (case usable_token session_token of
        None \<Rightarrow> evrt_parse buf len
      | Some token \<Rightarrow>
          if len < HEADER_SIZE + AUTH_TAG_SIZE \<or> MAX_PACKET_SIZE < len \<or> length buf < len then None
          else let body_len = len - AUTH_TAG_SIZE;
                   body = take body_len buf;
                   tag = subslice body_len len buf in
          if \<not> auth_tag_matches sha256 token body tag then None
          else evrt_parse body body_len)"

definition build_packet_authenticated ::
  "(bytes \<Rightarrow> bytes) \<Rightarrow> u8 \<Rightarrow> u16 \<Rightarrow> u32 \<Rightarrow> u16 \<Rightarrow> u16 \<Rightarrow> u64 \<Rightarrow> bytes \<Rightarrow> bytes option \<Rightarrow> bytes" where
  "build_packet_authenticated sha256 packet_type flags frame_id packet_index packet_count
     presentation_time_us payload session_token =
     (case usable_token session_token of
        None \<Rightarrow> build_packet packet_type flags frame_id packet_index packet_count presentation_time_us payload
      | Some token \<Rightarrow>
          if MAX_AUTH_PAYLOAD_SIZE < length payload then []
          else let pkt = build_packet packet_type flags frame_id packet_index packet_count
                           presentation_time_us payload
               in pkt @ auth_tag sha256 token pkt)"

section \<open>Packetization\<close>

definition max_payload_for :: "bytes option \<Rightarrow> nat" where
  "max_payload_for session_token =
     (if usable_token session_token \<noteq> None then MAX_AUTH_PAYLOAD_SIZE else MAX_PAYLOAD_SIZE)"

definition packetize_with_limit ::
  "(bytes \<Rightarrow> bytes) \<Rightarrow> u8 \<Rightarrow> u16 \<Rightarrow> u32 \<Rightarrow> u64 \<Rightarrow> bytes \<Rightarrow> nat \<Rightarrow> bytes option \<Rightarrow> bytes list" where
  "packetize_with_limit sha256 packet_type flags frame_id presentation_time_us payload max_payload_size
     session_token =
     (if payload = [] then []
      else if max_payload_size = 0 then []
      else let packet_count = div_ceil (length payload) max_payload_size in
      if MAX_FRAME_PACKET_COUNT < packet_count then []
      else map (\<lambda>(i, chunk). build_packet_authenticated sha256 packet_type flags frame_id (of_nat i)
               (of_nat packet_count) presentation_time_us chunk session_token)
             (List.enumerate 0 (chunks max_payload_size payload)))"

definition packetize :: "(bytes \<Rightarrow> bytes) \<Rightarrow> u8 \<Rightarrow> u16 \<Rightarrow> u32 \<Rightarrow> u64 \<Rightarrow> bytes \<Rightarrow> bytes list" where
  "packetize sha256 packet_type flags frame_id presentation_time_us payload =
     packetize_with_limit sha256 packet_type flags frame_id presentation_time_us payload MAX_PAYLOAD_SIZE None"

definition packetize_authenticated ::
  "(bytes \<Rightarrow> bytes) \<Rightarrow> u8 \<Rightarrow> u16 \<Rightarrow> u32 \<Rightarrow> u64 \<Rightarrow> bytes \<Rightarrow> bytes option \<Rightarrow> bytes list" where
  "packetize_authenticated sha256 packet_type flags frame_id presentation_time_us payload session_token =
     (if usable_token session_token \<noteq> None
      then packetize_with_limit sha256 packet_type flags frame_id presentation_time_us payload
             MAX_AUTH_PAYLOAD_SIZE session_token
      else packetize sha256 packet_type flags frame_id presentation_time_us payload)"

definition key_flags :: "bool \<Rightarrow> u16" where
  "key_flags is_key = (if is_key then FLAG_KEY_FRAME else 0)"

definition packetize_video_frame_authenticated ::
  "(bytes \<Rightarrow> bytes) \<Rightarrow> u32 \<Rightarrow> u64 \<Rightarrow> bool \<Rightarrow> bytes \<Rightarrow> bytes option \<Rightarrow> bytes list" where
  "packetize_video_frame_authenticated sha256 frame_id presentation_time_us is_key payload session_token =
     packetize_authenticated sha256 TYPE_VIDEO_FRAME (key_flags is_key) frame_id presentation_time_us payload
       session_token"

definition packetize_video_frame :: "(bytes \<Rightarrow> bytes) \<Rightarrow> u32 \<Rightarrow> u64 \<Rightarrow> bool \<Rightarrow> bytes \<Rightarrow> bytes list" where
  "packetize_video_frame sha256 frame_id presentation_time_us is_key payload =
     packetize sha256 TYPE_VIDEO_FRAME (key_flags is_key) frame_id presentation_time_us payload"

definition packetize_enhancement_frame :: "(bytes \<Rightarrow> bytes) \<Rightarrow> u32 \<Rightarrow> u64 \<Rightarrow> bool \<Rightarrow> bytes \<Rightarrow> bytes list" where
  "packetize_enhancement_frame sha256 frame_id presentation_time_us is_key payload =
     packetize sha256 TYPE_ENHANCEMENT_FRAME (key_flags is_key) frame_id presentation_time_us payload"

definition packetize_audio_frame :: "(bytes \<Rightarrow> bytes) \<Rightarrow> u32 \<Rightarrow> u64 \<Rightarrow> bytes \<Rightarrow> bytes list" where
  "packetize_audio_frame sha256 frame_id presentation_time_us payload =
     packetize sha256 TYPE_AUDIO_FRAME 0 frame_id presentation_time_us payload"

definition packetize_audio_frame_authenticated ::
  "(bytes \<Rightarrow> bytes) \<Rightarrow> u32 \<Rightarrow> u64 \<Rightarrow> bytes \<Rightarrow> bytes option \<Rightarrow> bytes list" where
  "packetize_audio_frame_authenticated sha256 frame_id presentation_time_us payload session_token =
     packetize_authenticated sha256 TYPE_AUDIO_FRAME 0 frame_id presentation_time_us payload session_token"

text \<open>Single-packet messages. The \<open>debug_assert!\<close> on the payload size is absent in a release build, where
  an oversized payload gives an empty packet.\<close>

definition build_single :: "u8 \<Rightarrow> bytes \<Rightarrow> bytes" where
  "build_single packet_type payload =
     (if MAX_PAYLOAD_SIZE < length payload then [] else build_packet packet_type 0 0 0 1 0 payload)"

definition build_single_authenticated :: "(bytes \<Rightarrow> bytes) \<Rightarrow> u8 \<Rightarrow> bytes \<Rightarrow> bytes option \<Rightarrow> bytes" where
  "build_single_authenticated sha256 packet_type payload session_token =
     (if max_payload_for session_token < length payload then []
      else build_packet_authenticated sha256 packet_type 0 0 0 1 0 payload session_token)"

definition build_session_config_authenticated :: "(bytes \<Rightarrow> bytes) \<Rightarrow> bytes \<Rightarrow> bytes option \<Rightarrow> bytes" where
  "build_session_config_authenticated sha256 payload session_token =
     build_single_authenticated sha256 TYPE_SESSION_CONFIG payload session_token"

definition build_codec_config_authenticated :: "(bytes \<Rightarrow> bytes) \<Rightarrow> bytes \<Rightarrow> bytes option \<Rightarrow> bytes" where
  "build_codec_config_authenticated sha256 payload session_token =
     build_single_authenticated sha256 TYPE_CODEC_CONFIG payload session_token"

definition build_session_config :: "bytes \<Rightarrow> bytes" where
  "build_session_config payload = build_single TYPE_SESSION_CONFIG payload"

definition build_codec_config :: "bytes \<Rightarrow> bytes" where
  "build_codec_config payload = build_single TYPE_CODEC_CONFIG payload"

definition build_control :: "bytes \<Rightarrow> bytes" where
  "build_control payload = build_single TYPE_CONTROL payload"

definition build_request_key_frame_authenticated :: "(bytes \<Rightarrow> bytes) \<Rightarrow> bytes option \<Rightarrow> bytes" where
  "build_request_key_frame_authenticated sha256 session_token =
     build_single_authenticated sha256 TYPE_CONTROL [CTRL_REQUEST_KEY_FRAME] session_token"

section \<open>Region of interest\<close>

record RoiRect =
  roi_frame_id :: u32
  roi_x :: u32
  roi_y :: u32
  roi_w :: u32
  roi_h :: u32

definition roi_to_bytes :: "RoiRect \<Rightarrow> bytes" where
  "roi_to_bytes r = be_bytes 4 (roi_frame_id r) @ be_bytes 4 (roi_x r) @ be_bytes 4 (roi_y r)
     @ be_bytes 4 (roi_w r) @ be_bytes 4 (roi_h r)"

definition roi_from_bytes :: "bytes \<Rightarrow> RoiRect option" where
  "roi_from_bytes b =
     (if length b < 20 then None
      else Some \<lparr>roi_frame_id = be_word (subslice 0 4 b), roi_x = be_word (subslice 4 8 b),
                 roi_y = be_word (subslice 8 12 b), roi_w = be_word (subslice 12 16 b),
                 roi_h = be_word (subslice 16 20 b)\<rparr>)"

definition roi_is_full_screen :: "RoiRect \<Rightarrow> bool" where
  "roi_is_full_screen r \<longleftrightarrow> roi_w r = 0 \<and> roi_h r = 0"

definition saturating_add_u32 :: "u32 \<Rightarrow> u32 \<Rightarrow> u32" where
  "saturating_add_u32 a b = (if unat a + unat b < 2 ^ 32 then a + b else - 1)"

definition saturating_sub_u32 :: "u32 \<Rightarrow> u32 \<Rightarrow> u32" where
  "saturating_sub_u32 a b = (if b \<le> a then a - b else 0)"

definition dirty_area_milli :: "RoiRect \<Rightarrow> u32 \<Rightarrow> u32 \<Rightarrow> u32" where
  "dirty_area_milli r frame_width frame_height =
     (if roi_is_full_screen r then 1000
      else let frame_area = (ucast frame_width * ucast frame_height :: u64) in
      if frame_area = 0 then 1000
      else let x0 = min (roi_x r) frame_width;
               y0 = min (roi_y r) frame_height;
               x1 = min (saturating_add_u32 (roi_x r) (roi_w r)) frame_width;
               y1 = min (saturating_add_u32 (roi_y r) (roi_h r)) frame_height;
               dirty_w = saturating_sub_u32 x1 x0;
               dirty_h = saturating_sub_u32 y1 y0;
               dirty_area = (ucast dirty_w * ucast dirty_h :: u64)
           in ucast (min ((dirty_area * 1000 + frame_area - 1) div frame_area) 1000))"

definition build_roi_metadata :: "RoiRect \<Rightarrow> bytes" where
  "build_roi_metadata roi = build_single TYPE_ROI_METADATA (roi_to_bytes roi)"

definition build_roi_metadata_authenticated :: "(bytes \<Rightarrow> bytes) \<Rightarrow> RoiRect \<Rightarrow> bytes option \<Rightarrow> bytes" where
  "build_roi_metadata_authenticated sha256 roi session_token =
     build_single_authenticated sha256 TYPE_ROI_METADATA (roi_to_bytes roi) session_token"

section \<open>Receiver feedback\<close>

datatype Pressure = PressureNormal | PressureHigh | PressureCritical

fun pressure_to_u8 :: "Pressure \<Rightarrow> u8" where
  "pressure_to_u8 PressureNormal = 0"
| "pressure_to_u8 PressureHigh = 1"
| "pressure_to_u8 PressureCritical = 2"

definition pressure_from_u8 :: "u8 \<Rightarrow> Pressure" where
  "pressure_from_u8 v = (if v = 1 then PressureHigh else if v = 2 then PressureCritical else PressureNormal)"

text \<open>The \<open>i32\<close> fields are kept as their 32-bit patterns.\<close>

record ReceiverFeedback =
  fb_pressure :: Pressure
  fb_backlog_frames :: u32
  fb_queue_drops :: u64
  fb_decode_fps :: u32
  fb_assembly_delay_ms :: u32
  fb_arrival_delta_ms :: u32
  fb_decode_delta_ms :: u32
  fb_present_delta_ms :: u32
  fb_pulse_estimate_ms :: u32
  fb_input_estimate_ms :: u32
  fb_max_width :: u32
  fb_max_height :: u32

definition feedback_to_bytes :: "ReceiverFeedback \<Rightarrow> bytes" where
  "feedback_to_bytes f =
     [pressure_to_u8 (fb_pressure f)] @ be_bytes 4 (fb_backlog_frames f) @ be_bytes 8 (fb_queue_drops f)
     @ be_bytes 4 (fb_decode_fps f) @ be_bytes 4 (fb_assembly_delay_ms f) @ be_bytes 4 (fb_arrival_delta_ms f)
     @ be_bytes 4 (fb_decode_delta_ms f) @ be_bytes 4 (fb_present_delta_ms f)
     @ be_bytes 4 (fb_pulse_estimate_ms f) @ be_bytes 4 (fb_input_estimate_ms f)
     @ be_bytes 4 (fb_max_width f) @ be_bytes 4 (fb_max_height f)"

definition feedback_from_bytes :: "bytes \<Rightarrow> ReceiverFeedback option" where
  "feedback_from_bytes b =
     (if length b < 41 then None
      else Some \<lparr>fb_pressure = pressure_from_u8 (b ! 0),
                 fb_backlog_frames = be_word (subslice 1 5 b),
                 fb_queue_drops = be_word (subslice 5 13 b),
                 fb_decode_fps = be_word (subslice 13 17 b),
                 fb_assembly_delay_ms = be_word (subslice 17 21 b),
                 fb_arrival_delta_ms = be_word (subslice 21 25 b),
                 fb_decode_delta_ms = be_word (subslice 25 29 b),
                 fb_present_delta_ms = be_word (subslice 29 33 b),
                 fb_pulse_estimate_ms = be_word (subslice 33 37 b),
                 fb_input_estimate_ms = be_word (subslice 37 41 b),
                 fb_max_width = (if 45 \<le> length b then be_word (subslice 41 45 b) else 0),
                 fb_max_height = (if 49 \<le> length b then be_word (subslice 45 49 b) else 0)\<rparr>)"

definition build_receiver_feedback_authenticated ::
  "(bytes \<Rightarrow> bytes) \<Rightarrow> ReceiverFeedback \<Rightarrow> bytes option \<Rightarrow> bytes" where
  "build_receiver_feedback_authenticated sha256 fb session_token =
     build_single_authenticated sha256 TYPE_CONTROL (CTRL_RECEIVER_FEEDBACK # feedback_to_bytes fb) session_token"

datatype ControlMessage = RequestKeyFrame | ReceiverFeedbackMsg ReceiverFeedback

text \<open>The binary branch of \<open>parse_control\<close> (a first byte other than an opening brace).\<close>

definition parse_control_binary :: "bytes \<Rightarrow> ControlMessage option" where
  "parse_control_binary payload =
     (case payload of
        [] \<Rightarrow> None
      | first # rest \<Rightarrow>
          if first = CTRL_REQUEST_KEY_FRAME then Some RequestKeyFrame
          else if first = CTRL_RECEIVER_FEEDBACK
          then map_option ReceiverFeedbackMsg (feedback_from_bytes rest)
          else None)"

section \<open>Lemmas: header\<close>

lemma length_build_packet [simp]: "length (build_packet t fl fid i n pts payload) = HEADER_SIZE + length payload"
  by (simp add: build_packet_def HEADER_SIZE_def)

definition packet_indices_ok :: "u16 \<Rightarrow> u16 \<Rightarrow> bool" where
  "packet_indices_ok i n \<longleftrightarrow> n \<noteq> 0 \<and> i < n \<and> unat n \<le> MAX_FRAME_PACKET_COUNT"

lemma evrt_parse_build:
  assumes "packet_indices_ok i n" and "length payload \<le> MAX_PAYLOAD_SIZE"
  shows "evrt_parse (build_packet t fl fid i n pts payload) (HEADER_SIZE + length payload)
    = Some \<lparr>ep_packet_type = t, ep_flags = fl, ep_frame_id = fid, ep_packet_index = i, ep_packet_count = n,
         ep_presentation_time_us = pts, ep_payload = payload\<rparr>"
  using assms
  by (simp add: evrt_parse_def build_packet_def packet_indices_ok_def evrt1_consts Let_def subslice_def
      nth_append not_le)

lemma evrt_parse_canonical:
  assumes "evrt_parse buf len = Some p"
  shows "take len buf = build_packet (ep_packet_type p) (ep_flags p) (ep_frame_id p) (ep_packet_index p)
      (ep_packet_count p) (ep_presentation_time_us p) (ep_payload p)"
    and "packet_indices_ok (ep_packet_index p) (ep_packet_count p)"
    and "HEADER_SIZE \<le> len" "len \<le> length buf" "len \<le> MAX_PACKET_SIZE"
proof -
  let ?b = "take len buf"
  from assms have len: "24 \<le> length ?b" and l: "HEADER_SIZE \<le> len" "len \<le> length buf" "len \<le> MAX_PACKET_SIZE"
    by (auto simp: evrt_parse_def HEADER_SIZE_def split: if_splits)
  from l show "HEADER_SIZE \<le> len" "len \<le> length buf" "len \<le> MAX_PACKET_SIZE" .
  from assms have magic: "be_word (subslice 0 4 ?b) = EVRT_MAGIC" and ver: "?b ! 4 = EVRT_VERSION"
    and f: "ep_packet_type p = ?b ! 5" "ep_flags p = be_word (subslice 6 8 ?b)"
      "ep_frame_id p = be_word (subslice 8 12 ?b)" "ep_packet_index p = be_word (subslice 12 14 ?b)"
      "ep_packet_count p = be_word (subslice 14 16 ?b)"
      "ep_presentation_time_us p = be_word (subslice 16 24 ?b)" "ep_payload p = drop 24 ?b"
    by (auto simp: evrt_parse_def Let_def HEADER_SIZE_def split: if_splits)
  from assms show "packet_indices_ok (ep_packet_index p) (ep_packet_count p)"
    by (auto simp: evrt_parse_def packet_indices_ok_def Let_def not_le split: if_splits)
  note be = be_bytes_be_word_subslice [of _ 4 ?b, where 'a = 32]
    be_bytes_be_word_subslice [of _ 2 ?b, where 'a = 16] be_bytes_be_word_subslice [of 16 8 ?b, where 'a = 64]
  have "build_packet (ep_packet_type p) (ep_flags p) (ep_frame_id p) (ep_packet_index p)
      (ep_packet_count p) (ep_presentation_time_us p) (ep_payload p)
    = subslice 0 4 ?b @ [?b ! 4] @ [?b ! 5] @ subslice 6 8 ?b @ subslice 8 12 ?b @ subslice 12 14 ?b
      @ subslice 14 16 ?b @ subslice 16 24 ?b @ drop 24 ?b"
    using len be(1) [of 0] be(1) [of 8] be(2) [of 6] be(2) [of 12] be(2) [of 14] be(3)
    unfolding build_packet_def f magic [symmetric] ver [symmetric] by simp
  also have "\<dots> = subslice 0 24 ?b @ drop 24 ?b"
    using len subslice_singleton [of 4 ?b] subslice_singleton [of 5 ?b]
    by (simp flip: append_assoc)
  also have "\<dots> = ?b" by (simp add: subslice_append_drop)
  finally show "take len buf = build_packet (ep_packet_type p) (ep_flags p) (ep_frame_id p) (ep_packet_index p)
      (ep_packet_count p) (ep_presentation_time_us p) (ep_payload p)" ..
qed

section \<open>Lemmas: authentication\<close>

text \<open>SHA-256 digests have 32 bytes.\<close>

definition sha_size :: "(bytes \<Rightarrow> bytes) \<Rightarrow> bool" where
  "sha_size sha256 \<longleftrightarrow> (\<forall>m. length (sha256 m) = 32)"

lemma length_auth_tag: "sha_size sha256 \<Longrightarrow> length (auth_tag sha256 tok body) = AUTH_TAG_SIZE"
  by (simp add: auth_tag_def hmac_sha256_def sha_size_def AUTH_TAG_SIZE_def Let_def)

lemma xor_eq_0_iff: "(a XOR b = 0) = (a = (b :: 'a::len word))"
  by (metis xor.assoc xor.left_neutral xor_self_eq)

lemma diff_fold:
  "length xs = length ys \<Longrightarrow>
     (fold (\<lambda>(a, b) diff. diff OR (a XOR b)) (zip xs ys) d = (0 :: u8)) = (d = 0 \<and> xs = ys)"
  by (induction xs ys arbitrary: d rule: list_induct2) (auto simp: or_eq_0_iff xor_eq_0_iff)

lemma auth_tag_matches_iff:
  "sha_size sha256 \<Longrightarrow> auth_tag_matches sha256 tok body tag \<longleftrightarrow> tag = auth_tag sha256 tok body"
  using length_auth_tag [of sha256 tok body]
  by (auto simp: auth_tag_matches_def diff_fold)

lemma parse_authenticated_build:
  fixes t fl fid pts
  assumes "sha_size sha256" "packet_indices_ok i n" "length payload \<le> max_payload_for tok"
  defines "w \<equiv> build_packet_authenticated sha256 t fl fid i n pts payload tok"
  shows "parse_authenticated sha256 w (length w) tok
    = Some \<lparr>ep_packet_type = t, ep_flags = fl, ep_frame_id = fid, ep_packet_index = i, ep_packet_count = n,
         ep_presentation_time_us = pts, ep_payload = payload\<rparr>"
    and "length w \<le> MAX_PACKET_SIZE"
proof -
  let ?pkt = "build_packet t fl fid i n pts payload"
  show "parse_authenticated sha256 w (length w) tok
    = Some \<lparr>ep_packet_type = t, ep_flags = fl, ep_frame_id = fid, ep_packet_index = i, ep_packet_count = n,
         ep_presentation_time_us = pts, ep_payload = payload\<rparr>"
  proof (cases "usable_token tok")
    case None
    then show ?thesis
      using evrt_parse_build [OF assms(2)] assms(3)
      by (simp add: w_def build_packet_authenticated_def parse_authenticated_def max_payload_for_def)
  next
    case (Some token)
    have p: "length payload \<le> MAX_AUTH_PAYLOAD_SIZE" using assms(3) Some by (simp add: max_payload_for_def)
    then have w: "w = ?pkt @ auth_tag sha256 token ?pkt"
      using Some by (simp add: w_def build_packet_authenticated_def Let_def)
    have tl: "length (auth_tag sha256 token ?pkt) = AUTH_TAG_SIZE" by (rule length_auth_tag [OF assms(1)])
    have "evrt_parse ?pkt (HEADER_SIZE + length payload) = Some \<lparr>ep_packet_type = t, ep_flags = fl,
        ep_frame_id = fid, ep_packet_index = i, ep_packet_count = n, ep_presentation_time_us = pts,
        ep_payload = payload\<rparr>"
      by (rule evrt_parse_build [OF assms(2)]) (use p in \<open>simp add: evrt1_consts\<close>)
    then show ?thesis
      using Some p tl
      by (simp add: parse_authenticated_def w Let_def subslice_def auth_tag_matches_iff [OF assms(1)] evrt1_consts)
  qed
  show "length w \<le> MAX_PACKET_SIZE"
    using assms(3) length_auth_tag [OF assms(1)]
    by (cases "usable_token tok")
      (simp_all add: w_def build_packet_authenticated_def max_payload_for_def Let_def evrt1_consts)
qed

lemma parse_authenticated_canonical:
  assumes "sha_size sha256" "parse_authenticated sha256 buf len tok = Some p"
  shows "take len buf = build_packet_authenticated sha256 (ep_packet_type p) (ep_flags p) (ep_frame_id p)
      (ep_packet_index p) (ep_packet_count p) (ep_presentation_time_us p) (ep_payload p) tok"
    and "packet_indices_ok (ep_packet_index p) (ep_packet_count p)" and "len \<le> MAX_PACKET_SIZE"
proof -
  let ?b = "build_packet (ep_packet_type p) (ep_flags p) (ep_frame_id p) (ep_packet_index p)
      (ep_packet_count p) (ep_presentation_time_us p) (ep_payload p)"
  have "take len buf = build_packet_authenticated sha256 (ep_packet_type p) (ep_flags p) (ep_frame_id p)
      (ep_packet_index p) (ep_packet_count p) (ep_presentation_time_us p) (ep_payload p) tok
    \<and> packet_indices_ok (ep_packet_index p) (ep_packet_count p) \<and> len \<le> MAX_PACKET_SIZE"
  proof (cases "usable_token tok")
    case None
    then have "evrt_parse buf len = Some p" using assms(2) by (simp add: parse_authenticated_def)
    from evrt_parse_canonical [OF this] None show ?thesis by (simp add: build_packet_authenticated_def)
  next
    case (Some token)
    let ?n = "len - AUTH_TAG_SIZE"
    have l: "HEADER_SIZE + AUTH_TAG_SIZE \<le> len" "len \<le> MAX_PACKET_SIZE" "len \<le> length buf"
      and tag: "subslice ?n len buf = auth_tag sha256 token (take ?n buf)"
      and ps: "evrt_parse (take ?n buf) ?n = Some p"
      using assms(2) Some
      by (auto simp: parse_authenticated_def Let_def auth_tag_matches_iff [OF assms(1)] split: if_splits)
    note c = evrt_parse_canonical [OF ps]
    have body: "take ?n buf = ?b" using c(1) by simp
    have "take len buf = take ?n buf @ subslice ?n len buf"
      using l(1) by (simp add: subslice_def flip: take_add)
    then have "take len buf = ?b @ auth_tag sha256 token ?b" using body tag by simp
    moreover have "length (ep_payload p) \<le> MAX_AUTH_PAYLOAD_SIZE"
    proof -
      have "HEADER_SIZE + length (ep_payload p) = length (take ?n buf)" unfolding body by simp
      with l show ?thesis by (simp add: evrt1_consts)
    qed
    ultimately show ?thesis
      using Some c(2) l(2) by (simp add: build_packet_authenticated_def Let_def)
  qed
  then show "take len buf = build_packet_authenticated sha256 (ep_packet_type p) (ep_flags p) (ep_frame_id p)
      (ep_packet_index p) (ep_packet_count p) (ep_presentation_time_us p) (ep_payload p) tok"
    "packet_indices_ok (ep_packet_index p) (ep_packet_count p)" "len \<le> MAX_PACKET_SIZE" by blast+
qed

section \<open>Packet streams\<close>

text \<open>The contract of a packetizer: every datagram it makes is read back as a numbered piece, the pieces in
  sending order concatenate to the payload, and every datagram respects a size limit. What a receiver
  needs follows: the pieces of any permutation of the datagrams, put in order of their numbers, are the
  payload.\<close>

locale packet_stream =
  fixes send :: "bytes \<Rightarrow> bytes list" and recv :: "bytes \<Rightarrow> (u16 \<times> u16 \<times> bytes) option"
    and fits :: "bytes \<Rightarrow> bool" and limit :: nat
  assumes send_recv: "fits p \<Longrightarrow> \<exists>cs. concat cs = p \<and> length cs < 65536
      \<and> map recv (send p) = map (\<lambda>(i, c). Some (of_nat i, of_nat (length cs), c)) (List.enumerate 0 cs)"
    and send_limit: "fits p \<Longrightarrow> w \<in> set (send p) \<Longrightarrow> length w \<le> limit"
begin

definition join :: "bytes list \<Rightarrow> bytes" where
  "join ws = concat (map (\<lambda>(i, n, c). c) (sort_key (\<lambda>(i, n, c). unat i) (map (the \<circ> recv) ws)))"

lemma sort_key_numbered:
  assumes "length cs < 65536" and "mset xs = mset (map (\<lambda>(i, c). (of_nat i :: u16, m, c)) (List.enumerate 0 cs))"
  shows "sort_key (\<lambda>(i, n, c). unat i) xs = map (\<lambda>(i, c). (of_nat i, m, c)) (List.enumerate 0 cs)"
proof (rule properties_for_sort_key)
  let ?ys = "map (\<lambda>(i, c). (of_nat i :: u16, m, c)) (List.enumerate 0 cs)"
  show "mset ?ys = mset xs" using assms(2) by simp
  have keys: "map (\<lambda>(i, n, c). unat i) ?ys = [0..<length cs]"
    by (rule nth_equalityI) (use assms(1) in \<open>simp_all add: nth_enumerate_eq unat_of_nat_u16\<close>)
  then show "sorted (map (\<lambda>(i, n, c). unat i) ?ys)" by simp
  have "distinct (map (\<lambda>(i, n, c). unat i) ?ys)" unfolding keys by simp
  then have inj: "inj_on (\<lambda>(i, n, c). unat i) (set ?ys)" and d: "distinct ?ys"
    by (simp_all only: distinct_map)
  have sx: "set xs = set ?ys" and dx: "distinct xs"
    using assms(2) d by (metis set_mset_mset, metis mset_eq_imp_distinct_iff)
  fix k assume k: "k \<in> set ?ys"
  let ?P = "\<lambda>x. (\<lambda>(i, n, c). unat i) k = (\<lambda>(i, n, c). unat i) x"
  have only: "?P x \<longleftrightarrow> x = k" if "x \<in> set ?ys" for x using inj k that by (metis (lifting) inj_onD)
  have single: "filter ?P zs = [k]" if "set zs = set ?ys" "distinct zs" for zs
  proof -
    have "filter ?P zs = filter (\<lambda>x. x = k) zs" using only that(1) by (intro filter_cong) auto
    also have "\<dots> = [k]" using that k by (intro distinct_filter_eq_singleton) simp_all
    finally show ?thesis .
  qed
  show "filter ?P ?ys = filter ?P xs" using single [OF refl d] single [OF sx dx] by simp
qed

lemma join_any_order:
  assumes "fits p" and "mset ws = mset (send p)"
  shows "join ws = p"
proof -
  obtain cs where cs: "concat cs = p" "length cs < 65536"
      "map recv (send p) = map (\<lambda>(i, c). Some (of_nat i, of_nat (length cs), c)) (List.enumerate 0 cs)"
    using send_recv [OF assms(1)] by blast
  have "map (the \<circ> recv) (send p) = map (\<lambda>(i, c). (of_nat i, of_nat (length cs), c)) (List.enumerate 0 cs)"
  proof -
    have "map the (map recv (send p)) = map (\<lambda>(i, c). (of_nat i, of_nat (length cs), c)) (List.enumerate 0 cs)"
      unfolding cs(3) by (simp add: o_def split_def)
    then show ?thesis by (simp add: o_def)
  qed
  moreover have "mset (map (the \<circ> recv) ws) = mset (map (the \<circ> recv) (send p))" using assms(2) by simp
  ultimately have "sort_key (\<lambda>(i, n, c). unat i) (map (the \<circ> recv) ws)
      = map (\<lambda>(i, c). (of_nat i, of_nat (length cs), c)) (List.enumerate 0 cs)"
    by (intro sort_key_numbered [OF cs(2)]) simp
  then have "join ws = concat (map snd (List.enumerate 0 cs))"
    by (simp add: join_def o_def split_def)
  with cs(1) show ?thesis by simp
qed

end

definition piece_of :: "EvrtPacket \<Rightarrow> u16 \<times> u16 \<times> bytes" where
  "piece_of p = (ep_packet_index p, ep_packet_count p, ep_payload p)"

lemma max_payload_for_pos: "0 < max_payload_for tok"
  by (simp add: max_payload_for_def evrt1_consts)

lemma packetize_authenticated_eq:
  "packetize_authenticated sha256 t fl fid pts payload tok
     = packetize_with_limit sha256 t fl fid pts payload (max_payload_for tok) tok"
proof -
  have "build_packet_authenticated sha256 t fl fid i n pts c tok = build_packet_authenticated sha256 t fl fid i n pts c None"
    if "usable_token tok = None" for i n c
    using that by (simp add: build_packet_authenticated_def usable_token_def)
  then show ?thesis
    by (auto simp: packetize_authenticated_def packetize_def max_payload_for_def packetize_with_limit_def Let_def)
qed

lemma packetize_with_limit_pieces:
  fixes t fl fid pts
  assumes "sha_size sha256" "payload \<noteq> []" "div_ceil (length payload) m \<le> MAX_FRAME_PACKET_COUNT"
    and m: "0 < m" "m \<le> max_payload_for tok"
  defines "cs \<equiv> chunks m payload"
  defines "ws \<equiv> packetize_with_limit sha256 t fl fid pts payload m tok"
  shows "length cs = div_ceil (length payload) m" "length ws = length cs" "concat cs = payload"
    and "i < length cs \<Longrightarrow> parse_authenticated sha256 (ws ! i) (length (ws ! i)) tok
       = Some \<lparr>ep_packet_type = t, ep_flags = fl, ep_frame_id = fid, ep_packet_index = of_nat i,
           ep_packet_count = of_nat (length cs), ep_presentation_time_us = pts, ep_payload = cs ! i\<rparr>"
    and "i < length cs \<Longrightarrow> length (ws ! i) \<le> MAX_PACKET_SIZE"
proof -
  show n: "length cs = div_ceil (length payload) m" using m by (simp add: cs_def length_chunks)
  show "concat cs = payload" using m by (simp add: cs_def)
  have ws: "ws = map (\<lambda>(i, c). build_packet_authenticated sha256 t fl fid (of_nat i) (of_nat (length cs)) pts c tok)
      (List.enumerate 0 cs)"
    using assms(2,3) m n by (simp add: ws_def packetize_with_limit_def Let_def cs_def)
  then show "length ws = length cs" by simp
  have N: "length cs \<le> 16384" using n assms(3) by (simp add: MAX_FRAME_PACKET_COUNT_def)
  assume i: "i < length cs"
  have w: "ws ! i = build_packet_authenticated sha256 t fl fid (of_nat i) (of_nat (length cs)) pts (cs ! i) tok"
    using i by (simp add: ws nth_enumerate_eq)
  have u: "unat (of_nat (length cs) :: u16) = length cs" "unat (of_nat i :: u16) = i"
    using N i by (simp_all add: unat_of_nat_u16)
  have idx: "packet_indices_ok (of_nat i) (of_nat (length cs))"
    using u i N by (auto simp: packet_indices_ok_def word_less_nat_alt MAX_FRAME_PACKET_COUNT_def simp flip: unat_eq_zero)
  have len: "length (cs ! i) \<le> max_payload_for tok"
    using chunks_length_bounds [of "cs ! i" m payload] nth_mem [OF i] m(2) by (simp add: cs_def)
  note r = parse_authenticated_build [OF assms(1) idx len, of t fl fid pts]
  from r(1) show "parse_authenticated sha256 (ws ! i) (length (ws ! i)) tok
       = Some \<lparr>ep_packet_type = t, ep_flags = fl, ep_frame_id = fid, ep_packet_index = of_nat i,
           ep_packet_count = of_nat (length cs), ep_presentation_time_us = pts, ep_payload = cs ! i\<rparr>"
    unfolding w .
  from r(2) show "length (ws ! i) \<le> MAX_PACKET_SIZE" unfolding w .
qed

interpretation evrt1: packet_stream "\<lambda>p. packetize_authenticated sha256 t fl fid pts p tok"
  "\<lambda>w. map_option piece_of (parse_authenticated sha256 w (length w) tok)"
  "\<lambda>p. sha_size sha256 \<and> p \<noteq> [] \<and> div_ceil (length p) (max_payload_for tok) \<le> MAX_FRAME_PACKET_COUNT"
  MAX_PACKET_SIZE for sha256 t fl fid pts tok
proof
  fix p :: bytes
  assume fits: "sha_size sha256 \<and> p \<noteq> [] \<and> div_ceil (length p) (max_payload_for tok) \<le> MAX_FRAME_PACKET_COUNT"
  let ?m = "max_payload_for tok" and ?ws = "packetize_authenticated sha256 t fl fid pts p tok"
  let ?cs = "chunks ?m p"
  note ps = packetize_with_limit_pieces [OF conjunct1 [OF fits] conjunct1 [OF conjunct2 [OF fits]]
      conjunct2 [OF conjunct2 [OF fits]] max_payload_for_pos order_refl, folded packetize_authenticated_eq]
  have "map (\<lambda>w. map_option piece_of (parse_authenticated sha256 w (length w) tok)) ?ws
      = map (\<lambda>(i, c). Some (of_nat i, of_nat (length ?cs), c)) (List.enumerate 0 ?cs)"
    by (rule nth_equalityI) (use ps(2,4) in \<open>simp_all add: nth_enumerate_eq piece_of_def\<close>)
  then show "\<exists>cs. concat cs = p \<and> length cs < 65536
      \<and> map (\<lambda>w. map_option piece_of (parse_authenticated sha256 w (length w) tok)) ?ws
        = map (\<lambda>(i, c). Some (of_nat i, of_nat (length cs), c)) (List.enumerate 0 cs)"
    using ps(1,3) fits by (intro exI [of _ ?cs]) (simp add: MAX_FRAME_PACKET_COUNT_def)
  fix w assume "w \<in> set ?ws"
  then show "length w \<le> MAX_PACKET_SIZE" using ps(2,5) by (auto simp: in_set_conv_nth)
qed

section \<open>Lemmas: messages\<close>

lemma roi_from_to_bytes: "roi_from_bytes (roi_to_bytes r) = Some r"
  by (simp add: roi_from_bytes_def roi_to_bytes_def subslice_def)

lemma pressure_from_to_u8 [simp]: "pressure_from_u8 (pressure_to_u8 p) = p"
  by (cases p) (simp_all add: pressure_from_u8_def)

lemma length_feedback_to_bytes [simp]: "length (feedback_to_bytes f) = 49"
  by (simp add: feedback_to_bytes_def)

lemma feedback_from_to_bytes: "feedback_from_bytes (feedback_to_bytes f) = Some f"
  by (simp add: feedback_from_bytes_def feedback_to_bytes_def subslice_def nth_append)

lemma build_single_authenticated_parse:
  assumes "sha_size sha256" "length payload \<le> max_payload_for tok"
  shows "parse_authenticated sha256 (build_single_authenticated sha256 t payload tok)
      (length (build_single_authenticated sha256 t payload tok)) tok
    = Some \<lparr>ep_packet_type = t, ep_flags = 0, ep_frame_id = 0, ep_packet_index = 0, ep_packet_count = 1,
        ep_presentation_time_us = 0, ep_payload = payload\<rparr>"
proof -
  have "packet_indices_ok 0 1" by (simp add: packet_indices_ok_def MAX_FRAME_PACKET_COUNT_def)
  from parse_authenticated_build(1) [OF assms(1) this assms(2)] assms(2) show ?thesis
    by (simp add: build_single_authenticated_def)
qed

lemma unat_mult_u64:
  fixes a b :: u64
  shows "unat a * unat b < 2 ^ 64 \<Longrightarrow> unat (a * b) = unat a * unat b"
  by (simp add: unat_word_ariths)

section \<open>Properties\<close>

text \<open>C8: authenticated datagrams. With a token whose form is valid, a datagram is accepted exactly when it
  is a packet built with that token: what was built is read back field by field, within the packet size
  limit, and conversely every accepted datagram is byte for byte the packet built from what was read.\<close>

theorem evrt1_accepts_exactly_what_was_built:
  assumes "sha_size sha256"
  shows "(packet_indices_ok i n \<and> length payload \<le> max_payload_for tok \<longrightarrow>
     (let w = build_packet_authenticated sha256 t fl fid i n pts payload tok in
       length w \<le> MAX_PACKET_SIZE \<and> parse_authenticated sha256 w (length w) tok
       = Some \<lparr>ep_packet_type = t, ep_flags = fl, ep_frame_id = fid, ep_packet_index = i, ep_packet_count = n,
           ep_presentation_time_us = pts, ep_payload = payload\<rparr>))
   \<and> (\<forall>buf len p. parse_authenticated sha256 buf len tok = Some p \<longrightarrow>
        take len buf = build_packet_authenticated sha256 (ep_packet_type p) (ep_flags p) (ep_frame_id p)
          (ep_packet_index p) (ep_packet_count p) (ep_presentation_time_us p) (ep_payload p) tok
        \<and> ep_packet_index p < ep_packet_count p \<and> unat (ep_packet_count p) \<le> MAX_FRAME_PACKET_COUNT)"
  using parse_authenticated_build [OF assms] parse_authenticated_canonical [OF assms]
  by (auto simp: Let_def packet_indices_ok_def)

definition toy_sha :: "bytes \<Rightarrow> bytes" where
  "toy_sha m = replicate 32 (sum_list m)"

lemma toy_sha_size: "sha_size toy_sha"
  by (simp add: sha_size_def toy_sha_def)

theorem evrt1_accepts_exactly_what_was_built_witness:
  "parse_authenticated toy_sha (build_packet_authenticated toy_sha 3 1 5 0 2 9 [1, 2] (Some (replicate 32 97)))
     (length (build_packet_authenticated toy_sha 3 1 5 0 2 9 [1, 2] (Some (replicate 32 97))))
     (Some (replicate 32 97))
   = Some \<lparr>ep_packet_type = 3, ep_flags = 1, ep_frame_id = 5, ep_packet_index = 0, ep_packet_count = 2,
       ep_presentation_time_us = 9, ep_payload = [1, 2]\<rparr>"
proof -
  have "packet_indices_ok 0 2" "length [1, 2 :: u8] \<le> max_payload_for (Some (replicate 32 97))"
    by (simp_all add: packet_indices_ok_def max_payload_for_def evrt1_consts)
  then show ?thesis
    using evrt1_accepts_exactly_what_was_built [OF toy_sha_size, of 0 2 "[1, 2]" "Some (replicate 32 97)" 3 1 5 9]
    by (simp add: Let_def)
qed

text \<open>packetization loses nothing. A payload that needs at most \<open>MAX_FRAME_PACKET_COUNT\<close> packets becomes
  datagrams within the size limit which, received in any order and put in order of their indices,
  concatenate to the payload; an empty or larger payload becomes no datagram at all.\<close>

theorem evrt1_packetize_join:
  assumes "sha_size sha256"
  shows "(payload \<noteq> [] \<and> div_ceil (length payload) (max_payload_for tok) \<le> MAX_FRAME_PACKET_COUNT \<longrightarrow>
      (\<forall>w \<in> set (packetize_authenticated sha256 t fl fid pts payload tok). length w \<le> MAX_PACKET_SIZE)
      \<and> (\<forall>ws. mset ws = mset (packetize_authenticated sha256 t fl fid pts payload tok) \<longrightarrow>
           concat (map ep_payload (sort_key (\<lambda>p. unat (ep_packet_index p))
             (map (\<lambda>w. the (parse_authenticated sha256 w (length w) tok)) ws))) = payload))
   \<and> (payload = [] \<or> MAX_FRAME_PACKET_COUNT < div_ceil (length payload) (max_payload_for tok) \<longrightarrow>
      packetize_authenticated sha256 t fl fid pts payload tok = [])"
proof (intro conjI impI ballI allI)
  assume fits: "payload \<noteq> [] \<and> div_ceil (length payload) (max_payload_for tok) \<le> MAX_FRAME_PACKET_COUNT"
  then have f: "sha_size sha256 \<and> payload \<noteq> [] \<and> div_ceil (length payload) (max_payload_for tok) \<le> MAX_FRAME_PACKET_COUNT"
    using assms by simp
  let ?ws = "packetize_authenticated sha256 t fl fid pts payload tok"
  show "length w \<le> MAX_PACKET_SIZE" if "w \<in> set ?ws" for w
    by (rule evrt1.send_limit [OF f that])
  fix ws assume ws: "mset ws = mset ?ws"
  let ?rd = "\<lambda>w. parse_authenticated sha256 w (length w) tok"
  note ps = packetize_with_limit_pieces [OF assms conjunct1 [OF fits] conjunct2 [OF fits] max_payload_for_pos
      order_refl, folded packetize_authenticated_eq]
  have some: "\<exists>p. ?rd w = Some p" if "w \<in> set ws" for w
    using that ws ps(2,4) by (metis in_set_conv_nth mset_eq_setD)
  have pieces: "map (the \<circ> (\<lambda>w. map_option piece_of (?rd w))) ws = map piece_of (map (\<lambda>w. the (?rd w)) ws)"
  proof -
    have "the (map_option piece_of (?rd w)) = piece_of (the (?rd w))" if "w \<in> set ws" for w
      using some [OF that] by auto
    then show ?thesis by simp
  qed
  have srt: "sort_key (\<lambda>(i, n, c). unat i) (map piece_of qs) = map piece_of (sort_key (\<lambda>p. unat (ep_packet_index p)) qs)" for qs
    by (subst sort_key_map) (simp add: piece_of_def)
  have "evrt1.join sha256 tok ws = payload" by (rule evrt1.join_any_order [OF f ws])
  then show "concat (map ep_payload (sort_key (\<lambda>p. unat (ep_packet_index p)) (map (\<lambda>w. the (?rd w)) ws))) = payload"
    unfolding evrt1.join_def pieces srt by (simp add: o_def piece_of_def)
next
  assume "payload = [] \<or> MAX_FRAME_PACKET_COUNT < div_ceil (length payload) (max_payload_for tok)"
  then show "packetize_authenticated sha256 t fl fid pts payload tok = []"
    by (auto simp: packetize_authenticated_eq packetize_with_limit_def Let_def)
qed

theorem evrt1_packetize_join_witness:
  "concat (map ep_payload (sort_key (\<lambda>p. unat (ep_packet_index p))
     (map (\<lambda>w. the (parse_authenticated toy_sha w (length w) None))
       (rev (packetize_authenticated toy_sha 3 0 1 2 (replicate 2000 7) None))))) = replicate 2000 7"
  using evrt1_packetize_join [OF toy_sha_size, of "replicate 2000 7" None 3 0 1 2]
  by (simp add: max_payload_for_def usable_token_def div_ceil_def evrt1_consts)

text \<open>the rectangle and feedback messages are read back as they were written, also through an
  authenticated single-packet message, and the feedback arrives as a control message.\<close>

theorem evrt1_messages_roundtrip:
  assumes "sha_size sha256"
  shows "roi_from_bytes (roi_to_bytes roi) = Some roi
   \<and> (\<exists>p. parse_authenticated sha256 (build_roi_metadata_authenticated sha256 roi tok)
           (length (build_roi_metadata_authenticated sha256 roi tok)) tok = Some p
        \<and> ep_packet_type p = TYPE_ROI_METADATA \<and> roi_from_bytes (ep_payload p) = Some roi)
   \<and> (\<exists>p. parse_authenticated sha256 (build_receiver_feedback_authenticated sha256 fb tok)
           (length (build_receiver_feedback_authenticated sha256 fb tok)) tok = Some p
        \<and> ep_packet_type p = TYPE_CONTROL
        \<and> parse_control_binary (ep_payload p) = Some (ReceiverFeedbackMsg fb))"
proof -
  have r: "length (roi_to_bytes roi) \<le> max_payload_for tok"
    by (simp add: roi_to_bytes_def max_payload_for_def evrt1_consts)
  have f: "length (CTRL_RECEIVER_FEEDBACK # feedback_to_bytes fb) \<le> max_payload_for tok"
    by (simp add: max_payload_for_def evrt1_consts)
  have c: "parse_control_binary (CTRL_RECEIVER_FEEDBACK # feedback_to_bytes fb) = Some (ReceiverFeedbackMsg fb)"
    by (simp add: parse_control_binary_def feedback_from_to_bytes CTRL_RECEIVER_FEEDBACK_def CTRL_REQUEST_KEY_FRAME_def)
  show ?thesis
    using build_single_authenticated_parse [OF assms r, of TYPE_ROI_METADATA]
      build_single_authenticated_parse [OF assms f, of TYPE_CONTROL] c
    by (simp add: roi_from_to_bytes build_roi_metadata_authenticated_def build_receiver_feedback_authenticated_def)
qed

theorem evrt1_messages_roundtrip_witness:
  "\<exists>p. parse_authenticated toy_sha (build_roi_metadata_authenticated toy_sha \<lparr>roi_frame_id = 1, roi_x = 2,
        roi_y = 3, roi_w = 4, roi_h = 5\<rparr> None) (length (build_roi_metadata_authenticated toy_sha
        \<lparr>roi_frame_id = 1, roi_x = 2, roi_y = 3, roi_w = 4, roi_h = 5\<rparr> None)) None = Some p
     \<and> roi_from_bytes (ep_payload p) = Some \<lparr>roi_frame_id = 1, roi_x = 2, roi_y = 3, roi_w = 4, roi_h = 5\<rparr>"
  using evrt1_messages_roundtrip [OF toy_sha_size] by blast

end
