(* ===== verification/Evrt1_Fec.thy ===== *)
theory Evrt1_Fec
  imports Evrt1_Packet
begin

text \<open>
  Forward error correction of \<^verbatim>\<open>src/src/evrt.rs\<close>: one XOR packet per group of at most eight chunks, which
  carries the XOR of the chunks and the XOR of their lengths, so that one lost chunk of a group can be
  restored with its exact length.
\<close>

section \<open>Definitions\<close>

definition FEC_GROUP_SIZE :: nat where "FEC_GROUP_SIZE = 8"
definition FEC_HEADER_LEN :: nat where "FEC_HEADER_LEN = 5"

record FecMeta =
  fm_frame_id :: u32
  fm_base_index :: u16
  fm_group_size :: u8
  fm_xor_len :: u16
  fm_xor_payload :: bytes

fun max_chunk_len :: "bytes list \<Rightarrow> nat" where
  "max_chunk_len [] = 0"
| "max_chunk_len (c # cs) = max (length c) (max_chunk_len cs)"

text \<open>The body of the loop over \<open>chunks.chunks(FEC_GROUP_SIZE).enumerate()\<close> that makes the payload.\<close>

definition fec_group_payload :: "nat \<Rightarrow> bytes list \<Rightarrow> bytes" where
  "fec_group_payload gi grp =
     (let base_index = (of_nat (gi * FEC_GROUP_SIZE) :: u16);
          max_len = max_chunk_len grp;
          xor_payload = fold (\<lambda>chunk acc. xor_zip acc chunk) grp (replicate max_len 0);
          xor_len = fold (\<lambda>chunk acc. acc XOR of_nat (length chunk)) grp (0 :: u16)
      in be_bytes 2 base_index @ [of_nat (length grp)] @ be_bytes 2 xor_len @ xor_payload)"

fun fec_groups_loop ::
  "(bytes \<Rightarrow> bytes) \<Rightarrow> u32 \<Rightarrow> u64 \<Rightarrow> u16 \<Rightarrow> nat \<Rightarrow> bytes option \<Rightarrow> nat \<Rightarrow> bytes list list \<Rightarrow> bytes list" where
  "fec_groups_loop sha256 frame_id pts flags total_groups session_token gi [] = []"
| "fec_groups_loop sha256 frame_id pts flags total_groups session_token gi (grp # groups) =
     (if max_payload_for session_token < FEC_HEADER_LEN + max_chunk_len grp
      then fec_groups_loop sha256 frame_id pts flags total_groups session_token (Suc gi) groups
      else build_packet_authenticated sha256 TYPE_FEC flags frame_id (of_nat gi) (of_nat total_groups) pts
             (fec_group_payload gi grp) session_token
           # fec_groups_loop sha256 frame_id pts flags total_groups session_token (Suc gi) groups)"

definition build_fec_packets ::
  "(bytes \<Rightarrow> bytes) \<Rightarrow> u32 \<Rightarrow> u64 \<Rightarrow> u16 \<Rightarrow> bytes list \<Rightarrow> bytes option \<Rightarrow> bytes list" where
  "build_fec_packets sha256 frame_id pts flags chunk_list session_token =
     (if chunk_list = [] then []
      else let total_groups = div_ceil (length chunk_list) FEC_GROUP_SIZE in
      if MAX_FRAME_PACKET_COUNT < total_groups then []
      else fec_groups_loop sha256 frame_id pts flags total_groups session_token 0
             (chunks FEC_GROUP_SIZE chunk_list))"

definition packetize_video_with_fec ::
  "(bytes \<Rightarrow> bytes) \<Rightarrow> u32 \<Rightarrow> u64 \<Rightarrow> bool \<Rightarrow> bytes \<Rightarrow> bytes option \<Rightarrow> bytes list \<times> bytes list" where
  "packetize_video_with_fec sha256 frame_id pts is_key payload session_token =
     (let chunk_size = max (max_payload_for session_token - FEC_HEADER_LEN) 1;
          flags = key_flags is_key in
      if payload = [] then ([], [])
      else let packet_count = div_ceil (length payload) chunk_size in
      if packet_count = 0 \<or> MAX_FRAME_PACKET_COUNT < packet_count then ([], [])
      else let cs = chunks chunk_size payload;
               data = map (\<lambda>(i, chunk). build_packet_authenticated sha256 TYPE_VIDEO_FRAME flags frame_id
                        (of_nat i) (of_nat packet_count) pts chunk session_token) (List.enumerate 0 cs);
               fec = (if 2 \<le> length cs then build_fec_packets sha256 frame_id pts flags cs session_token else [])
           in (data, fec))"

definition parse_fec_payload :: "u32 \<Rightarrow> bytes \<Rightarrow> FecMeta option" where
  "parse_fec_payload frame_id payload =
     (if length payload < FEC_HEADER_LEN then None
      else let base_index = be_word (subslice 0 2 payload); group_size = payload ! 2 in
      if group_size = 0 \<or> FEC_GROUP_SIZE < unat group_size then None
      else Some \<lparr>fm_frame_id = frame_id, fm_base_index = base_index, fm_group_size = group_size,
                 fm_xor_len = be_word (subslice 3 5 payload), fm_xor_payload = drop FEC_HEADER_LEN payload\<rparr>)"

definition saturating_add_u16 :: "u16 \<Rightarrow> u16 \<Rightarrow> u16" where
  "saturating_add_u16 a b = (if unat a + unat b < 2 ^ 16 then a + b else - 1)"

definition in_group :: "u16 \<Rightarrow> u16 \<Rightarrow> u16 \<Rightarrow> bool" where
  "in_group base stop idx \<longleftrightarrow> base \<le> idx \<and> idx < stop"

text \<open>The first loop of \<open>fec_recover_one\<close>: which offsets are present, and how many.\<close>

fun count_present :: "u16 \<Rightarrow> u16 \<Rightarrow> (u16 \<times> bytes) list \<Rightarrow> bool list \<times> nat \<Rightarrow> bool list \<times> nat" where
  "count_present base stop [] st = st"
| "count_present base stop ((idx, payload) # present) (seen, n) =
     count_present base stop present
       (if in_group base stop idx
        then let off = unat (idx - base) in
             if off < FEC_GROUP_SIZE \<and> \<not> seen ! off then (seen[off := True], Suc n) else (seen, n)
        else (seen, n))"

definition fec_recover_one :: "FecMeta \<Rightarrow> (u16 \<times> bytes) list \<Rightarrow> (u16 \<times> bytes) option" where
  "fec_recover_one fec present =
     (let base = fm_base_index fec;
          stop = saturating_add_u16 base (ucast (fm_group_size fec));
          (seen, present_in_group) = count_present base stop present (replicate FEC_GROUP_SIZE False, 0) in
      if present_in_group + 1 \<noteq> unat (fm_group_size fec) then None
      else case find (\<lambda>o'. \<not> seen ! o') [0..<unat (fm_group_size fec)] of
        None \<Rightarrow> None
      | Some missing_off \<Rightarrow>
          let missing_index = base + of_nat missing_off;
              recovered = fold (\<lambda>(idx, payload) acc. if in_group base stop idx then xor_zip acc payload else acc)
                            present (fm_xor_payload fec);
              len_acc = fold (\<lambda>(idx, payload) acc. if in_group base stop idx then acc XOR of_nat (length payload) else acc)
                            present (fm_xor_len fec);
              recovered_len = unat len_acc in
          if length recovered < recovered_len then None
          else Some (missing_index, take recovered_len recovered))"

section \<open>Lemmas: what the packet of a group holds\<close>

lemma max_chunk_len_ge: "c \<in> set cs \<Longrightarrow> length c \<le> max_chunk_len cs"
  by (induction cs) auto

definition group_meta :: "u32 \<Rightarrow> nat \<Rightarrow> bytes list \<Rightarrow> FecMeta" where
  "group_meta frame_id gi grp =
     \<lparr>fm_frame_id = frame_id, fm_base_index = of_nat (gi * FEC_GROUP_SIZE), fm_group_size = of_nat (length grp),
      fm_xor_len = fold (\<lambda>chunk acc. acc XOR of_nat (length chunk)) grp 0,
      fm_xor_payload = fold (\<lambda>chunk acc. xor_zip acc chunk) grp (replicate (max_chunk_len grp) 0)\<rparr>"

lemma parse_fec_group_payload:
  assumes "grp \<noteq> []" "length grp \<le> FEC_GROUP_SIZE"
  shows "parse_fec_payload frame_id (fec_group_payload gi grp) = Some (group_meta frame_id gi grp)"
proof -
  have u: "unat (of_nat (length grp) :: u8) = length grp"
    using assms by (simp add: unat_of_nat_u8 FEC_GROUP_SIZE_def)
  then have "(of_nat (length grp) :: u8) \<noteq> 0" using assms(1) by (metis length_0_conv unat_0)
  then show ?thesis
    using assms u by (simp add: parse_fec_payload_def fec_group_payload_def group_meta_def Let_def
        FEC_HEADER_LEN_def subslice_def nth_append)
qed

text \<open>The XOR of all chunks but one, taken out of the XOR of all, leaves that one.\<close>

lemma fold_all_eq: "fold f cs a = fold f (map (\<lambda>i. cs ! i) [0..<length cs]) a"
  by (simp add: map_nth)

lemma recovered_chunk:
  assumes m: "m < length cs"
  defines "others \<equiv> filter (\<lambda>i. i \<noteq> m) [0..<length cs]"
  defines "acc \<equiv> fold (\<lambda>c acc. xor_zip acc c) (map (\<lambda>i. cs ! i) others)
      (fold (\<lambda>c acc. xor_zip acc c) cs (replicate (max_chunk_len cs) 0))"
  shows "length acc = max_chunk_len cs" "take (length (cs ! m)) acc = cs ! m"
proof -
  show len: "length acc = max_chunk_len cs" by (simp add: acc_def)
  have le: "length (cs ! m) \<le> max_chunk_len cs" by (rule max_chunk_len_ge) (use m in simp)
  have byte: "byte_at acc j = byte_at (cs ! m) j" if j: "j < max_chunk_len cs" for j
  proof -
    let ?x = "\<lambda>is. xor_over (\<lambda>i. byte_at (cs ! i) j) is"
    have "byte_at acc j = ?x [0..<length cs] XOR ?x others"
      using j by (simp add: acc_def fold_all_eq [of _ cs] byte_at_fold_xor_zip)
    also have "?x [0..<length cs] = byte_at (cs ! m) j XOR ?x others"
      using m unfolding others_def by (intro xor_over_remove) simp_all
    finally show ?thesis by (simp add: xor.assoc)
  qed
  show "take (length (cs ! m)) acc = cs ! m"
  proof (rule nth_equalityI)
    fix i assume i: "i < length (take (length (cs ! m)) acc)"
    then have "acc ! i = (cs ! m) ! i"
      using byte [of i] le len by (simp add: byte_at_def)
    with i show "take (length (cs ! m)) acc ! i = cs ! m ! i" by simp
  qed (use le len in simp)
qed

lemma recovered_length:
  assumes "m < length cs" "\<forall>c \<in> set cs. length c < 65536"
  shows "unat (fold (\<lambda>c acc. acc XOR of_nat (length c)) (map (\<lambda>i. cs ! i) (filter (\<lambda>i. i \<noteq> m) [0..<length cs]))
      (fold (\<lambda>c acc. acc XOR of_nat (length c)) cs (0 :: u16))) = length (cs ! m)"
proof -
  let ?x = "\<lambda>is. xor_over (\<lambda>i. of_nat (length (cs ! i)) :: u16) is"
  have "fold (\<lambda>c acc. acc XOR of_nat (length c)) (map (\<lambda>i. cs ! i) (filter (\<lambda>i. i \<noteq> m) [0..<length cs]))
      (fold (\<lambda>c acc. acc XOR of_nat (length c)) cs (0 :: u16))
    = ?x [0..<length cs] XOR ?x (filter (\<lambda>i. i \<noteq> m) [0..<length cs])"
    by (simp only: fold_all_eq [of _ cs] fold_xor_over xor.left_neutral)
  also have "?x [0..<length cs] = of_nat (length (cs ! m)) XOR ?x (filter (\<lambda>i. i \<noteq> m) [0..<length cs])"
    using assms(1) by (intro xor_over_remove) simp_all
  finally have "fold (\<lambda>c acc. acc XOR of_nat (length c)) (map (\<lambda>i. cs ! i) (filter (\<lambda>i. i \<noteq> m) [0..<length cs]))
      (fold (\<lambda>c acc. acc XOR of_nat (length c)) cs (0 :: u16)) = of_nat (length (cs ! m))"
    by (simp add: xor.assoc)
  then show ?thesis using assms by (simp add: unat_of_nat_u16)
qed

section \<open>Lemmas: counting what is present\<close>

lemma count_present_filter:
  "count_present base stop present st = count_present base stop (filter (\<lambda>(idx, p). in_group base stop idx) present) st"
proof (induction base stop present st rule: count_present.induct)
  case (2 base stop idx p present seen n)
  then show ?case by (cases "in_group base stop idx") simp_all
qed simp

lemma count_present_distinct:
  assumes "\<forall>(idx, p) \<in> set xs. in_group base stop idx"
    and "distinct (map (\<lambda>(idx, p). unat (idx - base)) xs)"
    and "\<forall>(idx, p) \<in> set xs. unat (idx - base) < length seen \<and> \<not> seen ! unat (idx - base)"
    and "length seen = FEC_GROUP_SIZE"
  shows "\<exists>seen'. count_present base stop xs (seen, n) = (seen', n + length xs) \<and> length seen' = length seen
    \<and> (\<forall>o' < length seen. seen' ! o' \<longleftrightarrow> seen ! o' \<or> o' \<in> (\<lambda>(idx, p). unat (idx - base)) ` set xs)"
  using assms
proof (induction xs arbitrary: seen n)
  case (Cons x xs)
  obtain idx p where x: "x = (idx, p)" by (cases x)
  let ?o = "unat (idx - base)"
  have o: "in_group base stop idx" "?o < length seen" "\<not> seen ! ?o" using Cons.prems(1,3) x by auto
  have rest: "\<forall>(idx', p) \<in> set xs. unat (idx' - base) < length (seen[?o := True])
      \<and> \<not> seen[?o := True] ! unat (idx' - base)"
  proof -
    have "unat (idx' - base) < length (seen[?o := True]) \<and> \<not> seen[?o := True] ! unat (idx' - base)"
      if e: "(idx', p') \<in> set xs" for idx' p'
    proof -
      have "unat (idx' - base) \<noteq> ?o" using Cons.prems(2) x e by force
      moreover have "unat (idx' - base) < length seen" "\<not> seen ! unat (idx' - base)"
        using Cons.prems(3) e by auto
      ultimately show ?thesis by simp
    qed
    then show ?thesis by blast
  qed
  have "\<exists>seen'. count_present base stop xs (seen[?o := True], Suc n) = (seen', Suc n + length xs)
      \<and> length seen' = length (seen[?o := True])
      \<and> (\<forall>o' < length (seen[?o := True]). seen' ! o'
           \<longleftrightarrow> seen[?o := True] ! o' \<or> o' \<in> (\<lambda>(idx, p). unat (idx - base)) ` set xs)"
    by (rule Cons.IH) (use Cons.prems x rest in auto)
  then show ?case using o Cons.prems(4) x by (auto simp: Let_def nth_list_update)
qed simp

lemma group_offsets:
  assumes "b + n < 65536" "j < n"
  defines "base \<equiv> of_nat b :: u16" and "idx \<equiv> of_nat (b + j) :: u16"
  shows "in_group base (of_nat (b + n)) idx" "unat (idx - base) = j"
proof -
  have u: "unat base = b" "unat idx = b + j" "unat (of_nat (b + n) :: u16) = b + n"
    using assms by (simp_all add: unat_of_nat_u16 del: of_nat_add)
  then show "in_group base (of_nat (b + n)) idx"
    using assms(2) by (simp add: in_group_def word_le_nat_alt word_less_nat_alt)
  have "base \<le> idx" using u by (simp add: word_le_nat_alt)
  then show "unat (idx - base) = j" using u by (simp add: unat_sub)
qed

text \<open>The entries of \<open>present\<close> that fall into the group are those of all chunks but \<open>m\<close>, each once.\<close>

definition all_but :: "nat \<Rightarrow> bytes list \<Rightarrow> nat \<Rightarrow> (u16 \<times> bytes) list" where
  "all_but b grp m = map (\<lambda>j. (of_nat (b + j), grp ! j)) (filter (\<lambda>j. j \<noteq> m) [0..<length grp])"

lemma length_all_but: "m < length grp \<Longrightarrow> Suc (length (all_but b grp m)) = length grp"
proof -
  assume m: "m < length grp"
  have "length (filter (\<lambda>j. j \<noteq> m) [0..<length grp]) = card ({0..<length grp} - {m})"
    by (subst distinct_card [symmetric]) (auto intro: arg_cong [where f = card])
  then show ?thesis using m by (simp add: all_but_def)
qed

lemma count_all_but:
  assumes "length grp \<le> FEC_GROUP_SIZE" "b + length grp < 65536" "m < length grp"
    and "mset xs = mset (all_but b grp m)"
  shows "\<exists>seen. count_present (of_nat b) (of_nat (b + length grp)) xs (replicate FEC_GROUP_SIZE False, 0)
      = (seen, length grp - 1) \<and> (\<forall>o' < length grp. seen ! o' \<longleftrightarrow> o' \<noteq> m)"
proof -
  let ?base = "of_nat b :: u16" and ?stop = "of_nat (b + length grp) :: u16"
  let ?off = "\<lambda>(idx, p). unat (idx - ?base)"
  have set: "set xs = set (all_but b grp m)" using assms(4) by (metis set_mset_mset)
  note off = group_offsets [OF assms(2)]
  have map_off: "map ?off (all_but b grp m) = filter (\<lambda>j. j \<noteq> m) [0..<length grp]"
    unfolding all_but_def map_map o_def prod.case by (rule map_idI) (use off(2) in simp)
  have offs: "?off ` set xs = {j. j < length grp \<and> j \<noteq> m}"
    unfolding set set_map [symmetric] map_off by auto
  have "mset (map ?off xs) = mset (map ?off (all_but b grp m))" unfolding mset_map assms(4) ..
  from mset_eq_imp_distinct_iff [OF this] have d: "distinct (map ?off xs)" unfolding map_off by simp
  have "\<exists>seen'. count_present ?base ?stop xs (replicate FEC_GROUP_SIZE False, 0) = (seen', 0 + length xs)
      \<and> length seen' = length (replicate FEC_GROUP_SIZE False)
      \<and> (\<forall>o' < length (replicate FEC_GROUP_SIZE False). seen' ! o'
            \<longleftrightarrow> replicate FEC_GROUP_SIZE False ! o' \<or> o' \<in> ?off ` set xs)"
  proof (rule count_present_distinct)
    show "\<forall>(idx, p) \<in> set xs. in_group ?base ?stop idx"
      unfolding set all_but_def using off(1) by (auto simp del: of_nat_add)
    have lt: "?off x < length grp" if "x \<in> set xs" for x using offs that by blast
    show "\<forall>(idx, p) \<in> set xs. unat (idx - ?base) < length (replicate FEC_GROUP_SIZE False)
        \<and> \<not> replicate FEC_GROUP_SIZE False ! unat (idx - ?base)"
    proof (intro ballI)
      fix x assume "x \<in> set xs"
      from lt [OF this] assms(1) show "case x of (idx, p) \<Rightarrow> unat (idx - ?base) < length (replicate FEC_GROUP_SIZE False)
          \<and> \<not> replicate FEC_GROUP_SIZE False ! unat (idx - ?base)"
        by (simp add: split_def)
    qed
    show "distinct (map ?off xs)" by (rule d)
  qed simp
  then obtain seen where s: "count_present ?base ?stop xs (replicate FEC_GROUP_SIZE False, 0) = (seen, 0 + length xs)"
      "\<forall>o' < length (replicate FEC_GROUP_SIZE False). seen ! o'
            \<longleftrightarrow> replicate FEC_GROUP_SIZE False ! o' \<or> o' \<in> ?off ` set xs" by blast
  then have seen: "count_present ?base ?stop xs (replicate FEC_GROUP_SIZE False, 0) = (seen, length xs)"
      "\<forall>o' < FEC_GROUP_SIZE. seen ! o' \<longleftrightarrow> o' \<in> {j. j < length grp \<and> j \<noteq> m}"
    unfolding offs by simp_all
  have "length xs = length grp - 1"
    using length_all_but [OF assms(3)] assms(4) by (metis diff_Suc_1 size_mset)
  then show ?thesis using seen assms(1) by (intro exI [of _ seen]) simp
qed

lemma fold_present:
  assumes "mset (filter (\<lambda>(idx, p). P idx) present) = mset (all_but b grp m)"
    and comm: "\<And>x y acc. f x (f y acc) = f y (f x acc)"
  shows "fold (\<lambda>(idx, p) acc. if P idx then f p acc else acc) present a
    = fold f (map (\<lambda>i. grp ! i) (filter (\<lambda>i. i \<noteq> m) [0..<length grp])) a"
proof -
  have "fold (\<lambda>(idx, p) acc. if P idx then f p acc else acc) present a
      = fold (\<lambda>x acc. if (\<lambda>(idx, p). P idx) x then f (snd x) acc else acc) present a"
    by (rule fold_cong) (auto simp: fun_eq_iff)
  also have "\<dots> = fold (\<lambda>x. f (snd x)) (filter (\<lambda>(idx, p). P idx) present) a" by (rule fold_filtered)
  also have "\<dots> = fold (\<lambda>x. f (snd x)) (all_but b grp m) a"
  proof -
    have "fold (\<lambda>x. f (snd x)) (filter (\<lambda>(idx, p). P idx) present) = fold (\<lambda>x. f (snd x)) (all_but b grp m)"
      using assms(1) comm by (intro fold_multiset_equiv) (auto simp: fun_eq_iff)
    then show ?thesis by simp
  qed
  also have "\<dots> = fold f (map snd (all_but b grp m)) a" by (simp add: fold_map o_def)
  also have "map snd (all_but b grp m) = map (\<lambda>i. grp ! i) (filter (\<lambda>i. i \<noteq> m) [0..<length grp])"
    by (simp add: all_but_def)
  finally show ?thesis .
qed

lemma fec_recover_one_group:
  assumes "length grp \<le> FEC_GROUP_SIZE" "gi * FEC_GROUP_SIZE + length grp < 65536" "m < length grp"
    and "\<forall>c \<in> set grp. length c < 65536"
    and pres: "mset (filter (\<lambda>(idx, p). in_group (of_nat (gi * FEC_GROUP_SIZE))
          (of_nat (gi * FEC_GROUP_SIZE + length grp)) idx) present) = mset (all_but (gi * FEC_GROUP_SIZE) grp m)"
  shows "fec_recover_one (group_meta frame_id gi grp) present = Some (of_nat (gi * FEC_GROUP_SIZE + m), grp ! m)"
proof -
  let ?b = "gi * FEC_GROUP_SIZE" and ?n = "length grp"
  let ?P = "in_group (of_nat ?b) (of_nat (?b + ?n))"
  have n: "unat (of_nat ?n :: u8) = ?n" using assms(1) by (simp add: unat_of_nat_u8 FEC_GROUP_SIZE_def)
  have ub: "unat (of_nat ?b :: u16) = ?b" using assms(2) by (simp add: unat_of_nat_u16 del: of_nat_mult)
  have cast: "(ucast (of_nat ?n :: u8) :: u16) = of_nat ?n" using n by (metis of_nat_unat)
  have un: "unat (of_nat ?n :: u16) = ?n" using assms(1) by (simp add: unat_of_nat_u16 FEC_GROUP_SIZE_def)
  have sat: "saturating_add_u16 (of_nat ?b) (ucast (of_nat ?n :: u8)) = of_nat (?b + ?n)"
    unfolding saturating_add_u16_def cast ub un using assms(2) by simp
  obtain seen where seen: "count_present (of_nat ?b) (of_nat (?b + ?n)) present (replicate FEC_GROUP_SIZE False, 0)
      = (seen, ?n - 1)" "\<forall>o' < ?n. seen ! o' \<longleftrightarrow> o' \<noteq> m"
    using count_all_but [OF assms(1-3) pres]
    unfolding count_present_filter [of "of_nat ?b" "of_nat (?b + ?n)" present, symmetric] by blast
  have fnd: "find (\<lambda>o'. \<not> seen ! o') [0..<?n] = Some m"
    by (rule find_unique) (use seen(2) assms(3) in simp_all)
  let ?acc = "fold (\<lambda>(idx, p) acc. if ?P idx then xor_zip acc p else acc) present (fm_xor_payload (group_meta frame_id gi grp))"
  let ?len = "fold (\<lambda>(idx, p) acc. if ?P idx then acc XOR of_nat (length p) else acc) present (fm_xor_len (group_meta frame_id gi grp))"
  have len: "unat ?len = length (grp ! m)"
    unfolding group_meta_def FecMeta.select_convs
    by (subst fold_present [OF pres]) (simp_all add: ac_simps recovered_length [OF assms(3,4)])
  have acc: "length ?acc = max_chunk_len grp" "take (length (grp ! m)) ?acc = grp ! m"
    unfolding group_meta_def FecMeta.select_convs fold_present [OF pres, where f = "\<lambda>c acc. xor_zip acc c", OF xor_zip_commute]
    using recovered_chunk [OF assms(3)] by simp_all
  have le: "length (grp ! m) \<le> max_chunk_len grp" by (rule max_chunk_len_ge) (use assms(3) in simp)
  have base: "fm_base_index (group_meta frame_id gi grp) = of_nat ?b"
    "fm_group_size (group_meta frame_id gi grp) = of_nat ?n" by (simp_all add: group_meta_def)
  have one: "?n - 1 + 1 = ?n" using assms(3) by simp
  show ?thesis
    unfolding fec_recover_one_def base sat Let_def seen(1) prod.case n one fnd len acc(1)
    using le acc(2) by simp
qed

section \<open>Lemmas: a frame with its FEC packets\<close>

lemma fec_groups_loop_all:
  "\<forall>grp \<in> set groups. FEC_HEADER_LEN + max_chunk_len grp \<le> max_payload_for tok \<Longrightarrow>
   fec_groups_loop sha256 fid pts flags tg tok gi groups
     = map (\<lambda>(g, grp). build_packet_authenticated sha256 TYPE_FEC flags fid (of_nat g) (of_nat tg) pts
         (fec_group_payload g grp) tok) (List.enumerate gi groups)"
  by (induction groups arbitrary: gi) auto

lemma length_fec_group_payload: "length (fec_group_payload gi grp) = FEC_HEADER_LEN + max_chunk_len grp"
  by (simp add: fec_group_payload_def Let_def FEC_HEADER_LEN_def)

lemma max_chunk_len_le: "(\<And>c. c \<in> set cs \<Longrightarrow> length c \<le> n) \<Longrightarrow> max_chunk_len cs \<le> n"
  by (induction cs) auto

definition fec_chunk_size :: "bytes option \<Rightarrow> nat" where
  "fec_chunk_size tok = max (max_payload_for tok - FEC_HEADER_LEN) 1"

lemma fec_chunk_size_fits: "FEC_HEADER_LEN + fec_chunk_size tok = max_payload_for tok" "0 < fec_chunk_size tok"
  "fec_chunk_size tok < 65536"
  by (simp_all add: fec_chunk_size_def max_payload_for_def FEC_HEADER_LEN_def evrt1_consts)

lemma frame_fec_packet:
  assumes sha: "sha_size sha256" and ne: "payload \<noteq> []"
    and cnt: "div_ceil (length payload) (fec_chunk_size tok) \<le> MAX_FRAME_PACKET_COUNT"
  defines "cs \<equiv> chunks (fec_chunk_size tok) payload"
  defines "groups \<equiv> chunks FEC_GROUP_SIZE cs"
  assumes two: "2 \<le> length cs" and gi: "gi < length groups"
  shows "\<exists>w p. w = snd (packetize_video_with_fec sha256 fid pts key payload tok) ! gi
    \<and> length (snd (packetize_video_with_fec sha256 fid pts key payload tok)) = length groups
    \<and> length w \<le> MAX_PACKET_SIZE
    \<and> parse_authenticated sha256 w (length w) tok = Some p
    \<and> ep_packet_type p = TYPE_FEC \<and> ep_frame_id p = fid
    \<and> parse_fec_payload fid (ep_payload p) = Some (group_meta fid gi (groups ! gi))"
proof -
  let ?m = "fec_chunk_size tok"
  have lc: "length cs = div_ceil (length payload) ?m"
    unfolding cs_def by (rule length_chunks [OF fec_chunk_size_fits(2)])
  have lg: "length groups = div_ceil (length cs) FEC_GROUP_SIZE"
    unfolding groups_def by (rule length_chunks) (simp add: FEC_GROUP_SIZE_def)
  have lgc: "length groups \<le> 16384"
    using cnt unfolding lg lc [symmetric] by (simp add: div_ceil_def FEC_GROUP_SIZE_def MAX_FRAME_PACKET_COUNT_def)
  have clen: "length c \<le> ?m" if "c \<in> set cs" for c
    using chunks_length_bounds that by (auto simp: cs_def)
  have sub: "set g \<subseteq> set cs" if "g \<in> set groups" for g
  proof -
    have "set (concat groups) = set cs" by (simp add: groups_def FEC_GROUP_SIZE_def)
    with that show ?thesis by auto
  qed
  have fit: "FEC_HEADER_LEN + max_chunk_len g \<le> max_payload_for tok" if "g \<in> set groups" for g
  proof -
    have "max_chunk_len g \<le> ?m" using sub [OF that] clen by (intro max_chunk_len_le) blast
    then show ?thesis using fec_chunk_size_fits(1) [of tok] by simp
  qed
  let ?fec = "map (\<lambda>(g, grp). build_packet_authenticated sha256 TYPE_FEC (key_flags key) fid (of_nat g)
      (of_nat (length groups)) pts (fec_group_payload g grp) tok) (List.enumerate 0 groups)"
  have "cs \<noteq> []" using two by auto
  moreover have "snd (packetize_video_with_fec sha256 fid pts key payload tok)
      = build_fec_packets sha256 fid pts (key_flags key) cs tok"
    using ne cnt two lc unfolding packetize_video_with_fec_def fec_chunk_size_def [symmetric] Let_def cs_def
    by simp
  ultimately have out: "snd (packetize_video_with_fec sha256 fid pts key payload tok) = ?fec"
    using lgc fit unfolding build_fec_packets_def Let_def lg [symmetric] groups_def [symmetric]
    by (simp add: fec_groups_loop_all MAX_FRAME_PACKET_COUNT_def)
  let ?g = "groups ! gi"
  have g: "?g \<in> set groups" using gi by simp
  have gl: "?g \<noteq> []" "length ?g \<le> FEC_GROUP_SIZE"
    using chunks_length_bounds [of ?g FEC_GROUP_SIZE cs] g by (auto simp: groups_def)
  have u: "unat (of_nat (length groups) :: u16) = length groups" "unat (of_nat gi :: u16) = gi"
    using lgc gi by (simp_all add: unat_of_nat_u16)
  have idx: "packet_indices_ok (of_nat gi) (of_nat (length groups))"
    using u gi lgc by (auto simp: packet_indices_ok_def word_less_nat_alt MAX_FRAME_PACKET_COUNT_def simp flip: unat_eq_zero)
  have len: "length (fec_group_payload gi ?g) \<le> max_payload_for tok"
    using fit [OF g] by (simp add: length_fec_group_payload)
  let ?w = "build_packet_authenticated sha256 TYPE_FEC (key_flags key) fid (of_nat gi)
      (of_nat (length groups)) pts (fec_group_payload gi ?g) tok"
  have "?fec ! gi = ?w" using gi by (simp add: nth_enumerate_eq)
  then show ?thesis
    using parse_authenticated_build [OF sha idx len, of TYPE_FEC "key_flags key" fid pts]
      parse_fec_group_payload [OF gl] unfolding out by simp
qed

lemma group_of_chunk:
  assumes "gi < length (chunks FEC_GROUP_SIZE cs)" "m < length (chunks FEC_GROUP_SIZE cs ! gi)"
  shows "chunks FEC_GROUP_SIZE cs ! gi ! m = cs ! (gi * FEC_GROUP_SIZE + m)"
    "gi * FEC_GROUP_SIZE + length (chunks FEC_GROUP_SIZE cs ! gi) \<le> length cs"
  using assms chunk_index_bound [of FEC_GROUP_SIZE gi cs]
  by (simp_all add: nth_chunks FEC_GROUP_SIZE_def)

section \<open>Properties\<close>

text \<open>C38: one lost chunk per group is restored exactly. For a frame sent with FEC as at least two chunks, every
  group of eight has an FEC datagram that the receiver accepts, within the size limit; and from it and any
  list of received chunks in which exactly one of the group is missing (chunks of other groups may be there
  too, in any order), \<open>fec_recover_one\<close> returns the index and the bytes of the missing chunk.\<close>

theorem evrt1_fec_restores_lost_chunk:
  assumes "sha_size sha256" and "payload \<noteq> []"
    and "div_ceil (length payload) (fec_chunk_size tok) \<le> MAX_FRAME_PACKET_COUNT"
    and "cs = chunks (fec_chunk_size tok) payload" and "2 \<le> length cs"
    and "gi < length (chunks FEC_GROUP_SIZE cs)" and "grp = chunks FEC_GROUP_SIZE cs ! gi" and "m < length grp"
  shows "\<exists>w p meta. w = snd (packetize_video_with_fec sha256 fid pts key payload tok) ! gi
    \<and> length w \<le> MAX_PACKET_SIZE
    \<and> parse_authenticated sha256 w (length w) tok = Some p \<and> ep_packet_type p = TYPE_FEC \<and> ep_frame_id p = fid
    \<and> parse_fec_payload fid (ep_payload p) = Some meta
    \<and> (\<forall>present. mset (filter (\<lambda>(idx, c). in_group (of_nat (gi * FEC_GROUP_SIZE))
            (of_nat (gi * FEC_GROUP_SIZE + length grp)) idx) present)
          = mset (map (\<lambda>j. (of_nat (gi * FEC_GROUP_SIZE + j), grp ! j)) (filter (\<lambda>j. j \<noteq> m) [0..<length grp]))
        \<longrightarrow> fec_recover_one meta present
            = Some (of_nat (gi * FEC_GROUP_SIZE + m), cs ! (gi * FEC_GROUP_SIZE + m)))"
proof -
  have sz: "length grp \<le> FEC_GROUP_SIZE"
    using chunks_length_bounds [of grp FEC_GROUP_SIZE cs] assms(6,7) by simp
  note gc = group_of_chunk [OF assms(6), of m, folded assms(7), OF assms(8)]
  have "length cs \<le> 16384"
    using assms(3,4) length_chunks [OF fec_chunk_size_fits(2), of tok payload] by (simp add: MAX_FRAME_PACKET_COUNT_def)
  then have b: "gi * FEC_GROUP_SIZE + length grp < 65536" using gc(2) by simp
  have cl: "\<forall>c \<in> set grp. length c < 65536"
  proof
    fix c assume "c \<in> set grp"
    then obtain j where "j < length grp" "c = grp ! j" by (auto simp: in_set_conv_nth)
    then have "c \<in> set cs"
      using group_of_chunk [OF assms(6), of j, folded assms(7)] by simp
    then show "length c < 65536"
      using chunks_length_bounds [of c "fec_chunk_size tok" payload] fec_chunk_size_fits(3) [of tok] assms(4) by simp
  qed
  have rec: "fec_recover_one (group_meta fid gi grp) present = Some (of_nat (gi * FEC_GROUP_SIZE + m), grp ! m)"
    if "mset (filter (\<lambda>(idx, c). in_group (of_nat (gi * FEC_GROUP_SIZE))
            (of_nat (gi * FEC_GROUP_SIZE + length grp)) idx) present) = mset (all_but (gi * FEC_GROUP_SIZE) grp m)"
    for present
    by (rule fec_recover_one_group [OF sz b assms(8) cl that])
  show ?thesis
    using frame_fec_packet [OF assms(1-3), folded assms(4), OF assms(5,6), of fid pts key, folded assms(7)]
      rec unfolding all_but_def gc(1) by blast
qed

theorem evrt1_fec_restores_lost_chunk_witness:
  "\<exists>w p meta. w = snd (packetize_video_with_fec toy_sha 7 9 True (replicate 2000 5) None) ! 0
    \<and> parse_authenticated toy_sha w (length w) None = Some p \<and> parse_fec_payload 7 (ep_payload p) = Some meta
    \<and> fec_recover_one meta [(0, replicate 1171 5)] = Some (1, replicate 829 5)"
proof -
  let ?cs = "[replicate 1171 5, replicate 829 (5 :: u8)]"
  have sz: "fec_chunk_size None = 1171"
    by (simp add: fec_chunk_size_def max_payload_for_def usable_token_def FEC_HEADER_LEN_def evrt1_consts)
  have cs: "chunks 1171 (replicate 2000 (5 :: u8)) = ?cs" by (simp add: chunks_step)
  have gs: "chunks FEC_GROUP_SIZE ?cs = [?cs]" by (simp add: chunks_step FEC_GROUP_SIZE_def)
  have cnt: "div_ceil (length (replicate 2000 (5 :: u8))) (fec_chunk_size None) \<le> MAX_FRAME_PACKET_COUNT"
    by (simp add: sz div_ceil_def MAX_FRAME_PACKET_COUNT_def)
  have grp: "?cs = chunks FEC_GROUP_SIZE ?cs ! 0" and gi: "0 < length (chunks FEC_GROUP_SIZE ?cs)" unfolding gs by simp_all
  have cs': "?cs = chunks (fec_chunk_size None) (replicate 2000 5)" unfolding sz cs ..
  have pres: "mset (filter (\<lambda>(idx, c). in_group (of_nat (0 * FEC_GROUP_SIZE)) (of_nat (0 * FEC_GROUP_SIZE + length ?cs)) idx)
      [(0, replicate 1171 5)])
    = mset (map (\<lambda>j. (of_nat (0 * FEC_GROUP_SIZE + j), ?cs ! j)) (filter (\<lambda>j. j \<noteq> 1) [0..<length ?cs]))"
    by (simp add: in_group_def upt_rec)
  have ne: "replicate 2000 (5 :: u8) \<noteq> []" and two: "2 \<le> length ?cs" and m: "1 < length ?cs" by simp_all
  obtain w p meta where res: "w = snd (packetize_video_with_fec toy_sha 7 9 True (replicate 2000 5) None) ! 0"
      "parse_authenticated toy_sha w (length w) None = Some p" "parse_fec_payload 7 (ep_payload p) = Some meta"
      "fec_recover_one meta [(0, replicate 1171 5)] = Some (of_nat (0 * FEC_GROUP_SIZE + 1), ?cs ! (0 * FEC_GROUP_SIZE + 1))"
    using evrt1_fec_restores_lost_chunk [OF toy_sha_size ne cnt cs' two gi grp m, of 7 9 True] pres by blast
  then show ?thesis by auto
qed

end
