(* ===== verification/Channel_Reassembler.thy ===== *)
theory Channel_Reassembler
  imports Evrt1_Fec Evrt2_Scheduler "HOL-Library.AList"
begin

text \<open>
  The EVRT1 receiver's frame reassembler of \<^verbatim>\<open>src/src/frame_queue.rs\<close>: \<open>FrameAssembly\<close> collects the packets of
  one frame, \<open>ChannelReassembler\<close> holds the frames in flight, the reorder window, the memory budget, the
  wait for a keyframe after a loss and the FEC metadata. Hash maps are association lists; where the code
  iterates over one, the order is the parameter \<open>iter\<close>, of which only is known that it is a permutation.
  The clock is an argument; \<open>dropped_frames\<close> and \<open>fec_recovered\<close> are wrapping 64-bit counters.
\<close>

section \<open>One frame\<close>

definition REASSEMBLY_REORDER_WINDOW_FRAMES :: u32 where "REASSEMBLY_REORDER_WINDOW_FRAMES = 4"
definition REASSEMBLY_MAX_BUFFERED_BYTES :: nat where "REASSEMBLY_MAX_BUFFERED_BYTES = 24 * 1024 * 1024"

record FrameAssembly =
  fa_frame_id :: u32
  fa_packet_count :: u16
  fa_is_key_frame :: bool
  fa_presentation_time_us :: u64
  fa_parts :: "bytes option list"
  fa_received :: u16
  fa_buffered_bytes :: nat
  fa_first_packet_at :: nat

definition assembly_new :: "nat \<Rightarrow> u32 \<Rightarrow> u16 \<Rightarrow> bool \<Rightarrow> u64 \<Rightarrow> FrameAssembly" where
  "assembly_new now frame_id packet_count is_key pts =
     \<lparr>fa_frame_id = frame_id, fa_packet_count = packet_count, fa_is_key_frame = is_key,
      fa_presentation_time_us = pts, fa_parts = replicate (unat packet_count) None, fa_received = 0,
      fa_buffered_bytes = 0, fa_first_packet_at = now\<rparr>"

definition has_part :: "FrameAssembly \<Rightarrow> u16 \<Rightarrow> bool" where
  "has_part a idx \<longleftrightarrow> (if unat idx < length (fa_parts a) then fa_parts a ! unat idx \<noteq> None else True)"

text \<open>\<open>None\<close> leaves the assembly as it was.\<close>

definition set_part :: "FrameAssembly \<Rightarrow> u16 \<Rightarrow> bytes \<Rightarrow> (FrameAssembly \<times> nat) option" where
  "set_part a idx payload =
     (if length (fa_parts a) \<le> unat idx \<or> fa_parts a ! unat idx \<noteq> None then None
      else Some (a\<lparr>fa_parts := (fa_parts a)[unat idx := Some payload], fa_received := fa_received a + 1,
                   fa_buffered_bytes := fa_buffered_bytes a + length payload\<rparr>, length payload))"

definition assembly_is_complete :: "FrameAssembly \<Rightarrow> bool" where
  "assembly_is_complete a \<longleftrightarrow> fa_received a = fa_packet_count a"

definition assembly_join :: "FrameAssembly \<Rightarrow> bytes" where
  "assembly_join a =
     (if fa_packet_count a = 1
      then (case fa_parts a of Some p # _ \<Rightarrow> p | _ \<Rightarrow> [])
      else concat (map (\<lambda>part. case part of Some p \<Rightarrow> p | None \<Rightarrow> []) (fa_parts a)))"

text \<open>An \<open>i32\<close>, as its 32-bit pattern.\<close>

definition assembly_delay_ms :: "nat \<Rightarrow> FrameAssembly \<Rightarrow> 32 word" where
  "assembly_delay_ms now a = of_nat (min ((now - fa_first_packet_at a) div 1000000) (2 ^ 31 - 1))"

section \<open>The channel\<close>

record ChannelReassembler =
  cr_frames :: "(u32 \<times> FrameAssembly) list"
  cr_latest_codec_config :: "bytes option"
  cr_latest_frame_id_seen :: "u32 option"
  cr_latest_completed_id :: "u32 option"
  cr_waiting_after_loss :: bool
  cr_dropped_frames :: u64
  cr_last_dropped_id :: "u32 option"
  cr_buffered_bytes :: nat
  cr_pending_fec :: "(u32 \<times> FecMeta list) list"
  cr_fec_recovered :: u64

type_synonym frame_out = "bytes \<times> bool \<times> 32 word \<times> u64"

definition channel_reassembler_new :: ChannelReassembler where
  "channel_reassembler_new =
     \<lparr>cr_frames = [], cr_latest_codec_config = None, cr_latest_frame_id_seen = None,
      cr_latest_completed_id = None, cr_waiting_after_loss = False, cr_dropped_frames = 0,
      cr_last_dropped_id = None, cr_buffered_bytes = 0, cr_pending_fec = [], cr_fec_recovered = 0\<rparr>"

definition reassembler_reset :: "ChannelReassembler \<Rightarrow> ChannelReassembler" where
  "reassembler_reset r =
     r\<lparr>cr_frames := [], cr_buffered_bytes := 0, cr_latest_frame_id_seen := None,
       cr_latest_completed_id := None, cr_waiting_after_loss := False, cr_last_dropped_id := None,
       cr_pending_fec := []\<rparr>"

definition set_codec_config :: "bytes \<Rightarrow> ChannelReassembler \<Rightarrow> ChannelReassembler" where
  "set_codec_config payload r = r\<lparr>cr_latest_codec_config := Some payload\<rparr>"

definition mark_frame_dropped :: "u32 \<Rightarrow> ChannelReassembler \<Rightarrow> ChannelReassembler" where
  "mark_frame_dropped frame_id r =
     (if cr_last_dropped_id r \<noteq> Some frame_id
      then r\<lparr>cr_last_dropped_id := Some frame_id, cr_dropped_frames := cr_dropped_frames r + 1\<rparr>
      else r)"

definition drop_frame :: "u32 \<Rightarrow> ChannelReassembler \<Rightarrow> ChannelReassembler \<times> bool" where
  "drop_frame frame_id r =
     (let r = r\<lparr>cr_pending_fec := AList.delete frame_id (cr_pending_fec r)\<rparr> in
      case map_of (cr_frames r) frame_id of
        Some a \<Rightarrow>
          (mark_frame_dropped frame_id
             (r\<lparr>cr_frames := AList.delete frame_id (cr_frames r),
                cr_buffered_bytes := cr_buffered_bytes r - fa_buffered_bytes a\<rparr>), True)
      | None \<Rightarrow> (r, False))"

definition drop_older_than ::
  "((u32 \<times> FrameAssembly) list \<Rightarrow> (u32 \<times> FrameAssembly) list) \<Rightarrow> u32 \<Rightarrow> ChannelReassembler
   \<Rightarrow> ChannelReassembler \<times> nat" where
  "drop_older_than iter frame_id r =
     (let r = r\<lparr>cr_pending_fec := filter (\<lambda>(i, m). frame_id \<le> i) (cr_pending_fec r)\<rparr>;
          dropped = filter (\<lambda>i. i < frame_id) (map fst (iter (cr_frames r)))
      in (fold (\<lambda>i r. fst (drop_frame i r)) dropped r, length dropped))"

definition drop_oldest_except :: "u32 \<Rightarrow> ChannelReassembler \<Rightarrow> ChannelReassembler \<times> bool" where
  "drop_oldest_except keep_frame_id r =
     (case filter (\<lambda>i. i \<noteq> keep_frame_id) (map fst (cr_frames r)) of
        [] \<Rightarrow> (r, False)
      | i # is \<Rightarrow> drop_frame (fold min is i) r)"

text \<open>The \<open>while\<close> loop of \<open>reserve_buffer\<close>: \<open>Some dropped_any\<close> when the loop ends, \<open>None\<close> when nothing is
  left to drop.\<close>

lemma length_delete_less: "map_of xs k = Some v \<Longrightarrow> length (AList.delete k xs) < length xs"
  by (induction xs) (auto simp: AList.delete_eq less_Suc_eq_le split: if_splits)

lemma mark_frame_dropped_fields [simp]:
  "cr_frames (mark_frame_dropped i r) = cr_frames r"
  "cr_latest_codec_config (mark_frame_dropped i r) = cr_latest_codec_config r"
  "cr_latest_frame_id_seen (mark_frame_dropped i r) = cr_latest_frame_id_seen r"
  "cr_latest_completed_id (mark_frame_dropped i r) = cr_latest_completed_id r"
  "cr_waiting_after_loss (mark_frame_dropped i r) = cr_waiting_after_loss r"
  "cr_buffered_bytes (mark_frame_dropped i r) = cr_buffered_bytes r"
  "cr_pending_fec (mark_frame_dropped i r) = cr_pending_fec r"
  "cr_fec_recovered (mark_frame_dropped i r) = cr_fec_recovered r"
  by (simp_all add: mark_frame_dropped_def)

lemma drop_frame_shrinks:
  "drop_frame i r = (r', True) \<Longrightarrow> length (cr_frames r') < length (cr_frames r)"
  by (auto simp: drop_frame_def Let_def length_delete_less split: option.splits)

lemma drop_oldest_shrinks:
  "drop_oldest_except k r = (r', True) \<Longrightarrow> length (cr_frames r') < length (cr_frames r)"
  by (auto simp: drop_oldest_except_def drop_frame_shrinks split: list.splits)

function reserve_loop :: "nat \<Rightarrow> u32 \<Rightarrow> bool \<Rightarrow> ChannelReassembler \<Rightarrow> ChannelReassembler \<times> bool option" where
  "reserve_loop bs frame_id dropped_any r =
     (if REASSEMBLY_MAX_BUFFERED_BYTES < cr_buffered_bytes r + bs
      then (case drop_oldest_except frame_id r of
              (r', True) \<Rightarrow> reserve_loop bs frame_id True r'
            | (r', False) \<Rightarrow> (r', None))
      else (r, Some dropped_any))"
  by pat_completeness auto
termination
  apply (relation "measure (\<lambda>(bs, k, d, r). length (cr_frames r))")
   apply simp
  apply simp
  apply (metis drop_oldest_shrinks)
  done

declare reserve_loop.simps [simp del]

definition lose_frame :: "u32 \<Rightarrow> bool \<Rightarrow> ChannelReassembler \<Rightarrow> ChannelReassembler" where
  "lose_frame frame_id is_key r =
     (let r = fst (drop_frame frame_id r) in if \<not> is_key then r\<lparr>cr_waiting_after_loss := True\<rparr> else r)"

definition reserve_buffer :: "nat \<Rightarrow> u32 \<Rightarrow> bool \<Rightarrow> ChannelReassembler \<Rightarrow> ChannelReassembler \<times> bool" where
  "reserve_buffer bs frame_id is_key r =
     (if REASSEMBLY_MAX_BUFFERED_BYTES < bs then (lose_frame frame_id is_key r, False)
      else case reserve_loop bs frame_id False r of
        (r', None) \<Rightarrow> (lose_frame frame_id is_key r', False)
      | (r', Some dropped_any) \<Rightarrow>
          if dropped_any \<and> \<not> is_key
          then ((mark_frame_dropped frame_id (fst (drop_frame frame_id r')))\<lparr>cr_waiting_after_loss := True\<rparr>, False)
          else (r', True))"

text \<open>\<open>asm.set\<close> on the assembly in the map, with the byte counter of the channel.\<close>

definition store_part :: "u32 \<Rightarrow> u16 \<Rightarrow> bytes \<Rightarrow> ChannelReassembler \<Rightarrow> ChannelReassembler option" where
  "store_part frame_id idx payload r =
     (case map_of (cr_frames r) frame_id of
        None \<Rightarrow> None
      | Some a \<Rightarrow>
          (case set_part a idx payload of
             None \<Rightarrow> None
           | Some (a', n) \<Rightarrow> Some (r\<lparr>cr_frames := AList.update frame_id a' (cr_frames r),
                                    cr_buffered_bytes := cr_buffered_bytes r + n\<rparr>)))"

lemma set_part_None_iff: "set_part a idx payload = None \<longleftrightarrow> has_part a idx"
  by (simp add: set_part_def has_part_def)

text \<open>The packets of a group that have arrived: \<open>for idx in base..end\<close>.\<close>

definition present_parts :: "FecMeta \<Rightarrow> FrameAssembly \<Rightarrow> (u16 \<times> bytes) list" where
  "present_parts fec a =
     (let base = fm_base_index fec;
          stop = saturating_add_u16 base (ucast (fm_group_size fec)) in
      concat (map (\<lambda>i. if i < length (fa_parts a)
                        then (case fa_parts a ! i of Some p \<Rightarrow> [(of_nat i, p)] | None \<Rightarrow> []) else [])
               [unat base..<unat stop]))"

text \<open>The body of the loop of \<open>try_fec_recover\<close> for one group. Its check \<open>!asm.has_part(missing_idx)\<close> before
  \<open>asm.set\<close> is the guard of \<open>set\<close> itself (\<open>set_part_None_iff\<close>).\<close>

definition fec_group_step :: "u32 \<Rightarrow> FecMeta \<Rightarrow> FrameAssembly \<Rightarrow> ChannelReassembler \<Rightarrow> ChannelReassembler" where
  "fec_group_step frame_id fec a r =
     (case fec_recover_one fec (present_parts fec a) of
        None \<Rightarrow> r
      | Some (missing_idx, recovered) \<Rightarrow>
          (case reserve_buffer (length recovered) frame_id (fa_is_key_frame a) r of
             (r', False) \<Rightarrow> r'
           | (r', True) \<Rightarrow>
               (case store_part frame_id missing_idx recovered r' of
                  None \<Rightarrow> r'
                | Some r'' \<Rightarrow> r''\<lparr>cr_fec_recovered := cr_fec_recovered r'' + 1\<rparr>)))"

fun fec_loop :: "u32 \<Rightarrow> FecMeta list \<Rightarrow> ChannelReassembler \<Rightarrow> ChannelReassembler" where
  "fec_loop frame_id [] r = r"
| "fec_loop frame_id (fec # fecs) r =
     (case map_of (cr_frames r) frame_id of
        None \<Rightarrow> r
      | Some a \<Rightarrow>
          if assembly_is_complete a then r
          else fec_loop frame_id fecs (fec_group_step frame_id fec a r))"

definition try_fec_recover :: "u32 \<Rightarrow> ChannelReassembler \<Rightarrow> ChannelReassembler" where
  "try_fec_recover frame_id r =
     (case map_of (cr_pending_fec r) frame_id of None \<Rightarrow> r | Some fecs \<Rightarrow> fec_loop frame_id fecs r)"

definition frame_is_complete :: "u32 \<Rightarrow> ChannelReassembler \<Rightarrow> bool" where
  "frame_is_complete frame_id r =
     (case map_of (cr_frames r) frame_id of Some a \<Rightarrow> assembly_is_complete a | None \<Rightarrow> False)"

definition finalize_frame :: "nat \<Rightarrow> u32 \<Rightarrow> ChannelReassembler \<Rightarrow> ChannelReassembler \<times> frame_out option" where
  "finalize_frame now frame_id r =
     (case map_of (cr_frames r) frame_id of
        None \<Rightarrow> (r, None)
      | Some a \<Rightarrow>
        if \<not> assembly_is_complete a then (r, None)
        else
          let previous_completed_id = cr_latest_completed_id r;
              r = r\<lparr>cr_frames := AList.delete frame_id (cr_frames r),
                    cr_buffered_bytes := cr_buffered_bytes r - fa_buffered_bytes a,
                    cr_latest_completed_id := Some (fa_frame_id a),
                    cr_pending_fec := AList.delete frame_id (cr_pending_fec r)\<rparr>;
              delay_ms = assembly_delay_ms now a;
              pts = fa_presentation_time_us a;
              bs = assembly_join a
          in if fa_is_key_frame a then
               (r\<lparr>cr_waiting_after_loss := False\<rparr>,
                case cr_latest_codec_config r of
                  Some cfg \<Rightarrow> Some (cfg @ bs, True, delay_ms, pts)
                | None \<Rightarrow> Some (bs, True, delay_ms, pts))
             else if cr_waiting_after_loss r then (mark_frame_dropped frame_id r, None)
             else if (case previous_completed_id of Some completed \<Rightarrow> frame_id - completed \<noteq> 1 | None \<Rightarrow> False)
             then (mark_frame_dropped frame_id (r\<lparr>cr_waiting_after_loss := True\<rparr>), None)
             else (r, Some (bs, False, delay_ms, pts)))"

definition already_completed :: "u32 \<Rightarrow> ChannelReassembler \<Rightarrow> bool" where
  "already_completed frame_id r =
     (case cr_latest_completed_id r of Some completed \<Rightarrow> frame_id \<le> completed | None \<Rightarrow> False)"

definition behind_window :: "u32 \<Rightarrow> ChannelReassembler \<Rightarrow> bool" where
  "behind_window frame_id r =
     (case cr_latest_frame_id_seen r of
        Some seen \<Rightarrow> saturating_add_u32 frame_id REASSEMBLY_REORDER_WINDOW_FRAMES < seen
      | None \<Rightarrow> False)"

text \<open>A packet of a frame newer than every frame seen moves the window. \<open>Inl\<close> is the early return.\<close>

definition advance_window ::
  "((u32 \<times> FrameAssembly) list \<Rightarrow> (u32 \<times> FrameAssembly) list) \<Rightarrow> EvrtPacket \<Rightarrow> ChannelReassembler
   \<Rightarrow> ChannelReassembler + ChannelReassembler" where
  "advance_window iter pkt r =
     (if (case cr_latest_frame_id_seen r of Some s \<Rightarrow> s < ep_frame_id pkt | None \<Rightarrow> True)
      then let r = r\<lparr>cr_latest_frame_id_seen := Some (ep_frame_id pkt)\<rparr>;
               watermark = saturating_sub_u32 (ep_frame_id pkt) REASSEMBLY_REORDER_WINDOW_FRAMES;
               (r, lost_frames) = drop_older_than iter watermark r
           in if 0 < lost_frames \<and> \<not> is_key_frame pkt
              then let r = r\<lparr>cr_waiting_after_loss := True\<rparr>;
                       r = fst (drop_older_than iter (saturating_add_u32 (ep_frame_id pkt) 1) r)
                   in Inl (mark_frame_dropped (ep_frame_id pkt) r)
              else Inr r
      else Inr r)"

text \<open>From \<open>frames.entry(..)\<close> to the end of \<open>on_packet\<close>.\<close>

definition assemble_packet ::
  "nat \<Rightarrow> EvrtPacket \<Rightarrow> ChannelReassembler \<Rightarrow> ChannelReassembler \<times> frame_out option" where
  "assemble_packet now pkt r =
     (let fid = ep_frame_id pkt;
          a = (case map_of (cr_frames r) fid of
                 Some a \<Rightarrow> a
               | None \<Rightarrow> assembly_new now fid (ep_packet_count pkt) (is_key_frame pkt) (ep_presentation_time_us pkt));
          r = r\<lparr>cr_frames := AList.update fid a (cr_frames r)\<rparr>
      in if fa_packet_count a \<noteq> ep_packet_count pkt then (lose_frame fid (is_key_frame pkt) r, None)
         else if has_part a (ep_packet_index pkt) then (r, None)
         else case reserve_buffer (length (ep_payload pkt)) fid (is_key_frame pkt) r of
           (r, False) \<Rightarrow> (r, None)
         | (r, True) \<Rightarrow>
             (case store_part fid (ep_packet_index pkt) (ep_payload pkt) r of
                None \<Rightarrow> (r, None)
              | Some r \<Rightarrow>
                  let r = (if \<not> frame_is_complete fid r then try_fec_recover fid r else r)
                  in finalize_frame now fid r))"

definition on_packet ::
  "((u32 \<times> FrameAssembly) list \<Rightarrow> (u32 \<times> FrameAssembly) list) \<Rightarrow> nat \<Rightarrow> EvrtPacket \<Rightarrow> ChannelReassembler
   \<Rightarrow> ChannelReassembler \<times> frame_out option" where
  "on_packet iter now pkt r =
     (if ep_packet_count pkt = 0 \<or> ep_packet_count pkt \<le> ep_packet_index pkt
         \<or> MAX_FRAME_PACKET_COUNT < unat (ep_packet_count pkt)
      then (mark_frame_dropped (ep_frame_id pkt) r, None)
      else if already_completed (ep_frame_id pkt) r then (r, None)
      else if behind_window (ep_frame_id pkt) r then (r, None)
      else if cr_waiting_after_loss r \<and> \<not> is_key_frame pkt then (mark_frame_dropped (ep_frame_id pkt) r, None)
      else case advance_window iter pkt r of
        Inl r \<Rightarrow> (r, None)
      | Inr r \<Rightarrow>
          let r = (if is_key_frame pkt
                   then fst (drop_older_than iter (ep_frame_id pkt) (r\<lparr>cr_waiting_after_loss := False\<rparr>))
                   else r)
          in assemble_packet now pkt r)"

definition on_fec_packet ::
  "nat \<Rightarrow> EvrtPacket \<Rightarrow> ChannelReassembler \<Rightarrow> ChannelReassembler \<times> frame_out option" where
  "on_fec_packet now pkt r =
     (if already_completed (ep_frame_id pkt) r then (r, None)
      else if behind_window (ep_frame_id pkt) r then (r, None)
      else case parse_fec_payload (ep_frame_id pkt) (ep_payload pkt) of
        None \<Rightarrow> (r, None)
      | Some meta \<Rightarrow>
          let fid = ep_frame_id pkt;
              fecs = (case map_of (cr_pending_fec r) fid of Some ms \<Rightarrow> ms | None \<Rightarrow> []);
              r = r\<lparr>cr_pending_fec := AList.update fid (fecs @ [meta]) (cr_pending_fec r)\<rparr>
          in if map_of (cr_frames r) fid \<noteq> None
             then finalize_frame now fid (try_fec_recover fid r)
             else (r, None))"

section \<open>Executions\<close>

datatype chan_input = DataPacket EvrtPacket | FecPacket EvrtPacket | CodecConfig bytes | Reset

fun chan_op ::
  "((u32 \<times> FrameAssembly) list \<Rightarrow> (u32 \<times> FrameAssembly) list) \<Rightarrow> nat \<Rightarrow> chan_input \<Rightarrow> ChannelReassembler
   \<Rightarrow> ChannelReassembler \<times> frame_out option" where
  "chan_op iter now (DataPacket p) r = on_packet iter now p r"
| "chan_op iter now (FecPacket p) r = on_fec_packet now p r"
| "chan_op iter now (CodecConfig c) r = (set_codec_config c r, None)"
| "chan_op iter now Reset r = (reassembler_reset r, None)"

text \<open>One call on the reassembler; the label records the input and the frame it returned, if any.\<close>

inductive cr_step ::
  "((u32 \<times> FrameAssembly) list \<Rightarrow> (u32 \<times> FrameAssembly) list) \<Rightarrow> ChannelReassembler
   \<Rightarrow> chan_input \<times> frame_out option \<Rightarrow> ChannelReassembler \<Rightarrow> bool" for iter where
  Cr_step: "chan_op iter now inp r = (r', out) \<Longrightarrow> cr_step iter r (inp, out) r'"

inductive_simps cr_step_simps: "cr_step iter r (inp, out) r'"

section \<open>Memory accounting\<close>

definition part_bytes :: "bytes option list \<Rightarrow> nat" where
  "part_bytes ps = sum_list (map (\<lambda>p. case p of Some b \<Rightarrow> length b | None \<Rightarrow> 0) ps)"

definition parts_present :: "bytes option list \<Rightarrow> nat" where
  "parts_present ps = length (filter (\<lambda>p. p \<noteq> None) ps)"

definition asm_ok :: "u32 \<Rightarrow> FrameAssembly \<Rightarrow> bool" where
  "asm_ok i a \<longleftrightarrow> fa_frame_id a = i \<and> length (fa_parts a) = unat (fa_packet_count a) \<and>
     unat (fa_received a) = parts_present (fa_parts a) \<and> fa_buffered_bytes a = part_bytes (fa_parts a)"

definition frames_held :: "(u32 \<times> FrameAssembly) list \<Rightarrow> nat" where
  "frames_held fs = sum_list (map (\<lambda>(i, a). fa_buffered_bytes a) fs)"

definition reasm_ok :: "ChannelReassembler \<Rightarrow> bool" where
  "reasm_ok r \<longleftrightarrow> distinct (map fst (cr_frames r)) \<and> (\<forall>(i, a) \<in> set (cr_frames r). asm_ok i a) \<and>
     cr_buffered_bytes r = frames_held (cr_frames r) \<and> cr_buffered_bytes r \<le> REASSEMBLY_MAX_BUFFERED_BYTES"

lemma part_update:
  assumes "i < length ps" "ps ! i = None"
  shows "part_bytes (ps[i := Some b]) = part_bytes ps + length b"
    and "parts_present (ps[i := Some b]) = Suc (parts_present ps)"
    and "parts_present ps < length ps"
  using assms
proof (induction ps arbitrary: i)
  case (Cons p ps)
  { case 1 then show ?case using Cons.IH(1) by (cases i) (auto simp: part_bytes_def) }
  { case 2 then show ?case using Cons.IH(2) by (cases i) (auto simp: parts_present_def) }
  { case 3 then show ?case using Cons.IH(3)[of "i - 1"]
      by (cases i) (auto simp: parts_present_def le_imp_less_Suc length_filter_le less_Suc_eq_le Suc_le_eq) }
qed simp_all

lemma asm_ok_set_part:
  assumes "asm_ok i a" "set_part a idx payload = Some (a', n)"
  shows "asm_ok i a' \<and> fa_buffered_bytes a' = fa_buffered_bytes a + n \<and> n = length payload \<and>
    fa_is_key_frame a' = fa_is_key_frame a"
proof -
  have h: "unat idx < length (fa_parts a)" "fa_parts a ! unat idx = None"
    and a': "a' = a\<lparr>fa_parts := (fa_parts a)[unat idx := Some payload], fa_received := fa_received a + 1,
        fa_buffered_bytes := fa_buffered_bytes a + length payload\<rparr>" "n = length payload"
    using assms(2) by (auto simp: set_part_def split: if_splits)
  have "unat (fa_received a) < unat (fa_packet_count a)"
    using assms(1) part_update(3)[OF h] by (simp add: asm_ok_def)
  then have "unat (fa_received a + 1) = Suc (unat (fa_received a))"
    by (rule unat_plus_one_less)
  then show ?thesis
    using assms(1) part_update[OF h] by (simp add: asm_ok_def a')
qed

lemma asm_ok_new: "asm_ok i (assembly_new now i n k pts)"
  by (simp add: asm_ok_def assembly_new_def parts_present_def part_bytes_def sum_list_replicate)

lemma frames_held_delete:
  "distinct (map fst fs) \<Longrightarrow> map_of fs i = Some a \<Longrightarrow>
   frames_held fs = fa_buffered_bytes a + frames_held (AList.delete i fs)"
proof (induction fs)
  case (Cons p fs)
  show ?case
  proof (cases "fst p = i")
    case True
    then have "filter (\<lambda>(k', _). i \<noteq> k') fs = fs"
      using Cons.prems(1) by (auto simp: filter_id_conv rev_image_eqI)
    then show ?thesis using True Cons.prems(2) by (cases p) (auto simp: frames_held_def AList.delete_eq)
  next
    case False
    then show ?thesis using Cons by (cases p) (auto simp: frames_held_def)
  qed
qed simp

lemma frames_held_update:
  "distinct (map fst fs) \<Longrightarrow>
   frames_held (AList.update i a fs) + (case map_of fs i of Some b \<Rightarrow> fa_buffered_bytes b | None \<Rightarrow> 0)
   = frames_held fs + fa_buffered_bytes a"
proof (induction fs)
  case (Cons p fs)
  then show ?case by (cases p) (auto simp: frames_held_def split: option.splits)
qed (simp add: frames_held_def)

lemma set_alist_delete: "set (AList.delete i xs) \<subseteq> set xs"
  by (simp add: AList.delete_eq)

lemma set_alist_update: "set (AList.update i a xs) \<subseteq> insert (i, a) (set xs)"
  by (induction xs) auto

lemma reasm_ok_cong:
  "cr_frames r' = cr_frames r \<Longrightarrow> cr_buffered_bytes r' = cr_buffered_bytes r \<Longrightarrow> reasm_ok r' = reasm_ok r"
  by (simp add: reasm_ok_def)

lemma reasm_ok_fields [simp]:
  "reasm_ok (mark_frame_dropped i r) = reasm_ok r"
  "reasm_ok (r\<lparr>cr_waiting_after_loss := w\<rparr>) = reasm_ok r"
  "reasm_ok (r\<lparr>cr_pending_fec := f\<rparr>) = reasm_ok r"
  "reasm_ok (r\<lparr>cr_fec_recovered := n\<rparr>) = reasm_ok r"
  "reasm_ok (r\<lparr>cr_latest_frame_id_seen := s\<rparr>) = reasm_ok r"
  "reasm_ok (r\<lparr>cr_latest_completed_id := s\<rparr>) = reasm_ok r"
  "reasm_ok (r\<lparr>cr_latest_codec_config := c\<rparr>) = reasm_ok r"
  by (rule reasm_ok_cong; simp)+

lemma reasm_ok_remove:
  assumes "reasm_ok r" "map_of (cr_frames r) i = Some a"
  shows "reasm_ok (r\<lparr>cr_frames := AList.delete i (cr_frames r),
           cr_buffered_bytes := cr_buffered_bytes r - fa_buffered_bytes a\<rparr>)"
  using assms frames_held_delete[of "cr_frames r" i a]
  by (auto simp: reasm_ok_def distinct_delete dest: subsetD[OF set_alist_delete])

lemma drop_frame_ok: "reasm_ok r \<Longrightarrow> reasm_ok (fst (drop_frame i r))"
  unfolding drop_frame_def Let_def
  using reasm_ok_remove[of "r\<lparr>cr_pending_fec := AList.delete i (cr_pending_fec r)\<rparr>" i]
  by (auto split: option.splits)

lemma fold_drop_ok: "reasm_ok r \<Longrightarrow> reasm_ok (fold (\<lambda>i r. fst (drop_frame i r)) is r)"
  by (induction "is" arbitrary: r) (auto simp: drop_frame_ok)

lemma drop_older_than_ok: "reasm_ok r \<Longrightarrow> reasm_ok (fst (drop_older_than iter i r))"
  by (simp add: drop_older_than_def Let_def fold_drop_ok)

lemma drop_oldest_except_ok: "reasm_ok r \<Longrightarrow> drop_oldest_except k r = (r', b) \<Longrightarrow> reasm_ok r'"
  using drop_frame_ok[of r] by (auto simp: drop_oldest_except_def split: list.splits) (metis fst_conv)+

lemma reserve_loop_ok:
  "reasm_ok r \<Longrightarrow> reserve_loop bs k d r = (r', res) \<Longrightarrow>
   reasm_ok r' \<and> (res \<noteq> None \<longrightarrow> cr_buffered_bytes r' + bs \<le> REASSEMBLY_MAX_BUFFERED_BYTES)"
proof (induction bs k d r rule: reserve_loop.induct)
  case (1 bs k d r)
  obtain r1 b where d: "drop_oldest_except k r = (r1, b)" by fastforce
  have "reasm_ok r1" by (rule drop_oldest_except_ok[OF 1(2) d])
  then show ?case using 1(1)[OF _ d[symmetric]] 1(2,3)
    by (simp add: d reserve_loop.simps[of bs k d r] split: if_splits bool.splits)
qed

lemma lose_frame_ok: "reasm_ok r \<Longrightarrow> reasm_ok (lose_frame i k r)"
  by (simp add: lose_frame_def Let_def drop_frame_ok)

lemma reserve_buffer_ok:
  "reasm_ok r \<Longrightarrow> reserve_buffer bs i k r = (r', b) \<Longrightarrow>
   reasm_ok r' \<and> (b \<longrightarrow> cr_buffered_bytes r' + bs \<le> REASSEMBLY_MAX_BUFFERED_BYTES)"
  unfolding reserve_buffer_def
  using reserve_loop_ok[of r bs i False]
  by (auto split: if_splits prod.splits option.splits intro!: lose_frame_ok drop_frame_ok)

lemma reasm_ok_update:
  assumes "reasm_ok r" "asm_ok i a"
    and "cr_buffered_bytes r + n \<le> REASSEMBLY_MAX_BUFFERED_BYTES"
    and "fa_buffered_bytes a = n + (case map_of (cr_frames r) i of Some b \<Rightarrow> fa_buffered_bytes b | None \<Rightarrow> 0)"
  shows "reasm_ok (r\<lparr>cr_frames := AList.update i a (cr_frames r), cr_buffered_bytes := cr_buffered_bytes r + n\<rparr>)"
proof -
  have "set (AList.update i a (cr_frames r)) \<subseteq> insert (i, a) (set (cr_frames r))" by (rule set_alist_update)
  then show ?thesis
    using assms frames_held_update[of "cr_frames r" i a]
    by (auto simp: reasm_ok_def distinct_update)
qed

lemma store_part_ok:
  assumes "reasm_ok r" "cr_buffered_bytes r + length payload \<le> REASSEMBLY_MAX_BUFFERED_BYTES"
    and "store_part i idx payload r = Some r'"
  shows "reasm_ok r'"
proof -
  obtain a a' n where a: "map_of (cr_frames r) i = Some a" "set_part a idx payload = Some (a', n)"
    and r': "r' = r\<lparr>cr_frames := AList.update i a' (cr_frames r), cr_buffered_bytes := cr_buffered_bytes r + n\<rparr>"
    using assms(3) by (auto simp: store_part_def split: option.splits)
  have "asm_ok i a" using assms(1) a(1) by (auto simp: reasm_ok_def dest: map_of_SomeD)
  then show ?thesis unfolding r'
    using assms(1,2) asm_ok_set_part[OF _ a(2)] a(1) by (intro reasm_ok_update) auto
qed

lemma fec_group_step_ok:
  assumes "reasm_ok r"
  shows "reasm_ok (fec_group_step i fec a r)"
proof (cases "fec_recover_one fec (present_parts fec a)")
  case (Some mr)
  obtain m rec where mr: "mr = (m, rec)" by (cases mr)
  obtain r1 b where r1: "reserve_buffer (length rec) i (fa_is_key_frame a) r = (r1, b)" by fastforce
  note ok = reserve_buffer_ok[OF assms r1]
  show ?thesis
    using ok store_part_ok[of r1 rec i m]
    by (auto simp: fec_group_step_def Some mr r1 split: bool.splits option.splits)
qed (simp add: fec_group_step_def assms)

lemma fec_loop_ok: "reasm_ok r \<Longrightarrow> reasm_ok (fec_loop i fecs r)"
  by (induction fecs arbitrary: r) (auto simp: fec_group_step_ok split: option.splits)

lemma try_fec_recover_ok: "reasm_ok r \<Longrightarrow> reasm_ok (try_fec_recover i r)"
  by (simp add: try_fec_recover_def fec_loop_ok split: option.splits)

lemma finalize_frame_ok:
  assumes "reasm_ok r"
  shows "reasm_ok (fst (finalize_frame now i r))"
proof (cases "map_of (cr_frames r) i")
  case (Some a)
  have "reasm_ok (r\<lparr>cr_frames := AList.delete i (cr_frames r), cr_buffered_bytes := cr_buffered_bytes r - fa_buffered_bytes a,
      cr_latest_completed_id := Some (fa_frame_id a), cr_pending_fec := AList.delete i (cr_pending_fec r)\<rparr>)"
    using reasm_ok_remove[OF assms Some] by (simp add: reasm_ok_def)
  then show ?thesis using assms by (simp add: finalize_frame_def Some Let_def)
qed (simp add: finalize_frame_def assms)

lemma advance_window_ok:
  assumes "reasm_ok r"
  shows "case advance_window iter pkt r of Inl r' \<Rightarrow> reasm_ok r' | Inr r' \<Rightarrow> reasm_ok r'"
proof -
  let ?r = "r\<lparr>cr_latest_frame_id_seen := Some (ep_frame_id pkt)\<rparr>"
  let ?w = "saturating_sub_u32 (ep_frame_id pkt) REASSEMBLY_REORDER_WINDOW_FRAMES"
  obtain r1 n where d: "drop_older_than iter ?w ?r = (r1, n)" by fastforce
  have "reasm_ok r1" using drop_older_than_ok[of ?r iter ?w] assms by (simp add: d)
  then show ?thesis
    using assms by (simp add: advance_window_def Let_def d drop_older_than_ok)
qed

lemma update_present: "map_of xs i = Some a \<Longrightarrow> AList.update i a xs = xs"
  by (induction xs) (auto split: if_splits)

lemma open_assembly_ok:
  assumes "reasm_ok r"
  shows "reasm_ok (r\<lparr>cr_frames := AList.update i
      (case map_of (cr_frames r) i of Some a \<Rightarrow> a | None \<Rightarrow> assembly_new now i n k pts) (cr_frames r)\<rparr>)"
proof (cases "map_of (cr_frames r) i")
  case None
  have "fa_buffered_bytes (assembly_new now i n k pts) = 0" by (simp add: assembly_new_def)
  then have "reasm_ok (r\<lparr>cr_frames := AList.update i (assembly_new now i n k pts) (cr_frames r),
      cr_buffered_bytes := cr_buffered_bytes r + 0\<rparr>)"
    using assms None by (intro reasm_ok_update[OF assms asm_ok_new]) (simp_all add: reasm_ok_def)
  then show ?thesis using None by (simp add: reasm_ok_def)
qed (simp add: update_present assms)

lemma assemble_packet_ok:
  assumes "reasm_ok r"
  shows "reasm_ok (fst (assemble_packet now pkt r))"
proof -
  let ?i = "ep_frame_id pkt"
  let ?a = "case map_of (cr_frames r) ?i of Some a \<Rightarrow> a
     | None \<Rightarrow> assembly_new now ?i (ep_packet_count pkt) (is_key_frame pkt) (ep_presentation_time_us pkt)"
  let ?r = "r\<lparr>cr_frames := AList.update ?i ?a (cr_frames r)\<rparr>"
  have ok: "reasm_ok ?r" by (rule open_assembly_ok[OF assms])
  obtain r1 b where r1: "reserve_buffer (length (ep_payload pkt)) ?i (is_key_frame pkt) ?r = (r1, b)" by fastforce
  note ok1 = reserve_buffer_ok[OF ok r1]
  have st: "reasm_ok r2" if "store_part ?i (ep_packet_index pkt) (ep_payload pkt) r1 = Some r2" "b" for r2
    using store_part_ok[OF _ _ that(1)] ok1 that(2) by blast
  show ?thesis
    unfolding assemble_packet_def Let_def r1
    using ok ok1 st by (auto simp: lose_frame_ok finalize_frame_ok try_fec_recover_ok split: bool.splits option.splits)
qed

lemma on_packet_ok:
  assumes "reasm_ok r"
  shows "reasm_ok (fst (on_packet iter now pkt r))"
  using assms advance_window_ok[OF assms, of iter pkt]
  by (auto simp: on_packet_def Let_def assemble_packet_ok drop_older_than_ok split: sum.splits)

lemma on_fec_packet_ok: "reasm_ok r \<Longrightarrow> reasm_ok (fst (on_fec_packet now pkt r))"
  by (auto simp: on_fec_packet_def Let_def finalize_frame_ok try_fec_recover_ok split: option.splits)

lemma reset_ok: "reasm_ok (reassembler_reset r)"
  by (simp add: reassembler_reset_def reasm_ok_def frames_held_def)

lemma chan_op_ok: "reasm_ok r \<Longrightarrow> reasm_ok (fst (chan_op iter now inp r))"
  by (cases inp) (simp_all add: on_packet_ok on_fec_packet_ok set_codec_config_def reset_ok)

lemma cr_step_ok: "cr_step iter r e r' \<Longrightarrow> reasm_ok r \<Longrightarrow> reasm_ok r'"
  by (induction rule: cr_step.induct) (metis chan_op_ok fst_conv)

lemma reasm_ok_new: "reasm_ok channel_reassembler_new"
  by (simp add: reasm_ok_def channel_reassembler_new_def frames_held_def)

section \<open>Continuity of the delta chain\<close>

text \<open>What dropping, budgeting and FEC leave alone: ids seen and completed, the set of frames and
  their keyframe flags can only shrink, a wait for a keyframe is never ended.\<close>

definition quiet :: "ChannelReassembler \<Rightarrow> ChannelReassembler \<Rightarrow> bool" where
  "quiet r r' \<longleftrightarrow> cr_latest_completed_id r' = cr_latest_completed_id r \<and>
     cr_latest_frame_id_seen r' = cr_latest_frame_id_seen r \<and>
     (cr_waiting_after_loss r \<longrightarrow> cr_waiting_after_loss r') \<and>
     (\<forall>(i, a') \<in> set (cr_frames r'). \<exists>a. (i, a) \<in> set (cr_frames r) \<and> fa_is_key_frame a' = fa_is_key_frame a
        \<and> fa_frame_id a' = fa_frame_id a)"

lemma quiet_refl [simp]: "quiet r r"
  by (auto simp: quiet_def)

lemma quiet_trans [trans]: "quiet r s \<Longrightarrow> quiet s t \<Longrightarrow> quiet r t"
  by (force simp: quiet_def)

lemma quiet_fields [simp]:
  "quiet r (mark_frame_dropped i r')  \<longleftrightarrow> quiet r r'"
  "quiet r (r'\<lparr>cr_pending_fec := f\<rparr>) \<longleftrightarrow> quiet r r'"
  "quiet r (r'\<lparr>cr_fec_recovered := n\<rparr>) \<longleftrightarrow> quiet r r'"
  by (simp_all add: quiet_def)

lemma quiet_waiting: "quiet r r' \<Longrightarrow> quiet r (r'\<lparr>cr_waiting_after_loss := True\<rparr>)"
  by (simp add: quiet_def)

lemma drop_frame_quiet: "quiet r (fst (drop_frame i r))"
  by (auto simp: drop_frame_def Let_def quiet_def AList.delete_eq split: option.splits)

lemma quiet_drop_frame: "quiet r r' \<Longrightarrow> quiet r (fst (drop_frame i r'))"
  by (rule quiet_trans[OF _ drop_frame_quiet])

lemma fold_drop_quiet: "quiet r (fold (\<lambda>i r. fst (drop_frame i r)) is r)"
  by (induction "is" arbitrary: r) (auto intro: quiet_trans drop_frame_quiet)

lemma drop_older_than_quiet: "quiet r (fst (drop_older_than iter i r))"
  unfolding drop_older_than_def Let_def fst_conv
  by (rule quiet_trans[OF _ fold_drop_quiet]) simp

lemma drop_oldest_quiet: "drop_oldest_except k r = (r', b) \<Longrightarrow> quiet r r'"
  using drop_frame_quiet[of r] by (auto simp: drop_oldest_except_def split: list.splits) (metis fst_conv)+

lemma reserve_loop_quiet: "reserve_loop bs k d r = (r', res) \<Longrightarrow> quiet r r'"
proof (induction bs k d r rule: reserve_loop.induct)
  case (1 bs k d r)
  obtain r1 b where d: "drop_oldest_except k r = (r1, b)" by fastforce
  show ?case using 1(1)[OF _ d[symmetric]] 1(2) drop_oldest_quiet[OF d]
    by (auto simp: d reserve_loop.simps[of bs k d r] split: if_splits bool.splits intro: quiet_trans)
qed

lemma lose_frame_quiet: "quiet r r' \<Longrightarrow> quiet r (lose_frame i k r')"
  by (auto simp: lose_frame_def Let_def intro: quiet_waiting quiet_trans drop_frame_quiet)

lemma reserve_buffer_quiet: "reserve_buffer bs i k r = (r', b) \<Longrightarrow> quiet r r'"
  unfolding reserve_buffer_def
  using reserve_loop_quiet[of bs i False r]
  by (auto split: if_splits prod.splits option.splits
      intro!: lose_frame_quiet quiet_waiting quiet_drop_frame)

lemma store_part_quiet:
  assumes "store_part i idx payload r = Some r'"
  shows "quiet r r'"
proof -
  obtain a a' n where a: "map_of (cr_frames r) i = Some a" "set_part a idx payload = Some (a', n)"
    and r': "r' = r\<lparr>cr_frames := AList.update i a' (cr_frames r), cr_buffered_bytes := cr_buffered_bytes r + n\<rparr>"
    using assms by (auto simp: store_part_def split: option.splits)
  have k: "fa_is_key_frame a' = fa_is_key_frame a \<and> fa_frame_id a' = fa_frame_id a"
    using a(2) by (auto simp: set_part_def split: if_splits)
  have "\<exists>a0. (j, a0) \<in> set (cr_frames r) \<and> fa_is_key_frame x = fa_is_key_frame a0 \<and> fa_frame_id x = fa_frame_id a0"
    if "(j, x) \<in> set (AList.update i a' (cr_frames r))" for j x
    using subsetD[OF set_alist_update that] map_of_SomeD[OF a(1)] k by auto
  then show ?thesis by (auto simp: quiet_def r')
qed

lemma fec_group_step_quiet: "quiet r (fec_group_step i fec a r)"
proof (cases "fec_recover_one fec (present_parts fec a)")
  case (Some mr)
  obtain m rec where mr: "mr = (m, rec)" by (cases mr)
  obtain r1 b where r1: "reserve_buffer (length rec) i (fa_is_key_frame a) r = (r1, b)" by fastforce
  show ?thesis
    using reserve_buffer_quiet[OF r1] store_part_quiet[of i m rec r1]
    by (auto simp: fec_group_step_def Some mr r1 split: bool.splits option.splits intro: quiet_trans)
qed (simp add: fec_group_step_def)

lemma try_fec_recover_quiet: "quiet r (try_fec_recover i r)"
proof -
  have "quiet r (fec_loop i fecs r)" for fecs
    by (induction fecs arbitrary: r) (auto split: option.splits intro: quiet_trans fec_group_step_quiet)
  then show ?thesis by (simp add: try_fec_recover_def split: option.splits)
qed

text \<open>The chain invariant: \<open>l\<close> is the id of the frame returned last, \<open>K\<close> says which frames are keyframes.\<close>

definition chain_inv :: "(u32 \<Rightarrow> bool) \<Rightarrow> u32 option \<Rightarrow> ChannelReassembler \<Rightarrow> bool" where
  "chain_inv K l r \<longleftrightarrow>
     (\<forall>(i, a) \<in> set (cr_frames r). fa_is_key_frame a = K i \<and> fa_frame_id a = i
        \<and> (\<exists>s. cr_latest_frame_id_seen r = Some s \<and> i \<le> s)) \<and>
     (\<forall>c. cr_latest_completed_id r = Some c \<longrightarrow> (\<exists>s. cr_latest_frame_id_seen r = Some s \<and> c \<le> s)) \<and>
     (\<forall>f. l = Some f \<longrightarrow> (\<exists>c. cr_latest_completed_id r = Some c \<and> f \<le> c)) \<and>
     (\<not> cr_waiting_after_loss r \<longrightarrow>
        cr_latest_completed_id r = l \<or>
        (\<exists>c s. cr_latest_completed_id r = Some c \<and> cr_latest_frame_id_seen r = Some s \<and> c < s
           \<and> (s = c + 1 \<longrightarrow> K s)))"

lemma chain_inv_quiet: "chain_inv K l r \<Longrightarrow> quiet r r' \<Longrightarrow> chain_inv K l r'"
  unfolding chain_inv_def quiet_def by (elim conjE, intro conjI) fastforce+

text \<open>How one call may extend the chain.\<close>

definition chain_next :: "(u32 \<Rightarrow> bool) \<Rightarrow> u32 option \<Rightarrow> u32 \<Rightarrow> ChannelReassembler \<times> frame_out option \<Rightarrow> bool" where
  "chain_next K l i res =
     (case res of
        (r', None) \<Rightarrow> chain_inv K l r'
      | (r', Some (bs, key, _)) \<Rightarrow> chain_inv K (Some i) r' \<and> (\<forall>f. l = Some f \<longrightarrow> f < i \<and> (key \<or> i = f + 1)))"

lemma chain_inv_fields [simp]:
  "chain_inv K l (mark_frame_dropped i r) = chain_inv K l r"
  "chain_inv K l (r\<lparr>cr_pending_fec := f\<rparr>) = chain_inv K l r"
  by (simp_all add: chain_inv_def)

lemma chain_inv_wait: "chain_inv K l r \<Longrightarrow> chain_inv K l (r\<lparr>cr_waiting_after_loss := True\<rparr>)"
  by (simp add: chain_inv_def)

lemma finalize_chain:
  assumes inv: "chain_inv K l r" and seen: "\<forall>s. cr_latest_frame_id_seen r = Some s \<longrightarrow> s \<le> i"
    and new: "\<forall>c. cr_latest_completed_id r = Some c \<longrightarrow> c < i"
  shows "chain_next K l i (finalize_frame now i r)"
proof (cases "frame_is_complete i r")
  case True
  then obtain a where a: "map_of (cr_frames r) i = Some a" and c: "assembly_is_complete a"
    by (auto simp: frame_is_complete_def split: option.splits)
  let ?r = "r\<lparr>cr_frames := AList.delete i (cr_frames r), cr_buffered_bytes := cr_buffered_bytes r - fa_buffered_bytes a,
      cr_latest_completed_id := Some (fa_frame_id a), cr_pending_fec := AList.delete i (cr_pending_fec r)\<rparr>"
  have k: "fa_is_key_frame a = K i" "fa_frame_id a = i" and s: "cr_latest_frame_id_seen r = Some i"
    using inv seen map_of_SomeD[OF a] by (auto simp: chain_inv_def intro: antisym)
  have emit: "chain_inv K (Some i) (?r\<lparr>cr_waiting_after_loss := w\<rparr>)" for w
    using inv s k by (auto simp: chain_inv_def AList.delete_eq)
  have emit': "chain_inv K (Some i) ?r"
    using inv s k by (auto simp: chain_inv_def AList.delete_eq)
  have hold: "chain_inv K l (?r\<lparr>cr_waiting_after_loss := True\<rparr>)"
    using inv s k new by (fastforce simp: chain_inv_def AList.delete_eq)
  have later: "f < i" if "l = Some f" for f
    using inv new that by (fastforce simp: chain_inv_def)
  have succ: "i = f + 1" if "\<not> K i" "\<not> cr_waiting_after_loss r" "l = Some f"
    "\<not> (case cr_latest_completed_id r of Some completed \<Rightarrow> i - completed \<noteq> 1 | None \<Rightarrow> False)" for f
    using inv that s by (auto simp: chain_inv_def algebra_simps split: option.splits)
  show ?thesis
  proof (cases "K i")
    case True
    then show ?thesis using emit later
      by (auto simp: chain_next_def finalize_frame_def a c k Let_def split: option.splits)
  next
    case False
    have w: "chain_inv K l ?r" if "cr_waiting_after_loss r"
      using hold that by (simp add: chain_inv_def)
    show ?thesis using False emit' hold later succ[OF False] w
      by (auto simp: chain_next_def finalize_frame_def a c k Let_def)
  qed
next
  case False
  then have "finalize_frame now i r = (r, None)"
    by (auto simp: finalize_frame_def frame_is_complete_def split: option.splits)
  then show ?thesis using inv by (simp add: chain_next_def)
qed

definition at_front :: "u32 \<Rightarrow> ChannelReassembler \<Rightarrow> bool" where
  "at_front i r \<longleftrightarrow> (\<forall>s. cr_latest_frame_id_seen r = Some s \<longrightarrow> s \<le> i) \<and>
     (\<forall>c. cr_latest_completed_id r = Some c \<longrightarrow> c < i)"

lemma at_front_quiet: "quiet r r' \<Longrightarrow> at_front i r' = at_front i r"
  by (simp add: at_front_def quiet_def)

lemma finalize_chain_quiet:
  "chain_inv K l r \<Longrightarrow> at_front i r \<Longrightarrow> quiet r r' \<Longrightarrow> chain_next K l i (finalize_frame now i r')"
  using finalize_chain[of K l r' i now] chain_inv_quiet[of K l r r'] at_front_quiet[of r r' i]
  unfolding at_front_def by blast

lemma chain_next_None [simp]: "chain_next K l i (r, None) = chain_inv K l r"
  by (simp add: chain_next_def)

lemma chain_inv_insert:
  assumes "chain_inv K l r" "cr_latest_frame_id_seen r = Some i" "fa_is_key_frame a = K i" "fa_frame_id a = i"
  shows "chain_inv K l (r\<lparr>cr_frames := AList.update i a (cr_frames r)\<rparr>)"
proof -
  have "(j, b) = (i, a) \<or> (j, b) \<in> set (cr_frames r)" if "(j, b) \<in> set (AList.update i a (cr_frames r))" for j b
    using subsetD[OF set_alist_update that] by simp
  then show ?thesis using assms unfolding chain_inv_def by fastforce
qed

lemma chain_inv_seen:
  assumes inv: "chain_inv K l r" and new: "case cr_latest_frame_id_seen r of Some s \<Rightarrow> s < i | None \<Rightarrow> True"
  shows "chain_inv K l (r\<lparr>cr_latest_frame_id_seen := Some i\<rparr>)"
proof (cases "cr_latest_frame_id_seen r")
  case None
  then show ?thesis using inv by (cases l) (auto simp: chain_inv_def)
next
  case (Some s)
  have gap: "i \<noteq> c + 1" if "c < s" for c :: u32
    using that new Some unat_plus_one_less[of c s] by (auto simp: word_less_nat_alt)
  have "s < i" using new Some by simp
  then have le: "j \<le> i" if "j \<le> s" for j using that by simp
  have fr: "\<forall>(j, a) \<in> set (cr_frames r). fa_is_key_frame a = K j \<and> fa_frame_id a = j \<and> j \<le> i"
    using inv Some le by (fastforce simp: chain_inv_def)
  have co: "\<forall>c. cr_latest_completed_id r = Some c \<longrightarrow> c \<le> i"
    using inv Some le by (fastforce simp: chain_inv_def)
  have la: "\<forall>f. l = Some f \<longrightarrow> (\<exists>c. cr_latest_completed_id r = Some c \<and> f \<le> c)"
    using inv by (simp add: chain_inv_def)
  have ch: "cr_latest_completed_id r = l \<or> (\<exists>c. cr_latest_completed_id r = Some c \<and> c < i \<and> (i = c + 1 \<longrightarrow> K i))"
    if "\<not> cr_waiting_after_loss r"
    using inv that Some gap \<open>s < i\<close> unfolding chain_inv_def by (metis option.inject order.strict_trans)
  show ?thesis using fr co la ch by (simp add: chain_inv_def)
qed

lemma assemble_chain:
  assumes inv: "chain_inv K l r" and front: "at_front (ep_frame_id pkt) r"
    and seen: "cr_latest_frame_id_seen r = Some (ep_frame_id pkt)" and key: "is_key_frame pkt = K (ep_frame_id pkt)"
  shows "chain_next K l (ep_frame_id pkt) (assemble_packet now pkt r)"
proof -
  let ?i = "ep_frame_id pkt"
  let ?a = "case map_of (cr_frames r) ?i of Some a \<Rightarrow> a
     | None \<Rightarrow> assembly_new now ?i (ep_packet_count pkt) (is_key_frame pkt) (ep_presentation_time_us pkt)"
  let ?r = "r\<lparr>cr_frames := AList.update ?i ?a (cr_frames r)\<rparr>"
  have "fa_is_key_frame ?a = K ?i" "fa_frame_id ?a = ?i"
    using inv key by (auto simp: chain_inv_def assembly_new_def split: option.splits dest!: map_of_SomeD)
  then have i0: "chain_inv K l ?r" by (rule chain_inv_insert[OF inv seen])
  have f0: "at_front ?i ?r" using front by (simp add: at_front_def)
  obtain r1 b where r1: "reserve_buffer (length (ep_payload pkt)) ?i (is_key_frame pkt) ?r = (r1, b)" by fastforce
  note q1 = reserve_buffer_quiet[OF r1]
  have q2: "quiet ?r (if \<not> frame_is_complete ?i r2 then try_fec_recover ?i r2 else r2)"
    if "store_part ?i (ep_packet_index pkt) (ep_payload pkt) r1 = Some r2" for r2
    using quiet_trans[OF q1 store_part_quiet[OF that]] by (auto intro: quiet_trans try_fec_recover_quiet)
  have q3: "chain_inv K l (lose_frame ?i (is_key_frame pkt) ?r)"
    by (rule chain_inv_quiet[OF i0 lose_frame_quiet[OF quiet_refl]])
  show ?thesis
    unfolding assemble_packet_def Let_def r1
    using i0 q3 chain_inv_quiet[OF i0 q1] finalize_chain_quiet[OF i0 f0 q2]
    by (simp split: bool.split option.split)
qed

lemma advance_window_chain:
  assumes inv: "chain_inv K l r" and front: "at_front (ep_frame_id pkt) r"
  shows "case advance_window iter pkt r of
      Inl r' \<Rightarrow> chain_inv K l r'
    | Inr r' \<Rightarrow> chain_inv K l r' \<and> at_front (ep_frame_id pkt) r' \<and> cr_latest_frame_id_seen r' = Some (ep_frame_id pkt)"
proof (cases "case cr_latest_frame_id_seen r of Some s \<Rightarrow> s < ep_frame_id pkt | None \<Rightarrow> True")
  case True
  let ?i = "ep_frame_id pkt"
  let ?r = "r\<lparr>cr_latest_frame_id_seen := Some ?i\<rparr>"
  let ?w = "saturating_sub_u32 ?i REASSEMBLY_REORDER_WINDOW_FRAMES"
  obtain r1 n where d: "drop_older_than iter ?w ?r = (r1, n)" by fastforce
  have q: "quiet ?r r1" using drop_older_than_quiet[of ?r iter ?w] by (simp add: d)
  have i0: "chain_inv K l ?r" by (rule chain_inv_seen[OF inv True])
  note i1 = chain_inv_quiet[OF i0 q]
  have "at_front ?i r1" "cr_latest_frame_id_seen r1 = Some ?i"
    using front q by (simp_all add: at_front_def quiet_def)
  moreover have "chain_inv K l (fst (drop_older_than iter j (r1\<lparr>cr_waiting_after_loss := True\<rparr>)))" for j
    by (rule chain_inv_quiet[OF chain_inv_wait[OF i1] drop_older_than_quiet])
  ultimately show ?thesis using i1 True by (simp add: advance_window_def d)
next
  case False
  then show ?thesis using inv front
    by (auto simp: advance_window_def at_front_def split: option.splits intro: antisym)
qed

lemma key_arrival_chain:
  assumes "chain_inv K l r" and "at_front i r" and "cr_latest_frame_id_seen r = Some i" and "K i"
  shows "chain_inv K l (r\<lparr>cr_waiting_after_loss := False\<rparr>)"
  using assms by (cases l; cases "cr_latest_completed_id r") (auto simp: chain_inv_def at_front_def)

lemma on_packet_chain:
  assumes inv: "chain_inv K l r" and ord: "\<forall>s. cr_latest_frame_id_seen r = Some s \<longrightarrow> s \<le> ep_frame_id pkt"
    and key: "is_key_frame pkt = K (ep_frame_id pkt)"
  shows "chain_next K l (ep_frame_id pkt) (on_packet iter now pkt r)"
proof (cases "already_completed (ep_frame_id pkt) r")
  case False
  let ?i = "ep_frame_id pkt"
  have front: "at_front ?i r"
    using False ord by (auto simp: at_front_def already_completed_def split: option.splits)
  have adv: "chain_next K l ?i (assemble_packet now pkt (if is_key_frame pkt
          then fst (drop_older_than iter ?i (r1\<lparr>cr_waiting_after_loss := False\<rparr>)) else r1))"
    if "chain_inv K l r1" "at_front ?i r1" "cr_latest_frame_id_seen r1 = Some ?i" for r1
  proof (cases "is_key_frame pkt")
    case True
    note k = key_arrival_chain[OF that] and q = drop_older_than_quiet[of "r1\<lparr>cr_waiting_after_loss := False\<rparr>" iter ?i]
    have "chain_inv K l (r1\<lparr>cr_waiting_after_loss := False\<rparr>)" using k True key by simp
    then show ?thesis using True that q key
      by (simp add: assemble_chain chain_inv_quiet[OF _ q] quiet_def at_front_def)
  next
    case False
    then show ?thesis using that key by (simp add: assemble_chain)
  qed
  show ?thesis
  proof (cases "advance_window iter pkt r")
    case (Inl r1)
    then show ?thesis using inv advance_window_chain[OF inv front, of iter]
      by (simp add: on_packet_def False)
  next
    case (Inr r1)
    then have "chain_next K l ?i (assemble_packet now pkt (if is_key_frame pkt
          then fst (drop_older_than iter ?i (r1\<lparr>cr_waiting_after_loss := False\<rparr>)) else r1))"
      using advance_window_chain[OF inv front, of iter] by (intro adv) simp_all
    then show ?thesis using inv Inr by (simp only: on_packet_def False Let_def chain_next_None chain_inv_fields
          sum.case if_False split: if_split) simp
  qed
qed (simp add: on_packet_def inv)

lemma on_fec_packet_chain:
  assumes inv: "chain_inv K l r" and ord: "\<forall>s. cr_latest_frame_id_seen r = Some s \<longrightarrow> s \<le> ep_frame_id pkt"
  shows "chain_next K l (ep_frame_id pkt) (on_fec_packet now pkt r)"
proof (cases "already_completed (ep_frame_id pkt) r")
  case False
  have front: "at_front (ep_frame_id pkt) r"
    using False ord by (auto simp: at_front_def already_completed_def split: option.splits)
  have "chain_next K l (ep_frame_id pkt)
      (finalize_frame now (ep_frame_id pkt) (try_fec_recover (ep_frame_id pkt) (r\<lparr>cr_pending_fec := f\<rparr>)))" for f
    by (rule finalize_chain_quiet[OF inv front quiet_trans[OF _ try_fec_recover_quiet]]) simp
  then show ?thesis using inv by (simp add: on_fec_packet_def False Let_def split: option.splits)
qed (simp add: on_fec_packet_def inv)

lemma finalize_seen [simp]: "cr_latest_frame_id_seen (fst (finalize_frame now i r)) = cr_latest_frame_id_seen r"
  by (simp add: finalize_frame_def Let_def split: option.splits)

lemma quiet_seen: "quiet r r' \<Longrightarrow> cr_latest_frame_id_seen r' = cr_latest_frame_id_seen r"
  by (simp add: quiet_def)

lemma assemble_seen: "cr_latest_frame_id_seen (fst (assemble_packet now pkt r)) = cr_latest_frame_id_seen r"
proof -
  let ?i = "ep_frame_id pkt"
  let ?a = "case map_of (cr_frames r) ?i of Some a \<Rightarrow> a
     | None \<Rightarrow> assembly_new now ?i (ep_packet_count pkt) (is_key_frame pkt) (ep_presentation_time_us pkt)"
  let ?r = "r\<lparr>cr_frames := AList.update ?i ?a (cr_frames r)\<rparr>"
  obtain r1 b where r1: "reserve_buffer (length (ep_payload pkt)) ?i (is_key_frame pkt) ?r = (r1, b)" by fastforce
  have s1: "cr_latest_frame_id_seen r1 = cr_latest_frame_id_seen r" using quiet_seen[OF reserve_buffer_quiet[OF r1]] by simp
  have s2: "cr_latest_frame_id_seen r2 = cr_latest_frame_id_seen r"
    if "store_part ?i (ep_packet_index pkt) (ep_payload pkt) r1 = Some r2" for r2
    using quiet_seen[OF store_part_quiet[OF that]] s1 by simp
  have "cr_latest_frame_id_seen (lose_frame ?i (is_key_frame pkt) ?r) = cr_latest_frame_id_seen r"
    using quiet_seen[OF lose_frame_quiet[OF quiet_refl]] by simp
  then show ?thesis unfolding assemble_packet_def Let_def r1
    using s1 s2 quiet_seen[OF try_fec_recover_quiet] by (simp split: bool.split option.split)
qed

lemma on_packet_seen:
  "cr_latest_frame_id_seen (fst (on_packet iter now pkt r)) \<in> {cr_latest_frame_id_seen r, Some (ep_frame_id pkt)}"
proof -
  have "case advance_window iter pkt r of
      Inl r' \<Rightarrow> cr_latest_frame_id_seen r' \<in> {cr_latest_frame_id_seen r, Some (ep_frame_id pkt)}
    | Inr r' \<Rightarrow> cr_latest_frame_id_seen r' \<in> {cr_latest_frame_id_seen r, Some (ep_frame_id pkt)}"
  proof -
    let ?r = "r\<lparr>cr_latest_frame_id_seen := Some (ep_frame_id pkt)\<rparr>"
    let ?w = "saturating_sub_u32 (ep_frame_id pkt) REASSEMBLY_REORDER_WINDOW_FRAMES"
    obtain r1 n where d: "drop_older_than iter ?w ?r = (r1, n)" by fastforce
    show ?thesis using quiet_seen[OF drop_older_than_quiet[of ?r iter ?w]] quiet_seen[OF drop_older_than_quiet]
      by (simp add: advance_window_def d)
  qed
  then show ?thesis
    using quiet_seen[OF drop_older_than_quiet]
    by (cases "advance_window iter pkt r") (simp_all add: on_packet_def assemble_seen Let_def)
qed

lemma on_fec_packet_seen: "cr_latest_frame_id_seen (fst (on_fec_packet now pkt r)) = cr_latest_frame_id_seen r"
  using quiet_seen[OF try_fec_recover_quiet] by (simp add: on_fec_packet_def Let_def split: option.splits)

text \<open>Streams: the ids of the packets that arrive, and the frames the reassembler returns with them.\<close>

fun input_ids :: "chan_input \<Rightarrow> u32 list" where
  "input_ids (DataPacket p) = [ep_frame_id p]"
| "input_ids (FecPacket p) = [ep_frame_id p]"
| "input_ids _ = []"

definition arrival_ids :: "(chan_input \<times> frame_out option) list \<Rightarrow> u32 list" where
  "arrival_ids es = concat (map (\<lambda>(inp, out). input_ids inp) es)"

definition returned :: "(chan_input \<times> frame_out option) list \<Rightarrow> (u32 \<times> bool) list" where
  "returned es = concat (map (\<lambda>(inp, out).
     case out of Some (bs, key, _) \<Rightarrow> map (\<lambda>i. (i, key)) (input_ids inp) | None \<Rightarrow> []) es)"

definition follows :: "u32 \<times> bool \<Rightarrow> u32 \<times> bool \<Rightarrow> bool" where
  "follows = (\<lambda>(f, _) (g, key). f < g \<and> (key \<or> g = f + 1))"

fun consistent :: "(u32 \<Rightarrow> bool) \<Rightarrow> chan_input \<Rightarrow> bool" where
  "consistent K (DataPacket p) = (is_key_frame p = K (ep_frame_id p))"
| "consistent K Reset = False"
| "consistent K _ = True"

lemma cr_step_chain:
  assumes "cr_step iter r (inp, out) r'" and inv: "chain_inv K l r" and cons: "consistent K inp"
    and ord: "\<forall>i \<in> set (input_ids inp). \<forall>s. cr_latest_frame_id_seen r = Some s \<longrightarrow> s \<le> i"
  shows "(returned [(inp, out)] = [] \<and> chain_inv K l r' \<or>
      (\<exists>i key. returned [(inp, out)] = [(i, key)] \<and> chain_inv K (Some i) r' \<and> (\<forall>f k. l = Some f \<longrightarrow> follows (f, k) (i, key))))
    \<and> (cr_latest_frame_id_seen r' = cr_latest_frame_id_seen r \<or> (\<exists>i \<in> set (input_ids inp). cr_latest_frame_id_seen r' = Some i))"
proof -
  obtain now where op: "chan_op iter now inp r = (r', out)" using assms(1) by (auto simp: cr_step_simps)
  show ?thesis
  proof (cases inp)
    case (DataPacket p)
    then show ?thesis
      using op on_packet_chain[OF inv, of p iter now] on_packet_seen[of iter now p r] cons ord
      by (auto simp: chain_next_def returned_def follows_def split: option.splits)
  next
    case (FecPacket p)
    then show ?thesis
      using op on_fec_packet_chain[OF inv, of p now] on_fec_packet_seen[of now p r] ord
      by (auto simp: chain_next_def returned_def follows_def split: option.splits)
  next
    case (CodecConfig c)
    then show ?thesis using op inv by (auto simp: returned_def set_codec_config_def chain_inv_def)
  qed (use cons in simp)
qed

lemma returned_Cons: "returned (e # es) = returned [e] @ returned es"
  by (simp add: returned_def)

lemma steps_chain:
  "steps (cr_step iter) r es r' \<Longrightarrow> chain_inv K l r \<Longrightarrow> sorted (arrival_ids es) \<Longrightarrow>
   list_all (\<lambda>(inp, out). consistent K inp) es \<Longrightarrow>
   \<forall>i \<in> set (arrival_ids es). \<forall>s. cr_latest_frame_id_seen r = Some s \<longrightarrow> s \<le> i \<Longrightarrow>
   successively follows ((case l of Some f \<Rightarrow> [(f, True)] | None \<Rightarrow> []) @ returned es)"
proof (induction arbitrary: l rule: steps.induct)
  case (steps_Nil r)
  then show ?case by (simp add: returned_def split: option.splits)
next
  case (steps_Cons r e r1 es r')
  obtain inp out where e: "e = (inp, out)" by (cases e)
  have ids: "arrival_ids (e # es) = input_ids inp @ arrival_ids es" by (simp add: arrival_ids_def e)
  note st = cr_step_chain[OF steps_Cons.hyps(1)[unfolded e] steps_Cons.prems(1)]
  have c0: "consistent K inp" using steps_Cons.prems(3) by (simp add: e)
  have o0: "\<forall>i \<in> set (input_ids inp). \<forall>s. cr_latest_frame_id_seen r = Some s \<longrightarrow> s \<le> i"
    using steps_Cons.prems(4) by (simp add: ids)
  have s: "(returned [e] = [] \<and> chain_inv K l r1 \<or>
      (\<exists>i key. returned [e] = [(i, key)] \<and> chain_inv K (Some i) r1 \<and> (\<forall>f k. l = Some f \<longrightarrow> follows (f, k) (i, key))))"
    and seen: "cr_latest_frame_id_seen r1 = cr_latest_frame_id_seen r \<or> (\<exists>i \<in> set (input_ids inp). cr_latest_frame_id_seen r1 = Some i)"
    using st[OF c0 o0] unfolding e by blast+
  have srt: "sorted (arrival_ids es)" and cs: "list_all (\<lambda>(inp, out). consistent K inp) es"
    using steps_Cons.prems(2,3) by (auto simp: ids sorted_append)
  have fr: "\<forall>i \<in> set (arrival_ids es). \<forall>s. cr_latest_frame_id_seen r1 = Some s \<longrightarrow> s \<le> i"
    using seen steps_Cons.prems(2,4) by (auto simp: ids sorted_append)
  show ?case
  proof (cases "returned [e] = []")
    case True
    then show ?thesis using s steps_Cons.IH[OF _ srt cs fr] by (subst returned_Cons) auto
  next
    case False
    then obtain i key where i: "returned [e] = [(i, key)]" "chain_inv K (Some i) r1"
      "\<forall>f k. l = Some f \<longrightarrow> follows (f, k) (i, key)" using s by auto
    have h: "follows (i, key) = follows (i, True)" by (simp add: follows_def)
    have "successively follows ((i, True) # returned es)"
      using steps_Cons.IH[OF i(2) srt cs fr] by simp
    then have "successively follows ((i, key) # returned es)"
      by (cases "returned es") (simp_all add: h)
    then show ?thesis using i(1,3) by (subst returned_Cons) (auto split: option.splits)
  qed
qed

section \<open>Properties\<close>

text \<open>C7: Memory safety of the reassembler. Whatever data packets, FEC packets, codec configurations and resets
  arrive, in any order, the byte counter equals the bytes held in the assemblies, stays within the 24 MiB
  budget, and every assembly has as many slots as its packet count, a correct count of filled slots and a
  correct byte count; no frame id has two assemblies.\<close>

theorem reassembler_memory_bounded:
  assumes "steps (cr_step iter) channel_reassembler_new es r"
  shows "distinct (map fst (cr_frames r)) \<and> (\<forall>(i, a) \<in> set (cr_frames r). asm_ok i a) \<and>
    cr_buffered_bytes r = sum_list (map (\<lambda>(i, a). part_bytes (fa_parts a)) (cr_frames r)) \<and>
    cr_buffered_bytes r \<le> REASSEMBLY_MAX_BUFFERED_BYTES"
proof -
  have ok: "reasm_ok r"
    using steps_invariant[OF assms, of reasm_ok] reasm_ok_new cr_step_ok by blast
  then have "map (\<lambda>(i, a). fa_buffered_bytes a) (cr_frames r) = map (\<lambda>(i, a). part_bytes (fa_parts a)) (cr_frames r)"
    by (intro map_cong) (auto simp: reasm_ok_def asm_ok_def)
  from ok[unfolded reasm_ok_def frames_held_def this] show ?thesis .
qed

definition demo_packet :: EvrtPacket where
  "demo_packet = \<lparr>ep_packet_type = TYPE_VIDEO_FRAME, ep_flags = FLAG_KEY_FRAME, ep_frame_id = 4, ep_packet_index = 0,
     ep_packet_count = 1, ep_presentation_time_us = 9, ep_payload = [1, 2]\<rparr>"

lemma demo_packet_step:
  "steps (cr_step id) channel_reassembler_new [(DataPacket demo_packet, Some ([1, 2], True, 0, 9))]
     (fst (on_packet id 0 demo_packet channel_reassembler_new))"
proof -
  have "snd (on_packet id 0 demo_packet channel_reassembler_new) = Some ([1, 2], True, 0, 9)"
    by (simp add: on_packet_def demo_packet_def channel_reassembler_new_def is_key_frame_def FLAG_KEY_FRAME_def
        already_completed_def behind_window_def MAX_FRAME_PACKET_COUNT_def advance_window_def drop_older_than_def
        assemble_packet_def assembly_new_def has_part_def reserve_buffer_def reserve_loop.simps
        REASSEMBLY_MAX_BUFFERED_BYTES_def store_part_def set_part_def frame_is_complete_def assembly_is_complete_def
        finalize_frame_def assembly_join_def assembly_delay_ms_def)
  then have "chan_op id 0 (DataPacket demo_packet) channel_reassembler_new
      = (fst (on_packet id 0 demo_packet channel_reassembler_new), Some ([1, 2], True, 0, 9))"
    by (simp add: prod_eq_iff)
  from Cr_step[OF this] show ?thesis by (rule steps_Cons[OF _ steps_Nil[of "cr_step id"]])
qed

theorem reassembler_memory_bounded_witness:
  "cr_buffered_bytes (fst (on_packet id 0 demo_packet channel_reassembler_new)) \<le> REASSEMBLY_MAX_BUFFERED_BYTES"
  using reassembler_memory_bounded[OF demo_packet_step] by blast



end
