(* ===== verification/Channel_Delivery.thy ===== *)
theory Channel_Delivery
  imports Channel_Reassembler
begin

text \<open>
  Delivery through the EVRT1 path: the packets of \<^verbatim>\<open>src/src/evrt.rs\<close> fed to the reassembler of
  \<^verbatim>\<open>src/src/frame_queue.rs\<close>. A stream of frames with consecutive ids, the packets of each frame in any
  order, comes out frame by frame, unchanged.
\<close>

section \<open>Feeding packets\<close>

fun feed ::
  "((u32 \<times> FrameAssembly) list \<Rightarrow> (u32 \<times> FrameAssembly) list) \<Rightarrow> (nat \<times> chan_input) list \<Rightarrow> ChannelReassembler
   \<Rightarrow> ChannelReassembler \<times> frame_out list" where
  "feed iter [] r = (r, [])"
| "feed iter ((now, inp) # xs) r =
     (case chan_op iter now inp r of
        (r1, out) \<Rightarrow> (case feed iter xs r1 of
          (r2, outs) \<Rightarrow> (r2, (case out of Some f \<Rightarrow> [f] | None \<Rightarrow> []) @ outs)))"

lemma feed_append:
  "feed iter (xs @ ys) r =
     (case feed iter xs r of (r1, o1) \<Rightarrow> case feed iter ys r1 of (r2, o2) \<Rightarrow> (r2, o1 @ o2))"
  by (induction xs arbitrary: r) (auto split: prod.splits option.splits)

section \<open>The state between the packets of one frame\<close>

record frame_desc =
  fd_id :: u32
  fd_pts :: u64
  fd_key :: bool
  fd_chunks :: "bytes list"

definition packet_of :: "frame_desc \<Rightarrow> nat \<Rightarrow> EvrtPacket" where
  "packet_of fd j =
     \<lparr>ep_packet_type = TYPE_VIDEO_FRAME, ep_flags = key_flags (fd_key fd), ep_frame_id = fd_id fd,
      ep_packet_index = of_nat j, ep_packet_count = of_nat (length (fd_chunks fd)),
      ep_presentation_time_us = fd_pts fd, ep_payload = fd_chunks fd ! j\<rparr>"

lemma packet_of_simps [simp]:
  "ep_frame_id (packet_of fd j) = fd_id fd" "ep_packet_index (packet_of fd j) = of_nat j"
  "ep_packet_count (packet_of fd j) = of_nat (length (fd_chunks fd))"
  "ep_presentation_time_us (packet_of fd j) = fd_pts fd" "ep_payload (packet_of fd j) = fd_chunks fd ! j"
  "is_key_frame (packet_of fd j) = fd_key fd"
  by (simp_all add: packet_of_def is_key_frame_def key_flags_def FLAG_KEY_FRAME_def)

definition asm_with :: "frame_desc \<Rightarrow> nat \<Rightarrow> nat list \<Rightarrow> FrameAssembly" where
  "asm_with fd t J =
     \<lparr>fa_frame_id = fd_id fd, fa_packet_count = of_nat (length (fd_chunks fd)), fa_is_key_frame = fd_key fd,
      fa_presentation_time_us = fd_pts fd,
      fa_parts = map (\<lambda>j. if j \<in> set J then Some (fd_chunks fd ! j) else None) [0..<length (fd_chunks fd)],
      fa_received = of_nat (length J), fa_buffered_bytes = sum_list (map (\<lambda>j. length (fd_chunks fd ! j)) J),
      fa_first_packet_at = t\<rparr>"

definition frame_fits_channel :: "frame_desc \<Rightarrow> bool" where
  "frame_fits_channel fd \<longleftrightarrow> fd_chunks fd \<noteq> [] \<and> length (fd_chunks fd) \<le> MAX_FRAME_PACKET_COUNT \<and>
     length (concat (fd_chunks fd)) \<le> REASSEMBLY_MAX_BUFFERED_BYTES"

text \<open>Between frames: nothing buffered, and the last frame seen is the last one completed.\<close>

definition idle :: "u32 option \<Rightarrow> ChannelReassembler \<Rightarrow> bool" where
  "idle l r \<longleftrightarrow> cr_frames r = [] \<and> cr_buffered_bytes r = 0 \<and> cr_pending_fec r = [] \<and>
     \<not> cr_waiting_after_loss r \<and> cr_latest_frame_id_seen r = l \<and> cr_latest_completed_id r = l"

definition may_follow :: "u32 option \<Rightarrow> frame_desc \<Rightarrow> bool" where
  "may_follow l fd = (case l of None \<Rightarrow> True | Some c \<Rightarrow> c < fd_id fd \<and> (fd_key fd \<or> fd_id fd = c + 1))"

definition collecting :: "u32 option \<Rightarrow> frame_desc \<Rightarrow> nat \<Rightarrow> nat list \<Rightarrow> ChannelReassembler \<Rightarrow> bool" where
  "collecting l fd t J r \<longleftrightarrow>
     cr_frames r = (if J = [] then [] else [(fd_id fd, asm_with fd t J)]) \<and>
     cr_buffered_bytes r = sum_list (map (\<lambda>j. length (fd_chunks fd ! j)) J) \<and> cr_pending_fec r = [] \<and>
     \<not> cr_waiting_after_loss r \<and> cr_latest_frame_id_seen r = Some (fd_id fd) \<and> cr_latest_completed_id r = l"

section \<open>Lemmas: one packet\<close>

lemma drop_older_nothing:
  assumes "hash_iter iter" "cr_frames r = [] \<or> (\<exists>a. cr_frames r = [(i, a)])" "w \<le> i" "cr_pending_fec r = []"
  shows "drop_older_than iter w r = (r, 0)"
  using assms by (auto simp: drop_older_than_def)

lemma reserve_room:
  "cr_buffered_bytes r + bs \<le> REASSEMBLY_MAX_BUFFERED_BYTES \<Longrightarrow> reserve_buffer bs i k r = (r, True)"
  by (simp add: reserve_buffer_def reserve_loop.simps)

lemma chunk_sum_le:
  assumes "distinct J" "set J \<subseteq> {..<length cs}"
  shows "sum_list (map (\<lambda>j. length (cs ! j)) J) \<le> length (concat cs)"
proof -
  have "sum_list (map (\<lambda>j. length (cs ! j)) J) = (\<Sum>j \<in> set J. length (cs ! j))"
    using assms(1) by (simp add: sum_list_distinct_conv_sum_set)
  also have "\<dots> \<le> (\<Sum>j < length cs. length (cs ! j))" using assms(2) by (intro sum_mono2) auto
  also have "\<dots> = length (concat cs)" by (simp add: length_concat sum_list_sum_nth atLeast0LessThan)
  finally show ?thesis .
qed

lemma set_part_asm_with:
  assumes "j < length (fd_chunks fd)" "j \<notin> set J" "length (fd_chunks fd) < 65536"
  shows "set_part (asm_with fd t J) (of_nat j) (fd_chunks fd ! j)
     = Some (asm_with fd t (J @ [j]), length (fd_chunks fd ! j))"
proof -
  have u: "unat (of_nat j :: u16) = j" using assms by (simp add: unat_of_nat_u16)
  have "(map (\<lambda>k. if k \<in> set J then Some (fd_chunks fd ! k) else None) [0..<length (fd_chunks fd)])[j := Some (fd_chunks fd ! j)]
     = map (\<lambda>k. if k \<in> set (J @ [j]) then Some (fd_chunks fd ! k) else None) [0..<length (fd_chunks fd)]"
    using assms(1) by (intro nth_equalityI) (auto simp: nth_list_update)
  then show ?thesis using assms u by (simp add: set_part_def asm_with_def)
qed

lemma has_part_asm_with:
  assumes "j < length (fd_chunks fd)" "j \<notin> set J" "length (fd_chunks fd) < 65536"
  shows "\<not> has_part (asm_with fd t J) (of_nat j)"
  using assms by (simp add: has_part_def asm_with_def unat_of_nat_u16)

lemma new_is_asm_with:
  "length (fd_chunks fd) < 65536 \<Longrightarrow>
   assembly_new t (fd_id fd) (of_nat (length (fd_chunks fd))) (fd_key fd) (fd_pts fd) = asm_with fd t []"
  by (simp add: assembly_new_def asm_with_def unat_of_nat_u16 map_replicate_trivial)

lemma complete_asm_with:
  "length (fd_chunks fd) < 65536 \<Longrightarrow> length J \<le> length (fd_chunks fd) \<Longrightarrow>
   assembly_is_complete (asm_with fd t J) \<longleftrightarrow> length J = length (fd_chunks fd)"
  by (simp add: assembly_is_complete_def asm_with_def) (metis le_less_trans unat_of_nat_u16)

lemma join_asm_with:
  assumes "set J = {..<length (fd_chunks fd)}" "fd_chunks fd \<noteq> []" "length (fd_chunks fd) < 65536"
  shows "assembly_join (asm_with fd t J) = concat (fd_chunks fd)"
proof -
  let ?cs = "fd_chunks fd"
  have parts: "fa_parts (asm_with fd t J) = map (\<lambda>j. Some (?cs ! j)) [0..<length ?cs]"
    using assms(1) by (simp add: asm_with_def)
  have "map (\<lambda>j. ?cs ! j) [0..<length ?cs] = ?cs" by (rule map_nth)
  then have "concat (map (\<lambda>p. case p of Some x \<Rightarrow> x | None \<Rightarrow> []) (fa_parts (asm_with fd t J))) = concat ?cs"
    unfolding parts by (simp add: o_def)
  moreover have "length ?cs = 1" if "fa_packet_count (asm_with fd t J) = 1"
    using that assms(3) by (simp add: asm_with_def) (metis One_nat_def unat_1 unat_of_nat_u16)
  ultimately show ?thesis unfolding assembly_join_def parts
    by (auto simp: length_Suc_conv upt_rec)
qed

lemma fits_small: "frame_fits_channel fd \<Longrightarrow> length (fd_chunks fd) < 65536"
  by (simp add: frame_fits_channel_def MAX_FRAME_PACKET_COUNT_def)

lemma packet_of_accepted:
  assumes "frame_fits_channel fd" "j < length (fd_chunks fd)"
  shows "\<not> (ep_packet_count (packet_of fd j) = 0 \<or> ep_packet_count (packet_of fd j) \<le> ep_packet_index (packet_of fd j)
    \<or> MAX_FRAME_PACKET_COUNT < unat (ep_packet_count (packet_of fd j)))"
proof -
  have u: "unat (of_nat (length (fd_chunks fd)) :: u16) = length (fd_chunks fd)" "unat (of_nat j :: u16) = j"
    using fits_small[OF assms(1)] assms(2) by (simp_all add: unat_of_nat_u16)
  then have "(of_nat (length (fd_chunks fd)) :: u16) \<noteq> 0" using assms(2) by (metis less_zeroE unat_0)
  then show ?thesis using assms u by (simp add: frame_fits_channel_def word_le_nat_alt)
qed

lemma not_behind:
  assumes "cr_latest_frame_id_seen r = None \<or> (\<exists>s. cr_latest_frame_id_seen r = Some s \<and> s \<le> i)"
  shows "\<not> behind_window i r"
proof -
  have "i \<le> saturating_add_u32 i w" for w :: u32
    by (cases "unat i + unat w < 2 ^ 32") (simp_all add: saturating_add_u32_def word_le_nat_alt[of i "i + w"] unat_word_ariths)
  then have "\<not> saturating_add_u32 i w < s" if "s \<le> i" for s w :: u32 using that by (meson leD order.trans)
  then show ?thesis using assms by (auto simp: behind_window_def)
qed

lemma on_packet_starts:
  assumes "hash_iter iter" "frame_fits_channel fd" "idle l r" "may_follow l fd" "j < length (fd_chunks fd)"
  shows "on_packet iter now (packet_of fd j) r = assemble_packet now (packet_of fd j) (r\<lparr>cr_latest_frame_id_seen := Some (fd_id fd)\<rparr>)"
    and "collecting l fd t [] (r\<lparr>cr_latest_frame_id_seen := Some (fd_id fd)\<rparr>)"
proof -
  let ?r = "r\<lparr>cr_latest_frame_id_seen := Some (fd_id fd)\<rparr>"
  have r: "cr_frames ?r = []" "cr_pending_fec ?r = []" "\<not> cr_waiting_after_loss r"
    using assms(3) by (simp_all add: idle_def)
  have w: "?r\<lparr>cr_waiting_after_loss := False\<rparr> = ?r" using r(3) by simp
  have ac: "\<not> already_completed (fd_id fd) r" "\<not> behind_window (fd_id fd) r"
    using assms(3,4) by (auto simp: idle_def may_follow_def already_completed_def split: option.splits intro!: not_behind)
  have d: "drop_older_than iter w ?r = (?r, 0)" for w
    using assms(1) r(1,2) by (simp add: drop_older_than_def)
  have k: "drop_older_than iter (fd_id fd) (?r\<lparr>cr_waiting_after_loss := False\<rparr>) = (?r, 0)" by (subst w) (rule d)
  have "advance_window iter (packet_of fd j) r = Inr ?r"
    using assms(3,4) d by (auto simp: advance_window_def idle_def may_follow_def split: option.splits)
  then show "on_packet iter now (packet_of fd j) r = assemble_packet now (packet_of fd j) ?r"
    unfolding on_packet_def if_not_P[OF packet_of_accepted[OF assms(2,5)]] using ac r(3) k by simp
  show "collecting l fd t [] ?r" using assms(3) by (simp add: collecting_def idle_def)
qed

lemma on_packet_continues:
  assumes "hash_iter iter" "frame_fits_channel fd" "collecting l fd t J r" "J \<noteq> []" "may_follow l fd" "j < length (fd_chunks fd)"
  shows "on_packet iter now (packet_of fd j) r = assemble_packet now (packet_of fd j) r"
proof -
  have r: "cr_frames r = [(fd_id fd, asm_with fd t J)]" "cr_pending_fec r = []" "\<not> cr_waiting_after_loss r"
    "cr_latest_frame_id_seen r = Some (fd_id fd)"
    using assms(3,4) by (simp_all add: collecting_def)
  have ac: "\<not> already_completed (fd_id fd) r" "\<not> behind_window (fd_id fd) r"
    using assms(3,5) by (auto simp: collecting_def may_follow_def already_completed_def split: option.splits intro!: not_behind)
  have w: "r\<lparr>cr_waiting_after_loss := False\<rparr> = r" using r(3) by simp
  have "drop_older_than iter (fd_id fd) (r\<lparr>cr_waiting_after_loss := False\<rparr>) = (r, 0)"
    by (subst w) (use drop_older_nothing[OF assms(1) _ order_refl r(2), of "fd_id fd"] r(1) in simp)
  moreover have "advance_window iter (packet_of fd j) r = Inr r"
    using r by (simp add: advance_window_def)
  ultimately show ?thesis
    unfolding on_packet_def if_not_P[OF packet_of_accepted[OF assms(2,6)]] using ac r by simp
qed

lemma assemble_collects:
  assumes "frame_fits_channel fd" "collecting l fd t J r" "J = [] \<Longrightarrow> t = now"
    and J: "distinct (J @ [j])" "set (J @ [j]) \<subseteq> {..<length (fd_chunks fd)}"
  shows "\<exists>r'. collecting l fd t (J @ [j]) r' \<and> cr_latest_codec_config r' = cr_latest_codec_config r \<and>
    assemble_packet now (packet_of fd j) r = finalize_frame now (fd_id fd) r'"
proof -
  note small = fits_small[OF assms(1)]
  have j: "j < length (fd_chunks fd)" "j \<notin> set J" using J by auto
  let ?r = "r\<lparr>cr_frames := [(fd_id fd, asm_with fd t J)]\<rparr>"
  let ?r' = "?r\<lparr>cr_frames := [(fd_id fd, asm_with fd t (J @ [j]))], cr_buffered_bytes := cr_buffered_bytes r + length (fd_chunks fd ! j)\<rparr>"
  have a: "(case map_of (cr_frames r) (fd_id fd) of Some a \<Rightarrow> a
      | None \<Rightarrow> assembly_new now (fd_id fd) (of_nat (length (fd_chunks fd))) (fd_key fd) (fd_pts fd)) = asm_with fd t J"
    and f: "AList.update (fd_id fd) (asm_with fd t J) (cr_frames r) = [(fd_id fd, asm_with fd t J)]"
    using assms(2,3) by (auto simp: collecting_def new_is_asm_with[OF small])
  have c: "collecting l fd t (J @ [j]) ?r'" using assms(2) by (simp add: collecting_def)
  have "cr_buffered_bytes ?r + length (fd_chunks fd ! j) \<le> REASSEMBLY_MAX_BUFFERED_BYTES"
    using chunk_sum_le[OF J] assms(1,2) by (simp add: collecting_def frame_fits_channel_def)
  note res = reserve_room[OF this, of "fd_id fd" "fd_key fd"]
  have st: "store_part (fd_id fd) (of_nat j) (fd_chunks fd ! j) ?r = Some ?r'"
    by (simp add: store_part_def set_part_asm_with[OF j small])
  have p: "fa_packet_count (asm_with fd t J) = of_nat (length (fd_chunks fd))" by (simp add: asm_with_def)
  have "try_fec_recover (fd_id fd) ?r' = ?r'" using assms(2) by (simp add: try_fec_recover_def collecting_def)
  then have "assemble_packet now (packet_of fd j) r = finalize_frame now (fd_id fd) ?r'"
    unfolding assemble_packet_def Let_def packet_of_simps a f res
    using has_part_asm_with[OF j small, of t] st p by simp
  then show ?thesis using c by (intro exI[of _ ?r']) simp
qed

lemma finalize_unfinished:
  assumes "frame_fits_channel fd" "collecting l fd t J r" "J \<noteq> []" "length J < length (fd_chunks fd)"
  shows "finalize_frame now (fd_id fd) r = (r, None)"
  using assms complete_asm_with[OF fits_small[OF assms(1)], of J t] by (simp add: finalize_frame_def collecting_def)

definition delivered_frame :: "bytes option \<Rightarrow> frame_desc \<Rightarrow> 32 word \<Rightarrow> frame_out" where
  "delivered_frame cfg fd d =
     ((if fd_key fd then (case cfg of Some c \<Rightarrow> c | None \<Rightarrow> []) else []) @ concat (fd_chunks fd), fd_key fd, d, fd_pts fd)"

lemma finalize_finished:
  assumes "frame_fits_channel fd" "collecting l fd t J r" "may_follow l fd"
    and J: "distinct J" "set J = {..<length (fd_chunks fd)}"
  shows "\<exists>r' d. finalize_frame now (fd_id fd) r = (r', Some (delivered_frame (cr_latest_codec_config r) fd d)) \<and>
    idle (Some (fd_id fd)) r' \<and> cr_latest_codec_config r' = cr_latest_codec_config r"
proof -
  let ?a = "asm_with fd t J"
  have ne: "fd_chunks fd \<noteq> []" using assms(1) by (simp add: frame_fits_channel_def)
  have n: "length J = length (fd_chunks fd)" using distinct_card[OF J(1)] J(2) by simp
  then have "J \<noteq> []" using ne by auto
  then have m: "map_of (cr_frames r) (fd_id fd) = Some ?a" "cr_frames r = [(fd_id fd, ?a)]"
    using assms(2) by (simp_all add: collecting_def)
  have c: "assembly_is_complete ?a" using complete_asm_with[OF fits_small[OF assms(1)], of J t] n by simp
  have join: "assembly_join ?a = concat (fd_chunks fd)" by (rule join_asm_with[OF J(2) ne fits_small[OF assms(1)]])
  have fields: "fa_is_key_frame ?a = fd_key fd" "fa_frame_id ?a = fd_id fd" "fa_presentation_time_us ?a = fd_pts fd"
    "fa_buffered_bytes ?a = cr_buffered_bytes r"
    using assms(2) by (simp_all add: asm_with_def collecting_def)
  let ?r' = "r\<lparr>cr_frames := [], cr_buffered_bytes := 0, cr_latest_completed_id := Some (fd_id fd)\<rparr>"
  have "finalize_frame now (fd_id fd) r = (?r', Some (delivered_frame (cr_latest_codec_config r) fd (assembly_delay_ms now ?a)))"
    using assms(2,3) c
    by (cases "fd_key fd") (auto simp: finalize_frame_def m fields join Let_def delivered_frame_def collecting_def
        may_follow_def split: option.splits)
  moreover have "idle (Some (fd_id fd)) ?r'" using assms(2) by (simp add: idle_def collecting_def)
  ultimately show ?thesis by (intro exI[of _ ?r'] exI) auto
qed

section \<open>Lemmas: frames and streams\<close>

definition arrivals :: "frame_desc \<Rightarrow> (nat \<times> nat) list \<Rightarrow> (nat \<times> chan_input) list" where
  "arrivals fd xs = map (\<lambda>(now, j). (now, DataPacket (packet_of fd j))) xs"

lemma packet_step:
  assumes "hash_iter iter" "frame_fits_channel fd" "may_follow l fd"
    and st: "J = [] \<and> idle l r \<and> t = now \<or> J \<noteq> [] \<and> collecting l fd t J r"
    and J: "distinct (J @ [j])" "set (J @ [j]) \<subseteq> {..<length (fd_chunks fd)}"
  shows "\<exists>r1. collecting l fd t (J @ [j]) r1 \<and> cr_latest_codec_config r1 = cr_latest_codec_config r \<and>
    on_packet iter now (packet_of fd j) r = finalize_frame now (fd_id fd) r1"
proof -
  have j: "j < length (fd_chunks fd)" using J(2) by simp
  from st show ?thesis
  proof (elim disjE conjE)
    assume a: "J = []" "idle l r" "t = now"
    note s = on_packet_starts[OF assms(1,2) a(2) assms(3) j]
    show ?thesis using assemble_collects[OF assms(2) s(2), of t] s(1) a J by auto
  next
    assume a: "J \<noteq> []" "collecting l fd t J r"
    show ?thesis
      using assemble_collects[OF assms(2) a(2) _ J] on_packet_continues[OF assms(1,2) a(2,1) assms(3) j] a(1) by auto
  qed
qed

lemma feed_frame:
  assumes "hash_iter iter" "frame_fits_channel fd" "may_follow l fd"
    and "J = [] \<and> idle l r \<and> t = fst (hd xs) \<or> J \<noteq> [] \<and> collecting l fd t J r" and "xs \<noteq> []"
    and "distinct (J @ map snd xs)" "set (J @ map snd xs) = {..<length (fd_chunks fd)}"
  shows "\<exists>r' d. feed iter (arrivals fd xs) r = (r', [delivered_frame (cr_latest_codec_config r) fd d]) \<and>
    idle (Some (fd_id fd)) r' \<and> cr_latest_codec_config r' = cr_latest_codec_config r"
  using assms(4-7)
proof (induction xs arbitrary: J r)
  case (Cons x xs)
  obtain now j where x: "x = (now, j)" by (cases x)
  have J: "distinct (J @ [j])" "set (J @ [j]) \<subseteq> {..<length (fd_chunks fd)}" using Cons.prems(3,4) by (auto simp: x)
  obtain r1 where c: "collecting l fd t (J @ [j]) r1" "cr_latest_codec_config r1 = cr_latest_codec_config r"
    and op: "on_packet iter now (packet_of fd j) r = finalize_frame now (fd_id fd) r1"
    using packet_step[OF assms(1-3) _ J, of r t now] Cons.prems(1) by (auto simp: x)
  show ?case
  proof (cases "xs = []")
    case True
    then have "distinct (J @ [j])" "set (J @ [j]) = {..<length (fd_chunks fd)}" using Cons.prems(3,4) by (simp_all add: x)
    from finalize_finished[OF assms(2) c(1) assms(3) this, of now] show ?thesis
      using True c(2) by (auto simp: arrivals_def x op)
  next
    case False
    have "length (J @ map snd (x # xs)) = length (fd_chunks fd)"
      using distinct_card[OF Cons.prems(3)] Cons.prems(4) by simp
    then have "length (J @ [j]) < length (fd_chunks fd)" using False by (cases xs) auto
    then have f: "finalize_frame now (fd_id fd) r1 = (r1, None)"
      by (intro finalize_unfinished[OF assms(2) c(1)]) simp_all
    show ?thesis using Cons.IH[of "J @ [j]" r1] False c Cons.prems(3,4) by (auto simp: arrivals_def x op f)
  qed
qed simp

fun frames_follow :: "u32 option \<Rightarrow> frame_desc list \<Rightarrow> bool" where
  "frames_follow l [] = True"
| "frames_follow l (fd # fds) = (may_follow l fd \<and> frames_follow (Some (fd_id fd)) fds)"

definition all_packets_once :: "frame_desc \<Rightarrow> (nat \<times> nat) list \<Rightarrow> bool" where
  "all_packets_once fd xs \<longleftrightarrow> distinct (map snd xs) \<and> set (map snd xs) = {..<length (fd_chunks fd)}"

lemma feed_stream:
  assumes "hash_iter iter"
  shows "\<forall>(fd, xs) \<in> set fxs. frame_fits_channel fd \<and> all_packets_once fd xs \<Longrightarrow> frames_follow l (map fst fxs) \<Longrightarrow> idle l r \<Longrightarrow>
    \<exists>r' outs. feed iter (concat (map (\<lambda>(fd, xs). arrivals fd xs) fxs)) r = (r', outs) \<and>
      list_all2 (\<lambda>(fd, xs) out. \<exists>d. out = delivered_frame (cr_latest_codec_config r) fd d) fxs outs"
proof (induction fxs arbitrary: l r)
  case (Cons fx fxs)
  obtain fd xs where fx: "fx = (fd, xs)" by (cases fx)
  have h: "frame_fits_channel fd" "all_packets_once fd xs" "may_follow l fd" "frames_follow (Some (fd_id fd)) (map fst fxs)"
    using Cons.prems(1,2) by (auto simp: fx)
  have "xs \<noteq> []" using h(1,2) by (auto simp: frame_fits_channel_def all_packets_once_def)
  then obtain r1 d where f: "feed iter (arrivals fd xs) r = (r1, [delivered_frame (cr_latest_codec_config r) fd d])"
    "idle (Some (fd_id fd)) r1" "cr_latest_codec_config r1 = cr_latest_codec_config r"
    using feed_frame[OF assms h(1,3), of "[]" r "fst (hd xs)" xs] Cons.prems(3) h(2) by (auto simp: all_packets_once_def)
  obtain r2 outs where "feed iter (concat (map (\<lambda>(fd, xs). arrivals fd xs) fxs)) r1 = (r2, outs)"
      "list_all2 (\<lambda>(fd, xs) out. \<exists>d. out = delivered_frame (cr_latest_codec_config r) fd d) fxs outs"
    using Cons.IH[OF _ h(4) f(2)] Cons.prems(1) f(3) by auto
  then show ?case using f(1) by (auto simp: fx feed_append)
qed simp

section \<open>From frames to datagrams and back\<close>

record video_frame =
  vf_id :: u32
  vf_pts :: u64
  vf_key :: bool
  vf_payload :: bytes

definition desc_of :: "bytes option \<Rightarrow> video_frame \<Rightarrow> frame_desc" where
  "desc_of tok f = \<lparr>fd_id = vf_id f, fd_pts = vf_pts f, fd_key = vf_key f,
     fd_chunks = chunks (max_payload_for tok) (vf_payload f)\<rparr>"

definition sendable :: "bytes option \<Rightarrow> video_frame \<Rightarrow> bool" where
  "sendable tok f \<longleftrightarrow> vf_payload f \<noteq> [] \<and> div_ceil (length (vf_payload f)) (max_payload_for tok) \<le> MAX_FRAME_PACKET_COUNT"

definition datagrams_of :: "(bytes \<Rightarrow> bytes) \<Rightarrow> bytes option \<Rightarrow> video_frame \<Rightarrow> bytes list" where
  "datagrams_of sha256 tok f = packetize_video_frame_authenticated sha256 (vf_id f) (vf_pts f) (vf_key f) (vf_payload f) tok"

definition datagram_input :: "(bytes \<Rightarrow> bytes) \<Rightarrow> bytes option \<Rightarrow> nat \<times> bytes \<Rightarrow> (nat \<times> chan_input) list" where
  "datagram_input sha256 tok tw =
     (case parse_authenticated sha256 (snd tw) (length (snd tw)) tok of Some p \<Rightarrow> [(fst tw, DataPacket p)] | None \<Rightarrow> [])"

text \<open>A frame of at most \<open>MAX_FRAME_PACKET_COUNT\<close> packets always fits the memory budget.\<close>

lemma sendable_fits:
  assumes "sendable tok f"
  shows "frame_fits_channel (desc_of tok f)"
proof -
  let ?m = "max_payload_for tok" and ?cs = "chunks (max_payload_for tok) (vf_payload f)"
  have m: "0 < ?m" "?m \<le> 1500" by (simp_all add: max_payload_for_pos max_payload_for_def evrt1_consts)
  have n: "length ?cs \<le> 16384"
    using assms m by (simp add: sendable_def length_chunks MAX_FRAME_PACKET_COUNT_def)
  have le: "length c \<le> 1500" if "c \<in> set ?cs" for c using chunks_length_bounds[OF that] m(2) by simp
  have "length (concat ?cs) = sum_list (map length ?cs)" by (rule length_concat)
  also have "\<dots> \<le> sum_list (map (\<lambda>_. 1500) ?cs)"
    using le by (intro sum_list_mono) simp
  also have "\<dots> \<le> 16384 * 1500" using n by (simp add: sum_list_triv)
  finally have "length (concat ?cs) \<le> REASSEMBLY_MAX_BUFFERED_BYTES" by (simp add: REASSEMBLY_MAX_BUFFERED_BYTES_def)
  then show ?thesis using assms n m
    by (simp add: frame_fits_channel_def desc_of_def sendable_def MAX_FRAME_PACKET_COUNT_def chunks_eq_Nil_iff)
qed

lemma datagrams_arrive:
  assumes "sha_size sha256" "sendable tok f" "mset (map snd tws) = mset (datagrams_of sha256 tok f)"
  shows "\<exists>xs. concat (map (datagram_input sha256 tok) tws) = arrivals (desc_of tok f) xs \<and> all_packets_once (desc_of tok f) xs"
proof -
  let ?m = "max_payload_for tok" and ?D = "datagrams_of sha256 tok f" and ?fd = "desc_of tok f"
  let ?n = "length (fd_chunks ?fd)"
  let ?ix = "\<lambda>w. unat (ep_packet_index (the (parse_authenticated sha256 w (length w) tok)))"
  have s: "vf_payload f \<noteq> []" "div_ceil (length (vf_payload f)) ?m \<le> MAX_FRAME_PACKET_COUNT"
    using assms(2) by (simp_all add: sendable_def)
  note ps = packetize_with_limit_pieces[OF assms(1) s max_payload_for_pos order_refl, folded packetize_authenticated_eq]
  note D = datagrams_of_def packetize_video_frame_authenticated_def
  have small: "?n < 65536" by (rule fits_small[OF sendable_fits[OF assms(2)]])
  have len: "length ?D = ?n" by (simp add: D ps(2) desc_of_def)
  have nth: "parse_authenticated sha256 (?D ! i) (length (?D ! i)) tok = Some (packet_of ?fd i)" if "i < ?n" for i
    using that by (simp add: D ps(4) packet_of_def desc_of_def)
  have ix: "?ix (?D ! i) = i" if "i < ?n" for i using nth[OF that] that small by (simp add: unat_of_nat_u16)
  have upt: "map ?ix ?D = [0..<?n]" using ix len by (intro nth_equalityI) simp_all
  let ?xs = "map (\<lambda>(t, w). (t, ?ix w)) tws"
  have "mset (map snd ?xs) = mset (map ?ix (map snd tws))" by (simp add: o_def case_prod_beta)
  also have "\<dots> = image_mset ?ix (mset (map snd tws))" by (rule mset_map)
  also have "\<dots> = mset (map ?ix ?D)" unfolding assms(3) by (rule mset_map[symmetric])
  also have "\<dots> = mset [0..<?n]" unfolding upt ..
  finally have ms: "mset (map snd ?xs) = mset [0..<?n]" .
  have once: "all_packets_once ?fd ?xs"
    unfolding all_packets_once_def mset_eq_imp_distinct_iff[OF ms] mset_eq_setD[OF ms] by auto
  have "datagram_input sha256 tok tw = [(case tw of (t, w) \<Rightarrow> (t, DataPacket (packet_of ?fd (?ix w))))]" if tw: "tw \<in> set tws" for tw
  proof -
    obtain t w where p: "tw = (t, w)" by (cases tw)
    have "w \<in> set (map snd tws)" using tw p by force
    then have "w \<in> set ?D" using assms(3) by (metis set_mset_mset)
    then obtain i where "i < ?n" "w = ?D ! i" using len by (metis in_set_conv_nth)
    then show ?thesis using nth[of i] ix[of i] unfolding datagram_input_def p by simp
  qed
  then have "concat (map (datagram_input sha256 tok) tws)
      = concat (map (\<lambda>tw. [case tw of (t, w) \<Rightarrow> (t, DataPacket (packet_of ?fd (?ix w)))]) tws)"
    by (intro arg_cong[where f = concat] map_cong) simp_all
  also have "\<dots> = arrivals ?fd ?xs" by (simp add: arrivals_def concat_map_singleton case_prod_beta)
  finally show ?thesis using once by blast
qed

fun stream_follows :: "u32 option \<Rightarrow> video_frame list \<Rightarrow> bool" where
  "stream_follows l [] = True"
| "stream_follows l (f # fs) =
     ((case l of None \<Rightarrow> True | Some c \<Rightarrow> c < vf_id f \<and> (vf_key f \<or> vf_id f = c + 1)) \<and> stream_follows (Some (vf_id f)) fs)"

lemma frames_follow_desc: "frames_follow l (map (desc_of tok) fs) = stream_follows l fs"
  by (induction fs arbitrary: l) (simp_all add: may_follow_def desc_of_def split: option.split)

lemma streams_arrive:
  assumes "sha_size sha256"
  shows "\<forall>(f, tws) \<in> set fts. sendable tok f \<and> mset (map snd tws) = mset (datagrams_of sha256 tok f) \<Longrightarrow>
    \<exists>fxs. map fst fxs = map (\<lambda>(f, tws). desc_of tok f) fts \<and>
      concat (map (\<lambda>(f, tws). concat (map (datagram_input sha256 tok) tws)) fts) = concat (map (\<lambda>(fd, xs). arrivals fd xs) fxs) \<and>
      (\<forall>(fd, xs) \<in> set fxs. frame_fits_channel fd \<and> all_packets_once fd xs)"
proof (induction fts)
  case (Cons ft fts)
  obtain f tws where ft: "ft = (f, tws)" by (cases ft)
  have h: "sendable tok f" "mset (map snd tws) = mset (datagrams_of sha256 tok f)" using Cons.prems by (auto simp: ft)
  obtain xs where xs: "concat (map (datagram_input sha256 tok) tws) = arrivals (desc_of tok f) xs" "all_packets_once (desc_of tok f) xs"
    using datagrams_arrive[OF assms h] by blast
  obtain fxs where "map fst fxs = map (\<lambda>(f, tws). desc_of tok f) fts"
    "concat (map (\<lambda>(f, tws). concat (map (datagram_input sha256 tok) tws)) fts) = concat (map (\<lambda>(fd, xs). arrivals fd xs) fxs)"
    "\<forall>(fd, xs) \<in> set fxs. frame_fits_channel fd \<and> all_packets_once fd xs"
    using Cons.IH Cons.prems by auto
  then show ?case using xs sendable_fits[OF h(1)] by (intro exI[of _ "(desc_of tok f, xs) # fxs"]) (simp add: ft)
qed simp

section \<open>Properties\<close>

text \<open>C5: End-to-end delivery over EVRT1. A stream of frames that starts anywhere and continues with consecutive ids
  (or with a keyframe), each sent as authenticated datagrams and each frame's datagrams arriving in any order,
  is returned by the reassembler frame by frame: the exact payload (behind the codec configuration, for a
  keyframe), keyframe flag and timestamp.\<close>

theorem evrt1_stream_delivered:
  assumes "sha_size sha256" and "hash_iter iter"
    and "\<forall>(f, tws) \<in> set fts. sendable tok f \<and> mset (map snd tws) = mset (datagrams_of sha256 tok f)"
    and "stream_follows None (map fst fts)"
  shows "\<exists>r outs. feed iter (concat (map (\<lambda>(f, tws). concat (map (datagram_input sha256 tok) tws)) fts))
        (set_codec_config cfg channel_reassembler_new) = (r, outs) \<and>
      list_all2 (\<lambda>(f, tws) out. \<exists>d. out = ((if vf_key f then cfg else []) @ vf_payload f, vf_key f, d, vf_pts f)) fts outs"
proof -
  let ?r = "set_codec_config cfg channel_reassembler_new"
  obtain fxs where fx: "map fst fxs = map (\<lambda>(f, tws). desc_of tok f) fts"
    and eq: "concat (map (\<lambda>(f, tws). concat (map (datagram_input sha256 tok) tws)) fts) = concat (map (\<lambda>(fd, xs). arrivals fd xs) fxs)"
    and ok: "\<forall>(fd, xs) \<in> set fxs. frame_fits_channel fd \<and> all_packets_once fd xs"
    using streams_arrive[OF assms(1,3)] by blast
  have m: "map (\<lambda>(f, tws). desc_of tok f) fts = map (desc_of tok) (map fst fts)" by (simp add: case_prod_beta)
  have fol: "frames_follow None (map fst fxs)" unfolding fx m frames_follow_desc by (rule assms(4))
  have "idle None ?r" by (simp add: idle_def set_codec_config_def channel_reassembler_new_def)
  from feed_stream[OF assms(2) ok fol this] obtain r outs
    where f: "feed iter (concat (map (\<lambda>(fd, xs). arrivals fd xs) fxs)) ?r = (r, outs)"
    and l: "list_all2 (\<lambda>(fd, xs) out. \<exists>d. out = delivered_frame (Some cfg) fd d) fxs outs"
    by (auto simp: set_codec_config_def)
  have out: "delivered_frame (Some cfg) (desc_of tok f) d = ((if vf_key f then cfg else []) @ vf_payload f, vf_key f, d, vf_pts f)" for f d
    by (simp add: delivered_frame_def desc_of_def max_payload_for_pos)
  have "length fxs = length fts" using arg_cong[OF fx, of length] by simp
  moreover have "fst (fxs ! i) = desc_of tok (fst (fts ! i))" if "i < length fts" for i
    using arg_cong[OF fx, of "\<lambda>xs. xs ! i"] that calculation by (simp add: case_prod_beta)
  ultimately have "list_all2 (\<lambda>(f, tws) out. \<exists>d. out = ((if vf_key f then cfg else []) @ vf_payload f, vf_key f, d, vf_pts f)) fts outs"
    using l by (simp add: list_all2_conv_all_nth case_prod_beta out)
  then show ?thesis using f eq by auto
qed

definition demo_frame :: video_frame where
  "demo_frame = \<lparr>vf_id = 7, vf_pts = 9, vf_key = True, vf_payload = replicate 2000 5\<rparr>"

theorem evrt1_stream_delivered_witness:
  "\<exists>r outs. feed id (concat (map (\<lambda>(f, tws). concat (map (datagram_input toy_sha None) tws))
        [(demo_frame, map (Pair (3 :: nat)) (rev (datagrams_of toy_sha None demo_frame)))]))
      (set_codec_config [1] channel_reassembler_new) = (r, outs) \<and>
    list_all2 (\<lambda>(f, tws) out. \<exists>d. out = ((if vf_key f then [1] else []) @ vf_payload f, vf_key f, d, vf_pts f))
      [(demo_frame, map (Pair (3 :: nat)) (rev (datagrams_of toy_sha None demo_frame)))] outs"
proof (rule evrt1_stream_delivered[OF toy_sha_size])
  show "hash_iter id" by (simp add: hash_iter_def)
  have "sendable None demo_frame"
    by (simp add: demo_frame_def sendable_def max_payload_for_def usable_token_def div_ceil_def evrt1_consts)
  then show "\<forall>(f, tws) \<in> set [(demo_frame, map (Pair (3 :: nat)) (rev (datagrams_of toy_sha None demo_frame)))].
      sendable None f \<and> mset (map snd tws) = mset (datagrams_of toy_sha None f)"
    by (simp add: multiset.map_comp o_def)
qed simp

text \<open>Reordering can break the delta chain. The wait for a keyframe ends with the first packet of a keyframe, not with
  its completion. A delta frame of the reorder window that arrives between the packets of the keyframe and
  follows a frame that was completed but discarded is returned: after keyframe 4, frame 5 is lost and
  frame 6 discarded; the first half of keyframe 8 arrives before frame 7, and frame 7 is handed to the decoder
  although its base, frame 6, never was.\<close>

theorem delta_returned_without_its_base:
  "map (\<lambda>(bs, key, d, pts). (bs, key)) (snd (feed id
     [(0, DataPacket (packet_of \<lparr>fd_id = 4, fd_pts = 0, fd_key = True, fd_chunks = [[4]]\<rparr> 0)),
      (0, DataPacket (packet_of \<lparr>fd_id = 6, fd_pts = 0, fd_key = False, fd_chunks = [[6]]\<rparr> 0)),
      (0, DataPacket (packet_of \<lparr>fd_id = 8, fd_pts = 0, fd_key = True, fd_chunks = [[8], [8]]\<rparr> 0)),
      (0, DataPacket (packet_of \<lparr>fd_id = 7, fd_pts = 0, fd_key = False, fd_chunks = [[7]]\<rparr> 0))]
     channel_reassembler_new)) = [([4], True), ([7], False)]"
  by (simp add: on_packet_def channel_reassembler_new_def already_completed_def behind_window_def
      MAX_FRAME_PACKET_COUNT_def advance_window_def drop_older_than_def assemble_packet_def assembly_new_def
      has_part_def reserve_room REASSEMBLY_MAX_BUFFERED_BYTES_def store_part_def set_part_def
      frame_is_complete_def assembly_is_complete_def finalize_frame_def assembly_join_def mark_frame_dropped_def
      saturating_sub_u32_def saturating_add_u32_def REASSEMBLY_REORDER_WINDOW_FRAMES_def try_fec_recover_def Let_def)

end
