(* ===== verification/Adaptive.thy ===== *)
theory Adaptive
  imports Evrt1_Packet Evrt2_Scheduler
begin

text \<open>
  The two feedback controllers of \<^verbatim>\<open>src/src/frame_queue.rs\<close>: \<open>AdaptiveJitter\<close>, which moves the client's
  jitter delay towards a target, and \<open>AdaptiveRelief\<close>, which lets the host lower its bitrate in two steps when
  the client reports strain and raise it again when the client has recovered. Times are nanoseconds;
  the \<open>i32\<close> scores are integers with the wrap-around of a release build written out.
\<close>

section \<open>Jitter controller\<close>

record AdaptiveJitter =
  aj_current_ms :: u32

definition jitter_new :: AdaptiveJitter where
  "jitter_new = \<lparr>aj_current_ms = 0\<rparr>"

fun jitter_target :: "Pressure \<Rightarrow> u32 \<Rightarrow> u32 \<Rightarrow> u64 \<Rightarrow> bool \<Rightarrow> u32" where
  "jitter_target PressureCritical arrival_delta_ms backlog_frames queue_drops cinema_smooth =
     (if cinema_smooth then 16 else 0)"
| "jitter_target PressureHigh arrival_delta_ms backlog_frames queue_drops cinema_smooth =
     (if cinema_smooth then 12 else 4)"
| "jitter_target PressureNormal arrival_delta_ms backlog_frames queue_drops cinema_smooth =
     (if 25 < sint arrival_delta_ms then 8
      else if 1 < backlog_frames \<or> 0 < queue_drops then 4
      else 0)"

definition jitter_update ::
  "AdaptiveJitter \<Rightarrow> Pressure \<Rightarrow> u32 \<Rightarrow> u32 \<Rightarrow> u64 \<Rightarrow> bool \<Rightarrow> AdaptiveJitter \<times> u32" where
  "jitter_update aj pressure arrival_delta_ms backlog_frames queue_drops cinema_smooth =
     (let target = jitter_target pressure arrival_delta_ms backlog_frames queue_drops cinema_smooth;
          cur = aj_current_ms aj;
          cur' = (if target < cur
                  then max (saturating_sub_u32 cur (if pressure = PressureCritical then 4 else 1)) target
                  else if cur < target then min (saturating_add_u32 cur 2) target
                  else cur)
      in (aj\<lparr>aj_current_ms := cur'\<rparr>, cur'))"

definition jitter_as_duration :: "AdaptiveJitter \<Rightarrow> duration" where
  "jitter_as_duration aj = from_millis (unat (aj_current_ms aj))"

section \<open>Relief controller\<close>

record AdaptiveRelief =
  ar_enabled :: bool
  ar_step :: u8
  ar_strain_score :: int
  ar_recovery_score :: int
  ar_last_change_at :: "nat option"
  ar_pending_step :: "u8 option"
  ar_session_start :: nat

definition relief_new :: "nat \<Rightarrow> bool \<Rightarrow> AdaptiveRelief" where
  "relief_new now enabled =
     \<lparr>ar_enabled = enabled, ar_step = 0, ar_strain_score = 0, ar_recovery_score = 0, ar_last_change_at = None,
      ar_pending_step = None, ar_session_start = now\<rparr>"

definition COOLDOWN :: duration where "COOLDOWN = from_millis 1800"
definition GRACE_PERIOD :: duration where "GRACE_PERIOD = 3 * 1000000000"

definition wrap_i32 :: "int \<Rightarrow> int" where
  "wrap_i32 x = (x + 2 ^ 31) mod 2 ^ 32 - 2 ^ 31"

definition decode_behind :: "ReceiverFeedback \<Rightarrow> u32 \<Rightarrow> bool" where
  "decode_behind fb target_fps \<longleftrightarrow> 0 < fb_backlog_frames fb \<and> 10 \<le> fb_decode_fps fb
     \<and> fb_decode_fps fb \<le> max (saturating_sub_u32 target_fps 3) 28"

definition decode_collapsed :: "ReceiverFeedback \<Rightarrow> u32 \<Rightarrow> bool" where
  "decode_collapsed fb target_fps \<longleftrightarrow> 0 < fb_backlog_frames fb \<and> 10 \<le> fb_decode_fps fb
     \<and> fb_decode_fps fb \<le> max (saturating_sub_u32 target_fps 8) 24"

definition present_elevated :: "ReceiverFeedback \<Rightarrow> bool" where
  "present_elevated fb \<longleftrightarrow> 20 \<le> sint (fb_present_delta_ms fb)"

definition present_high :: "ReceiverFeedback \<Rightarrow> bool" where
  "present_high fb \<longleftrightarrow> 26 \<le> sint (fb_present_delta_ms fb)"

definition strained :: "ReceiverFeedback \<Rightarrow> u32 \<Rightarrow> bool" where
  "strained fb target_fps \<longleftrightarrow> fb_pressure fb = PressureCritical \<or> fb_pressure fb = PressureHigh
     \<or> decode_behind fb target_fps \<or> present_elevated fb"

definition severe :: "ReceiverFeedback \<Rightarrow> u32 \<Rightarrow> bool" where
  "severe fb target_fps \<longleftrightarrow> fb_pressure fb = PressureCritical \<or> decode_collapsed fb target_fps \<or> present_high fb"

definition strain_weight :: "ReceiverFeedback \<Rightarrow> u32 \<Rightarrow> int" where
  "strain_weight fb target_fps =
     (if fb_pressure fb = PressureCritical then 3 else if fb_pressure fb = PressureHigh then 2 else 0)
     + (if decode_behind fb target_fps then if decode_collapsed fb target_fps then 3 else 2 else 0)
     + (if present_elevated fb then if present_high fb then 2 else 1 else 0)"

definition update_scores :: "ReceiverFeedback \<Rightarrow> u32 \<Rightarrow> AdaptiveRelief \<Rightarrow> AdaptiveRelief" where
  "update_scores fb target_fps ar =
     (if strained fb target_fps
      then ar\<lparr>ar_strain_score := wrap_i32 (ar_strain_score ar + max (strain_weight fb target_fps) 1),
              ar_recovery_score := 0\<rparr>
      else ar\<lparr>ar_recovery_score := wrap_i32 (ar_recovery_score ar + 1),
              ar_strain_score := max (wrap_i32 (ar_strain_score ar - 1)) 0\<rparr>)"

definition recovered :: "ReceiverFeedback \<Rightarrow> u32 \<Rightarrow> bool" where
  "recovered fb target_fps \<longleftrightarrow> fb_pressure fb = PressureNormal
     \<and> (fb_decode_fps fb = 0 \<or> saturating_sub_u32 target_fps 1 \<le> fb_decode_fps fb)
     \<and> 0 \<le> sint (fb_present_delta_ms fb) \<and> sint (fb_present_delta_ms fb) \<le> 16
     \<and> (sint (fb_input_estimate_ms fb) < 0 \<or> sint (fb_input_estimate_ms fb) \<le> 45)"

definition on_feedback :: "nat \<Rightarrow> ReceiverFeedback \<Rightarrow> u32 \<Rightarrow> AdaptiveRelief \<Rightarrow> AdaptiveRelief \<times> u8 option" where
  "on_feedback now fb target_fps ar =
     (if \<not> ar_enabled ar then (ar, None)
      else if now - ar_session_start ar < GRACE_PERIOD then (ar, None)
      else if (case ar_last_change_at ar of Some t \<Rightarrow> now - t < COOLDOWN | None \<Rightarrow> False) then (ar, None)
      else
        let ar = update_scores fb target_fps ar;
            threshold = (if ar_step ar = 0 then 4 else if severe fb target_fps then 4 else 6 :: int)
        in if ar_step ar < 2 \<and> threshold \<le> ar_strain_score ar
           then let new_step = ar_step ar + 1 in
                (ar\<lparr>ar_pending_step := Some new_step, ar_strain_score := 0, ar_last_change_at := Some now\<rparr>, Some new_step)
           else if 0 < ar_step ar \<and> 10 \<le> ar_recovery_score ar \<and> recovered fb target_fps
           then let new_step = ar_step ar - 1 in
                (ar\<lparr>ar_pending_step := Some new_step, ar_recovery_score := 0, ar_last_change_at := Some now\<rparr>, Some new_step)
           else (ar, None))"

definition bitrate_scale_milli :: "u8 \<Rightarrow> u32" where
  "bitrate_scale_milli step = (if step = 0 then 1000 else if step = 1 then 880 else 800)"

definition apply_pending_milli :: "AdaptiveRelief \<Rightarrow> AdaptiveRelief \<times> u32 option" where
  "apply_pending_milli ar =
     (case ar_pending_step ar of
        None \<Rightarrow> (ar, None)
      | Some step \<Rightarrow> (ar\<lparr>ar_pending_step := None, ar_step := step\<rparr>, Some (bitrate_scale_milli step)))"

section \<open>Executions of the relief controller\<close>

datatype relief_event = FeedbackAt nat ReceiverFeedback u32 "u8 option" | ApplyPending "u32 option"

inductive relief_step :: "AdaptiveRelief \<Rightarrow> relief_event \<Rightarrow> AdaptiveRelief \<Rightarrow> bool" where
  Relief_feedback: "on_feedback now fb fps ar = (ar', res) \<Longrightarrow> relief_step ar (FeedbackAt now fb fps res) ar'"
| Relief_apply: "apply_pending_milli ar = (ar', res) \<Longrightarrow> relief_step ar (ApplyPending res) ar'"

text \<open>The times at which the controller asked for a change, and the scales it applied.\<close>

fun changes :: "relief_event list \<Rightarrow> nat list" where
  "changes [] = []"
| "changes (FeedbackAt now fb fps (Some n) # es) = now # changes es"
| "changes (_ # es) = changes es"

fun scales :: "relief_event list \<Rightarrow> u32 list" where
  "scales [] = []"
| "scales (ApplyPending (Some s) # es) = s # scales es"
| "scales (_ # es) = scales es"

section \<open>Lemmas: jitter\<close>

type_synonym jitter_input = "Pressure \<times> u32 \<times> u32 \<times> u64 \<times> bool"

definition jitter_run :: "jitter_input list \<Rightarrow> AdaptiveJitter \<Rightarrow> AdaptiveJitter" where
  "jitter_run ins aj = fold (\<lambda>(p, ad, bl, qd, cs) aj. fst (jitter_update aj p ad bl qd cs)) ins aj"

definition target_of :: "jitter_input \<Rightarrow> u32" where
  "target_of inp = (case inp of (p, ad, bl, qd, cs) \<Rightarrow> jitter_target p ad bl qd cs)"

lemma unat_saturating_sub: "unat (saturating_sub_u32 a b) = unat a - unat b"
  by (auto simp: saturating_sub_u32_def unat_sub word_le_nat_alt)

lemma unat_saturating_add: "unat a + unat b < 2 ^ 32 \<Longrightarrow> unat (saturating_add_u32 a b) = unat a + unat b"
  by (simp add: saturating_add_u32_def unat_word_ariths)

lemma jitter_target_bound: "unat (jitter_target p ad bl qd cs) \<le> 16"
  by (cases p) simp_all

lemma unat_max: "unat (max a b) = max (unat a) (unat b)" for a b :: u32
  by (simp add: max_def word_le_nat_alt)

lemma unat_min: "unat (min a b) = min (unat a) (unat b)" for a b :: u32
  by (simp add: min_def word_le_nat_alt)

text \<open>One update on natural numbers: the delay moves towards the target and never past it.\<close>

lemma jitter_update_nat:
  fixes aj p ad bl qd cs
  defines "c \<equiv> unat (aj_current_ms aj)" and "tgt \<equiv> unat (jitter_target p ad bl qd cs)"
    and "c' \<equiv> unat (aj_current_ms (fst (jitter_update aj p ad bl qd cs)))"
  assumes "c \<le> 16"
  shows "c' \<le> 16" and "c = tgt \<Longrightarrow> c' = tgt" and "c < tgt \<Longrightarrow> c < c' \<and> c' \<le> tgt" and "tgt < c \<Longrightarrow> c' < c \<and> tgt \<le> c'"
proof -
  let ?d = "if p = PressureCritical then 4 else 1 :: u32"
  have c': "c' = (if tgt < c then max (c - unat ?d) tgt else if c < tgt then min (c + 2) tgt else c)"
    using assms(4) unfolding c'_def c_def tgt_def
    by (simp add: jitter_update_def Let_def unat_max unat_min unat_saturating_sub unat_saturating_add word_less_nat_alt)
  have t: "tgt \<le> 16" unfolding tgt_def by (rule jitter_target_bound)
  show "c' \<le> 16" "c = tgt \<Longrightarrow> c' = tgt" "c < tgt \<Longrightarrow> c < c' \<and> c' \<le> tgt" "tgt < c \<Longrightarrow> c' < c \<and> tgt \<le> c'"
    using assms(4) t by (auto simp: c')
qed

lemma jitter_run_bound: "unat (aj_current_ms aj) \<le> 16 \<Longrightarrow> unat (aj_current_ms (jitter_run ins aj)) \<le> 16"
  by (induction ins arbitrary: aj) (auto simp: jitter_run_def jitter_update_nat(1))

lemma jitter_run_same:
  "unat (aj_current_ms aj) \<le> 16 \<Longrightarrow>
   unat (aj_current_ms aj) \<le> unat (target_of inp) + n \<Longrightarrow> unat (target_of inp) \<le> unat (aj_current_ms aj) + n \<Longrightarrow>
   aj_current_ms (jitter_run (replicate n inp) aj) = target_of inp"
proof (induction n arbitrary: aj)
  case 0
  then have "unat (aj_current_ms aj) = unat (target_of inp)" by simp
  then show ?case by (simp add: jitter_run_def word_unat_eq_iff)
next
  case (Suc n)
  obtain p ad bl qd cs where inp: "inp = (p, ad, bl, qd, cs)" by (cases inp)
  let ?aj = "fst (jitter_update aj p ad bl qd cs)"
  note u = jitter_update_nat[OF Suc.prems(1), of p ad bl qd cs]
  have "unat (aj_current_ms ?aj) \<le> unat (target_of inp) + n \<and> unat (target_of inp) \<le> unat (aj_current_ms ?aj) + n"
    using u(2-4) Suc.prems(2,3)
    by (cases "unat (aj_current_ms aj)" "unat (jitter_target p ad bl qd cs)" rule: linorder_cases)
      (auto simp: target_of_def inp)
  then show ?case using Suc.IH[of ?aj] u(1) by (simp add: jitter_run_def inp)
qed

section \<open>Lemmas: relief\<close>

definition relief_inv :: "AdaptiveRelief \<Rightarrow> bool" where
  "relief_inv ar \<longleftrightarrow> ar_step ar \<le> 2 \<and>
     (\<forall>p. ar_pending_step ar = Some p \<longrightarrow> p \<le> 2 \<and> (p = ar_step ar + 1 \<or> ar_step ar = p + 1))"

definition adjacent_scales :: "u32 \<Rightarrow> u32 \<Rightarrow> bool" where
  "adjacent_scales a b \<longleftrightarrow> (a, b) \<in> {(1000, 880), (880, 800), (800, 880), (880, 1000)}"

lemma update_scores_fields [simp]:
  "ar_step (update_scores fb fps ar) = ar_step ar" "ar_pending_step (update_scores fb fps ar) = ar_pending_step ar"
  "ar_last_change_at (update_scores fb fps ar) = ar_last_change_at ar"
  "ar_session_start (update_scores fb fps ar) = ar_session_start ar" "ar_enabled (update_scores fb fps ar) = ar_enabled ar"
  by (simp_all add: update_scores_def)

lemma small_step_cases: "s \<le> 2 \<Longrightarrow> s = 0 \<or> s = 1 \<or> s = 2" for s :: u8
proof -
  assume "s \<le> 2"
  then have "unat s \<le> 2" by (simp add: word_le_nat_alt)
  then have "unat s = 0 \<or> unat s = 1 \<or> unat s = 2" by linarith
  then show ?thesis by (simp add: word_unat_eq_iff)
qed

lemma on_feedback_change:
  assumes "relief_inv ar" "on_feedback now fb fps ar = (ar', res)"
  shows "relief_inv ar' \<and> ar_step ar' = ar_step ar \<and> ar_session_start ar' = ar_session_start ar \<and> ar_enabled ar' = ar_enabled ar \<and>
    (case res of
       None \<Rightarrow> ar_last_change_at ar' = ar_last_change_at ar
     | Some n \<Rightarrow> ar_last_change_at ar' = Some now \<and> ar_enabled ar \<and> ar_session_start ar + GRACE_PERIOD \<le> now
         \<and> (\<forall>t. ar_last_change_at ar = Some t \<longrightarrow> t + COOLDOWN \<le> now))"
proof -
  have pos: "0 < GRACE_PERIOD" "0 < COOLDOWN" by (simp_all add: GRACE_PERIOD_def COOLDOWN_def from_millis_def)
  have s: "ar_step ar = 0 \<or> ar_step ar = 1 \<or> ar_step ar = 2"
    using assms(1) small_step_cases by (auto simp: relief_inv_def)
  show ?thesis
    using assms pos s by (auto simp: on_feedback_def Let_def relief_inv_def not_less split: if_splits option.splits)
qed

lemma apply_pending_change:
  assumes "relief_inv ar" "apply_pending_milli ar = (ar', res)"
  shows "relief_inv ar' \<and> ar_session_start ar' = ar_session_start ar \<and> ar_enabled ar' = ar_enabled ar \<and>
    ar_last_change_at ar' = ar_last_change_at ar \<and>
    (case res of
       None \<Rightarrow> ar_step ar' = ar_step ar
     | Some s \<Rightarrow> s = bitrate_scale_milli (ar_step ar') \<and> adjacent_scales (bitrate_scale_milli (ar_step ar)) s)"
proof (cases "ar_pending_step ar")
  case (Some p)
  have "ar_step ar = 0 \<or> ar_step ar = 1 \<or> ar_step ar = 2" "p = 0 \<or> p = 1 \<or> p = 2" "p = ar_step ar + 1 \<or> ar_step ar = p + 1"
    using assms(1) Some small_step_cases by (auto simp: relief_inv_def)
  then show ?thesis using assms(2) Some
    by (auto simp: apply_pending_milli_def relief_inv_def bitrate_scale_milli_def adjacent_scales_def)
qed (use assms in \<open>auto simp: apply_pending_milli_def\<close>)

lemma relief_steps:
  "steps relief_step ar es ar' \<Longrightarrow> relief_inv ar \<Longrightarrow>
   successively adjacent_scales (bitrate_scale_milli (ar_step ar) # scales es) \<and>
   successively (\<lambda>a b. a + COOLDOWN \<le> b) ((case ar_last_change_at ar of Some t \<Rightarrow> [t] | None \<Rightarrow> []) @ changes es) \<and>
   (\<forall>t \<in> set (changes es). ar_enabled ar \<and> ar_session_start ar + GRACE_PERIOD \<le> t) \<and> ar_step ar' \<le> 2"
proof (induction rule: steps.induct)
  case (steps_Nil ar)
  then show ?case by (auto simp: relief_inv_def split: option.splits)
next
  case (steps_Cons ar e ar1 es ar2)
  from steps_Cons.hyps(1) show ?case
  proof cases
    case (Relief_feedback now fb fps res)
    note c = on_feedback_change[OF steps_Cons.prems Relief_feedback(2)]
    then have ih: "successively adjacent_scales (bitrate_scale_milli (ar_step ar1) # scales es) \<and>
        successively (\<lambda>a b. a + COOLDOWN \<le> b) ((case ar_last_change_at ar1 of Some t \<Rightarrow> [t] | None \<Rightarrow> []) @ changes es) \<and>
        (\<forall>t \<in> set (changes es). ar_enabled ar1 \<and> ar_session_start ar1 + GRACE_PERIOD \<le> t) \<and> ar_step ar2 \<le> 2"
      using steps_Cons.IH by blast
    show ?thesis
    proof (cases res)
      case None
      then show ?thesis using c ih by (simp add: Relief_feedback(1))
    next
      case (Some n)
      then show ?thesis using c ih by (cases "ar_last_change_at ar") (auto simp: Relief_feedback(1))
    qed
  next
    case (Relief_apply res)
    note c = apply_pending_change[OF steps_Cons.prems Relief_apply(2)]
    then show ?thesis using steps_Cons.IH
      by (cases res) (auto simp: Relief_apply(1))
  qed
qed

section \<open>Properties\<close>

text \<open>C40: The jitter controller is bounded and converges. From a fresh controller, after any sequence of reports the
  delay is at most 16 ms, and sixteen further identical reports bring it exactly to the target of those reports.\<close>

theorem jitter_bounded_and_converges:
  "unat (aj_current_ms (jitter_run ins jitter_new)) \<le> 16 \<and>
   aj_current_ms (jitter_run (replicate 16 inp) (jitter_run ins jitter_new)) = target_of inp"
proof -
  let ?aj = "jitter_run ins jitter_new"
  have b: "unat (aj_current_ms ?aj) \<le> 16" by (rule jitter_run_bound) (simp add: jitter_new_def)
  moreover have "unat (target_of inp) \<le> 16" by (cases inp) (simp add: target_of_def jitter_target_bound)
  ultimately show ?thesis using jitter_run_same[OF b, of inp 16] by simp
qed

text \<open>The relief controller is stable. In every interleaving of client reports and applications on a fresh
  controller, the bitrate scale starts at 1000 and moves one notch at a time between 1000, 880 and 800, two
  requested changes are at least 1.8 seconds apart, none is requested in the first three seconds and none at all when the
  controller is disabled.\<close>

theorem relief_changes_are_gradual:
  assumes "steps relief_step (relief_new t0 enabled) es ar"
  shows "successively adjacent_scales (1000 # scales es) \<and> ar_step ar \<le> 2 \<and>
    successively (\<lambda>a b. a + COOLDOWN \<le> b) (changes es) \<and>
    (\<forall>t \<in> set (changes es). enabled \<and> t0 + GRACE_PERIOD \<le> t)"
proof -
  have "relief_inv (relief_new t0 enabled)" by (simp add: relief_inv_def relief_new_def)
  from relief_steps[OF assms this] show ?thesis by (simp add: relief_new_def bitrate_scale_milli_def)
qed

definition strained_feedback :: ReceiverFeedback where
  "strained_feedback = \<lparr>fb_pressure = PressureCritical, fb_backlog_frames = 3, fb_queue_drops = 0, fb_decode_fps = 12,
     fb_assembly_delay_ms = 0, fb_arrival_delta_ms = 0, fb_decode_delta_ms = 0, fb_present_delta_ms = 30,
     fb_pulse_estimate_ms = 0, fb_input_estimate_ms = 0, fb_max_width = 0, fb_max_height = 0\<rparr>"

theorem relief_changes_are_gradual_witness:
  "\<exists>ar. steps relief_step (relief_new 0 True)
     [FeedbackAt GRACE_PERIOD strained_feedback 60 (Some 1), ApplyPending (Some 880)] ar \<and>
     successively adjacent_scales [1000, 880] \<and> ar_step ar \<le> 2"
proof -
  let ?a = "fst (on_feedback GRACE_PERIOD strained_feedback 60 (relief_new 0 True))"
  have f: "on_feedback GRACE_PERIOD strained_feedback 60 (relief_new 0 True) = (?a, Some 1)" "ar_pending_step ?a = Some 1"
    by (simp_all add: on_feedback_def relief_new_def update_scores_def strained_def strain_weight_def
        strained_feedback_def decode_behind_def decode_collapsed_def present_elevated_def present_high_def
        saturating_sub_u32_def wrap_i32_def)
  have g: "apply_pending_milli ?a = (fst (apply_pending_milli ?a), Some 880)"
    using f(2) by (simp add: apply_pending_milli_def bitrate_scale_milli_def)
  have s: "steps relief_step (relief_new 0 True)
     [FeedbackAt GRACE_PERIOD strained_feedback 60 (Some 1), ApplyPending (Some 880)] (fst (apply_pending_milli ?a))"
    by (rule steps_Cons[of relief_step, OF Relief_feedback[OF f(1)]
          steps_Cons[of relief_step, OF Relief_apply[OF g] steps_Nil[of relief_step]]])
  show ?thesis using relief_changes_are_gradual[OF s] by (intro exI[of _ "fst (apply_pending_milli ?a)"] conjI s) simp_all
qed

end
