(* ===== verification/Evrtck_Zrle.thy ===== *)
theory Evrtck_Zrle
  imports Prelude
begin

text \<open>
  The zero-run codec of \<^verbatim>\<open>src/src/evrtck.rs\<close> (\<open>zrle_encode\<close>, \<open>zrle_decode\<close>), which the screen codec uses for
  XOR deltas, and the codec's error type. The loops over an index \<open>i\<close> into \<open>src\<close> are recursions on the
  rest of the input \<open>src[i..]\<close>. The word-at-a-time zero scan is modelled as written and proved
  equal to counting the leading zero bytes.
\<close>

section \<open>Errors\<close>

datatype EvrtckError =
  InvalidMagic
| UnsupportedVersion u8
| TruncatedData
| DimensionMismatch "u32 \<times> u32" "u32 \<times> u32"
| InvalidTileMode u8
| InvalidDelta
| InvalidTileIndex u16

section \<open>Encoder\<close>

definition ZRLE_MIN_RUN :: nat where "ZRLE_MIN_RUN = 4"

text \<open>The scan over whole \<open>u64\<close> words: how many bytes it skips. \<open>from_ne_bytes\<close> is little endian; only
  the comparison with zero matters.\<close>

function zero_words :: "bytes \<Rightarrow> nat" where
  "zero_words xs = (if 8 \<le> length xs \<and> (le_word (take 8 xs) :: u64) = 0 then 8 + zero_words (drop 8 xs) else 0)"
  by pat_completeness auto
termination by (relation "measure length") auto

declare zero_words.simps [simp del]

fun zero_bytes :: "bytes \<Rightarrow> nat" where
  "zero_bytes [] = 0"
| "zero_bytes (b # bs) = (if b = 0 then Suc (zero_bytes bs) else 0)"

definition zero_scan :: "bytes \<Rightarrow> nat" where
  "zero_scan xs = (let z = zero_words xs in z + zero_bytes (drop z xs))"

function emit_zeros :: "nat \<Rightarrow> bytes" where
  "emit_zeros rem =
     (if rem = 0 then []
      else let n = min rem 65535 in [0] @ le_bytes 2 (of_nat n :: u16) @ emit_zeros (rem - n))"
  by pat_completeness auto
termination by (relation "measure id") auto

declare emit_zeros.simps [simp del]

text \<open>The inner \<open>loop\<close>: the length of the literal run, up to the next zero run worth a token.\<close>

fun literal_len :: "bytes \<Rightarrow> nat" where
  "literal_len [] = 0"
| "literal_len (b # bs) = (if b = 0 \<and> ZRLE_MIN_RUN \<le> zero_scan (b # bs) then 0 else Suc (literal_len bs))"

function emit_literals :: "bytes \<Rightarrow> bytes" where
  "emit_literals lit =
     (if lit = [] then []
      else let n = min (length lit) 65535 in
           [1] @ le_bytes 2 (of_nat n :: u16) @ take n lit @ emit_literals (drop n lit))"
  by pat_completeness auto
termination by (relation "measure length") auto

declare emit_literals.simps [simp del]

section \<open>The fast zero scan is exact\<close>

lemma be_word_eq_0: "length bs * 8 \<le> LENGTH('a) \<Longrightarrow> (be_word bs :: 'a::len word) = 0 \<longleftrightarrow> (\<forall>b \<in> set bs. b = 0)"
proof
  assume len: "length bs * 8 \<le> LENGTH('a)" and z: "(be_word bs :: 'a word) = 0"
  have "be_bytes (length bs) (be_word bs :: 'a word) = bs" using len by (simp add: be_bytes_be_word mult.commute)
  then have "bs = be_bytes (length bs) (0 :: 'a word)" using z by simp
  then show "\<forall>b \<in> set bs. b = 0" by (auto simp: be_bytes_def dest: arg_cong[where f = set])
next
  assume "\<forall>b \<in> set bs. b = 0"
  then have "foldl (\<lambda>a b. push_bit 8 a OR ucast b) (0 :: 'a word) bs = 0"
    by (induction bs) (simp_all add: push_bit_of_0)
  then show "(be_word bs :: 'a word) = 0" by (simp add: be_word_def be_word_from_def)
qed

lemma zero_bytes_takeWhile: "zero_bytes xs = length (takeWhile (\<lambda>b. b = 0) xs)"
  by (induction xs) auto

lemma zero_bytes_append: "\<forall>b \<in> set xs. b = 0 \<Longrightarrow> zero_bytes (xs @ ys) = length xs + zero_bytes ys"
  by (induction xs) auto

lemma zero_scan_eq: "zero_scan xs = zero_bytes xs"
proof (induction xs rule: zero_words.induct)
  case (1 xs)
  show ?case
  proof (cases "8 \<le> length xs \<and> (le_word (take 8 xs) :: u64) = 0")
    case True
    then have z: "\<forall>b \<in> set (take 8 xs). b = 0"
      using be_word_eq_0[of "rev (take 8 xs)", where 'a = 64] by (simp add: le_word_def)
    have "zero_scan xs = 8 + zero_scan (drop 8 xs)"
      using True by (simp add: zero_scan_def zero_words.simps[of xs] Let_def add.commute)
    also have "\<dots> = length (take 8 xs) + zero_bytes (drop 8 xs)" using 1 True by simp
    also have "\<dots> = zero_bytes xs" using zero_bytes_append[OF z, of "drop 8 xs"] by simp
    finally show ?thesis .
  next
    case False
    then have "zero_words xs = 0" by (simp add: zero_words.simps[of xs])
    then show ?thesis by (simp add: zero_scan_def)
  qed
qed

lemma literal_len_pos: "xs \<noteq> [] \<Longrightarrow> zero_scan xs < ZRLE_MIN_RUN \<Longrightarrow> 0 < literal_len xs"
  by (cases xs) auto

lemma literal_len_le: "literal_len xs \<le> length xs"
  by (induction xs) auto

section \<open>The codec\<close>

function zrle_encode :: "bytes \<Rightarrow> bytes" where
  "zrle_encode src =
     (if src = [] then []
      else let zeros = zero_scan src in
      if ZRLE_MIN_RUN \<le> zeros \<or> (0 < zeros \<and> zeros = length src)
      then emit_zeros zeros @ zrle_encode (drop zeros src)
      else let lit_len = literal_len src in
           (if 0 < lit_len then emit_literals (take lit_len src) else []) @ zrle_encode (drop lit_len src))"
  by pat_completeness auto
termination
proof (relation "measure length")
  fix src :: bytes and zeros
  assume "src \<noteq> []" "zeros = zero_scan src" "ZRLE_MIN_RUN \<le> zeros \<or> 0 < zeros \<and> zeros = length src"
  then show "(drop zeros src, src) \<in> measure length" by (auto simp: ZRLE_MIN_RUN_def)
next
  fix src :: bytes and zeros lit_len
  assume "src \<noteq> []" "zeros = zero_scan src" "\<not> (ZRLE_MIN_RUN \<le> zeros \<or> 0 < zeros \<and> zeros = length src)"
    and "lit_len = literal_len src"
  then show "(drop lit_len src, src) \<in> measure length" using literal_len_pos[of src] by auto
qed simp

declare zrle_encode.simps [simp del]

text \<open>The decoder with the output collected so far.\<close>

function zrle_decode_loop :: "bytes \<Rightarrow> bytes \<Rightarrow> EvrtckError + bytes" where
  "zrle_decode_loop src out =
     (case src of
        [] \<Rightarrow> Inr out
      | tag # src1 \<Rightarrow>
          if tag = 0 then
            if length src1 < 2 then Inl InvalidDelta
            else zrle_decode_loop (drop 2 src1) (out @ replicate (unat (le_word (take 2 src1) :: u16)) 0)
          else if tag = 1 then
            if length src1 < 2 then Inl InvalidDelta
            else let len = unat (le_word (take 2 src1) :: u16); src2 = drop 2 src1 in
                 if length src2 < len then Inl InvalidDelta
                 else zrle_decode_loop (drop len src2) (out @ take len src2)
          else Inl InvalidDelta)"
  by pat_completeness auto
termination by (relation "measure (length \<circ> fst)") auto

declare zrle_decode_loop.simps [simp del]

definition zrle_decode :: "bytes \<Rightarrow> EvrtckError + bytes" where
  "zrle_decode src = zrle_decode_loop src []"

section \<open>Lemmas: tokens\<close>

lemma decode_zero_token:
  "zrle_decode_loop (0 # le_bytes 2 (n :: u16) @ rest) out = zrle_decode_loop rest (out @ replicate (unat n) 0)"
  by (subst zrle_decode_loop.simps) simp

lemma decode_literal_token:
  "length lit = unat n \<Longrightarrow>
   zrle_decode_loop (1 # le_bytes 2 (n :: u16) @ lit @ rest) out = zrle_decode_loop rest (out @ lit)"
  by (subst zrle_decode_loop.simps) (simp add: Let_def)

lemma decode_emit_zeros: "zrle_decode_loop (emit_zeros k @ rest) out = zrle_decode_loop rest (out @ replicate k 0)"
proof (induction k arbitrary: out rule: emit_zeros.induct)
  case (1 k)
  show ?case
  proof (cases "k = 0")
    case True
    then show ?thesis by (simp add: emit_zeros.simps)
  next
    case False
    let ?n = "min k 65535"
    have n: "unat (of_nat ?n :: u16) = ?n" by (rule unat_of_nat_u16) simp
    have "replicate ?n (0 :: u8) @ replicate (k - ?n) 0 = replicate k 0" by (simp flip: replicate_add)
    then show ?thesis using False 1[OF False refl]
      by (subst emit_zeros.simps) (simp add: Let_def decode_zero_token n del: min.bounded_iff)
  qed
qed

lemma decode_emit_literals: "zrle_decode_loop (emit_literals lit @ rest) out = zrle_decode_loop rest (out @ lit)"
proof (induction lit arbitrary: out rule: emit_literals.induct)
  case (1 lit)
  show ?case
  proof (cases "lit = []")
    case True
    then show ?thesis by (simp add: emit_literals.simps)
  next
    case False
    let ?n = "min (length lit) 65535"
    have n: "unat (of_nat ?n :: u16) = ?n" by (rule unat_of_nat_u16) simp
    have "zrle_decode_loop (emit_literals lit @ rest) out
        = zrle_decode_loop (1 # le_bytes 2 (of_nat ?n :: u16) @ take ?n lit @ (emit_literals (drop ?n lit) @ rest)) out"
      using False by (subst emit_literals.simps) (simp add: Let_def)
    also have "\<dots> = zrle_decode_loop (emit_literals (drop ?n lit) @ rest) (out @ take ?n lit)"
      by (rule decode_literal_token) (simp add: n)
    also have "\<dots> = zrle_decode_loop rest ((out @ take ?n lit) @ drop ?n lit)" by (rule 1[OF False refl])
    finally show ?thesis by simp
  qed
qed

lemma zero_scan_replicate: "take (zero_scan xs) xs = replicate (zero_scan xs) 0" "zero_scan xs \<le> length xs"
  unfolding zero_scan_eq by (induction xs) auto

lemma zrle_decode_loop_encode: "zrle_decode_loop (zrle_encode src @ rest) out = zrle_decode_loop rest (out @ src)"
proof (induction src arbitrary: out rule: zrle_encode.induct)
  case (1 src)
  show ?case
  proof (cases "src = []")
    case False
    let ?z = "zero_scan src" and ?l = "literal_len src"
    show ?thesis
    proof (cases "ZRLE_MIN_RUN \<le> ?z \<or> (0 < ?z \<and> ?z = length src)")
      case True
      have e: "zrle_encode src = emit_zeros ?z @ zrle_encode (drop ?z src)"
        unfolding zrle_encode.simps[of src] Let_def if_not_P[OF False] if_P[OF True] ..
      have "zrle_decode_loop (zrle_encode src @ rest) out
          = zrle_decode_loop (zrle_encode (drop ?z src) @ rest) (out @ replicate ?z 0)"
        unfolding e append_assoc by (rule decode_emit_zeros)
      also have "\<dots> = zrle_decode_loop rest ((out @ replicate ?z 0) @ drop ?z src)" by (rule 1(1)[OF False refl True])
      finally show ?thesis unfolding zero_scan_replicate(1)[symmetric] by simp
    next
      case run: False
      have e: "zrle_encode src = (if 0 < ?l then emit_literals (take ?l src) else []) @ zrle_encode (drop ?l src)"
        unfolding zrle_encode.simps[of src] Let_def if_not_P[OF False] if_not_P[OF run] ..
      have "zrle_decode_loop (zrle_encode src @ rest) out
          = zrle_decode_loop (zrle_encode (drop ?l src) @ rest) (out @ take ?l src)"
        unfolding e by (simp add: decode_emit_literals)
      also have "\<dots> = zrle_decode_loop rest ((out @ take ?l src) @ drop ?l src)" by (rule 1(2)[OF False refl run refl])
      finally show ?thesis by simp
    qed
  qed (simp add: zrle_encode.simps)
qed

section \<open>Lemmas: size\<close>

lemma length_emit_zeros: "length (emit_zeros k) \<le> 3 * k"
proof (induction k rule: emit_zeros.induct)
  case (1 k)
  show ?case
  proof (cases "k = 0")
    case False
    then have "length (emit_zeros k) = 3 + length (emit_zeros (k - min k 65535))"
      by (subst emit_zeros.simps) (simp add: Let_def)
    then show ?thesis using 1[OF False refl] False by (simp add: min_def split: if_splits)
  qed (simp add: emit_zeros.simps)
qed

lemma length_emit_literals: "length (emit_literals lit) \<le> 4 * length lit"
proof (induction lit rule: emit_literals.induct)
  case (1 lit)
  show ?case
  proof (cases "lit = []")
    case False
    let ?n = "min (length lit) 65535"
    have "length (emit_literals lit) = 3 + ?n + length (emit_literals (drop ?n lit))"
      using False by (subst emit_literals.simps) (simp add: Let_def)
    moreover have "1 \<le> ?n" using False by (cases lit) auto
    ultimately show ?thesis using 1[OF False refl] by (simp add: min_def split: if_splits)
  qed (simp add: emit_literals.simps)
qed

lemma length_zrle_encode: "length (zrle_encode src) \<le> 4 * length src"
proof (induction src rule: zrle_encode.induct)
  case (1 src)
  show ?case
  proof (cases "src = []")
    case False
    let ?z = "zero_scan src" and ?l = "literal_len src"
    have le: "?z \<le> length src" "?l \<le> length src" by (simp_all add: zero_scan_replicate(2) literal_len_le)
    show ?thesis
    proof (cases "ZRLE_MIN_RUN \<le> ?z \<or> (0 < ?z \<and> ?z = length src)")
      case True
      show ?thesis
        unfolding zrle_encode.simps[of src] Let_def if_not_P[OF False] if_P[OF True]
        using 1(1)[OF False refl True] length_emit_zeros[of ?z] le(1) by simp
    next
      case run: False
      show ?thesis
        unfolding zrle_encode.simps[of src] Let_def if_not_P[OF False] if_not_P[OF run]
        using 1(2)[OF False refl run refl] length_emit_literals[of "take ?l src"] le(2) by auto
    qed
  qed (simp add: zrle_encode.simps)
qed

section \<open>Properties\<close>

text \<open>C37: The zero-run codec is lossless. Every byte string is decoded back from its encoding, which is at most four
  times as long (and never fails to decode).\<close>

theorem zrle_roundtrip: "zrle_decode (zrle_encode src) = Inr src \<and> length (zrle_encode src) \<le> 4 * length src"
  using zrle_decode_loop_encode[of src "[]" "[]"] length_zrle_encode[of src]
  by (simp add: zrle_decode_def zrle_decode_loop.simps)

text \<open>The optimised zero scan, which skips eight bytes at a time by comparing \<open>u64\<close> words, counts exactly the leading
  zero bytes.\<close>

theorem zero_scan_equivalent: "zero_scan xs = length (takeWhile (\<lambda>b. b = 0) xs)"
  by (simp add: zero_scan_eq zero_bytes_takeWhile)

end
