(* ===== verification/Evrtck_Tile.thy ===== *)
theory Evrtck_Tile
  imports Evrtck_Zrle
begin

text \<open>
  Tiles of the screen codec of \<^verbatim>\<open>src/src/evrtck.rs\<close>: the 32x32 grid, dirty detection, the encoding of one
  tile (solid colour, ZRLE or zstd of the pixels or of the XOR delta, with the BGRA to RGBA swap), and its
  decoding and application to the framebuffer. A framebuffer is its byte list, addressed as in the code. The zstd
  crate is the pair of parameters \<open>zenc\<close> (\<open>encode_all\<close> at level 1, \<open>None\<close> for an error) and \<open>zdec\<close>
  (\<open>decode_all\<close>). Slices are read under the documented contract that the buffer has \<open>width * height * 4\<close> bytes.
\<close>

section \<open>Definitions\<close>

definition TILE_SIZE :: nat where "TILE_SIZE = 32"
definition MODE_SOLID :: u8 where "MODE_SOLID = 1"
definition MODE_DELTA :: u8 where "MODE_DELTA = 2"
definition MODE_ZSTD :: u8 where "MODE_ZSTD = 3"

definition tiles_in_dim :: "nat \<Rightarrow> nat" where
  "tiles_in_dim px = (px + TILE_SIZE - 1) div TILE_SIZE"

text \<open>\<open>(x0, y0, x1, y1)\<close> of a tile.\<close>

definition tile_rect :: "nat \<Rightarrow> nat \<Rightarrow> nat \<Rightarrow> nat \<Rightarrow> nat \<times> nat \<times> nat \<times> nat" where
  "tile_rect width height tx ty =
     (let x0 = tx * TILE_SIZE; y0 = ty * TILE_SIZE
      in (x0, y0, min (x0 + TILE_SIZE) width, min (y0 + TILE_SIZE) height))"

definition tile_is_dirty :: "bytes \<Rightarrow> bytes \<Rightarrow> nat \<Rightarrow> nat \<Rightarrow> nat \<Rightarrow> nat \<Rightarrow> bool" where
  "tile_is_dirty rgba prev width height tx ty =
     (let (x0, y0, x1, y1) = tile_rect width height tx ty in
      if x1 - x0 = TILE_SIZE
      then list_ex (\<lambda>y. let base = (y * width + x0) * 4 in
             subslice base (base + TILE_SIZE * 4) rgba \<noteq> subslice base (base + TILE_SIZE * 4) prev) [y0..<y1]
      else list_ex (\<lambda>y. let base = (y * width + x0) * 4; stop = base + (x1 - x0) * 4 in
             subslice base stop rgba \<noteq> subslice base stop prev) [y0..<y1])"

text \<open>One row of the gather loops: the channel swap of the bytes \<open>f\<close> reads.\<close>

definition gather_row :: "(nat \<Rightarrow> u8) \<Rightarrow> nat \<Rightarrow> nat \<Rightarrow> bytes" where
  "gather_row f row tw = concat (map (\<lambda>x. let i = row + x * 4 in [f (i + 2), f (i + 1), f i, f (i + 3)]) [0..<tw])"

definition gather_tile :: "(nat \<Rightarrow> u8) \<Rightarrow> nat \<Rightarrow> nat \<Rightarrow> nat \<Rightarrow> nat \<Rightarrow> nat \<Rightarrow> bytes" where
  "gather_tile f width x0 y0 x1 y1 = concat (map (\<lambda>y. gather_row f ((y * width + x0) * 4) (x1 - x0)) [y0..<y1])"

text \<open>The solid test; \<open>u32::from_ne_bytes\<close> is a bijection, so pixels are compared as their four bytes.\<close>

definition tile_is_solid :: "bytes \<Rightarrow> nat \<Rightarrow> nat \<Rightarrow> nat \<Rightarrow> nat \<Rightarrow> nat \<Rightarrow> bool" where
  "tile_is_solid rgba width x0 y0 x1 y1 =
     (let base0 = (y0 * width + x0) * 4; first = subslice base0 (base0 + 4) rgba; tw = x1 - x0 in
      list_all (\<lambda>y. let row = (y * width + x0) * 4 in
        list_all (\<lambda>p. p = first) (chunks 4 (subslice row (row + tw * 4) rgba))) [y0..<y1])"

definition unwrap_or_default :: "bytes option \<Rightarrow> bytes" where
  "unwrap_or_default r = (case r of Some b \<Rightarrow> b | None \<Rightarrow> [])"

definition encode_tile_buf ::
  "(bytes \<Rightarrow> bytes option) \<Rightarrow> bytes \<Rightarrow> bytes \<Rightarrow> nat \<Rightarrow> nat \<Rightarrow> nat \<Rightarrow> nat \<Rightarrow> bool \<Rightarrow> bytes \<times> u8" where
  "encode_tile_buf zenc rgba prev width height tx ty is_keyframe =
     (let (x0, y0, x1, y1) = tile_rect width height tx ty;
          tw = x1 - x0; th = y1 - y0; pixel_bytes = tw * th * 4;
          base0 = (y0 * width + x0) * 4 in
      if tile_is_solid rgba width x0 y0 x1 y1 then
        let p = subslice base0 (base0 + 4) rgba
        in ([MODE_SOLID, p ! 2, p ! 1, p ! 0, p ! 3], MODE_SOLID)
      else if is_keyframe then
        let tile = gather_tile (\<lambda>i. rgba ! i) width x0 y0 x1 y1;
            compressed = unwrap_or_default (zenc tile)
        in ([MODE_ZSTD] @ le_bytes 4 (of_nat (length compressed) :: u32) @ compressed, MODE_ZSTD)
      else
        let delta = gather_tile (\<lambda>i. rgba ! i XOR prev ! i) width x0 y0 x1 y1;
            zrle = zrle_encode delta;
            z = unwrap_or_default (zenc delta)
        in if length zrle * 4 > pixel_bytes * 3 \<and> z \<noteq> [] \<and> length z < length zrle
           then ([MODE_ZSTD] @ le_bytes 4 (of_nat (length z) :: u32) @ z, MODE_ZSTD)
           else ([MODE_DELTA] @ le_bytes 4 (of_nat (length zrle) :: u32) @ zrle, MODE_DELTA))"

datatype TilePixels = Solid bytes | Delta bytes

text \<open>The last branch is \<open>unreachable!()\<close> in the code: the mode was checked when the entry was read.\<close>

definition decompress_tile :: "(bytes \<Rightarrow> bytes option) \<Rightarrow> bytes \<Rightarrow> u8 \<Rightarrow> EvrtckError + TilePixels" where
  "decompress_tile zdec d mode =
     (if mode = MODE_SOLID then Inr (Solid [d ! 0, d ! 1, d ! 2, d ! 3])
      else if mode = MODE_DELTA then
        (case zrle_decode d of Inl e \<Rightarrow> Inl e | Inr b \<Rightarrow> Inr (Delta b))
      else (case zdec d of None \<Rightarrow> Inl InvalidDelta | Some b \<Rightarrow> Inr (Delta b)))"

text \<open>Phase 3 of the decoder for one tile.\<close>

definition paint_solid :: "bytes \<Rightarrow> nat \<Rightarrow> nat \<Rightarrow> nat \<Rightarrow> nat \<Rightarrow> nat \<Rightarrow> bytes \<Rightarrow> bytes" where
  "paint_solid color width x0 y0 x1 y1 frame =
     (let row_pat = concat (replicate (x1 - x0) color)
      in fold (\<lambda>y frame. splice ((y * width + x0) * 4) row_pat frame) [y0..<y1] frame)"

definition paint_delta :: "bytes \<Rightarrow> nat \<Rightarrow> nat \<Rightarrow> nat \<Rightarrow> nat \<Rightarrow> nat \<Rightarrow> bytes \<Rightarrow> bytes" where
  "paint_delta delta width x0 y0 x1 y1 frame =
     (let tw4 = (x1 - x0) * 4
      in fold (\<lambda>y frame. let rs = (y * width + x0) * 4; di = (y - y0) * tw4 in
             splice rs (map2 (XOR) (subslice rs (rs + tw4) frame) (subslice di (di + tw4) delta)) frame)
           [y0..<y1] frame)"

definition paint_tile ::
  "nat \<Rightarrow> nat \<Rightarrow> nat \<Rightarrow> nat \<Rightarrow> nat \<Rightarrow> TilePixels \<Rightarrow> bytes \<Rightarrow> EvrtckError + bytes" where
  "paint_tile width x0 y0 x1 y1 px frame =
     (case px of
        Solid color \<Rightarrow> Inr (paint_solid color width x0 y0 x1 y1 frame)
      | Delta delta \<Rightarrow>
          if length delta \<noteq> (x1 - x0) * 4 * (y1 - y0) then Inl InvalidDelta
          else Inr (paint_delta delta width x0 y0 x1 y1 frame))"

section \<open>Lemmas: uniform concatenations\<close>

lemma nth_concat_uniform:
  assumes "\<forall>x \<in> set xss. length x = n" "i < length xss" "j < n"
  shows "concat xss ! (i * n + j) = xss ! i ! j"
  using assms
proof (induction xss arbitrary: i)
  case (Cons xs xss)
  then show ?case by (cases i) (auto simp: nth_append)
qed simp

lemma length_concat_uniform: "\<forall>x \<in> set xss. length x = n \<Longrightarrow> length (concat xss) = length xss * n"
  by (induction xss) auto

lemma subslice_concat_uniform:
  assumes "\<forall>x \<in> set xss. length x = n" "i < length xss"
  shows "subslice (i * n) (i * n + n) (concat xss) = xss ! i"
proof (rule nth_equalityI)
  have "i * n + n \<le> length xss * n" using assms(2) by (metis Suc_leI add.commute mult_Suc mult_le_mono1)
  then have b: "i * n + n \<le> length (concat xss)" using length_concat_uniform[OF assms(1)] by simp
  then show l: "length (subslice (i * n) (i * n + n) (concat xss)) = length (xss ! i)"
    using assms by simp
  fix j assume "j < length (subslice (i * n) (i * n + n) (concat xss))"
  then have j: "j < n" using l assms by simp
  show "subslice (i * n) (i * n + n) (concat xss) ! j = xss ! i ! j"
    using j b nth_concat_uniform[OF assms j] by (simp add: nth_subslice)
qed

section \<open>Lemmas: the channel swap\<close>

definition swap_ix :: "nat \<Rightarrow> nat" where
  "swap_ix k = k - k mod 4 + [2, 1, 0, 3] ! (k mod 4)"

text \<open>The RGBA frame of a BGRA frame.\<close>

definition swap_frame :: "bytes \<Rightarrow> bytes" where
  "swap_frame xs = map (\<lambda>k. xs ! swap_ix k) [0..<length xs]"

lemma swap_ix_add: "4 dvd a \<Longrightarrow> swap_ix (a + j) = a + swap_ix j"
proof -
  assume "4 dvd a"
  then obtain b where "a = 4 * b" by (rule dvdE)
  then have m: "(a + j) mod 4 = j mod 4" by simp
  have "j mod 4 \<le> j" by simp
  then show ?thesis unfolding swap_ix_def m by linarith
qed

lemma swap_ix_small: "swap_ix 0 = 2" "swap_ix (Suc 0) = 1" "swap_ix 2 = 0" "swap_ix 3 = 3"
  by (simp_all add: swap_ix_def)

lemma upt_four: "[0..<4 * Suc n] = [0..<4 * n] @ [4 * n, 4 * n + 1, 4 * n + 2, 4 * n + 3]"
proof -
  have "4 * Suc n = Suc (Suc (Suc (Suc (4 * n))))" by simp
  then show ?thesis by (simp only: upt_Suc) simp
qed

lemma gather_row_eq:
  assumes "4 dvd row"
  shows "gather_row f row tw = map (\<lambda>j. f (swap_ix (row + j))) [0..<4 * tw]"
proof (induction tw)
  case (Suc tw)
  have d: "4 dvd row + 4 * tw" using assms by simp
  have "swap_ix (row + (4 * tw + i)) = row + 4 * tw + swap_ix i" for i
    using swap_ix_add[OF d, of i] by (simp add: add.assoc)
  note s = this[of 0] this[of 1] this[of 2] this[of 3]
  have "gather_row f row (Suc tw) = gather_row f row tw
      @ [f (row + 4 * tw + 2), f (row + 4 * tw + 1), f (row + 4 * tw), f (row + 4 * tw + 3)]"
    by (simp add: gather_row_def Let_def mult.commute)
  then show ?case unfolding Suc upt_four using s by (simp add: swap_ix_small)
qed (simp add: gather_row_def)

lemma length_gather_tile: "4 dvd x0 * 4 \<Longrightarrow> length (gather_tile f width x0 y0 x1 y1) = (y1 - y0) * ((x1 - x0) * 4)"
proof -
  have "\<forall>x \<in> set (map (\<lambda>y. gather_row f ((y * width + x0) * 4) (x1 - x0)) [y0..<y1]). length x = (x1 - x0) * 4"
    by (auto simp: gather_row_eq)
  from length_concat_uniform[OF this] show ?thesis by (simp add: gather_tile_def)
qed

lemma gather_tile_row:
  assumes "y0 \<le> y" "y < y1"
  shows "subslice ((y - y0) * ((x1 - x0) * 4)) ((y - y0) * ((x1 - x0) * 4) + (x1 - x0) * 4) (gather_tile f width x0 y0 x1 y1)
    = map (\<lambda>j. f (swap_ix ((y * width + x0) * 4 + j))) [0..<(x1 - x0) * 4]"
proof -
  let ?rows = "map (\<lambda>y. gather_row f ((y * width + x0) * 4) (x1 - x0)) [y0..<y1]"
  have u: "\<forall>x \<in> set ?rows. length x = (x1 - x0) * 4" by (auto simp: gather_row_eq)
  have "y - y0 < length ?rows" using assms by simp
  from subslice_concat_uniform[OF u this] show ?thesis
    using assms unfolding gather_tile_def by (simp add: gather_row_eq mult.commute)
qed

section \<open>Lemmas: painting rows\<close>

definition in_rect :: "nat \<Rightarrow> nat \<Rightarrow> nat \<Rightarrow> nat \<Rightarrow> nat \<Rightarrow> nat \<Rightarrow> bool" where
  "in_rect width x0 y0 x1 y1 k \<longleftrightarrow>
     y0 \<le> k div (width * 4) \<and> k div (width * 4) < y1 \<and> x0 * 4 \<le> k mod (width * 4) \<and> k mod (width * 4) < x1 * 4"

lemma row_bytes:
  fixes x0 x1 width j y :: nat
  assumes "x1 \<le> width" "x0 \<le> x1" "j < (x1 - x0) * 4"
  shows "((y * width + x0) * 4 + j) div (width * 4) = y" "((y * width + x0) * 4 + j) mod (width * 4) = x0 * 4 + j"
proof -
  have lt: "x0 * 4 + j < width * 4" using assms by (simp add: diff_mult_distrib)
  have e: "(y * width + x0) * 4 + j = y * (width * 4) + (x0 * 4 + j)" by (simp add: algebra_simps)
  show "((y * width + x0) * 4 + j) div (width * 4) = y" unfolding e using lt by simp
  show "((y * width + x0) * 4 + j) mod (width * 4) = x0 * 4 + j" unfolding e using lt by simp
qed

lemma in_row_iff:
  fixes x0 x1 width k y :: nat
  assumes "x1 \<le> width" "x0 \<le> x1"
  shows "(y * width + x0) * 4 \<le> k \<and> k < (y * width + x0) * 4 + (x1 - x0) * 4 \<longleftrightarrow>
    k div (width * 4) = y \<and> x0 * 4 \<le> k mod (width * 4) \<and> k mod (width * 4) < x1 * 4" (is "?l \<longleftrightarrow> ?r")
proof
  assume l: ?l
  define j where "j = k - (y * width + x0) * 4"
  have j: "k = (y * width + x0) * 4 + j" "j < (x1 - x0) * 4" using l unfolding j_def by linarith+
  show ?r using row_bytes[OF assms j(2)] j by (simp add: diff_mult_distrib)
next
  assume r: ?r
  have "k = k div (width * 4) * (width * 4) + k mod (width * 4)" by (rule div_mult_mod_eq[symmetric])
  then have "k = y * (width * 4) + k mod (width * 4)" using r by simp
  then have k: "k = (y * width) * 4 + k mod (width * 4)" by (simp add: mult.assoc)
  have "(x1 - x0) * 4 = x1 * 4 - x0 * 4" "x0 * 4 \<le> x1 * 4" "(y * width + x0) * 4 = (y * width) * 4 + x0 * 4"
    using assms(2) by simp_all
  then show ?l using r k by linarith
qed

lemma paint_rows:
  fixes g :: "nat \<Rightarrow> bytes \<Rightarrow> bytes" and y0 :: nat
  assumes "x1 \<le> width" "x0 \<le> x1" "y1 \<le> h" "length frame = width * h * 4"
    and g: "\<And>y xs. length xs = (x1 - x0) * 4 \<Longrightarrow> length (g y xs) = (x1 - x0) * 4"
  defines "seg \<equiv> \<lambda>y (fr :: bytes). subslice ((y * width + x0) * 4) ((y * width + x0) * 4 + (x1 - x0) * 4) fr"
  defines "res \<equiv> fold (\<lambda>y fr. splice ((y * width + x0) * 4) (g y (seg y fr)) fr) [y0..<y1] frame"
  shows "length res = length frame \<and>
    (\<forall>k < length frame. res ! k =
       (if in_rect width x0 y0 x1 y1 k
        then g (k div (width * 4)) (seg (k div (width * 4)) frame) ! (k mod (width * 4) - x0 * 4)
        else frame ! k))"
  using assms(3) unfolding res_def
proof (induction y1)
  case 0
  then show ?case by (simp add: in_rect_def)
next
  case (Suc y)
  let ?n = "(x1 - x0) * 4" and ?rs = "(y * width + x0) * 4"
  let ?fr = "fold (\<lambda>y fr. splice ((y * width + x0) * 4) (g y (seg y fr)) fr) [y0..<y] frame"
  have IH: "length ?fr = length frame" "\<forall>k < length frame. ?fr ! k =
       (if in_rect width x0 y0 x1 y k
        then g (k div (width * 4)) (seg (k div (width * 4)) frame) ! (k mod (width * 4) - x0 * 4) else frame ! k)"
    using Suc by auto
  show ?case
  proof (cases "y0 \<le> y")
    case False
    then have "\<not> in_rect width x0 y0 x1 (Suc y) k" for k by (auto simp: in_rect_def)
    then show ?thesis using False by simp
  next
    case True
    have bound: "?rs + ?n \<le> length frame"
    proof -
      have "?rs + ?n = (y * width + x1) * 4" using assms(2) by (simp add: algebra_simps diff_mult_distrib)
      also have "\<dots> \<le> (Suc y * width) * 4" using assms(1) by simp
      also have "\<dots> \<le> (h * width) * 4" using Suc.prems by (intro mult_le_mono1) simp
      finally show ?thesis using assms(4) by (simp add: mult.commute)
    qed
    have seg: "seg y ?fr = seg y frame"
    proof (rule nth_equalityI)
      show "length (seg y ?fr) = length (seg y frame)" using IH(1) bound by (simp add: seg_def length_subslice)
      fix j assume "j < length (seg y ?fr)"
      then have j: "j < ?n" using bound IH(1) by (simp add: seg_def length_subslice)
      note rb = row_bytes[OF assms(1,2) j, of y]
      have "?fr ! (?rs + j) = frame ! (?rs + j)" using IH(2) bound j rb(1) by (simp add: in_rect_def)
      then show "seg y ?fr ! j = seg y frame ! j" using bound IH(1) j by (simp add: seg_def subslice_def)
    qed
    have lg: "length (g y (seg y frame)) = ?n" using g bound by (simp add: seg_def length_subslice)
    have res: "fold (\<lambda>y fr. splice ((y * width + x0) * 4) (g y (seg y fr)) fr) [y0..<Suc y] frame
        = splice ?rs (g y (seg y frame)) ?fr" using True seg by simp
    have "splice ?rs (g y (seg y frame)) ?fr ! k =
       (if in_rect width x0 y0 x1 (Suc y) k
        then g (k div (width * 4)) (seg (k div (width * 4)) frame) ! (k mod (width * 4) - x0 * 4) else frame ! k)"
      if k: "k < length frame" for k
    proof (cases "?rs \<le> k \<and> k < ?rs + ?n")
      case inrow: True
      then have r: "k div (width * 4) = y" "x0 * 4 \<le> k mod (width * 4)" "k mod (width * 4) < x1 * 4"
        using in_row_iff[OF assms(1,2), of y k] by auto
      have "k = k div (width * 4) * (width * 4) + k mod (width * 4)" by (rule div_mult_mod_eq[symmetric])
      then have "k - ?rs = k mod (width * 4) - x0 * 4" using r by (simp add: algebra_simps)
      then show ?thesis using inrow r True lg bound IH(1) by (simp add: nth_splice in_rect_def)
    next
      case notrow: False
      then have "in_rect width x0 y0 x1 (Suc y) k = in_rect width x0 y0 x1 y k"
        using in_row_iff[OF assms(1,2), of y k] by (auto simp: in_rect_def less_Suc_eq)
      then show ?thesis using notrow lg bound IH k by (auto simp: nth_splice)
    qed
    then show ?thesis unfolding res using IH(1) lg bound by (simp add: length_splice)
  qed
qed

lemma in_rect_row:
  assumes "in_rect width x0 y0 x1 y1 k"
  defines "y \<equiv> k div (width * 4)" and "j \<equiv> k mod (width * 4) - x0 * 4"
  shows "y0 \<le> y" "y < y1" "j < (x1 - x0) * 4" "k = (y * width + x0) * 4 + j" "j mod 4 = k mod 4"
proof -
  have r: "y0 \<le> y" "y < y1" "x0 * 4 \<le> k mod (width * 4)" "k mod (width * 4) < x1 * 4"
    using assms(1) by (simp_all add: in_rect_def y_def)
  have k: "k = y * (width * 4) + k mod (width * 4)" unfolding y_def by (rule div_mult_mod_eq[symmetric])
  show "y0 \<le> y" "y < y1" "j < (x1 - x0) * 4" using r by (simp_all add: j_def diff_mult_distrib)
  show e: "k = (y * width + x0) * 4 + j" using k r(3) by (simp add: j_def algebra_simps)
  have "((y * width + x0) * 4 + j) mod 4 = j mod 4" by (rule mod_mult_self3)
  then show "j mod 4 = k mod 4" using e by simp
qed

lemma rect_segment:
  assumes "in_rect width x0 y0 x1 y1 k" "x1 \<le> width" "x0 \<le> x1" "y1 \<le> h" "length fr = width * h * 4"
  defines "rs \<equiv> (k div (width * 4) * width + x0) * 4" and "j \<equiv> k mod (width * 4) - x0 * 4"
  shows "rs + (x1 - x0) * 4 \<le> length fr" "subslice rs (rs + (x1 - x0) * 4) fr ! j = fr ! k"
proof -
  note r = in_rect_row[OF assms(1), folded rs_def j_def]
  let ?y = "k div (width * 4)"
  have "?y * width + x1 \<le> Suc ?y * width" using assms(2) by simp
  also have "\<dots> \<le> h * width" using r(2) assms(4) by (intro mult_le_mono1) simp
  finally have "(?y * width + x1) * 4 \<le> length fr" using assms(5) by (simp add: mult.commute)
  then show b: "rs + (x1 - x0) * 4 \<le> length fr" using assms(3) by (simp add: rs_def algebra_simps diff_mult_distrib)
  have "subslice rs (rs + (x1 - x0) * 4) fr ! j = fr ! (rs + j)" using r(3) b by (intro nth_subslice) simp_all
  then show "subslice rs (rs + (x1 - x0) * 4) fr ! j = fr ! k" using r(4) by simp
qed

lemma paint_solid_nth:
  assumes "x1 \<le> width" "x0 \<le> x1" "y1 \<le> h" "length frame = width * h * 4" "length color = 4"
  shows "length (paint_solid color width x0 y0 x1 y1 frame) = length frame \<and>
    (\<forall>k < length frame. paint_solid color width x0 y0 x1 y1 frame ! k =
       (if in_rect width x0 y0 x1 y1 k then color ! (k mod 4) else frame ! k))"
proof -
  let ?pat = "concat (replicate (x1 - x0) color)"
  have u: "\<forall>x \<in> set (replicate (x1 - x0) color). length x = 4" using assms(5) by simp
  have len: "length ?pat = (x1 - x0) * 4" using length_concat_uniform[OF u] by simp
  have pat: "?pat ! j = color ! (j mod 4)" if "j < (x1 - x0) * 4" for j
  proof -
    have "j div 4 < x1 - x0" using that by simp
    then show ?thesis using nth_concat_uniform[OF u, of "j div 4" "j mod 4"] by simp
  qed
  note p = paint_rows[OF assms(1-4), of "\<lambda>_ _. ?pat" y0, OF len]
  have "?pat ! (k mod (width * 4) - x0 * 4) = color ! (k mod 4)" if "in_rect width x0 y0 x1 y1 k" for k
    using pat in_rect_row(3,5)[OF that] by simp
  then show ?thesis using p unfolding paint_solid_def Let_def by simp
qed

lemma paint_delta_nth:
  fixes f :: "nat \<Rightarrow> u8" and y0 :: nat
  assumes "x1 \<le> width" "x0 \<le> x1" "y1 \<le> h" "length frame = width * h * 4"
  defines "res \<equiv> paint_delta (gather_tile f width x0 y0 x1 y1) width x0 y0 x1 y1 frame"
  shows "length res = length frame \<and>
    (\<forall>k < length frame. res ! k = (if in_rect width x0 y0 x1 y1 k then frame ! k XOR f (swap_ix k) else frame ! k))"
proof -
  let ?n = "(x1 - x0) * 4" and ?rs = "\<lambda>y. (y * width + x0) * 4"
  let ?row = "\<lambda>y. map (\<lambda>j. f (swap_ix (?rs y + j))) [0..<?n]"
  let ?g = "\<lambda>y xs. map2 (XOR) xs (?row y)"
  have res: "res = fold (\<lambda>y fr. splice (?rs y) (?g y (subslice (?rs y) (?rs y + ?n) fr)) fr) [y0..<y1] frame"
    unfolding res_def paint_delta_def Let_def
    by (rule List.fold_cong) (simp_all add: gather_tile_row)
  have lg: "length (?g y xs) = ?n" if "length xs = ?n" for y and xs :: bytes using that by simp
  note p = paint_rows[OF assms(1-4), of ?g y0, OF lg]
  have "?g (k div (width * 4)) (subslice (?rs (k div (width * 4))) (?rs (k div (width * 4)) + ?n) frame)
      ! (k mod (width * 4) - x0 * 4) = frame ! k XOR f (swap_ix k)"
    if k: "k < length frame" "in_rect width x0 y0 x1 y1 k" for k
  proof -
    note r = in_rect_row[OF k(2)] and s = rect_segment[OF k(2) assms(1-4)]
    show ?thesis using s r(3) arg_cong[OF r(4)[symmetric], of swap_ix] by simp
  qed
  then show ?thesis using p unfolding res by simp
qed

section \<open>Lemmas: one tile\<close>

text \<open>What the code relies on of the zstd crate: compressing a tile succeeds, the result has a 32-bit length and
  decompresses to the tile.\<close>

definition zstd_ok :: "(bytes \<Rightarrow> bytes option) \<Rightarrow> (bytes \<Rightarrow> bytes option) \<Rightarrow> bool" where
  "zstd_ok zenc zdec \<longleftrightarrow> (\<forall>x. length x \<le> TILE_SIZE * TILE_SIZE * 4 \<longrightarrow>
     (\<exists>z. zenc x = Some z \<and> zdec z = Some x \<and> length z < 2 ^ 32))"

lemma solid_pixels:
  assumes "tile_is_solid rgba width x0 y0 x1 y1" and "in_rect width x0 y0 x1 y1 k"
    and "x1 \<le> width" "x0 < x1" "y1 \<le> h" "length rgba = width * h * 4"
  shows "rgba ! k = subslice ((y0 * width + x0) * 4) ((y0 * width + x0) * 4 + 4) rgba ! (k mod 4)"
proof -
  note r = in_rect_row[OF assms(2)]
  let ?y = "k div (width * 4)" and ?j = "k mod (width * 4) - x0 * 4" and ?n = "(x1 - x0) * 4"
  let ?rs = "(?y * width + x0) * 4"
  note s = rect_segment[OF assms(2,3) less_imp_le[OF assms(4)] assms(5,6)]
  let ?seg = "subslice ?rs (?rs + ?n) rgba"
  have l: "length ?seg = (x1 - x0) * 4" using s(1) by simp
  have i: "?j div 4 < length (chunks 4 ?seg)" using r(3) l by (simp add: length_chunks div_ceil_def)
  have "chunks 4 ?seg ! (?j div 4) = subslice ((y0 * width + x0) * 4) ((y0 * width + x0) * 4 + 4) rgba"
    using assms(1) r(1,2) i by (auto simp: tile_is_solid_def Let_def list_all_iff)
  moreover have "chunks 4 ?seg ! (?j div 4) ! (?j mod 4) = ?seg ! ?j"
  proof -
    have "?j div 4 * 4 \<le> length ?seg" using r(3) unfolding l by (metis div_times_less_eq_dividend less_imp_le order.trans)
    moreover have "?j div 4 * 4 + ?j mod 4 = ?j" by (rule div_mult_mod_eq)
    ultimately show ?thesis unfolding nth_chunks[OF zero_less_numeral i] by simp
  qed
  ultimately have "subslice ((y0 * width + x0) * 4) ((y0 * width + x0) * 4 + 4) rgba ! (k mod 4) = ?seg ! ?j"
    using r(5) by simp
  also have "\<dots> = rgba ! k" by (rule s(2))
  finally show ?thesis by simp
qed

lemma in_rect_pixel:
  "in_rect width x0 y0 x1 y1 k \<longleftrightarrow>
     y0 \<le> k div 4 div width \<and> k div 4 div width < y1 \<and> x0 \<le> k div 4 mod width \<and> k div 4 mod width < x1"
proof -
  have d: "k div (width * 4) = k div 4 div width" unfolding mult.commute[of width 4] by (rule div_mult2_eq)
  have m: "k mod (width * 4) = 4 * (k div 4 mod width) + k mod 4" unfolding mult.commute[of width 4] by (rule mod_mult2_eq)
  have r: "k mod 4 < 4" by simp
  have "x0 * 4 \<le> k mod (width * 4) \<longleftrightarrow> x0 \<le> k div 4 mod width" unfolding m using r by linarith
  moreover have "k mod (width * 4) < x1 * 4 \<longleftrightarrow> k div 4 mod width < x1" unfolding m using r by linarith
  ultimately show ?thesis unfolding in_rect_def d by simp
qed

lemma swap_ix_props: "swap_ix k div 4 = k div 4" "swap_ix k mod 4 = [2, 1, 0, 3] ! (k mod 4)"
proof -
  have e: "k - k mod 4 = 4 * (k div 4)" by (metis minus_mod_eq_mult_div)
  have "k mod 4 = 0 \<or> k mod 4 = 1 \<or> k mod 4 = 2 \<or> k mod 4 = 3" by linarith
  then have "[2, 1, 0, 3] ! (k mod 4) < (4 :: nat)" by auto
  then show "swap_ix k div 4 = k div 4" "swap_ix k mod 4 = [2, 1, 0, 3] ! (k mod 4)"
    unfolding swap_ix_def e by simp_all
qed

lemma in_rect_swap: "in_rect width x0 y0 x1 y1 (swap_ix k) = in_rect width x0 y0 x1 y1 k"
  by (simp add: in_rect_pixel swap_ix_props(1))

lemma swap_color:
  assumes "length p = 4"
  shows "[p ! 2, p ! 1, p ! 0, p ! 3] ! (k mod 4) = p ! (swap_ix k mod 4)"
proof -
  have "k mod 4 = 0 \<or> k mod 4 = 1 \<or> k mod 4 = 2 \<or> k mod 4 = 3" by linarith
  then show ?thesis unfolding swap_ix_props(2) by auto
qed

text \<open>The part of an entry that follows the mode byte.\<close>

definition entry_body :: "u8 \<Rightarrow> bytes \<Rightarrow> bytes" where
  "entry_body mode enc = (if mode = MODE_SOLID then enc else le_bytes 4 (of_nat (length enc) :: u32) @ enc)"

definition tile_base :: "bool \<Rightarrow> bytes \<Rightarrow> nat \<Rightarrow> u8" where
  "tile_base is_keyframe prev k = (if is_keyframe then 0 else prev ! swap_ix k)"

text \<open>An encoded tile, painted over a framebuffer that holds the base of the tile, gives the new pixels of the tile
  and leaves the others.\<close>

definition paints :: "nat \<Rightarrow> nat \<Rightarrow> nat \<times> nat \<times> nat \<times> nat \<Rightarrow> (nat \<Rightarrow> u8) \<Rightarrow> (nat \<Rightarrow> u8) \<Rightarrow> TilePixels \<Rightarrow> bool" where
  "paints width height rect base tgt px \<longleftrightarrow>
     (case rect of (x0, y0, x1, y1) \<Rightarrow>
       \<forall>frame. length frame = width * height * 4 \<and> (\<forall>k < length frame. in_rect width x0 y0 x1 y1 k \<longrightarrow> frame ! k = base k) \<longrightarrow>
         (\<exists>frame'. paint_tile width x0 y0 x1 y1 px frame = Inr frame' \<and> length frame' = length frame \<and>
            (\<forall>k < length frame. frame' ! k = (if in_rect width x0 y0 x1 y1 k then tgt k else frame ! k))))"

lemma paints_solid:
  assumes "tile_is_solid rgba width x0 y0 x1 y1" "x1 \<le> width" "x0 < x1" "y0 < y1" "y1 \<le> h" "length rgba = width * h * 4"
  defines "p \<equiv> subslice ((y0 * width + x0) * 4) ((y0 * width + x0) * 4 + 4) rgba"
  shows "length p = 4" "paints width h (x0, y0, x1, y1) base (\<lambda>k. rgba ! swap_ix k) (Solid [p ! 2, p ! 1, p ! 0, p ! 3])"
proof -
  have "y0 * width + x1 \<le> Suc y0 * width" using assms(2) by simp
  also have "\<dots> \<le> h * width" using assms(4,5) by (intro mult_le_mono1) simp
  finally have "(y0 * width + x0) * 4 + 4 \<le> length rgba" using assms(3,6) by (simp add: mult.commute)
  then show l: "length p = 4" by (simp add: p_def)
  have c: "[p ! 2, p ! 1, p ! 0, p ! 3] ! (k mod 4) = rgba ! swap_ix k" if "in_rect width x0 y0 x1 y1 k" for k
    unfolding swap_color[OF l] unfolding p_def
    using solid_pixels[OF assms(1) _ assms(2,3,5,6), of "swap_ix k"] that in_rect_swap by simp
  show "paints width h (x0, y0, x1, y1) base (\<lambda>k. rgba ! swap_ix k) (Solid [p ! 2, p ! 1, p ! 0, p ! 3])"
    unfolding paints_def using paint_solid_nth[OF assms(2) less_imp_le[OF assms(3)] assms(5), of _ "[p ! 2, p ! 1, p ! 0, p ! 3]" y0] c
    by (simp add: paint_tile_def)
qed

lemma paints_delta:
  assumes "x1 \<le> width" "x0 \<le> x1" "y1 \<le> h"
    and f: "\<And>k. in_rect width x0 y0 x1 y1 k \<Longrightarrow> base k XOR f (swap_ix k) = tgt k"
  shows "paints width h (x0, y0, x1, y1) base tgt (Delta (gather_tile f width x0 y0 x1 y1))"
proof -
  have l: "length (gather_tile f width x0 y0 x1 y1) = (x1 - x0) * 4 * (y1 - y0)"
    by (simp add: length_gather_tile mult.commute)
  show ?thesis
    unfolding paints_def using paint_delta_nth[OF assms(1-3), of _ f y0] f
    by (simp add: paint_tile_def l)
qed

lemma le_word_length: "length enc < 2 ^ 32 \<Longrightarrow> unat (le_word (le_bytes 4 (of_nat (length enc) :: u32)) :: u32) = length enc"
  by (simp add: unat_of_nat_u32)

lemma xor_restore: "a XOR (b XOR a) = b" for a b :: u8
  by (simp add: xor.commute[of b a] flip: xor.assoc)

lemma encode_tile_ok:
  assumes z: "zstd_ok zenc zdec" and rect: "tile_rect width height tx ty = (x0, y0, x1, y1)"
    and ne: "x0 < x1" "y0 < y1" and len: "length rgba = width * height * 4"
  shows "\<exists>mode enc px. encode_tile_buf zenc rgba prev width height tx ty key = (mode # entry_body mode enc, mode)
     \<and> (mode = MODE_SOLID \<and> length enc = 4 \<or> (mode = MODE_DELTA \<or> mode = MODE_ZSTD) \<and> length enc < 2 ^ 32)
     \<and> decompress_tile zdec enc mode = Inr px
     \<and> paints width height (x0, y0, x1, y1) (tile_base key prev) (\<lambda>k. rgba ! swap_ix k) px"
proof -
  have b: "x1 \<le> width" "y1 \<le> height" "x1 - x0 \<le> TILE_SIZE" "y1 - y0 \<le> TILE_SIZE" "x0 \<le> x1"
    using rect ne by (auto simp: tile_rect_def Let_def)
  let ?solid = "tile_is_solid rgba width x0 y0 x1 y1"
  have small: "length (gather_tile f width x0 y0 x1 y1) \<le> TILE_SIZE * TILE_SIZE * 4" for f
  proof -
    have "(y1 - y0) * (x1 - x0) \<le> TILE_SIZE * TILE_SIZE" using b(3,4) by (intro mult_le_mono) simp_all
    then show ?thesis by (simp add: length_gather_tile)
  qed
  note modes = MODE_SOLID_def MODE_DELTA_def MODE_ZSTD_def
  consider (solid) ?solid | (key) "\<not> ?solid" key | (delta) "\<not> ?solid" "\<not> key" by blast
  then show ?thesis
  proof cases
    case solid
    let ?p = "subslice ((y0 * width + x0) * 4) ((y0 * width + x0) * 4 + 4) rgba"
    let ?c = "[?p ! 2, ?p ! 1, ?p ! 0, ?p ! 3]"
    have "encode_tile_buf zenc rgba prev width height tx ty key = (MODE_SOLID # entry_body MODE_SOLID ?c, MODE_SOLID)"
      using solid by (simp add: encode_tile_buf_def rect entry_body_def Let_def)
    moreover have "decompress_tile zdec ?c MODE_SOLID = Inr (Solid ?c)" by (simp add: decompress_tile_def)
    ultimately show ?thesis using paints_solid(2)[OF solid b(1) ne b(2) len]
      by (intro exI[of _ MODE_SOLID] exI[of _ ?c] exI[of _ "Solid ?c"]) simp
  next
    case key
    let ?t = "gather_tile (\<lambda>i. rgba ! i) width x0 y0 x1 y1"
    obtain zb where zb: "zenc ?t = Some zb" "zdec zb = Some ?t" "length zb < 2 ^ 32"
      using z small[of "\<lambda>i. rgba ! i"] unfolding zstd_ok_def by blast
    have "encode_tile_buf zenc rgba prev width height tx ty key = (MODE_ZSTD # entry_body MODE_ZSTD zb, MODE_ZSTD)"
      using key zb(1) by (simp add: encode_tile_buf_def rect entry_body_def Let_def unwrap_or_default_def modes)
    moreover have "decompress_tile zdec zb MODE_ZSTD = Inr (Delta ?t)" using zb by (simp add: decompress_tile_def modes)
    moreover have "paints width height (x0, y0, x1, y1) (tile_base key prev) (\<lambda>k. rgba ! swap_ix k) (Delta ?t)"
      using key by (intro paints_delta b(1,2,5)) (simp add: tile_base_def)
    ultimately show ?thesis using zb(3) by blast
  next
    case delta
    let ?t = "gather_tile (\<lambda>i. rgba ! i XOR prev ! i) width x0 y0 x1 y1"
    obtain zb where zb: "zenc ?t = Some zb" "zdec zb = Some ?t" "length zb < 2 ^ 32"
      using z small[of "\<lambda>i. rgba ! i XOR prev ! i"] unfolding zstd_ok_def by blast
    let ?use = "length (zrle_encode ?t) * 4 > (x1 - x0) * (y1 - y0) * 4 * 3 \<and> zb \<noteq> [] \<and> length zb < length (zrle_encode ?t)"
    have p: "paints width height (x0, y0, x1, y1) (tile_base key prev) (\<lambda>k. rgba ! swap_ix k) (Delta ?t)"
      using delta(2) by (intro paints_delta b(1,2,5)) (simp add: tile_base_def xor_restore)
    have e: "encode_tile_buf zenc rgba prev width height tx ty key =
        (if ?use then (MODE_ZSTD # entry_body MODE_ZSTD zb, MODE_ZSTD)
         else (MODE_DELTA # entry_body MODE_DELTA (zrle_encode ?t), MODE_DELTA))"
      using delta zb(1) by (simp add: encode_tile_buf_def rect entry_body_def Let_def unwrap_or_default_def modes)
    have dz: "decompress_tile zdec zb MODE_ZSTD = Inr (Delta ?t)" using zb by (simp add: decompress_tile_def modes)
    have dr: "decompress_tile zdec (zrle_encode ?t) MODE_DELTA = Inr (Delta ?t)"
      using zrle_decode_loop_encode[of ?t "[]" "[]"]
      by (simp add: decompress_tile_def modes zrle_decode_def zrle_decode_loop.simps)
    have "length (zrle_encode ?t) < 2 ^ 32"
      using length_zrle_encode[of ?t] small[of "\<lambda>i. rgba ! i XOR prev ! i"] by (simp add: TILE_SIZE_def)
    then show ?thesis using e dz dr p zb(3) by (cases ?use) auto
  qed
qed

end
