(* ===== verification/Evrtck_Frame.thy ===== *)
theory Evrtck_Frame
  imports Complex_Main Evrtck_Tile
begin

text \<open>
  Frames of the screen codec of \<^verbatim>\<open>src/src/evrtck.rs\<close>: the packet layout, the encoder (\<open>CpuEvrtckEncoder\<close>) with
  its reference frame, and the decoder (\<open>EvrtckDecoder\<close>) with its framebuffer. The rayon and the sequential branch
  of a loop over independent tiles compute the same list and are one definition. Priorities of the decoder are finite
  numbers. An error leaves the framebuffer as far as it was painted, so decoding returns the buffer and the result.
\<close>

section \<open>Data\<close>

definition EVCK_MAGIC :: bytes where "EVCK_MAGIC = [69, 86, 67, 75]"
definition EVCK_VERSION :: u8 where "EVCK_VERSION = 2"
definition VERSION_COPY_RECTS :: u8 where "VERSION_COPY_RECTS = 3"
definition FLAG_KEYFRAME :: u8 where "FLAG_KEYFRAME = 1"
definition FLAG_NOP :: u8 where "FLAG_NOP = 2"
definition FLAG_COPY_RECTS :: u8 where "FLAG_COPY_RECTS = 4"

record EvrtckPacket =
  pk_frame_id :: u32
  pk_width :: u32
  pk_height :: u32
  pk_data :: bytes

record TileOffset =
  to_tile_idx :: u16
  to_byte_start :: nat
  to_byte_len :: nat

record FrameStats =
  fs_total_tiles :: u32
  fs_dirty_tiles :: u32
  fs_solid_tiles :: u32
  fs_delta_tiles :: u32
  fs_encoded_bytes :: u32

record CopyRect =
  cp_src_x :: u32
  cp_src_y :: u32
  cp_dst_x :: u32
  cp_dst_y :: u32
  cp_width :: u32
  cp_height :: u32

section \<open>Encoding a frame\<close>

text \<open>The square distance is an \<open>i64\<close> truncated to \<open>u32\<close>.\<close>

definition tile_distance_key :: "nat \<Rightarrow> nat \<Rightarrow> nat \<times> nat \<Rightarrow> u32" where
  "tile_distance_key idx tiles_x focus =
     (let dx = int (idx mod tiles_x) - int (fst focus); dy = int (idx div tiles_x) - int (snd focus)
      in of_int (dx * dx + dy * dy))"

definition order_by_focus ::
  "(nat \<times> bytes \<times> u8) list \<Rightarrow> nat \<Rightarrow> (nat \<times> nat) option \<Rightarrow> (nat \<times> bytes \<times> u8) list" where
  "order_by_focus dirty_tiles tiles_x focus =
     (case focus of None \<Rightarrow> dirty_tiles
      | Some f \<Rightarrow> sort_key (\<lambda>(idx, data, mode). tile_distance_key idx tiles_x f) dirty_tiles)"

definition packet_header :: "u8 \<Rightarrow> u8 \<Rightarrow> u32 \<Rightarrow> nat \<Rightarrow> nat \<Rightarrow> nat \<Rightarrow> bytes" where
  "packet_header version flags frame_id width height map_bytes =
     EVCK_MAGIC @ [version, flags] @ le_bytes 4 frame_id @ le_bytes 4 (of_nat width :: u32)
     @ le_bytes 4 (of_nat height :: u32) @ le_bytes 2 (of_nat map_bytes :: u16)"

definition nop_packet_data :: "u32 \<Rightarrow> nat \<Rightarrow> nat \<Rightarrow> bytes" where
  "nop_packet_data frame_id width height = packet_header EVCK_VERSION FLAG_NOP frame_id width height 0"

definition mark_tile :: "nat \<Rightarrow> bytes \<Rightarrow> bytes" where
  "mark_tile idx m = m[idx div 8 := (m ! (idx div 8)) OR push_bit (idx mod 8) 1]"

definition dirty_map :: "nat \<Rightarrow> nat list \<Rightarrow> bytes" where
  "dirty_map map_bytes idxs = fold mark_tile idxs (replicate map_bytes 0)"

text \<open>The assembly loop: the tile entries, and where each of them is.\<close>

fun write_entries :: "nat \<Rightarrow> (nat \<times> bytes \<times> u8) list \<Rightarrow> bytes \<times> TileOffset list" where
  "write_entries start [] = ([], [])"
| "write_entries start ((idx, data, mode) # tiles) =
     (let entry = le_bytes 2 (of_nat idx :: u16) @ data;
          (out, offsets) = write_entries (start + length entry) tiles
      in (entry @ out, \<lparr>to_tile_idx = of_nat idx, to_byte_start = start, to_byte_len = length entry\<rparr> # offsets))"

definition count_mode :: "(u8 \<Rightarrow> bool) \<Rightarrow> (nat \<times> bytes \<times> u8) list \<Rightarrow> u32" where
  "count_mode P tiles = of_nat (length (filter (\<lambda>(idx, data, mode). P mode) tiles))"

text \<open>From the list of encoded tiles to the packet: shared text of \<open>encode_frame_with_offsets\<close>,
  \<open>encode_pframe_from_dirty_indices\<close> and their variants with copy rectangles, whose bytes are \<open>copies\<close>.\<close>

definition assemble_frame ::
  "u8 \<Rightarrow> u8 \<Rightarrow> bytes \<Rightarrow> u32 \<Rightarrow> nat \<Rightarrow> nat \<Rightarrow> (nat \<times> nat) option \<Rightarrow> (nat \<times> bytes \<times> u8) list
   \<Rightarrow> bytes \<times> FrameStats \<times> TileOffset list" where
  "assemble_frame version flags copies frame_id width height focus dirty_tiles =
     (let tiles_x = tiles_in_dim width;
          tile_count = tiles_x * tiles_in_dim height;
          map_bytes = (tile_count + 7) div 8;
          tile_map = dirty_map map_bytes (map fst dirty_tiles);
          head = packet_header version flags frame_id width height map_bytes @ copies @ tile_map;
          (entries, offsets) = write_entries (length head) (order_by_focus dirty_tiles tiles_x focus);
          out = head @ entries
      in (out,
          \<lparr>fs_total_tiles = of_nat tile_count, fs_dirty_tiles = of_nat (length dirty_tiles),
           fs_solid_tiles = count_mode (\<lambda>m. m = MODE_SOLID) dirty_tiles,
           fs_delta_tiles = count_mode (\<lambda>m. m \<noteq> MODE_SOLID) dirty_tiles,
           fs_encoded_bytes = of_nat (length out)\<rparr>,
          offsets))"

definition encode_one :: "(bytes \<Rightarrow> bytes option) \<Rightarrow> bytes \<Rightarrow> bytes \<Rightarrow> nat \<Rightarrow> nat \<Rightarrow> bool \<Rightarrow> nat \<Rightarrow> nat \<times> bytes \<times> u8" where
  "encode_one zenc rgba prev width height is_keyframe idx =
     (let tiles_x = tiles_in_dim width
      in (idx, encode_tile_buf zenc rgba prev width height (idx mod tiles_x) (idx div tiles_x) is_keyframe))"

definition dirty_indices :: "bytes \<Rightarrow> bytes \<Rightarrow> nat \<Rightarrow> nat \<Rightarrow> nat list" where
  "dirty_indices rgba prev width height =
     (let tiles_x = tiles_in_dim width
      in filter (\<lambda>idx. tile_is_dirty rgba prev width height (idx mod tiles_x) (idx div tiles_x))
           [0..<tiles_x * tiles_in_dim height])"

definition encode_frame_with_offsets ::
  "(bytes \<Rightarrow> bytes option) \<Rightarrow> bytes \<Rightarrow> bytes \<Rightarrow> nat \<Rightarrow> nat \<Rightarrow> u32 \<Rightarrow> bool \<Rightarrow> (nat \<times> nat) option \<Rightarrow> bool
   \<Rightarrow> bytes \<times> FrameStats \<times> TileOffset list" where
  "encode_frame_with_offsets zenc rgba prev width height frame_id is_keyframe focus want_offsets =
     (let tile_count = tiles_in_dim width * tiles_in_dim height in
      if \<not> is_keyframe \<and> rgba = prev then
        (nop_packet_data frame_id width height,
         \<lparr>fs_total_tiles = of_nat tile_count, fs_dirty_tiles = 0, fs_solid_tiles = 0, fs_delta_tiles = 0,
          fs_encoded_bytes = 20\<rparr>, [])
      else
        let idxs = (if is_keyframe then [0..<tile_count] else dirty_indices rgba prev width height);
            (out, stats, offsets) = assemble_frame EVCK_VERSION (if is_keyframe then FLAG_KEYFRAME else 0) []
               frame_id width height focus
               (map (encode_one zenc rgba prev width height is_keyframe) idxs)
        in (out, stats, if want_offsets then offsets else []))"

definition encode_frame ::
  "(bytes \<Rightarrow> bytes option) \<Rightarrow> bytes \<Rightarrow> bytes \<Rightarrow> nat \<Rightarrow> nat \<Rightarrow> u32 \<Rightarrow> bool \<Rightarrow> (nat \<times> nat) option \<Rightarrow> bytes \<times> FrameStats" where
  "encode_frame zenc rgba prev width height frame_id is_keyframe focus =
     (case encode_frame_with_offsets zenc rgba prev width height frame_id is_keyframe focus False of
        (data, stats, offsets) \<Rightarrow> (data, stats))"

definition encode_pframe_from_dirty_indices ::
  "(bytes \<Rightarrow> bytes option) \<Rightarrow> bytes \<Rightarrow> bytes \<Rightarrow> nat \<Rightarrow> nat \<Rightarrow> u32 \<Rightarrow> nat list \<Rightarrow> (nat \<times> nat) option \<Rightarrow> bytes \<times> FrameStats" where
  "encode_pframe_from_dirty_indices zenc rgba prev width height frame_id idxs focus =
     (case assemble_frame EVCK_VERSION 0 [] frame_id width height focus (map (encode_one zenc rgba prev width height False) idxs) of
        (data, stats, offsets) \<Rightarrow> (data, stats))"

section \<open>Copy rectangles\<close>

definition copy_rect_is_valid :: "CopyRect \<Rightarrow> nat \<Rightarrow> nat \<Rightarrow> bool" where
  "copy_rect_is_valid rect width height \<longleftrightarrow>
     cp_width rect \<noteq> 0 \<and> cp_height rect \<noteq> 0 \<and>
     unat (cp_src_x rect) + unat (cp_width rect) \<le> width \<and> unat (cp_dst_x rect) + unat (cp_width rect) \<le> width \<and>
     unat (cp_src_y rect) + unat (cp_height rect) \<le> height \<and> unat (cp_dst_y rect) + unat (cp_height rect) \<le> height"

definition apply_copy_rect :: "nat \<Rightarrow> nat \<Rightarrow> CopyRect \<Rightarrow> bytes \<Rightarrow> bytes" where
  "apply_copy_rect width height rect frame =
     (if \<not> copy_rect_is_valid rect width height then frame
      else let rect_h = unat (cp_height rect); row_bytes = unat (cp_width rect) * 4;
               temp = concat (map (\<lambda>row. let start = ((unat (cp_src_y rect) + row) * width + unat (cp_src_x rect)) * 4
                                          in subslice start (start + row_bytes) frame) [0..<rect_h])
           in fold (\<lambda>row frame. let dst = ((unat (cp_dst_y rect) + row) * width + unat (cp_dst_x rect)) * 4;
                                     src = row * row_bytes
                                 in splice dst (subslice src (src + row_bytes) temp) frame) [0..<rect_h] frame)"

definition apply_copy_rects :: "bytes \<Rightarrow> nat \<Rightarrow> nat \<Rightarrow> CopyRect list \<Rightarrow> bytes" where
  "apply_copy_rects frame width height rects = fold (apply_copy_rect width height) rects frame"

text \<open>Reads \<open>n\<close> rectangles of 24 bytes and keeps the valid ones; \<open>None\<close> is \<open>TruncatedData\<close>.\<close>

fun read_copy_rects :: "nat \<Rightarrow> nat \<Rightarrow> nat \<Rightarrow> bytes \<Rightarrow> (CopyRect list \<times> bytes) option" where
  "read_copy_rects width height 0 data = Some ([], data)"
| "read_copy_rects width height (Suc n) data =
     (if length data < 24 then None
      else let f = (\<lambda>i. le_word (subslice (4 * i) (4 * i + 4) data) :: u32);
               rect = \<lparr>cp_src_x = f 0, cp_src_y = f 1, cp_dst_x = f 2, cp_dst_y = f 3, cp_width = f 4, cp_height = f 5\<rparr>
           in case read_copy_rects width height n (drop 24 data) of
                None \<Rightarrow> None
              | Some (rects, rest) \<Rightarrow> Some (if copy_rect_is_valid rect width height then rect # rects else rects, rest))"

section \<open>Decoding a frame\<close>

definition count_ones :: "u8 \<Rightarrow> nat" where
  "count_ones b = length (filter (\<lambda>i. bit b i) [0..<8])"

text \<open>Phase 1: the entries of the dirty tiles, in stream order: index, mode, encoded bytes.\<close>

fun read_entries :: "nat \<Rightarrow> nat \<Rightarrow> bytes \<Rightarrow> EvrtckError + (nat \<times> u8 \<times> bytes) list" where
  "read_entries tile_count 0 data = Inr []"
| "read_entries tile_count (Suc n) data =
     (if length data < 2 then Inl TruncatedData
      else let tile_idx = (le_word (take 2 data) :: u16); d1 = drop 2 data in
      if tile_count \<le> unat tile_idx then Inl (InvalidTileIndex tile_idx)
      else case d1 of
        [] \<Rightarrow> Inl TruncatedData
      | mode # d2 \<Rightarrow>
          if mode = MODE_SOLID then
            if length d2 < 4 then Inl TruncatedData
            else (case read_entries tile_count n (drop 4 d2) of
                    Inl e \<Rightarrow> Inl e
                  | Inr es \<Rightarrow> Inr ((unat tile_idx, mode, take 4 d2) # es))
          else if mode = MODE_DELTA \<or> mode = MODE_ZSTD then
            if length d2 < 4 then Inl TruncatedData
            else let enc_len = unat (le_word (take 4 d2) :: u32); d3 = drop 4 d2 in
                 if length d3 < enc_len then Inl TruncatedData
                 else (case read_entries tile_count n (drop enc_len d3) of
                         Inl e \<Rightarrow> Inl e
                       | Inr es \<Rightarrow> Inr ((unat tile_idx, mode, take enc_len d3) # es))
          else Inl (InvalidTileMode mode))"

definition rect_of_tile :: "nat \<Rightarrow> nat \<Rightarrow> nat \<Rightarrow> nat \<times> nat \<times> nat \<times> nat" where
  "rect_of_tile width height idx =
     (let tiles_x = tiles_in_dim width in tile_rect width height (idx mod tiles_x) (idx div tiles_x))"

text \<open>Phase 3: the framebuffer and the first error.\<close>

fun paint_all ::
  "nat \<Rightarrow> nat \<Rightarrow> (nat \<times> (EvrtckError + TilePixels)) list \<Rightarrow> bytes \<Rightarrow> bytes \<times> EvrtckError option" where
  "paint_all width height [] frame = (frame, None)"
| "paint_all width height ((idx, Inl e) # es) frame = (frame, Some e)"
| "paint_all width height ((idx, Inr px) # es) frame =
     (case rect_of_tile width height idx of (x0, y0, x1, y1) \<Rightarrow>
        (case paint_tile width x0 y0 x1 y1 px frame of
           Inl e \<Rightarrow> (frame, Some e)
         | Inr frame' \<Rightarrow> paint_all width height es frame'))"

text \<open>From the tile map to the end.\<close>

definition decode_tiles ::
  "(bytes \<Rightarrow> bytes option) \<Rightarrow> bytes \<Rightarrow> nat \<Rightarrow> bytes \<Rightarrow> nat \<Rightarrow> nat \<Rightarrow> (nat \<Rightarrow> rat) option \<Rightarrow> bytes \<times> (EvrtckError + nat list)" where
  "decode_tiles zdec data map_bytes frame width height tile_priority =
     (if length data < map_bytes then (frame, Inl TruncatedData)
      else
        let tile_map = take map_bytes data;
            dirty_count = sum_list (map count_ones tile_map);
            tile_count = tiles_in_dim width * tiles_in_dim height
        in case read_entries tile_count dirty_count (drop map_bytes data) of
             Inl e \<Rightarrow> (frame, Inl e)
           | Inr dirty \<Rightarrow>
               let decoded = map (\<lambda>(idx, mode, enc). (idx, decompress_tile zdec enc mode)) dirty;
                   paint_order = (case tile_priority of
                      None \<Rightarrow> decoded
                    | Some priority \<Rightarrow> sort_key (\<lambda>(idx, px). - priority idx) decoded);
                   apply_order = map fst paint_order
               in case paint_all width height paint_order frame of
                    (frame', None) \<Rightarrow> (frame', Inr apply_order)
                  | (frame', Some e) \<Rightarrow> (frame', Inl e))"

definition decode_frame_prioritized ::
  "(bytes \<Rightarrow> bytes option) \<Rightarrow> bytes \<Rightarrow> bytes \<Rightarrow> nat \<Rightarrow> nat \<Rightarrow> (nat \<Rightarrow> rat) option \<Rightarrow> bytes \<times> (EvrtckError + nat list)" where
  "decode_frame_prioritized zdec data frame width height tile_priority =
     (if length data < 4 then (frame, Inl TruncatedData)
      else if take 4 data \<noteq> EVCK_MAGIC then (frame, Inl InvalidMagic)
      else if length data < 5 then (frame, Inl TruncatedData)
      else let ver = data ! 4 in
      if ver \<noteq> EVCK_VERSION \<and> ver \<noteq> VERSION_COPY_RECTS then (frame, Inl (UnsupportedVersion ver))
      else if length data < 10 then (frame, Inl TruncatedData)
      else let flags = data ! 5;
               frame = (if flags AND FLAG_KEYFRAME \<noteq> 0 then replicate (length frame) 0 else frame) in
      if length data < 18 then (frame, Inl TruncatedData)
      else let w = unat (le_word (subslice 10 14 data) :: u32); h = unat (le_word (subslice 14 18 data) :: u32) in
      if w \<noteq> width \<or> h \<noteq> height
      then (frame, Inl (DimensionMismatch (of_nat width, of_nat height) (of_nat w, of_nat h)))
      else if flags AND FLAG_NOP \<noteq> 0 then (frame, Inr [])
      else if length data < 20 then (frame, Inl TruncatedData)
      else let map_bytes = unat (le_word (subslice 18 20 data) :: u16); rest = drop 20 data in
      if ver = VERSION_COPY_RECTS \<or> flags AND FLAG_COPY_RECTS \<noteq> 0 then
        if length rest < 2 then (frame, Inl TruncatedData)
        else (case read_copy_rects width height (unat (le_word (take 2 rest) :: u16)) (drop 2 rest) of
                None \<Rightarrow> (frame, Inl TruncatedData)
              | Some (copy_rects, rest') \<Rightarrow>
                  decode_tiles zdec rest' map_bytes (apply_copy_rects frame width height copy_rects) width height tile_priority)
      else decode_tiles zdec rest map_bytes frame width height tile_priority)"

definition decode_frame ::
  "(bytes \<Rightarrow> bytes option) \<Rightarrow> bytes \<Rightarrow> bytes \<Rightarrow> nat \<Rightarrow> nat \<Rightarrow> bytes \<times> (EvrtckError + unit)" where
  "decode_frame zdec data frame width height =
     (case decode_frame_prioritized zdec data frame width height None of
        (frame', Inl e) \<Rightarrow> (frame', Inl e)
      | (frame', Inr apply_order) \<Rightarrow> (frame', Inr ()))"

section \<open>Encoder and decoder state\<close>

record CpuEvrtckEncoder =
  ce_prev :: bytes
  ce_width :: nat
  ce_height :: nat
  ce_pending_keyframe :: bool
  ce_focus :: "(nat \<times> nat) option"

definition encoder_new :: "nat \<Rightarrow> nat \<Rightarrow> CpuEvrtckEncoder" where
  "encoder_new width height =
     \<lparr>ce_prev = replicate (width * height * 4) 0, ce_width = width, ce_height = height, ce_pending_keyframe = True,
      ce_focus = None\<rparr>"

definition encode_inner_impl ::
  "(bytes \<Rightarrow> bytes option) \<Rightarrow> CpuEvrtckEncoder \<Rightarrow> bytes \<Rightarrow> u32 \<Rightarrow> bool
   \<Rightarrow> CpuEvrtckEncoder \<times> EvrtckPacket \<times> FrameStats \<times> TileOffset list" where
  "encode_inner_impl zenc ce bgra frame_id want_offsets =
     (let is_kf = ce_pending_keyframe ce;
          ce = ce\<lparr>ce_pending_keyframe := False\<rparr>;
          (data, stats, offsets) = encode_frame_with_offsets zenc bgra (ce_prev ce) (ce_width ce) (ce_height ce) frame_id
             is_kf (ce_focus ce) want_offsets;
          ce = (if 0 < fs_dirty_tiles stats \<or> is_kf then ce\<lparr>ce_prev := bgra\<rparr> else ce);
          ce = (if \<not> is_kf \<and> 0 < fs_total_tiles stats \<and> fs_total_tiles stats * 9 \<le> fs_dirty_tiles stats * 10
                then ce\<lparr>ce_pending_keyframe := True\<rparr> else ce)
      in (ce, \<lparr>pk_frame_id = frame_id, pk_width = of_nat (ce_width ce), pk_height = of_nat (ce_height ce), pk_data = data\<rparr>,
          stats, offsets))"

definition request_keyframe :: "CpuEvrtckEncoder \<Rightarrow> CpuEvrtckEncoder" where
  "request_keyframe ce = ce\<lparr>ce_prev := replicate (length (ce_prev ce)) 0, ce_pending_keyframe := True\<rparr>"

definition set_focus :: "(nat \<times> nat) option \<Rightarrow> CpuEvrtckEncoder \<Rightarrow> CpuEvrtckEncoder" where
  "set_focus focus_tile ce = ce\<lparr>ce_focus := focus_tile\<rparr>"

record EvrtckDecoder =
  ed_frame :: bytes
  ed_width :: nat
  ed_height :: nat

definition decoder_new :: EvrtckDecoder where
  "decoder_new = \<lparr>ed_frame = [], ed_width = 0, ed_height = 0\<rparr>"

text \<open>The size check of the two \<open>decode_wire\<close> functions; \<open>usize\<close> products are exact, as for any frame that fits in memory.\<close>

definition fit_buffer :: "nat \<Rightarrow> nat \<Rightarrow> EvrtckDecoder \<Rightarrow> EvrtckDecoder" where
  "fit_buffer w h ed =
     (if ed_width ed \<noteq> w \<or> ed_height ed \<noteq> h \<or> length (ed_frame ed) \<noteq> w * h * 4
      then \<lparr>ed_frame = replicate (w * h * 4) 0, ed_width = w, ed_height = h\<rparr> else ed)"

definition decode_wire_prioritized ::
  "(bytes \<Rightarrow> bytes option) \<Rightarrow> EvrtckDecoder \<Rightarrow> bytes \<Rightarrow> (nat \<Rightarrow> rat) option \<Rightarrow> EvrtckDecoder \<times> (EvrtckError + bytes \<times> nat list)" where
  "decode_wire_prioritized zdec ed data tile_priority =
     (if length data < 18 then (ed, Inl TruncatedData)
      else if subslice 0 4 data \<noteq> EVCK_MAGIC then (ed, Inl InvalidMagic)
      else let w = unat (le_word (subslice 10 14 data) :: u32); h = unat (le_word (subslice 14 18 data) :: u32);
               ed = fit_buffer w h ed
           in case decode_frame_prioritized zdec data (ed_frame ed) w h tile_priority of
                (frame, Inl e) \<Rightarrow> (ed\<lparr>ed_frame := frame\<rparr>, Inl e)
              | (frame, Inr apply_order) \<Rightarrow> (ed\<lparr>ed_frame := frame\<rparr>, Inr (frame, apply_order)))"

definition decode_wire :: "(bytes \<Rightarrow> bytes option) \<Rightarrow> EvrtckDecoder \<Rightarrow> bytes \<Rightarrow> EvrtckDecoder \<times> (EvrtckError + bytes)" where
  "decode_wire zdec ed data =
     (if length data < 18 then (ed, Inl TruncatedData)
      else if subslice 0 4 data \<noteq> EVCK_MAGIC then (ed, Inl InvalidMagic)
      else let w = unat (le_word (subslice 10 14 data) :: u32); h = unat (le_word (subslice 14 18 data) :: u32);
               ed = fit_buffer w h ed
           in case decode_frame zdec data (ed_frame ed) w h of
                (frame, Inl e) \<Rightarrow> (ed\<lparr>ed_frame := frame\<rparr>, Inl e)
              | (frame, Inr u) \<Rightarrow> (ed\<lparr>ed_frame := frame\<rparr>, Inr frame))"

definition decoder_reset :: "EvrtckDecoder \<Rightarrow> EvrtckDecoder" where
  "decoder_reset ed = ed\<lparr>ed_frame := replicate (length (ed_frame ed)) 0\<rparr>"

definition sync_from_rgba :: "bytes \<Rightarrow> nat \<Rightarrow> nat \<Rightarrow> EvrtckDecoder \<Rightarrow> EvrtckDecoder" where
  "sync_from_rgba rgba width height ed =
     (if length rgba \<noteq> width * height * 4 then ed
      else \<lparr>ed_frame = rgba, ed_width = width, ed_height = height\<rparr>)"

section \<open>Lemmas: the tile map\<close>

lemma count_ones_set_bit:
  assumes "i < 8" "\<not> bit b i"
  shows "count_ones (b OR push_bit i 1) = Suc (count_ones b)"
proof -
  have eq: "bit (b OR push_bit i 1) j = (bit b j \<or> j = i)" if "j < 8" for j
    using that assms(1) by (auto simp: bit_or_iff bit_exp_iff)
  have card: "count_ones c = card {j \<in> {0..<8}. bit c j}" for c
    unfolding count_ones_def by (subst distinct_card[symmetric]) (auto intro: arg_cong[where f = card])
  have "{j \<in> {0..<8}. bit (b OR push_bit i 1) j} = insert i {j \<in> {0..<8}. bit b j}"
    using eq assms(1) by auto
  then show ?thesis using assms(2) by (simp add: card)
qed

definition map_bit :: "bytes \<Rightarrow> nat \<Rightarrow> bool" where
  "map_bit m idx \<longleftrightarrow> bit (m ! (idx div 8)) (idx mod 8)"

lemma length_mark_tile [simp]: "length (mark_tile idx m) = length m"
  by (simp add: mark_tile_def)

lemma map_bit_mark_tile:
  assumes "idx < 8 * length m" "j < 8 * length m"
  shows "map_bit (mark_tile idx m) j = (map_bit m j \<or> j = idx)"
proof -
  have l: "idx div 8 < length m" "j div 8 < length m" using assms by simp_all
  have "(j div 8 = idx div 8 \<and> j mod 8 = idx mod 8) = (j = idx)" by (metis div_mult_mod_eq)
  then show ?thesis using l
    by (auto simp: map_bit_def mark_tile_def nth_list_update bit_or_iff bit_exp_iff)
qed

lemma sum_ones_mark_tile:
  assumes "idx < 8 * length m" "\<not> map_bit m idx"
  shows "sum_list (map count_ones (mark_tile idx m)) = Suc (sum_list (map count_ones m))"
proof -
  let ?i = "idx div 8" and ?v = "m ! (idx div 8) OR push_bit (idx mod 8) 1"
  have l: "?i < length m" using assms by simp
  have v: "count_ones ?v = Suc (count_ones (m ! ?i))"
    using assms(2) by (intro count_ones_set_bit) (simp_all add: map_bit_def)
  have "sum_list (map count_ones m) = sum_list (map count_ones (take ?i m)) + count_ones (m ! ?i) + sum_list (map count_ones (drop (Suc ?i) m))"
    by (subst id_take_nth_drop[OF l]) simp
  then show ?thesis using l v by (simp add: mark_tile_def upd_conv_take_nth_drop)
qed

lemma dirty_map_count:
  assumes "distinct idxs" "\<forall>i \<in> set idxs. i < 8 * n"
  shows "length (dirty_map n idxs) = n" "sum_list (map count_ones (dirty_map n idxs)) = length idxs"
proof -
  have g: "distinct is \<Longrightarrow> \<forall>i \<in> set is. i < 8 * length m \<and> \<not> map_bit m i \<Longrightarrow>
     length (fold mark_tile is m) = length m \<and>
     sum_list (map count_ones (fold mark_tile is m)) = sum_list (map count_ones m) + length is" for "is" m
  proof (induction "is" arbitrary: m)
    case (Cons i "is")
    have "\<forall>j \<in> set is. j < 8 * length (mark_tile i m) \<and> \<not> map_bit (mark_tile i m) j"
      using Cons.prems map_bit_mark_tile[of i m] by auto
    then show ?case using Cons.IH[of "mark_tile i m"] Cons.prems sum_ones_mark_tile[of i m] by simp
  qed simp
  have z: "\<not> map_bit (replicate n 0) i" if "i < 8 * n" for i using that by (simp add: map_bit_def)
  have "sum_list (map count_ones (replicate n 0)) = 0" by (simp add: count_ones_def sum_list_replicate)
  then show "length (dirty_map n idxs) = n" "sum_list (map count_ones (dirty_map n idxs)) = length idxs"
    unfolding dirty_map_def using g[of idxs "replicate n 0"] assms z by simp_all
qed

section \<open>Lemmas: the entries\<close>

text \<open>A tile as the encoder lists it: index, mode and encoded bytes.\<close>

definition entry_of :: "nat \<times> u8 \<times> bytes \<Rightarrow> nat \<times> bytes \<times> u8" where
  "entry_of = (\<lambda>(idx, mode, enc). (idx, mode # entry_body mode enc, mode))"

definition tile_entry_ok :: "nat \<Rightarrow> nat \<times> u8 \<times> bytes \<Rightarrow> bool" where
  "tile_entry_ok tile_count = (\<lambda>(idx, mode, enc). idx < tile_count \<and>
     (mode = MODE_SOLID \<and> length enc = 4 \<or> (mode = MODE_DELTA \<or> mode = MODE_ZSTD) \<and> length enc < 2 ^ 32))"

lemma read_written_entries:
  assumes "tile_count \<le> 65536"
  shows "\<forall>e \<in> set es. tile_entry_ok tile_count e \<Longrightarrow>
    read_entries tile_count (length es) (fst (write_entries s (map entry_of es)) @ rest) = Inr es"
proof (induction es arbitrary: s)
  case (Cons e es)
  obtain idx mode enc where e: "e = (idx, mode, enc)" by (cases e)
  have ok: "idx < tile_count" "mode = MODE_SOLID \<and> length enc = 4 \<or> (mode = MODE_DELTA \<or> mode = MODE_ZSTD) \<and> length enc < 2 ^ 32"
    using Cons.prems by (auto simp: e tile_entry_ok_def)
  have u: "unat (of_nat idx :: u16) = idx" using ok(1) assms by (simp add: unat_of_nat_u16)
  let ?s = "s + length (le_bytes 2 (of_nat idx :: u16) @ mode # entry_body mode enc)"
  let ?tail = "fst (write_entries ?s (map entry_of es)) @ rest"
  have w: "fst (write_entries s (map entry_of (e # es))) @ rest
      = le_bytes 2 (of_nat idx :: u16) @ mode # entry_body mode enc @ ?tail"
    by (simp add: e entry_of_def Let_def split: prod.splits)
  have IH: "read_entries tile_count (length es) ?tail = Inr es" using Cons by simp
  have len: "unat (of_nat (length enc) :: u32) = length enc" if "length enc < 2 ^ 32" using that by (simp add: unat_of_nat_u32)
  from ok(2) show ?case unfolding w
    using u ok(1) IH len
    by (auto simp: e entry_body_def MODE_SOLID_def MODE_DELTA_def MODE_ZSTD_def)
qed simp

lemma write_entries_start: "fst (write_entries s tiles) = fst (write_entries 0 tiles)"
proof (induction tiles arbitrary: s)
  case (Cons t tiles)
  obtain idx d m where t: "t = (idx, d, m)" by (cases t)
  have "fst (write_entries k tiles) = fst (write_entries 0 tiles)" for k by (rule Cons.IH)
  then show ?case by (simp add: t Let_def split: prod.splits) (metis fst_conv)
qed simp

section \<open>Lemmas: the tile grid\<close>

definition tile_of :: "nat \<Rightarrow> nat \<Rightarrow> nat" where
  "tile_of width k = k div 4 div width div TILE_SIZE * tiles_in_dim width + k div 4 mod width div TILE_SIZE"

lemma tile_index_less: "t < tiles_in_dim px \<longleftrightarrow> t * TILE_SIZE < px"
  unfolding tiles_in_dim_def TILE_SIZE_def by (auto simp: less_eq_div_iff_mult_less_eq Suc_le_eq[symmetric])

lemma tile_span:
  assumes "t < tiles_in_dim px"
  shows "t * TILE_SIZE < min (t * TILE_SIZE + TILE_SIZE) px"
    and "v < px \<Longrightarrow> t * TILE_SIZE \<le> v \<and> v < min (t * TILE_SIZE + TILE_SIZE) px \<longleftrightarrow> v div TILE_SIZE = t"
proof -
  have "t * TILE_SIZE < px" using assms by (simp add: tile_index_less)
  then show "t * TILE_SIZE < min (t * TILE_SIZE + TILE_SIZE) px" by (simp add: TILE_SIZE_def)
  show "t * TILE_SIZE \<le> v \<and> v < min (t * TILE_SIZE + TILE_SIZE) px \<longleftrightarrow> v div TILE_SIZE = t" if "v < px"
    using that unfolding TILE_SIZE_def by auto
qed

lemma tile_grid:
  assumes "idx < tiles_in_dim width * tiles_in_dim height"
  obtains x0 y0 x1 y1 where "rect_of_tile width height idx = (x0, y0, x1, y1)"
    "x0 < x1" "y0 < y1" "x1 \<le> width" "y1 \<le> height"
    "\<forall>k < width * height * 4. in_rect width x0 y0 x1 y1 k \<longleftrightarrow> tile_of width k = idx"
proof -
  let ?tx = "idx mod tiles_in_dim width" and ?ty = "idx div tiles_in_dim width"
  have pos: "0 < tiles_in_dim width" using assms by (cases "tiles_in_dim width") auto
  have t: "?tx < tiles_in_dim width" "?ty < tiles_in_dim height"
    using assms pos by (simp_all add: less_mult_imp_div_less mult.commute)
  let ?x1 = "min (?tx * TILE_SIZE + TILE_SIZE) width" and ?y1 = "min (?ty * TILE_SIZE + TILE_SIZE) height"
  have "in_rect width (?tx * TILE_SIZE) (?ty * TILE_SIZE) ?x1 ?y1 k \<longleftrightarrow> tile_of width k = idx"
    if k: "k < width * height * 4" for k
  proof -
    let ?p = "k div 4"
    have w: "0 < width" using k by (cases width) auto
    have p: "?p < width * height" using k by simp
    have v: "?p mod width < width" "?p div width < height"
      using w p by (simp_all add: less_mult_imp_div_less mult.commute)
    have x: "?p mod width div TILE_SIZE < tiles_in_dim width"
      using v(1) by (simp add: tile_index_less TILE_SIZE_def)
    have "in_rect width (?tx * TILE_SIZE) (?ty * TILE_SIZE) ?x1 ?y1 k
        \<longleftrightarrow> ?p mod width div TILE_SIZE = ?tx \<and> ?p div width div TILE_SIZE = ?ty"
      unfolding in_rect_pixel using tile_span(2)[OF t(1) v(1)] tile_span(2)[OF t(2) v(2)] by blast
    also have "\<dots> \<longleftrightarrow> tile_of width k = idx"
      unfolding tile_of_def using x pos
      by (metis div_mult_mod_eq div_mult_self3 mod_mult_self3 div_less mod_less add.right_neutral less_nat_zero_code)
    finally show ?thesis .
  qed
  then show thesis
    using that[of "?tx * TILE_SIZE" "?ty * TILE_SIZE" ?x1 ?y1] tile_span(1)[OF t(1)] tile_span(1)[OF t(2)]
    by (simp add: rect_of_tile_def tile_rect_def Let_def)
qed

lemma tile_of_less: "k < width * height * 4 \<Longrightarrow> tile_of width k < tiles_in_dim width * tiles_in_dim height"
proof -
  assume k: "k < width * height * 4"
  let ?p = "k div 4"
  have w: "0 < width" using k by (cases width) auto
  have p: "?p < width * height" using k by simp
  have v: "?p mod width < width" "?p div width < height"
    using w p by (simp_all add: less_mult_imp_div_less mult.commute)
  have x: "?p mod width div TILE_SIZE < tiles_in_dim width" "?p div width div TILE_SIZE < tiles_in_dim height"
    using v by (simp_all add: tile_index_less TILE_SIZE_def)
  have "tile_of width k < (?p div width div TILE_SIZE) * tiles_in_dim width + tiles_in_dim width"
    using x(1) by (simp add: tile_of_def)
  also have "\<dots> \<le> tiles_in_dim height * tiles_in_dim width" using x(2) by (metis Suc_leI mult_Suc add.commute mult_le_mono1)
  finally show ?thesis by (simp add: mult.commute)
qed

lemma clean_tile_equal:
  assumes "\<not> tile_is_dirty rgba prev width height tx ty" "tile_rect width height tx ty = (x0, y0, x1, y1)"
    and "x0 < x1" "x1 \<le> width" "y1 \<le> height" "length rgba = width * height * 4" "length prev = width * height * 4"
    and "in_rect width x0 y0 x1 y1 k"
  shows "rgba ! k = prev ! k"
proof -
  note r = in_rect_row[OF assms(8)]
  note s = rect_segment(2)[OF assms(8,4) less_imp_le[OF assms(3)] assms(5)]
  let ?y = "k div (width * 4)" let ?rs = "(?y * width + x0) * 4"
  have "subslice ?rs (?rs + (x1 - x0) * 4) rgba = subslice ?rs (?rs + (x1 - x0) * 4) prev"
    using assms(1,2) r(1,2) by (auto simp: tile_is_dirty_def Let_def list_ex_iff split: if_splits)
  then show ?thesis using s[OF assms(6)] s[OF assms(7)] by simp
qed

lemma dirty_indices_cover:
  assumes "length rgba = width * height * 4" "length prev = width * height * 4" "k < width * height * 4"
    and "rgba ! k \<noteq> prev ! k"
  shows "tile_of width k \<in> set (dirty_indices rgba prev width height)"
proof -
  let ?i = "tile_of width k"
  note less = tile_of_less[OF assms(3)]
  obtain x0 y0 x1 y1 where g: "rect_of_tile width height ?i = (x0, y0, x1, y1)" "x0 < x1" "x1 \<le> width" "y1 \<le> height"
    "in_rect width x0 y0 x1 y1 k"
    using tile_grid[OF less] assms(3) by metis
  have "tile_is_dirty rgba prev width height (?i mod tiles_in_dim width) (?i div tiles_in_dim width)"
    using clean_tile_equal[OF _ _ g(2-4) assms(1,2) g(5)] g(1) assms(4) by (auto simp: rect_of_tile_def Let_def)
  then show ?thesis using less by (simp add: dirty_indices_def Let_def)
qed

section \<open>Lemmas: painting and decoding a frame\<close>

lemma paint_all_ok:
  "distinct (map fst es) \<Longrightarrow>
   \<forall>(idx, px) \<in> set es. idx < tiles_in_dim width * tiles_in_dim height \<and> paints width height (rect_of_tile width height idx) base tgt px \<Longrightarrow>
   length frame = width * height * 4 \<Longrightarrow>
   \<forall>k < length frame. tile_of width k \<in> fst ` set es \<longrightarrow> frame ! k = base k \<Longrightarrow>
   \<exists>frame'. paint_all width height (map (\<lambda>(idx, px). (idx, Inr px)) es) frame = (frame', None) \<and> length frame' = length frame \<and>
     (\<forall>k < length frame. frame' ! k = (if tile_of width k \<in> fst ` set es then tgt k else frame ! k))"
proof (induction es arbitrary: frame)
  case (Cons e es)
  obtain idx px where e: "e = (idx, px)" by (cases e)
  have h: "idx < tiles_in_dim width * tiles_in_dim height" "paints width height (rect_of_tile width height idx) base tgt px"
    using Cons.prems(2) by (auto simp: e)
  obtain x0 y0 x1 y1 where rect: "rect_of_tile width height idx = (x0, y0, x1, y1)"
    and g: "\<forall>k < width * height * 4. in_rect width x0 y0 x1 y1 k \<longleftrightarrow> tile_of width k = idx"
    using tile_grid[OF h(1)] by metis
  have "\<forall>k < length frame. in_rect width x0 y0 x1 y1 k \<longrightarrow> frame ! k = base k"
    using Cons.prems(3,4) g by (simp add: e)
  then have "length frame = width * height * 4 \<and> (\<forall>k < length frame. in_rect width x0 y0 x1 y1 k \<longrightarrow> frame ! k = base k)"
    using Cons.prems(3) by blast
  then obtain f1 where f1: "paint_tile width x0 y0 x1 y1 px frame = Inr f1" "length f1 = length frame"
    and "\<forall>k < length frame. f1 ! k = (if in_rect width x0 y0 x1 y1 k then tgt k else frame ! k)"
    using h(2)[unfolded paints_def rect case_prod_conv, rule_format, of frame] by blast
  then have n1: "\<forall>k < length frame. f1 ! k = (if tile_of width k = idx then tgt k else frame ! k)"
    using g Cons.prems(3) by simp
  have d: "idx \<notin> fst ` set es" using Cons.prems(1) by (simp add: e)
  have "\<forall>k < length f1. tile_of width k \<in> fst ` set es \<longrightarrow> f1 ! k = base k"
    using Cons.prems(4) f1(2) n1 d by (auto simp: e)
  then obtain f2 where f2: "paint_all width height (map (\<lambda>(idx, px). (idx, Inr px)) es) f1 = (f2, None)" "length f2 = length f1"
     "\<forall>k < length f1. f2 ! k = (if tile_of width k \<in> fst ` set es then tgt k else f1 ! k)"
    using Cons.IH[of f1] Cons.prems(1-3) f1(2) by (auto simp: e)
  have "paint_all width height (map (\<lambda>(idx, px). (idx, Inr px)) (e # es)) frame = (f2, None)"
    using f1(1) f2(1) by (simp add: e rect)
  moreover have "\<forall>k < length frame. f2 ! k = (if tile_of width k \<in> fst ` set (e # es) then tgt k else frame ! k)"
    using f2(3) f1(2) n1 d by (simp add: e)
  ultimately show ?case using f2(2) f1(2) by auto
qed simp

text \<open>The contract of the dimensions: tile indices and sizes fit their header fields.\<close>

definition dims_ok :: "nat \<Rightarrow> nat \<Rightarrow> bool" where
  "dims_ok width height \<longleftrightarrow> tiles_in_dim width * tiles_in_dim height \<le> 65536 \<and> width < 2 ^ 32 \<and> height < 2 ^ 32"

lemma header_fields:
  fixes ver flags :: u8 and fid :: u32 and rest :: bytes
  assumes "width < 2 ^ 32" "height < 2 ^ 32" "mb < 2 ^ 16"
  defines "d \<equiv> packet_header ver flags fid width height mb @ rest"
  shows "\<not> length d < 20" "take 4 d = EVCK_MAGIC" "subslice 0 4 d = EVCK_MAGIC" "d ! 4 = ver" "d ! 5 = flags"
    "unat (le_word (subslice 10 14 d) :: u32) = width" "unat (le_word (subslice 14 18 d) :: u32) = height"
    "unat (le_word (subslice 18 20 d) :: u16) = mb" "drop 20 d = rest"
proof -
  have s: "subslice 10 14 d = le_bytes 4 (of_nat width :: u32)" "subslice 14 18 d = le_bytes 4 (of_nat height :: u32)"
    "subslice 18 20 d = le_bytes 2 (of_nat mb :: u16)"
    by (simp_all add: d_def packet_header_def EVCK_MAGIC_def subslice_def)
  show "\<not> length d < 20" "take 4 d = EVCK_MAGIC" "subslice 0 4 d = EVCK_MAGIC" "d ! 4 = ver" "d ! 5 = flags" "drop 20 d = rest"
    by (simp_all add: d_def packet_header_def EVCK_MAGIC_def subslice_def)
  show "unat (le_word (subslice 10 14 d) :: u32) = width" "unat (le_word (subslice 14 18 d) :: u32) = height"
    "unat (le_word (subslice 18 20 d) :: u16) = mb"
    unfolding s using assms(1-3) by (simp_all add: unat_of_nat_u32 unat_of_nat_u16)
qed

lemma mset_order_by_focus: "mset (order_by_focus tiles tx f) = mset tiles"
  by (simp add: order_by_focus_def split: option.splits)

text \<open>Reading the tiles of an assembled frame: the order of the entries and of the painting does not matter.\<close>

lemma decode_tiles_ok:
  assumes dims: "dims_ok width height" and len: "length frame = width * height * 4"
    and es: "distinct (map fst es)" "\<forall>e \<in> set es. tile_entry_ok (tiles_in_dim width * tiles_in_dim height) e"
    and px: "\<forall>(idx, mode, enc) \<in> set es. \<exists>p. decompress_tile zdec enc mode = Inr p \<and>
        paints width height (rect_of_tile width height idx) base tgt p"
    and base: "\<forall>k < length frame. tile_of width k \<in> fst ` set es \<longrightarrow> frame ! k = base k"
    and order: "mset es' = mset es" and mb: "mb = (tiles_in_dim width * tiles_in_dim height + 7) div 8"
  shows "\<exists>frame' ord. decode_tiles zdec (dirty_map mb (map fst es) @ fst (write_entries s (map entry_of es')) @ rest)
      mb frame width height prio = (frame', Inr ord) \<and> mset ord = mset (map fst es) \<and> length frame' = length frame \<and>
     (\<forall>k < length frame. frame' ! k = (if tile_of width k \<in> fst ` set es then tgt k else frame ! k))"
proof -
  let ?tc = "tiles_in_dim width * tiles_in_dim height"
  have set: "set es' = set es" using order by (metis set_mset_mset)
  have mset_fst: "mset (map fst es') = mset (map fst es)" using order by (metis mset_map)
  have "\<forall>i \<in> set (map fst es). i < 8 * mb" using es(2) mb by (fastforce simp: tile_entry_ok_def)
  note dm = dirty_map_count[OF es(1) this]
  have read: "read_entries ?tc (length es) (fst (write_entries s (map entry_of es')) @ rest) = Inr es'"
    using read_written_entries[of ?tc es' s rest] dims es(2) set mset_eq_length[OF order] by (simp add: dims_ok_def)
  define px_of where "px_of = (\<lambda>(idx, mode, enc). (idx, SOME p. decompress_tile zdec enc mode = Inr p \<and>
        paints width height (rect_of_tile width height idx) base tgt p))"
  have pxs: "decompress_tile zdec enc mode = Inr (snd (px_of (idx, mode, enc))) \<and>
      paints width height (rect_of_tile width height idx) base tgt (snd (px_of (idx, mode, enc)))"
    if "(idx, mode, enc) \<in> set es" for idx mode enc
    unfolding px_of_def case_prod_conv snd_conv by (rule someI_ex) (use px that in auto)
  let ?dec = "map (\<lambda>(idx, mode, enc). (idx, decompress_tile zdec enc mode)) es'"
  have dec: "?dec = map (\<lambda>(idx, p). (idx, Inr p)) (map px_of es')"
    using pxs set by (auto simp: px_of_def)
  have fst_px: "fst (px_of e) = fst e" for e by (cases e) (simp add: px_of_def)
  define po where "po = (case prio of None \<Rightarrow> map px_of es' | Some pr \<Rightarrow> sort_key (\<lambda>(idx, p). - pr idx) (map px_of es'))"
  have po: "mset po = mset (map px_of es')" by (simp add: po_def split: option.splits)
  have sorted_dec: "(case prio of None \<Rightarrow> ?dec | Some pr \<Rightarrow> sort_key (\<lambda>(idx, px). - pr idx) ?dec) = map (\<lambda>(idx, p). (idx, Inr p)) po"
  proof (cases prio)
    case (Some pr)
    show ?thesis unfolding dec po_def Some option.case
      by (subst sort_key_map) (simp add: case_prod_beta')
  qed (simp add: dec po_def)
  have po_fst: "mset (map fst po) = mset (map fst es)"
  proof -
    have "mset (map fst po) = image_mset fst (mset (map px_of es'))" unfolding mset_map po[unfolded mset_map] ..
    also have "\<dots> = mset (map fst es')" by (simp add: multiset.map_comp o_def fst_px)
    finally show ?thesis using mset_fst by simp
  qed
  have po_set: "set po = px_of ` set es" using po set by (metis set_map set_mset_mset)
  have fsts: "fst ` set po = fst ` set es" by (simp add: po_set image_image fst_px)
  have ok: "\<forall>(idx, p) \<in> set po. idx < ?tc \<and> paints width height (rect_of_tile width height idx) base tgt p"
  proof (clarify)
    fix idx p assume "(idx, p) \<in> set po"
    then obtain mode enc where e: "(idx, mode, enc) \<in> set es" "p = snd (px_of (idx, mode, enc))"
      unfolding po_set px_of_def by auto
    then show "idx < ?tc \<and> paints width height (rect_of_tile width height idx) base tgt p"
      using pxs[OF e(1)] es(2) by (auto simp: tile_entry_ok_def)
  qed
  have "distinct (map fst po)" using po_fst es(1) by (metis mset_eq_imp_distinct_iff)
  from paint_all_ok[OF this ok len] base obtain frame' where
    p: "paint_all width height (map (\<lambda>(idx, p). (idx, Inr p)) po) frame = (frame', None)" "length frame' = length frame"
      "\<forall>k < length frame. frame' ! k = (if tile_of width k \<in> fst ` set es then tgt k else frame ! k)"
    unfolding fsts by blast
  have "map fst (map (\<lambda>(idx, p). (idx, Inr p :: EvrtckError + TilePixels)) po) = map fst po" by (auto simp: case_prod_beta)
  then have "decode_tiles zdec (dirty_map mb (map fst es) @ fst (write_entries s (map entry_of es')) @ rest) mb frame width height prio
      = (frame', Inr (map fst po))"
    unfolding decode_tiles_def using dm read sorted_dec p(1) by (simp add: Let_def)
  then show ?thesis using p po_fst by blast
qed

lemma swap_ix_less: "k < n * 4 \<Longrightarrow> swap_ix k < n * 4"
  using swap_ix_props(1)[of k] by (metis less_mult_imp_div_less div_less_iff_less_mult zero_less_numeral)

lemma nth_swap_frame: "k < length xs \<Longrightarrow> swap_frame xs ! k = xs ! swap_ix k"
  by (simp add: swap_frame_def)

lemma length_swap_frame [simp]: "length (swap_frame xs) = length xs"
  by (simp add: swap_frame_def)

lemma order_by_focus_entries:
  "\<exists>es'. order_by_focus (map entry_of es) tx f = map entry_of es' \<and> mset es' = mset es"
proof (cases f)
  case (Some fo)
  show ?thesis unfolding order_by_focus_def Some option.case
    by (rule exI, subst sort_key_map, rule conjI[OF refl]) simp
qed (auto simp: order_by_focus_def)

definition frame_tiles :: "bool \<Rightarrow> bytes \<Rightarrow> bytes \<Rightarrow> nat \<Rightarrow> nat \<Rightarrow> nat list" where
  "frame_tiles key rgba prev width height =
     (if key then [0..<tiles_in_dim width * tiles_in_dim height] else dirty_indices rgba prev width height)"

lemma frame_tiles_props:
  "distinct (frame_tiles key rgba prev width height)"
  "idx \<in> set (frame_tiles key rgba prev width height) \<Longrightarrow> idx < tiles_in_dim width * tiles_in_dim height"
  by (auto simp: frame_tiles_def dirty_indices_def Let_def split: if_splits)

lemma untouched_bytes:
  assumes "length rgba = width * height * 4" "length prev = width * height * 4" "k < width * height * 4"
    and "tile_of width k \<notin> set (frame_tiles key rgba prev width height)"
  shows "\<not> key \<and> rgba ! swap_ix k = prev ! swap_ix k"
proof -
  have "tile_of width (swap_ix k) = tile_of width k" by (simp add: tile_of_def swap_ix_props(1))
  then show ?thesis
    using assms tile_of_less[OF assms(3)] swap_ix_less[OF assms(3)] dirty_indices_cover[OF assms(1,2), of "swap_ix k"]
    by (auto simp: frame_tiles_def split: if_splits)
qed

lemma tile_entries:
  assumes z: "zstd_ok zenc zdec" and len: "length rgba = width * height * 4"
    and ts: "\<forall>idx \<in> set ts. idx < tiles_in_dim width * tiles_in_dim height"
  shows "\<exists>es. map (encode_one zenc rgba prev width height key) ts = map entry_of es \<and> map fst es = ts \<and>
    (\<forall>e \<in> set es. tile_entry_ok (tiles_in_dim width * tiles_in_dim height) e) \<and>
    (\<forall>(idx, mode, enc) \<in> set es. \<exists>p. decompress_tile zdec enc mode = Inr p \<and>
        paints width height (rect_of_tile width height idx) (tile_base key prev) (\<lambda>k. rgba ! swap_ix k) p)"
proof -
  let ?tc = "tiles_in_dim width * tiles_in_dim height"
  let ?Q = "\<lambda>idx t. encode_one zenc rgba prev width height key idx = entry_of (idx, t) \<and> tile_entry_ok ?tc (idx, t) \<and>
     (\<exists>p. decompress_tile zdec (snd t) (fst t) = Inr p \<and>
        paints width height (rect_of_tile width height idx) (tile_base key prev) (\<lambda>k. rgba ! swap_ix k) p)"
  have "\<forall>idx \<in> set ts. \<exists>t. ?Q idx t"
  proof
    fix idx assume "idx \<in> set ts"
    then have less: "idx < ?tc" using ts by blast
    obtain x0 y0 x1 y1 where g: "rect_of_tile width height idx = (x0, y0, x1, y1)" "x0 < x1" "y0 < y1"
      using tile_grid[OF less] by metis
    have rect: "tile_rect width height (idx mod tiles_in_dim width) (idx div tiles_in_dim width) = (x0, y0, x1, y1)"
      using g(1) by (simp add: rect_of_tile_def Let_def)
    from encode_tile_ok[OF z rect g(2,3) len, of prev key] obtain mode enc px where
      "encode_tile_buf zenc rgba prev width height (idx mod tiles_in_dim width) (idx div tiles_in_dim width) key
         = (mode # entry_body mode enc, mode)"
      "mode = MODE_SOLID \<and> length enc = 4 \<or> (mode = MODE_DELTA \<or> mode = MODE_ZSTD) \<and> length enc < 2 ^ 32"
      "decompress_tile zdec enc mode = Inr px"
      "paints width height (x0, y0, x1, y1) (tile_base key prev) (\<lambda>k. rgba ! swap_ix k) px" by blast
    then show "\<exists>t. ?Q idx t" using less g(1)
      by (intro exI[of _ "(mode, enc)"]) (simp add: encode_one_def entry_of_def tile_entry_ok_def)
  qed
  then obtain t where t: "\<forall>idx \<in> set ts. ?Q idx (t idx)" by (rule bchoice[THEN exE])
  let ?es = "map (\<lambda>idx. (idx, t idx)) ts"
  have "map (encode_one zenc rgba prev width height key) ts = map entry_of ?es" using t by simp
  moreover have "map fst ?es = ts" by (simp add: o_def)
  moreover have "\<forall>e \<in> set ?es. tile_entry_ok ?tc e" using t by simp
  moreover have "\<forall>(idx, mode, enc) \<in> set ?es. \<exists>p. decompress_tile zdec enc mode = Inr p \<and>
        paints width height (rect_of_tile width height idx) (tile_base key prev) (\<lambda>k. rgba ! swap_ix k) p"
    using t by (auto simp: split_beta)
  ultimately show ?thesis by blast
qed

text \<open>The tiles \<open>ts\<close> of a frame, decoded over a framebuffer that holds their base and, elsewhere, already the new frame.\<close>

lemma decode_assembled:
  assumes z: "zstd_ok zenc zdec" and dims: "dims_ok width height"
    and len: "length rgba = width * height * 4" "length frame = width * height * 4"
    and ts: "distinct ts" "\<forall>idx \<in> set ts. idx < tiles_in_dim width * tiles_in_dim height"
    and base: "\<forall>k < width * height * 4. frame ! k = (if tile_of width k \<in> set ts then tile_base key prev k else rgba ! swap_ix k)"
    and mb: "mb = (tiles_in_dim width * tiles_in_dim height + 7) div 8"
  shows "\<exists>ord. decode_tiles zdec (dirty_map mb ts @
      fst (write_entries s (order_by_focus (map (encode_one zenc rgba prev width height key) ts) (tiles_in_dim width) focus)))
      mb frame width height prio = (swap_frame rgba, Inr ord)"
proof -
  obtain es where es: "map (encode_one zenc rgba prev width height key) ts = map entry_of es" "map fst es = ts"
    "\<forall>e \<in> set es. tile_entry_ok (tiles_in_dim width * tiles_in_dim height) e"
    "\<forall>(idx, mode, enc) \<in> set es. \<exists>p. decompress_tile zdec enc mode = Inr p \<and>
        paints width height (rect_of_tile width height idx) (tile_base key prev) (\<lambda>k. rgba ! swap_ix k) p"
    using tile_entries[OF z len(1) ts(2)] by blast
  obtain es' where es': "order_by_focus (map entry_of es) (tiles_in_dim width) focus = map entry_of es'" "mset es' = mset es"
    using order_by_focus_entries by blast
  have set: "fst ` set es = set ts" using es(2) by (metis set_map)
  have b: "\<forall>k < length frame. tile_of width k \<in> fst ` set es \<longrightarrow> frame ! k = tile_base key prev k"
    using base len(2) unfolding set by simp
  from decode_tiles_ok[OF dims len(2) _ es(3,4) b es'(2) mb, of s "[]" prio] ts(1)
  obtain frame' ord where d: "decode_tiles zdec (dirty_map mb ts @ fst (write_entries s (map entry_of es')) @ [])
      mb frame width height prio = (frame', Inr ord)" "length frame' = length frame"
      "\<forall>k < length frame. frame' ! k = (if tile_of width k \<in> set ts then rgba ! swap_ix k else frame ! k)"
    unfolding es(2) set by blast
  have "frame' = swap_frame rgba"
    by (rule nth_equalityI) (use d(2,3) base len in \<open>simp_all add: nth_swap_frame\<close>)
  then show ?thesis using d(1) unfolding es(1) es'(1) by auto
qed

lemma length_order_by_focus [simp]: "length (order_by_focus tiles tx f) = length tiles"
  by (simp add: order_by_focus_def split: option.splits)

lemma map_fst_encode_one [simp]: "map fst (map (encode_one zenc rgba prev width height key) ts) = ts"
  by (simp add: o_def encode_one_def Let_def)

lemma assembled_data:
  assumes "assemble_frame ver flags copies fid width height focus (map (encode_one zenc rgba prev width height key) ts) = (data, stats, offs)"
  defines "mb \<equiv> (tiles_in_dim width * tiles_in_dim height + 7) div 8"
  shows "\<exists>s. data = packet_header ver flags fid width height mb @ copies @ dirty_map mb ts @
      fst (write_entries s (order_by_focus (map (encode_one zenc rgba prev width height key) ts) (tiles_in_dim width) focus))"
    and "fs_dirty_tiles stats = of_nat (length ts)" "fs_total_tiles stats = of_nat (tiles_in_dim width * tiles_in_dim height)"
proof -
  let ?head = "packet_header ver flags fid width height mb @ copies @ dirty_map mb ts"
  obtain en off where w: "write_entries (length ?head)
     (order_by_focus (map (encode_one zenc rgba prev width height key) ts) (tiles_in_dim width) focus) = (en, off)" by fastforce
  have a: "data = ?head @ en \<and> fs_dirty_tiles stats = of_nat (length ts) \<and>
      fs_total_tiles stats = of_nat (tiles_in_dim width * tiles_in_dim height)"
    using assms(1) unfolding assemble_frame_def Let_def map_fst_encode_one mb_def[symmetric] w by auto
  have "en = fst (write_entries (length ?head)
     (order_by_focus (map (encode_one zenc rgba prev width height key) ts) (tiles_in_dim width) focus))" using w by simp
  then show "\<exists>s. data = packet_header ver flags fid width height mb @ copies @ dirty_map mb ts @
      fst (write_entries s (order_by_focus (map (encode_one zenc rgba prev width height key) ts) (tiles_in_dim width) focus))"
    using a by (metis append_assoc)
  show "fs_dirty_tiles stats = of_nat (length ts)" "fs_total_tiles stats = of_nat (tiles_in_dim width * tiles_in_dim height)"
    using a by blast+
qed

lemma encode_is_assembly:
  assumes "\<not> (\<not> key \<and> rgba = prev)"
    and "encode_frame_with_offsets zenc rgba prev width height fid key focus want = (data, stats, offs)"
  shows "\<exists>offs'. assemble_frame EVCK_VERSION (if key then FLAG_KEYFRAME else 0) [] fid width height focus
     (map (encode_one zenc rgba prev width height key) (frame_tiles key rgba prev width height)) = (data, stats, offs')"
  using assms unfolding encode_frame_with_offsets_def Let_def frame_tiles_def by (auto split: prod.splits)

lemma decode_header:
  assumes "dims_ok width height" "flags = (if key then FLAG_KEYFRAME else 0)" "mb < 65536"
  shows "decode_frame_prioritized zdec (packet_header EVCK_VERSION flags fid width height mb @ rest) frame width height prio
    = decode_tiles zdec rest mb (if key then replicate (length frame) 0 else frame) width height prio"
proof -
  have b: "width < 2 ^ 32" "height < 2 ^ 32" "mb < 2 ^ 16" using assms(1,3) by (simp_all add: dims_ok_def)
  note h = header_fields[OF b, of EVCK_VERSION flags fid rest]
  have f: "flags AND FLAG_NOP = 0" "flags AND FLAG_COPY_RECTS = 0" "(flags AND FLAG_KEYFRAME \<noteq> 0) = key"
    unfolding assms(2) FLAG_KEYFRAME_def FLAG_NOP_def FLAG_COPY_RECTS_def by simp_all
  show ?thesis
    unfolding decode_frame_prioritized_def h(2,4-9) Let_def
    using h(1) f by (simp add: EVCK_VERSION_def VERSION_COPY_RECTS_def)
qed

lemma encode_decode_frame:
  assumes z: "zstd_ok zenc zdec" and dims: "dims_ok width height"
    and len: "length rgba = width * height * 4" "length prev = width * height * 4" "length frame = width * height * 4"
    and sync: "key \<or> frame = swap_frame prev"
    and enc: "encode_frame_with_offsets zenc rgba prev width height fid key focus want = (data, stats, offs)"
  shows "\<exists>ord. decode_frame_prioritized zdec data frame width height prio = (swap_frame rgba, Inr ord)"
proof (cases "\<not> key \<and> rgba = prev")
  case True
  have b: "width < 2 ^ 32" "height < 2 ^ 32" "(0 :: nat) < 2 ^ 16" using dims by (simp_all add: dims_ok_def)
  note h = header_fields[OF b, of EVCK_VERSION FLAG_NOP fid "[]", simplified]
  have d: "data = packet_header EVCK_VERSION FLAG_NOP fid width height 0"
    using enc True by (simp add: encode_frame_with_offsets_def nop_packet_data_def)
  have "decode_frame_prioritized zdec data frame width height prio = (frame, Inr [])"
    unfolding d decode_frame_prioritized_def Let_def using h
    by (simp add: EVCK_VERSION_def FLAG_NOP_def FLAG_KEYFRAME_def)
  then show ?thesis using True sync by simp
next
  case False
  let ?ts = "frame_tiles key rgba prev width height" and ?tc = "tiles_in_dim width * tiles_in_dim height"
  let ?mb = "(?tc + 7) div 8" and ?fr = "if key then replicate (length frame) 0 else frame"
  obtain offs' where as: "assemble_frame EVCK_VERSION (if key then FLAG_KEYFRAME else 0) [] fid width height focus
      (map (encode_one zenc rgba prev width height key) ?ts) = (data, stats, offs')"
    using encode_is_assembly[OF False enc] by blast
  obtain s where data: "data = packet_header EVCK_VERSION (if key then FLAG_KEYFRAME else 0) fid width height ?mb @
      dirty_map ?mb ?ts @ fst (write_entries s (order_by_focus (map (encode_one zenc rgba prev width height key) ?ts) (tiles_in_dim width) focus))"
    using assembled_data(1)[OF as] by auto
  have mb: "?mb < 65536" using dims unfolding dims_ok_def by linarith
  have lf: "length ?fr = width * height * 4" using len by simp
  have "\<forall>k < width * height * 4. ?fr ! k = (if tile_of width k \<in> set ?ts then tile_base key prev k else rgba ! swap_ix k)"
  proof (intro allI impI)
    fix k assume k: "k < width * height * 4"
    show "?fr ! k = (if tile_of width k \<in> set ?ts then tile_base key prev k else rgba ! swap_ix k)"
      using untouched_bytes[OF len(1,2) k, of key] sync len k by (cases key) (auto simp: tile_base_def nth_swap_frame)
  qed
  from decode_assembled[OF z dims len(1) lf frame_tiles_props(1) _ this refl] frame_tiles_props(2)
  obtain ord where "decode_tiles zdec (dirty_map ?mb ?ts @ fst (write_entries s (order_by_focus
      (map (encode_one zenc rgba prev width height key) ?ts) (tiles_in_dim width) focus))) ?mb ?fr width height prio
      = (swap_frame rgba, Inr ord)" by blast
  then show ?thesis unfolding data decode_header[OF dims refl mb] by blast
qed

section \<open>Lemmas: encoder and decoder in step\<close>

definition in_sync :: "CpuEvrtckEncoder \<Rightarrow> EvrtckDecoder \<Rightarrow> bool" where
  "in_sync ce ed \<longleftrightarrow> length (ce_prev ce) = ce_width ce * ce_height ce * 4 \<and>
     (ce_pending_keyframe ce \<or>
      ed_width ed = ce_width ce \<and> ed_height ed = ce_height ce \<and> ed_frame ed = swap_frame (ce_prev ce))"

lemma changed_frame_dirty:
  assumes "length rgba = width * height * 4" "length prev = width * height * 4" "rgba \<noteq> prev"
  shows "frame_tiles False rgba prev width height \<noteq> []"
proof -
  obtain k where "k < length rgba" "rgba ! k \<noteq> prev ! k" using assms by (metis nth_equalityI)
  then show ?thesis using dirty_indices_cover[OF assms(1,2)] assms(1) by (auto simp: frame_tiles_def)
qed

lemma frame_tiles_length: "length (frame_tiles key rgba prev width height) \<le> tiles_in_dim width * tiles_in_dim height"
  by (auto simp: frame_tiles_def dirty_indices_def Let_def intro: order.trans[OF length_filter_le])

lemma dirty_count_pos:
  assumes "zstd_ok zenc zdec" "dims_ok width height" "length rgba = width * height * 4" "length prev = width * height * 4" "\<not> key"
    and enc: "encode_frame_with_offsets zenc rgba prev width height fid key focus want = (data, stats, offs)"
  shows "0 < fs_dirty_tiles stats \<longleftrightarrow> rgba \<noteq> prev"
proof (cases "rgba = prev")
  case True
  then show ?thesis using enc assms(5) by (auto simp: encode_frame_with_offsets_def Let_def)
next
  case False
  then have ne: "\<not> (\<not> key \<and> rgba = prev)" by simp
  let ?ts = "frame_tiles key rgba prev width height"
  obtain offs' where as: "assemble_frame EVCK_VERSION (if key then FLAG_KEYFRAME else 0) [] fid width height focus
      (map (encode_one zenc rgba prev width height key) ?ts) = (data, stats, offs')"
    using encode_is_assembly[OF ne enc] by blast
  have "0 < length ?ts" "length ?ts < 2 ^ 32"
    using changed_frame_dirty[OF assms(3,4) False] assms(2,5) frame_tiles_length[of key rgba prev width height]
    by (auto simp: dims_ok_def)
  then have "unat (of_nat (length ?ts) :: u32) \<noteq> 0" by (simp add: unat_of_nat_u32)
  then have "(of_nat (length ?ts) :: u32) \<noteq> 0" by (metis unat_0)
  then show ?thesis using assembled_data(2)[OF as] False by (simp add: word_gt_0)
qed

lemma decode_wire_encoded:
  assumes "zstd_ok zenc zdec" "dims_ok width height" "length rgba = width * height * 4" "length prev = width * height * 4"
    and sync: "key \<or> ed_width ed = width \<and> ed_height ed = height \<and> ed_frame ed = swap_frame prev"
    and enc: "encode_frame_with_offsets zenc rgba prev width height fid key focus want = (data, stats, offs)"
  shows "decode_wire zdec ed data = (\<lparr>ed_frame = swap_frame rgba, ed_width = width, ed_height = height\<rparr>, Inr (swap_frame rgba))"
proof -
  have "\<exists>flags mb rest. data = packet_header EVCK_VERSION flags fid width height mb @ rest \<and> mb < 2 ^ 16"
  proof (cases "\<not> key \<and> rgba = prev")
    case True
    then have "data = packet_header EVCK_VERSION FLAG_NOP fid width height 0 @ []"
      using enc by (simp add: encode_frame_with_offsets_def nop_packet_data_def)
    then show ?thesis by (intro exI[of _ FLAG_NOP] exI[of _ 0]) simp
  next
    case False
    have "(tiles_in_dim width * tiles_in_dim height + 7) div 8 < 65536" using assms(2) unfolding dims_ok_def by linarith
    then have "(tiles_in_dim width * tiles_in_dim height + 7) div 8 < 2 ^ 16" by simp
    then show ?thesis using encode_is_assembly[OF False enc]
      by (auto simp: assemble_frame_def Let_def split: prod.splits)
  qed
  then obtain flags mb rest where d: "data = packet_header EVCK_VERSION flags fid width height mb @ rest" "mb < 2 ^ 16" by blast
  have b: "width < 2 ^ 32" "height < 2 ^ 32" using assms(2) by (simp_all add: dims_ok_def)
  note h = header_fields[OF b d(2), of EVCK_VERSION flags fid rest, folded d(1)]
  let ?ed = "fit_buffer width height ed"
  have ed: "length (ed_frame ?ed) = width * height * 4" "ed_width ?ed = width" "ed_height ?ed = height"
    "key \<or> ed_frame ?ed = swap_frame prev"
    using sync assms(4) by (auto simp: fit_buffer_def)
  obtain ord where "decode_frame_prioritized zdec data (ed_frame ?ed) width height None = (swap_frame rgba, Inr ord)"
    using encode_decode_frame[OF assms(1-4) ed(1,4) enc] by blast
  then have "decode_frame zdec data (ed_frame ?ed) width height = (swap_frame rgba, Inr ())"
    by (simp add: decode_frame_def)
  then show ?thesis
    unfolding decode_wire_def h(3,6,7) Let_def using h(1) ed(2,3) by (cases ?ed) auto
qed

lemma encode_step_sync:
  assumes "zstd_ok zenc zdec" "dims_ok (ce_width ce) (ce_height ce)" "in_sync ce ed"
    and "length bgra = ce_width ce * ce_height ce * 4"
    and e: "encode_inner_impl zenc ce bgra fid want = (ce', pkt, stats, offs)"
  shows "\<exists>ed'. decode_wire zdec ed (pk_data pkt) = (ed', Inr (swap_frame bgra)) \<and> in_sync ce' ed' \<and>
    ce_width ce' = ce_width ce \<and> ce_height ce' = ce_height ce"
proof -
  let ?w = "ce_width ce" and ?h = "ce_height ce" and ?key = "ce_pending_keyframe ce"
  obtain data st of' where enc: "encode_frame_with_offsets zenc bgra (ce_prev ce) ?w ?h fid ?key (ce_focus ce) want = (data, st, of')"
    by (metis prod_cases3)
  have lp: "length (ce_prev ce) = ?w * ?h * 4" and sy: "?key \<or> ed_width ed = ?w \<and> ed_height ed = ?h \<and> ed_frame ed = swap_frame (ce_prev ce)"
    using assms(3) by (auto simp: in_sync_def)
  note d = decode_wire_encoded[OF assms(1,2,4) lp sy enc]
  have pos: "0 < fs_dirty_tiles st \<or> ?key \<longleftrightarrow> ?key \<or> bgra \<noteq> ce_prev ce"
    using dirty_count_pos[OF assms(1,2,4) lp _ enc] by blast
  have ce': "pk_data pkt = data" "ce_prev ce' = bgra" "ce_width ce' = ?w" "ce_height ce' = ?h"
    using e pos unfolding encode_inner_impl_def Let_def by (auto simp: enc split: if_splits)
  show ?thesis using d ce' assms(4) by (simp add: in_sync_def)
qed

section \<open>Lemmas: the size of the framebuffer\<close>

lemma length_paint_delta:
  assumes "x1 \<le> width" "x0 \<le> x1" "y1 \<le> h" "length frame = width * h * 4" "length delta = (x1 - x0) * 4 * (y1 - y0)"
  shows "length (paint_delta delta width x0 y0 x1 y1 frame) = length frame"
proof -
  let ?n = "(x1 - x0) * 4"
  let ?row = "\<lambda>y. if y0 \<le> y \<and> y < y1 then subslice ((y - y0) * ?n) ((y - y0) * ?n + ?n) delta else replicate ?n 0"
  have row: "length (?row y) = ?n" for y
  proof (cases "y0 \<le> y \<and> y < y1")
    case True
    then have "Suc (y - y0) \<le> y1 - y0" by linarith
    from mult_le_mono1[OF this, of ?n] have "(y - y0) * ?n + ?n \<le> (y1 - y0) * ?n" by (simp only: mult_Suc add.commute)
    then have "(y - y0) * ?n + ?n \<le> length delta" unfolding assms(5) by (simp only: mult.commute)
    then show ?thesis using True by simp
  qed auto
  have lg: "length (map2 (XOR) xs (?row y)) = ?n" if "length xs = ?n" for y and xs :: bytes using that row by simp
  have "paint_delta delta width x0 y0 x1 y1 frame =
      fold (\<lambda>y fr. splice ((y * width + x0) * 4)
        (map2 (XOR) (subslice ((y * width + x0) * 4) ((y * width + x0) * 4 + ?n) fr) (?row y)) fr) [y0..<y1] frame"
    unfolding paint_delta_def Let_def by (rule List.fold_cong) simp_all
  then show ?thesis using paint_rows[OF assms(1-4), of "\<lambda>y xs. map2 (XOR) xs (?row y)" y0, OF lg] by simp
qed

lemma length_paint_all:
  "\<forall>(idx, px) \<in> set es. idx < tiles_in_dim width * tiles_in_dim height \<and> (\<forall>c. px = Inr (Solid c) \<longrightarrow> length c = 4) \<Longrightarrow>
   length frame = width * height * 4 \<Longrightarrow> length (fst (paint_all width height es frame)) = width * height * 4"
proof (induction es arbitrary: frame)
  case (Cons e es)
  obtain idx px where e: "e = (idx, px)" by (cases e)
  show ?case
  proof (cases px)
    case (Inr p)
    obtain x0 y0 x1 y1 where g: "rect_of_tile width height idx = (x0, y0, x1, y1)" "x0 < x1" "y0 < y1" "x1 \<le> width" "y1 \<le> height"
    proof -
      have "idx < tiles_in_dim width * tiles_in_dim height" using Cons.prems(1) e by simp
      then show ?thesis by (rule tile_grid) (rule that)
    qed
    have l: "length frame' = width * height * 4" if "paint_tile width x0 y0 x1 y1 p frame = Inr frame'" for frame'
    proof (cases p)
      case (Solid c)
      have "length c = 4" using Cons.prems(1) e Inr Solid by simp
      from paint_solid_nth[OF g(4) less_imp_le[OF g(2)] g(5) Cons.prems(2) this, of y0]
      show ?thesis using that Cons.prems(2) unfolding paint_tile_def Solid TilePixels.case by simp
    next
      case (Delta d)
      have d: "length d = (x1 - x0) * 4 * (y1 - y0)" "frame' = paint_delta d width x0 y0 x1 y1 frame"
        using that unfolding paint_tile_def Delta TilePixels.case by (simp_all split: if_splits)
      show ?thesis using length_paint_delta[OF g(4) less_imp_le[OF g(2)] g(5) Cons.prems(2) d(1)] Cons.prems(2) d(2) by simp
    qed
    have es: "\<forall>(idx, px) \<in> set es. idx < tiles_in_dim width * tiles_in_dim height \<and> (\<forall>c. px = Inr (Solid c) \<longrightarrow> length c = 4)"
      using Cons.prems(1) by simp
    show ?thesis
    proof (cases "paint_tile width x0 y0 x1 y1 p frame")
      case (Inl er)
      then show ?thesis using Cons.prems(2) by (simp add: e Inr g(1))
    next
      case f: (Inr frame')
      show ?thesis using Cons.IH[OF es l[OF f]] f by (simp add: e Inr g(1))
    qed
  qed (use Cons.prems(2) e in simp)
qed simp

lemma read_entries_bounded: "read_entries tc n data = Inr es \<Longrightarrow> (idx, mode, enc) \<in> set es \<Longrightarrow> idx < tc"
proof (induction tc n data arbitrary: es rule: read_entries.induct)
  case (2 tc n data)
  then show ?case by (auto simp: Let_def split: if_splits list.splits sum.splits)
qed simp

lemma length_decode_tiles:
  assumes "length frame = width * height * 4"
  shows "length (fst (decode_tiles zdec data mb frame width height prio)) = width * height * 4"
proof (cases "length data < mb")
  case False
  let ?tc = "tiles_in_dim width * tiles_in_dim height"
  show ?thesis
  proof (cases "read_entries ?tc (sum_list (map count_ones (take mb data))) (drop mb data)")
    case (Inr es)
    let ?dec = "map (\<lambda>(idx, mode, enc). (idx, decompress_tile zdec enc mode)) es"
    define po where "po = (case prio of None \<Rightarrow> ?dec | Some p \<Rightarrow> sort_key (\<lambda>(idx, px). - p idx) ?dec)"
    have "set po = set ?dec" unfolding po_def by (cases prio) simp_all
    moreover have "idx < ?tc \<and> (\<forall>c. px = Inr (Solid c) \<longrightarrow> length c = 4)" if "(idx, px) \<in> set ?dec" for idx px
      using that read_entries_bounded[OF Inr] by (auto simp: decompress_tile_def split: if_splits sum.splits option.splits)
    ultimately have "\<forall>(idx, px) \<in> set po. idx < ?tc \<and> (\<forall>c. px = Inr (Solid c) \<longrightarrow> length c = 4)" by blast
    from length_paint_all[OF this assms] have "length (fst (paint_all width height po frame)) = width * height * 4" .
    then show ?thesis using False Inr unfolding decode_tiles_def Let_def
      by (cases "paint_all width height po frame") (simp add: po_def[symmetric] split: option.splits)
  qed (use False assms in \<open>simp add: decode_tiles_def Let_def\<close>)
qed (use assms in \<open>simp add: decode_tiles_def\<close>)

lemma length_apply_copy_rect:
  assumes "length frame = width * height * 4"
  shows "length (apply_copy_rect width height rect frame) = width * height * 4"
proof (cases "copy_rect_is_valid rect width height")
  case True
  let ?rb = "unat (cp_width rect) * 4" and ?sy = "unat (cp_src_y rect)" and ?sx = "unat (cp_src_x rect)"
  let ?dy = "unat (cp_dst_y rect)" and ?dx = "unat (cp_dst_x rect)" and ?h = "unat (cp_height rect)"
  let ?seg = "\<lambda>row. subslice (((?sy + row) * width + ?sx) * 4) (((?sy + row) * width + ?sx) * 4 + ?rb) frame"
  let ?temp = "concat (map ?seg [0..<?h])"
  have v: "?sx + unat (cp_width rect) \<le> width" "?dx + unat (cp_width rect) \<le> width" "?sy + ?h \<le> height" "?dy + ?h \<le> height"
    using True by (simp_all add: copy_rect_is_valid_def)
  have row: "((a + r) * width + x) * 4 + ?rb \<le> width * height * 4"
    if "x + unat (cp_width rect) \<le> width" "a + ?h \<le> height" "r < ?h" for a r x
  proof -
    have "(a + r) * width + (x + unat (cp_width rect)) \<le> Suc (a + r) * width" using that(1) by simp
    also have "\<dots> \<le> height * width" using that(2,3) by (intro mult_le_mono1) linarith
    finally show ?thesis by (simp add: mult.commute)
  qed
  have "length (?seg r) = ?rb" if "r < ?h" for r using row[OF v(1,3) that] assms by simp
  then have u: "\<forall>x \<in> set (map ?seg [0..<?h]). length x = ?rb" by auto
  note lt = length_concat_uniform[OF u]
  have "length (fold (\<lambda>r fr. splice (((?dy + r) * width + ?dx) * 4) (subslice (r * ?rb) (r * ?rb + ?rb) ?temp) fr) rs fr) =
      width * height * 4" if "set rs \<subseteq> {0..<?h}" "length fr = width * height * 4" for rs fr
    using that
  proof (induction rs arbitrary: fr)
    case (Cons r rs)
    then have r: "r < ?h" by simp
    from r have "Suc r \<le> ?h" by simp
    from mult_le_mono1[OF this, of ?rb] have "r * ?rb + ?rb \<le> length ?temp" unfolding lt by simp
    then have "length (subslice (r * ?rb) (r * ?rb + ?rb) ?temp) = ?rb" by simp
    then show ?case using Cons row[OF v(2,4) r] by simp
  qed simp
  from this[of "[0..<?h]" frame] assms show ?thesis using True by (simp add: apply_copy_rect_def Let_def)
qed (use assms in \<open>simp add: apply_copy_rect_def\<close>)

lemma length_apply_copy_rects:
  "length frame = width * height * 4 \<Longrightarrow> length (apply_copy_rects frame width height rects) = width * height * 4"
  unfolding apply_copy_rects_def by (induction rects arbitrary: frame) (simp_all add: length_apply_copy_rect)

lemma length_decode_frame:
  assumes "length frame = width * height * 4"
  shows "length (fst (decode_frame_prioritized zdec data frame width height prio)) = width * height * 4"
  using assms unfolding decode_frame_prioritized_def Let_def
  by (simp add: length_decode_tiles length_apply_copy_rects split: option.split prod.split)

definition decoder_wf :: "EvrtckDecoder \<Rightarrow> bool" where
  "decoder_wf ed \<longleftrightarrow> length (ed_frame ed) = ed_width ed * ed_height ed * 4"

lemma decoder_wf_fit: "decoder_wf (fit_buffer w h ed)" "ed_width (fit_buffer w h ed) = w" "ed_height (fit_buffer w h ed) = h"
  by (auto simp: fit_buffer_def decoder_wf_def)

lemma decoder_wf_decode_wire_prioritized:
  assumes "decoder_wf ed" "decode_wire_prioritized zdec ed data prio = (ed', r)"
  shows "decoder_wf ed' \<and> (\<forall>fr ord. r = Inr (fr, ord) \<longrightarrow> fr = ed_frame ed')"
proof -
  let ?w = "unat (le_word (subslice 10 14 data) :: u32)" and ?h = "unat (le_word (subslice 14 18 data) :: u32)"
  let ?ed = "fit_buffer ?w ?h ed"
  have "length (ed_frame ?ed) = ?w * ?h * 4" using decoder_wf_fit[of ?w ?h ed] by (simp add: decoder_wf_def)
  from length_decode_frame[OF this, of zdec data prio] assms show ?thesis
    unfolding decode_wire_prioritized_def Let_def
    by (auto simp: decoder_wf_def decoder_wf_fit split: if_splits prod.splits sum.splits)
qed

lemma decode_wire_is_prioritized:
  "decode_wire zdec ed data = (case decode_wire_prioritized zdec ed data None of
     (ed', r) \<Rightarrow> (ed', case r of Inl e \<Rightarrow> Inl e | Inr (fr, ord) \<Rightarrow> Inr fr))"
  unfolding decode_wire_def decode_wire_prioritized_def decode_frame_def Let_def
  by (simp split: prod.split sum.split)


datatype decoder_event =
  DecodeWire bytes
  | DecodeWirePrioritized bytes "(nat \<Rightarrow> rat) option"
  | SyncFromRgba bytes nat nat
  | DecoderReset

definition decoder_apply :: "(bytes \<Rightarrow> bytes option) \<Rightarrow> decoder_event \<Rightarrow> EvrtckDecoder \<Rightarrow> EvrtckDecoder" where
  "decoder_apply zdec ev ed =
     (case ev of
        DecodeWire data \<Rightarrow> fst (decode_wire zdec ed data)
      | DecodeWirePrioritized data prio \<Rightarrow> fst (decode_wire_prioritized zdec ed data prio)
      | SyncFromRgba rgba w h \<Rightarrow> sync_from_rgba rgba w h ed
      | DecoderReset \<Rightarrow> decoder_reset ed)"

lemma decoder_wf_apply: "decoder_wf ed \<Longrightarrow> decoder_wf (decoder_apply zdec ev ed)"
proof (cases ev)
  case (DecodeWire data)
  assume wf: "decoder_wf ed"
  obtain ed' r where d: "decode_wire_prioritized zdec ed data None = (ed', r)" by fastforce
  show ?thesis using decoder_wf_decode_wire_prioritized[OF wf d]
    by (simp add: decoder_apply_def DecodeWire decode_wire_is_prioritized d)
next
  case (DecodeWirePrioritized data prio)
  assume wf: "decoder_wf ed"
  obtain ed' r where d: "decode_wire_prioritized zdec ed data prio = (ed', r)" by fastforce
  show ?thesis using decoder_wf_decode_wire_prioritized[OF wf d] by (simp add: decoder_apply_def DecodeWirePrioritized d)
qed (auto simp: decoder_apply_def decoder_wf_def sync_from_rgba_def decoder_reset_def)

lemma decoder_wf_reachable: "decoder_wf ed \<Longrightarrow> decoder_wf (fold (decoder_apply zdec) evs ed)"
  by (induction evs arbitrary: ed) (simp_all add: decoder_wf_apply)

text \<open>Where the entries of an assembled packet are.\<close>

lemma write_entries_offsets:
  "write_entries (length pre) tiles = (out, offs) \<Longrightarrow>
   map (\<lambda>o'. subslice (to_byte_start o') (to_byte_start o' + to_byte_len o') (pre @ out @ post)) offs
      = map (\<lambda>(idx, d, m). le_bytes 2 (of_nat idx :: u16) @ d) tiles \<and>
   out = concat (map (\<lambda>(idx, d, m). le_bytes 2 (of_nat idx :: u16) @ d) tiles)"
proof (induction tiles arbitrary: out offs pre)
  case (Cons t tiles)
  obtain idx d m where t: "t = (idx, d, m)" by (cases t)
  let ?e = "le_bytes 2 (of_nat idx :: u16) @ d"
  obtain out' offs' where w: "write_entries (length (pre @ ?e)) tiles = (out', offs')" by fastforce
  have "write_entries (length pre) (t # tiles) =
      (?e @ out', \<lparr>to_tile_idx = of_nat idx, to_byte_start = length pre, to_byte_len = length ?e\<rparr> # offs')"
    using w by (simp add: t Let_def)
  then have o: "out = ?e @ out'" "offs = \<lparr>to_tile_idx = of_nat idx, to_byte_start = length pre, to_byte_len = length ?e\<rparr> # offs'"
    using Cons.prems by simp_all
  have h: "subslice (length pre) (length pre + length ?e) (pre @ out @ post) = ?e" unfolding o(1) by (simp add: subslice_def)
  note IH = Cons.IH[OF w]
  have "map (\<lambda>o'. subslice (to_byte_start o') (to_byte_start o' + to_byte_len o') (pre @ out @ post)) offs'
      = map (\<lambda>(idx, d, m). le_bytes 2 (of_nat idx :: u16) @ d) tiles"
    using IH[THEN conjunct1] unfolding o(1) append_assoc .
  then show ?case using h IH[THEN conjunct2] o(1) unfolding o(2) by (simp add: t)
qed simp


section \<open>Properties\<close>

text \<open>C33: Painting in priority order gives the same frame. For a packet of the encoder, decoded at a decoder that is in step,
  any priority function gives the frame that decoding in stream order gives.\<close>

theorem prioritized_decode_equivalent:
  fixes fid :: u32 and focus :: "(nat \<times> nat) option"
  assumes "zstd_ok zenc zdec" "dims_ok width height"
    and "length rgba = width * height * 4" "length prev = width * height * 4" "length frame = width * height * 4"
    and "key \<or> frame = swap_frame prev"
  defines "data \<equiv> fst (encode_frame zenc rgba prev width height fid key focus)"
  shows "fst (decode_frame_prioritized zdec data frame width height (Some priority)) = fst (decode_frame zdec data frame width height) \<and>
    (\<exists>ord. snd (decode_frame_prioritized zdec data frame width height (Some priority)) = Inr ord)"
proof -
  obtain d st of' where e: "encode_frame_with_offsets zenc rgba prev width height fid key focus False = (d, st, of')"
    by (metis prod_cases3)
  have d: "data = d" unfolding data_def encode_frame_def e by simp
  obtain o1 o2 where "decode_frame_prioritized zdec d frame width height (Some priority) = (swap_frame rgba, Inr o1)"
    "decode_frame_prioritized zdec d frame width height None = (swap_frame rgba, Inr o2)"
    using encode_decode_frame[OF assms(1-6) e] by blast
  then show ?thesis by (simp add: d decode_frame_def)
qed

theorem prioritized_decode_equivalent_witness:
  "fst (decode_frame_prioritized Some (fst (encode_frame Some [1, 2, 3, 4] [0, 0, 0, 0] 1 1 7 False None)) [0, 0, 0, 0] 1 1 (Some (\<lambda>_. 2)))
   = fst (decode_frame Some (fst (encode_frame Some [1, 2, 3, 4] [0, 0, 0, 0] 1 1 7 False None)) [0, 0, 0, 0] 1 1)"
proof -
  have z: "zstd_ok Some Some" by (simp add: zstd_ok_def TILE_SIZE_def)
  have d: "dims_ok 1 1" by (simp add: dims_ok_def tiles_in_dim_def TILE_SIZE_def)
  have s: "swap_frame [0, 0, 0, 0] = [0, 0, 0, 0]" by code_simp
  show ?thesis by (rule prioritized_decode_equivalent[OF z d, THEN conjunct1]) (simp_all add: s)
qed


text \<open>The byte ranges reported with a frame are exact. The ranges of a frame that is sent with offsets hold, one after the
  other and up to the last byte of the packet, the index and the encoding of the dirty tiles in the order of the focus.\<close>

theorem tile_offsets_exact:
  assumes "encode_frame_with_offsets zenc rgba prev width height fid key focus True = (data, stats, offs)"
    and "key \<or> rgba \<noteq> prev"
  defines "entries \<equiv> map (\<lambda>(idx, d, m). le_bytes 2 (of_nat idx :: u16) @ d) (order_by_focus
      (map (encode_one zenc rgba prev width height key)
        (if key then [0..<tiles_in_dim width * tiles_in_dim height] else dirty_indices rgba prev width height))
      (tiles_in_dim width) focus)"
  shows "map (\<lambda>o'. subslice (to_byte_start o') (to_byte_start o' + to_byte_len o') data) offs = entries \<and>
    drop (length data - length (concat entries)) data = concat entries"
proof -
  let ?tx = "tiles_in_dim width"
  let ?idxs = "if key then [0..<?tx * tiles_in_dim height] else dirty_indices rgba prev width height"
  let ?tiles = "map (encode_one zenc rgba prev width height key) ?idxs"
  let ?mb = "(?tx * tiles_in_dim height + 7) div 8"
  let ?head = "packet_header EVCK_VERSION (if key then FLAG_KEYFRAME else 0) fid width height ?mb @ dirty_map ?mb (map fst ?tiles)"
  obtain out of' where w: "write_entries (length ?head) (order_by_focus ?tiles ?tx focus) = (out, of')" by fastforce
  have d: "data = ?head @ out @ []" "offs = of'"
    using assms(1,2) w unfolding encode_frame_with_offsets_def assemble_frame_def Let_def by (auto split: if_splits)
  note o = write_entries_offsets[OF w, of "[]"]
  have "map (\<lambda>o'. subslice (to_byte_start o') (to_byte_start o' + to_byte_len o') data) offs = entries"
    unfolding d entries_def by (rule o[THEN conjunct1])
  moreover have "out = concat entries" unfolding entries_def by (rule o[THEN conjunct2])
  ultimately show ?thesis using d(1) by simp
qed

theorem tile_offsets_exact_witness:
  "map (\<lambda>o'. subslice (to_byte_start o') (to_byte_start o' + to_byte_len o')
       (fst (encode_frame_with_offsets Some [1, 2, 3, 4] [0, 0, 0, 0] 1 1 7 True None True)))
     (snd (snd (encode_frame_with_offsets Some [1, 2, 3, 4] [0, 0, 0, 0] 1 1 7 True None True))) = [[0, 0, 1, 3, 2, 1, 4]]"
proof -
  obtain d s ofs where e: "encode_frame_with_offsets Some [1, 2, 3, 4] [0, 0, 0, 0] 1 1 7 True None True = (d, s, ofs)"
    by (metis prod_cases3)
  have t: "map (\<lambda>(idx, d, m). le_bytes 2 (of_nat idx :: u16) @ d) (order_by_focus
      (map (encode_one Some [1, 2, 3, 4] [0, 0, 0, 0] 1 1 True)
        (if True then [0..<tiles_in_dim 1 * tiles_in_dim 1] else dirty_indices [1, 2, 3, 4] [0, 0, 0, 0] 1 1))
      (tiles_in_dim 1) None) = [[0, 0, 1, 3, 2, 1, 4]]"
    by code_simp
  show ?thesis using tile_offsets_exact[OF e] unfolding t e by simp
qed

end
