(* ===== verification/Evrtck_Capture.thy ===== *)
theory Evrtck_Capture
  imports Complex_Main Evrtck_Frame
begin

text \<open>
  The encoder paths of \<^verbatim>\<open>src/src/evrtck.rs\<close> that use what a capture backend knows of a frame (moved rectangles,
  dirty rectangles, vertical scrolling), the public \<open>EvrtckEncoder\<close> on the processor backend, and the absolute overlay
  of \<open>encode_tile_subset_absolute\<close> and \<open>EvrtckDecoder::apply_absolute_overlay\<close>. As in the frame theory a rayon branch and
  its sequential twin are one definition, and the frames given to an encoder have the size that its debug assertion states.
\<close>

section \<open>Data\<close>

definition FRAME_HEADER_LEN :: nat where "FRAME_HEADER_LEN = 20"

record DirtyRect =
  dr_left :: u32
  dr_top :: u32
  dr_right :: u32
  dr_bottom :: u32

definition dirty_rect_is_empty :: "DirtyRect \<Rightarrow> bool" where
  "dirty_rect_is_empty r \<longleftrightarrow> dr_right r \<le> dr_left r \<or> dr_bottom r \<le> dr_top r"

section \<open>Packets with copy rectangles\<close>

definition copy_rect_bytes :: "CopyRect \<Rightarrow> bytes" where
  "copy_rect_bytes r = le_bytes 4 (cp_src_x r) @ le_bytes 4 (cp_src_y r) @ le_bytes 4 (cp_dst_x r) @ le_bytes 4 (cp_dst_y r)
     @ le_bytes 4 (cp_width r) @ le_bytes 4 (cp_height r)"

definition write_copy_rects :: "CopyRect list \<Rightarrow> bytes" where
  "write_copy_rects copy_rects =
     le_bytes 2 (of_nat (min (length copy_rects) 65535) :: u16) @ concat (map copy_rect_bytes (take 65535 copy_rects))"

definition copy_rect_only_packet_data :: "u32 \<Rightarrow> nat \<Rightarrow> nat \<Rightarrow> CopyRect list \<Rightarrow> bytes" where
  "copy_rect_only_packet_data frame_id width height copy_rects =
     packet_header VERSION_COPY_RECTS FLAG_COPY_RECTS frame_id width height 0 @ write_copy_rects copy_rects"

definition clean_stats :: "nat \<Rightarrow> nat \<Rightarrow> nat \<Rightarrow> FrameStats" where
  "clean_stats width height bytes =
     \<lparr>fs_total_tiles = of_nat (tiles_in_dim width * tiles_in_dim height), fs_dirty_tiles = 0, fs_solid_tiles = 0,
      fs_delta_tiles = 0, fs_encoded_bytes = of_nat bytes\<rparr>"

definition encode_frame_with_offsets_and_copy_rects ::
  "(bytes \<Rightarrow> bytes option) \<Rightarrow> bytes \<Rightarrow> bytes \<Rightarrow> nat \<Rightarrow> nat \<Rightarrow> u32 \<Rightarrow> CopyRect list \<Rightarrow> (nat \<times> nat) option \<Rightarrow> bool
   \<Rightarrow> bytes \<times> FrameStats \<times> TileOffset list" where
  "encode_frame_with_offsets_and_copy_rects zenc rgba predicted_prev width height frame_id copy_rects focus want_offsets =
     (if rgba = predicted_prev then
        let out = packet_header VERSION_COPY_RECTS FLAG_COPY_RECTS frame_id width height 0 @ write_copy_rects copy_rects
        in (out, clean_stats width height (length out), [])
      else
        let (out, stats, offsets) = assemble_frame VERSION_COPY_RECTS FLAG_COPY_RECTS (write_copy_rects copy_rects)
               frame_id width height focus
               (map (encode_one zenc rgba predicted_prev width height False) (dirty_indices rgba predicted_prev width height))
        in (out, stats, if want_offsets then offsets else []))"

section \<open>Dirty rectangles\<close>

text \<open>The grid of tiles that a rectangle touches is marked; \<open>None\<close> when no rectangle is usable.\<close>

definition mark_rect :: "nat \<Rightarrow> nat \<Rightarrow> DirtyRect \<Rightarrow> bool list \<times> bool \<Rightarrow> bool list \<times> bool" where
  "mark_rect width height rect acc =
     (let left = min (unat (dr_left rect)) width; top = min (unat (dr_top rect)) height;
          right = min (unat (dr_right rect)) width; bottom = min (unat (dr_bottom rect)) height;
          tiles_x = tiles_in_dim width; tiles_y = tiles_in_dim height
      in if dirty_rect_is_empty rect \<or> right \<le> left \<or> bottom \<le> top then acc
         else (fold (\<lambda>ty tile_map. fold (\<lambda>tx tile_map. tile_map[ty * tiles_x + tx := True])
                      [left div TILE_SIZE..<Suc (min ((right - 1) div TILE_SIZE) (tiles_x - 1))] tile_map)
                 [top div TILE_SIZE..<Suc (min ((bottom - 1) div TILE_SIZE) (tiles_y - 1))] (fst acc), True))"

definition dirty_tile_indices_from_rects :: "DirtyRect list \<Rightarrow> nat \<Rightarrow> nat \<Rightarrow> nat list option" where
  "dirty_tile_indices_from_rects dirty_rects width height =
     (if dirty_rects = [] \<or> width = 0 \<or> height = 0 then None
      else let tile_count = tiles_in_dim width * tiles_in_dim height;
               (tile_map, any_valid) = fold (mark_rect width height) dirty_rects (replicate tile_count False, False)
           in if \<not> any_valid then None else Some (filter (\<lambda>idx. tile_map ! idx) [0..<tile_count]))"

definition encode_copy_rect_frame_from_dirty_indices ::
  "(bytes \<Rightarrow> bytes option) \<Rightarrow> bytes \<Rightarrow> bytes \<Rightarrow> nat \<Rightarrow> nat \<Rightarrow> u32 \<Rightarrow> CopyRect list \<Rightarrow> nat list \<Rightarrow> (nat \<times> nat) option
   \<Rightarrow> bytes \<times> FrameStats" where
  "encode_copy_rect_frame_from_dirty_indices zenc rgba predicted_prev width height frame_id copy_rects idxs focus =
     (let tiles_x = tiles_in_dim width;
          dirty = filter (\<lambda>idx. tile_is_dirty rgba predicted_prev width height (idx mod tiles_x) (idx div tiles_x)) idxs
      in if dirty = [] then
           let out = copy_rect_only_packet_data frame_id width height copy_rects
           in (out, clean_stats width height (length out))
         else (case assemble_frame VERSION_COPY_RECTS FLAG_COPY_RECTS (write_copy_rects copy_rects) frame_id width height focus
                      (map (encode_one zenc rgba predicted_prev width height False) dirty) of
                 (out, stats, offsets) \<Rightarrow> (out, stats)))"

section \<open>Scroll detection\<close>

definition choose_larger_scroll :: "(nat \<times> bool) option \<Rightarrow> nat \<Rightarrow> bool \<Rightarrow> (nat \<times> bool) option" where
  "choose_larger_scroll current dy up =
     (case current of
        Some (best_dy, best_up) \<Rightarrow> if dy \<le> best_dy then current else Some (dy, up)
      | None \<Rightarrow> Some (dy, up))"

definition candidate_offsets :: "nat list" where
  "candidate_offsets = [8, 16, TILE_SIZE, TILE_SIZE * 2, TILE_SIZE * 3, TILE_SIZE * 4, TILE_SIZE * 5, TILE_SIZE * 6,
     TILE_SIZE * 7, TILE_SIZE * 8]"

definition try_offset :: "bytes \<Rightarrow> bytes \<Rightarrow> nat \<Rightarrow> nat \<Rightarrow> nat \<Rightarrow> (nat \<times> bool) option \<Rightarrow> (nat \<times> bool) option" where
  "try_offset prev bgra width height dy best =
     (if height \<le> dy then best
      else let row_bytes = width * 4; moved_bytes = (height - dy) * row_bytes; off = dy * row_bytes;
               best = (if subslice off (off + moved_bytes) prev = subslice 0 moved_bytes bgra
                       then choose_larger_scroll best dy True else best)
           in if subslice 0 moved_bytes prev = subslice off (off + moved_bytes) bgra
              then choose_larger_scroll best dy False else best)"

definition detect_full_width_vertical_scroll :: "bytes \<Rightarrow> bytes \<Rightarrow> nat \<Rightarrow> nat \<Rightarrow> CopyRect option" where
  "detect_full_width_vertical_scroll prev bgra width height =
     (if length prev \<noteq> length bgra \<or> width = 0 \<or> height = 0 then None
      else map_option (\<lambda>(dy, up).
             \<lparr>cp_src_x = 0, cp_src_y = (if up then of_nat dy else 0), cp_dst_x = 0, cp_dst_y = (if up then 0 else of_nat dy),
              cp_width = of_nat width, cp_height = of_nat (height - dy)\<rparr>)
           (fold (try_offset prev bgra width height) candidate_offsets None))"

section \<open>The encoder paths\<close>

definition packet_of :: "CpuEvrtckEncoder \<Rightarrow> u32 \<Rightarrow> bytes \<Rightarrow> EvrtckPacket" where
  "packet_of ce frame_id data =
     \<lparr>pk_frame_id = frame_id, pk_width = of_nat (ce_width ce), pk_height = of_nat (ce_height ce), pk_data = data\<rparr>"

definition encode_inner ::
  "(bytes \<Rightarrow> bytes option) \<Rightarrow> CpuEvrtckEncoder \<Rightarrow> bytes \<Rightarrow> u32 \<Rightarrow> CpuEvrtckEncoder \<times> EvrtckPacket \<times> FrameStats" where
  "encode_inner zenc ce bgra frame_id =
     (case encode_inner_impl zenc ce bgra frame_id False of (ce', pkt, stats, offsets) \<Rightarrow> (ce', pkt, stats))"

definition encode_inner_with_offsets ::
  "(bytes \<Rightarrow> bytes option) \<Rightarrow> CpuEvrtckEncoder \<Rightarrow> bytes \<Rightarrow> u32
   \<Rightarrow> CpuEvrtckEncoder \<times> EvrtckPacket \<times> FrameStats \<times> TileOffset list" where
  "encode_inner_with_offsets zenc ce bgra frame_id = encode_inner_impl zenc ce bgra frame_id True"

definition valid_rects :: "CpuEvrtckEncoder \<Rightarrow> CopyRect list \<Rightarrow> CopyRect list" where
  "valid_rects ce copy_rects = filter (\<lambda>r. copy_rect_is_valid r (ce_width ce) (ce_height ce)) copy_rects"

definition encode_inner_with_copy_rects ::
  "(bytes \<Rightarrow> bytes option) \<Rightarrow> CpuEvrtckEncoder \<Rightarrow> bytes \<Rightarrow> u32 \<Rightarrow> CopyRect list
   \<Rightarrow> CpuEvrtckEncoder \<times> EvrtckPacket \<times> FrameStats" where
  "encode_inner_with_copy_rects zenc ce bgra frame_id copy_rects =
     (if ce_pending_keyframe ce \<or> copy_rects = [] then encode_inner zenc ce bgra frame_id
      else let valid_copy_rects = valid_rects ce copy_rects in
        if valid_copy_rects = [] then encode_inner zenc ce bgra frame_id
        else
          let predicted = apply_copy_rects (ce_prev ce) (ce_width ce) (ce_height ce) valid_copy_rects;
              (data, stats, offsets) = encode_frame_with_offsets_and_copy_rects zenc bgra predicted (ce_width ce) (ce_height ce)
                 frame_id valid_copy_rects (ce_focus ce) False
          in (ce\<lparr>ce_pending_keyframe := False, ce_prev := bgra\<rparr>, packet_of ce frame_id data, stats))"

definition encode_inner_with_scroll_detection ::
  "(bytes \<Rightarrow> bytes option) \<Rightarrow> CpuEvrtckEncoder \<Rightarrow> bytes \<Rightarrow> u32 \<Rightarrow> CpuEvrtckEncoder \<times> EvrtckPacket \<times> FrameStats" where
  "encode_inner_with_scroll_detection zenc ce bgra frame_id =
     (if ce_pending_keyframe ce then encode_inner zenc ce bgra frame_id
      else if bgra = ce_prev ce then encode_inner zenc ce bgra frame_id
      else case detect_full_width_vertical_scroll (ce_prev ce) bgra (ce_width ce) (ce_height ce) of
             Some copy_rect \<Rightarrow> encode_inner_with_copy_rects zenc ce bgra frame_id [copy_rect]
           | None \<Rightarrow> encode_inner zenc ce bgra frame_id)"

definition encode_inner_with_capture_hints ::
  "(bytes \<Rightarrow> bytes option) \<Rightarrow> CpuEvrtckEncoder \<Rightarrow> bytes \<Rightarrow> u32 \<Rightarrow> CopyRect list \<Rightarrow> DirtyRect list
   \<Rightarrow> CpuEvrtckEncoder \<times> EvrtckPacket \<times> FrameStats" where
  "encode_inner_with_capture_hints zenc ce bgra frame_id copy_rects dirty_rects =
     (if ce_pending_keyframe ce then encode_inner zenc ce bgra frame_id
      else
        let width = ce_width ce; height = ce_height ce;
            valid_copy_rects = valid_rects ce copy_rects;
            dirty = dirty_tile_indices_from_rects dirty_rects width height
        in if dirty = None \<and> valid_copy_rects = [] then encode_inner_with_scroll_detection zenc ce bgra frame_id
           else
             let predicted = (if valid_copy_rects \<noteq> [] then apply_copy_rects (ce_prev ce) width height valid_copy_rects
                              else ce_prev ce);
                 (data, stats) =
                   (case dirty of
                      Some indices \<Rightarrow>
                        if bgra = predicted then
                          (if valid_copy_rects = [] then nop_packet_data frame_id width height
                           else copy_rect_only_packet_data frame_id width height valid_copy_rects,
                           clean_stats width height (if valid_copy_rects = [] then FRAME_HEADER_LEN
                             else FRAME_HEADER_LEN + 2 + length valid_copy_rects * 24))
                        else if valid_copy_rects = [] then
                          encode_pframe_from_dirty_indices zenc bgra predicted width height frame_id indices (ce_focus ce)
                        else encode_copy_rect_frame_from_dirty_indices zenc bgra predicted width height frame_id
                               valid_copy_rects indices (ce_focus ce)
                    | None \<Rightarrow>
                        (case encode_frame_with_offsets_and_copy_rects zenc bgra predicted width height frame_id
                                valid_copy_rects (ce_focus ce) False of
                           (data, stats, offsets) \<Rightarrow> (data, stats)))
             in (ce\<lparr>ce_pending_keyframe := False, ce_prev := bgra\<rparr>, packet_of ce frame_id data, stats))"

text \<open>\<open>EvrtckEncoder::set_focus_pixel\<close> and \<open>clear_focus\<close>.\<close>

definition set_focus_pixel :: "u32 \<Rightarrow> u32 \<Rightarrow> CpuEvrtckEncoder \<Rightarrow> CpuEvrtckEncoder" where
  "set_focus_pixel x y ce =
     set_focus (Some (min (unat x div TILE_SIZE) (tiles_in_dim (ce_width ce) - 1),
                      min (unat y div TILE_SIZE) (tiles_in_dim (ce_height ce) - 1))) ce"

definition clear_focus :: "CpuEvrtckEncoder \<Rightarrow> CpuEvrtckEncoder" where
  "clear_focus ce = set_focus None ce"

section \<open>The absolute overlay\<close>

text \<open>\<open>sort_unstable\<close> and \<open>dedup\<close> of the indices inside the frame.\<close>

definition subset_indices :: "nat \<Rightarrow> u16 list \<Rightarrow> nat list" where
  "subset_indices tile_count tile_indices = map unat (remdups_adj (sort (filter (\<lambda>i. unat i < tile_count) tile_indices)))"

definition encode_tile_subset_absolute :: "(bytes \<Rightarrow> bytes option) \<Rightarrow> bytes \<Rightarrow> nat \<Rightarrow> nat \<Rightarrow> u32 \<Rightarrow> u16 list \<Rightarrow> bytes" where
  "encode_tile_subset_absolute zenc rgba width height frame_id tile_indices =
     (let tile_count = tiles_in_dim width * tiles_in_dim height;
          idxs = subset_indices tile_count tile_indices;
          map_bytes = (tile_count + 7) div 8
      in packet_header EVCK_VERSION 0 frame_id width height map_bytes @ dirty_map map_bytes idxs @
         fst (write_entries 0 (map (encode_one zenc rgba [] width height True) idxs)))"

text \<open>\<open>self.frame[rs..rs + tw4].fill(0)\<close> for the rows of a tile.\<close>

definition zero_tile :: "nat \<Rightarrow> nat \<Rightarrow> nat \<Rightarrow> nat \<Rightarrow> nat \<Rightarrow> bytes \<Rightarrow> bytes" where
  "zero_tile width x0 y0 x1 y1 frame =
     fold (\<lambda>y frame. splice ((y * width + x0) * 4) (replicate ((x1 - x0) * 4) 0) frame) [y0..<y1] frame"

text \<open>The loop over the entries: each is read, decompressed, and painted over a zeroed tile before the next is read, so an
  error leaves the tiles before it painted.\<close>

fun overlay_entries ::
  "(bytes \<Rightarrow> bytes option) \<Rightarrow> nat \<Rightarrow> nat \<Rightarrow> nat \<Rightarrow> bytes \<Rightarrow> bytes \<Rightarrow> bytes \<times> (EvrtckError + nat list)" where
  "overlay_entries zdec w h 0 data frame = (frame, Inr [])"
| "overlay_entries zdec w h (Suc n) data frame =
     (if length data < 2 then (frame, Inl TruncatedData)
      else let tile_idx = (le_word (take 2 data) :: u16); idx = unat tile_idx; d1 = drop 2 data in
      if tiles_in_dim w * tiles_in_dim h \<le> idx then (frame, Inl (InvalidTileIndex tile_idx))
      else case d1 of
        [] \<Rightarrow> (frame, Inl TruncatedData)
      | mode # d2 \<Rightarrow>
          let entry = (if mode = MODE_SOLID then
                         if length d2 < 4 then Inl TruncatedData else Inr (take 4 d2, drop 4 d2)
                       else if mode = MODE_DELTA \<or> mode = MODE_ZSTD then
                         if length d2 < 4 then Inl TruncatedData
                         else let enc_len = unat (le_word (take 4 d2) :: u32); d3 = drop 4 d2 in
                              if length d3 < enc_len then Inl TruncatedData else Inr (take enc_len d3, drop enc_len d3)
                       else Inl (InvalidTileMode mode))
          in case entry of
               Inl e \<Rightarrow> (frame, Inl e)
             | Inr (enc, rest) \<Rightarrow>
                 (case decompress_tile zdec enc mode of
                    Inl e \<Rightarrow> (frame, Inl e)
                  | Inr pixels \<Rightarrow>
                      (case rect_of_tile w h idx of (x0, y0, x1, y1) \<Rightarrow>
                         let zeroed = zero_tile w x0 y0 x1 y1 frame in
                         (case paint_tile w x0 y0 x1 y1 pixels zeroed of
                            Inl e \<Rightarrow> (zeroed, Inl e)
                          | Inr frame' \<Rightarrow>
                              (case overlay_entries zdec w h n rest frame' of
                                 (frame'', Inl e) \<Rightarrow> (frame'', Inl e)
                               | (frame'', Inr applied) \<Rightarrow> (frame'', Inr (idx # applied)))))))"

definition apply_absolute_overlay ::
  "(bytes \<Rightarrow> bytes option) \<Rightarrow> EvrtckDecoder \<Rightarrow> bytes \<Rightarrow> EvrtckDecoder \<times> (EvrtckError + nat list)" where
  "apply_absolute_overlay zdec ed data =
     (if length data < 4 then (ed, Inl TruncatedData)
      else if take 4 data \<noteq> EVCK_MAGIC then (ed, Inl InvalidMagic)
      else if length data < 5 then (ed, Inl TruncatedData)
      else if data ! 4 \<noteq> EVCK_VERSION then (ed, Inl (UnsupportedVersion (data ! 4)))
      else if length data < 18 then (ed, Inl TruncatedData)
      else let w = unat (le_word (subslice 10 14 data) :: u32); h = unat (le_word (subslice 14 18 data) :: u32) in
      if w \<noteq> ed_width ed \<or> h \<noteq> ed_height ed
      then (ed, Inl (DimensionMismatch (of_nat (ed_width ed), of_nat (ed_height ed)) (of_nat w, of_nat h)))
      else if length data < 20 then (ed, Inl TruncatedData)
      else let map_bytes = unat (le_word (subslice 18 20 data) :: u16); rest = drop 20 data in
      if length rest < map_bytes then (ed, Inl TruncatedData)
      else let dirty_count = sum_list (map count_ones (take map_bytes rest)) in
      case overlay_entries zdec w h dirty_count (drop map_bytes rest) (ed_frame ed) of
        (frame, r) \<Rightarrow> (ed\<lparr>ed_frame := frame\<rparr>, r))"


section \<open>Lemmas: copying a rectangle\<close>

definition copy_source :: "nat \<Rightarrow> CopyRect \<Rightarrow> nat \<Rightarrow> nat" where
  "copy_source width r k =
     ((unat (cp_src_y r) + (k div (width * 4) - unat (cp_dst_y r))) * width + unat (cp_src_x r)) * 4
      + (k mod (width * 4) - unat (cp_dst_x r) * 4)"

lemma copied_segment:
  assumes "length frame = width * height * 4" "sx + w \<le> width" "sy + h \<le> height" "r < h"
  shows "length (subslice (((sy + r) * width + sx) * 4) (((sy + r) * width + sx) * 4 + w * 4) frame) = w * 4"
    and "j < w * 4 \<Longrightarrow> subslice (((sy + r) * width + sx) * 4) (((sy + r) * width + sx) * 4 + w * 4) frame ! j
           = frame ! (((sy + r) * width + sx) * 4 + j)"
proof -
  have "(sy + r) * width + (sx + w) \<le> Suc (sy + r) * width" using assms(2) by simp
  also have "\<dots> \<le> height * width" using assms(3,4) by (intro mult_le_mono1) linarith
  finally have b: "((sy + r) * width + sx) * 4 + w * 4 \<le> length frame" using assms(1) by (simp add: mult.commute)
  show "length (subslice (((sy + r) * width + sx) * 4) (((sy + r) * width + sx) * 4 + w * 4) frame) = w * 4" using b by simp
  show "subslice (((sy + r) * width + sx) * 4) (((sy + r) * width + sx) * 4 + w * 4) frame ! j
           = frame ! (((sy + r) * width + sx) * 4 + j)" if "j < w * 4"
    using b that by (intro nth_subslice) simp_all
qed

lemma apply_copy_rect_nth:
  fixes rect :: CopyRect
  assumes v: "copy_rect_is_valid rect width height" and len: "length frame = width * height * 4"
  defines "inside \<equiv> in_rect width (unat (cp_dst_x rect)) (unat (cp_dst_y rect))
     (unat (cp_dst_x rect) + unat (cp_width rect)) (unat (cp_dst_y rect) + unat (cp_height rect))"
  shows "length (apply_copy_rect width height rect frame) = length frame \<and>
    (\<forall>k < length frame. apply_copy_rect width height rect frame ! k =
       (if inside k then frame ! copy_source width rect k else frame ! k))"
proof -
  let ?w = "unat (cp_width rect)" and ?h = "unat (cp_height rect)"
  let ?sx = "unat (cp_src_x rect)" and ?sy = "unat (cp_src_y rect)" and ?dx = "unat (cp_dst_x rect)" and ?dy = "unat (cp_dst_y rect)"
  let ?seg = "\<lambda>row. subslice (((?sy + row) * width + ?sx) * 4) (((?sy + row) * width + ?sx) * 4 + ?w * 4) frame"
  let ?g = "\<lambda>y (xs :: bytes). if ?dy \<le> y \<and> y < ?dy + ?h then ?seg (y - ?dy) else replicate (?w * 4) 0"
  have b: "?sx + ?w \<le> width" "?dx + ?w \<le> width" "?sy + ?h \<le> height" "?dy + ?h \<le> height"
    using v by (simp_all add: copy_rect_is_valid_def)
  note seg = copied_segment[OF len b(1,3)]
  have lg: "length (?g y xs) = (?dx + ?w - ?dx) * 4" for y xs using seg(1)[of "y - ?dy"] by auto
  have u: "\<forall>x \<in> set (map ?seg [0..<?h]). length x = ?w * 4" using seg(1) by auto
  have temp: "subslice (r * (?w * 4)) (r * (?w * 4) + ?w * 4) (concat (map ?seg [0..<?h])) = ?seg r" if "r < ?h" for r
    using subslice_concat_uniform[OF u, of r] that by (simp add: mult.commute add.commute)
  have up: "[?dy..<?dy + ?h] = map (\<lambda>r. ?dy + r) [0..<?h]" by (rule nth_equalityI) simp_all
  let ?row = "\<lambda>y. (y * width + ?dx) * 4"
  have "apply_copy_rect width height rect frame =
      fold (\<lambda>r fr. splice (?row (?dy + r)) (subslice (r * (?w * 4)) (r * (?w * 4) + ?w * 4) (concat (map ?seg [0..<?h]))) fr)
        [0..<?h] frame"
    using v by (simp add: apply_copy_rect_def Let_def)
  also have "\<dots> = fold (\<lambda>r fr. splice (?row (?dy + r)) (?g (?dy + r) (subslice (?row (?dy + r)) (?row (?dy + r) + (?dx + ?w - ?dx) * 4) fr)) fr)
        [0..<?h] frame"
  proof (rule List.fold_cong[OF refl refl], rule ext)
    fix r fr assume "r \<in> set [0..<?h]"
    then have r: "r < ?h" by simp
    show "splice (?row (?dy + r)) (subslice (r * (?w * 4)) (r * (?w * 4) + ?w * 4) (concat (map ?seg [0..<?h]))) fr =
        splice (?row (?dy + r)) (?g (?dy + r) (subslice (?row (?dy + r)) (?row (?dy + r) + (?dx + ?w - ?dx) * 4) fr)) fr"
      unfolding temp[OF r] using r by simp
  qed
  also have "\<dots> = fold (\<lambda>y fr. splice (?row y) (?g y (subslice (?row y) (?row y + (?dx + ?w - ?dx) * 4) fr)) fr) [?dy..<?dy + ?h] frame"
    unfolding up fold_map o_def ..
  finally have "apply_copy_rect width height rect frame =
      fold (\<lambda>y fr. splice (?row y) (?g y (subslice (?row y) (?row y + (?dx + ?w - ?dx) * 4) fr)) fr) [?dy..<?dy + ?h] frame" .
  moreover have "?g (k div (width * 4)) xs ! (k mod (width * 4) - ?dx * 4) = frame ! copy_source width rect k" if "inside k" for k xs
    using that seg(2)[of "k div (width * 4) - ?dy" "k mod (width * 4) - ?dx * 4"]
    by (auto simp: inside_def in_rect_def copy_source_def add_mult_distrib)
  ultimately show ?thesis using paint_rows[OF b(2) le_add1 b(4) len, of ?g ?dy, OF lg] by (simp add: inside_def)
qed

lemma copy_source_swap:
  assumes "in_rect width (unat (cp_dst_x r)) y0 x1 y1 k" "0 < width"
  shows "copy_source width r (swap_ix k) = swap_ix (copy_source width r k)"
proof -
  let ?j = "k mod (width * 4) - unat (cp_dst_x r) * 4"
  let ?d = "k div (width * 4) * (width * 4) + unat (cp_dst_x r) * 4"
  have j: "unat (cp_dst_x r) * 4 \<le> k mod (width * 4)" using assms(1) by (simp add: in_rect_def)
  have k: "k = ?d + ?j" using j div_mult_mod_eq[of k "width * 4"] by linarith
  have s: "swap_ix k = ?d + swap_ix ?j" by (subst k) (simp add: swap_ix_add)
  have dv: "swap_ix k div (width * 4) = k div (width * 4)"
    using swap_ix_props(1)[of k] by (simp add: div_mult2_eq mult.commute[of width])
  have "swap_ix k mod (width * 4) = swap_ix k - k div (width * 4) * (width * 4)"
    using dv by (metis minus_div_mult_eq_mod)
  also have "\<dots> = unat (cp_dst_x r) * 4 + swap_ix ?j" unfolding s by simp
  finally have m: "swap_ix k mod (width * 4) - unat (cp_dst_x r) * 4 = swap_ix ?j" by simp
  show ?thesis unfolding copy_source_def dv m by (rule swap_ix_add[symmetric]) simp
qed

lemma apply_copy_rect_swap:
  assumes "length frame = width * height * 4"
  shows "apply_copy_rect width height r (swap_frame frame) = swap_frame (apply_copy_rect width height r frame)"
proof (cases "copy_rect_is_valid r width height")
  case True
  note a = apply_copy_rect_nth[OF True]
  show ?thesis
  proof (rule nth_equalityI)
    show "length (apply_copy_rect width height r (swap_frame frame)) = length (swap_frame (apply_copy_rect width height r frame))"
      using a assms by simp
    fix k assume "k < length (apply_copy_rect width height r (swap_frame frame))"
    then have k: "k < width * height * 4" using a[of "swap_frame frame"] assms by simp
    have w: "0 < width" using k by (cases width) auto
    let ?in = "in_rect width (unat (cp_dst_x r)) (unat (cp_dst_y r)) (unat (cp_dst_x r) + unat (cp_width r))
        (unat (cp_dst_y r) + unat (cp_height r))"
    have "copy_source width r k < width * height * 4" if "?in k"
    proof -
      have "k div (width * 4) - unat (cp_dst_y r) < unat (cp_height r)" "k mod (width * 4) - unat (cp_dst_x r) * 4 < unat (cp_width r) * 4"
        using that by (auto simp: in_rect_def)
      moreover have "unat (cp_src_x r) + unat (cp_width r) \<le> width" "unat (cp_src_y r) + unat (cp_height r) \<le> height"
        using True by (simp_all add: copy_rect_is_valid_def)
      moreover define q where "q = unat (cp_src_y r) + (k div (width * 4) - unat (cp_dst_y r))"
      ultimately have q: "Suc q \<le> height" and x: "unat (cp_src_x r) * 4 + (k mod (width * 4) - unat (cp_dst_x r) * 4) < width * 4"
        by linarith+
      have "(q * width + unat (cp_src_x r)) * 4 + (k mod (width * 4) - unat (cp_dst_x r) * 4) < Suc q * (width * 4)" using x by simp
      also have "\<dots> \<le> height * (width * 4)" using q by (intro mult_le_mono1)
      finally show ?thesis by (simp add: copy_source_def q_def mult.commute mult.left_commute)
    qed
    then show "apply_copy_rect width height r (swap_frame frame) ! k = swap_frame (apply_copy_rect width height r frame) ! k"
      using a[OF assms] a[of "swap_frame frame"] assms k swap_ix_less[OF k] copy_source_swap[of width r _ _ _ k, OF _ w]
      by (auto simp: nth_swap_frame in_rect_swap)
  qed
qed (simp add: apply_copy_rect_def)

lemma apply_copy_rects_swap:
  "length frame = width * height * 4 \<Longrightarrow>
   apply_copy_rects (swap_frame frame) width height rects = swap_frame (apply_copy_rects frame width height rects)"
  unfolding apply_copy_rects_def
  by (induction rects arbitrary: frame) (simp_all add: apply_copy_rect_swap length_apply_copy_rect)


section \<open>Lemmas: packets with copy rectangles\<close>

lemma length_copy_rect_bytes [simp]: "length (copy_rect_bytes r) = 24"
  by (simp add: copy_rect_bytes_def)

lemma read_written_copy_rects:
  "\<forall>r \<in> set rects. copy_rect_is_valid r width height \<Longrightarrow>
   read_copy_rects width height (length rects) (concat (map copy_rect_bytes rects) @ rest) = Some (rects, rest)"
proof (induction rects)
  case (Cons r rects)
  let ?d = "copy_rect_bytes r @ concat (map copy_rect_bytes rects) @ rest"
  let ?f = "\<lambda>i. le_word (subslice (4 * i) (4 * i + 4) ?d) :: u32"
  have f: "?f 0 = cp_src_x r" "?f 1 = cp_src_y r" "?f 2 = cp_dst_x r" "?f 3 = cp_dst_y r" "?f 4 = cp_width r" "?f 5 = cp_height r"
    by (simp_all add: copy_rect_bytes_def subslice_def)
  have r: "\<lparr>cp_src_x = ?f 0, cp_src_y = ?f 1, cp_dst_x = ?f 2, cp_dst_y = ?f 3, cp_width = ?f 4, cp_height = ?f 5\<rparr> = r"
    unfolding f by simp
  have "read_copy_rects width height (length rects) (drop 24 ?d) = Some (rects, rest)" using Cons by simp
  then show ?case using Cons.prems unfolding list.map concat.simps append_assoc list.size(4) add_0_right add_Suc_right
    by (simp only: read_copy_rects.simps Let_def r) (simp add: length_copy_rect_bytes)
qed simp

lemma decode_copy_packet:
  assumes "dims_ok width height" "mb < 65536" "\<forall>r \<in> set rects. copy_rect_is_valid r width height" "length rects \<le> 65535"
  shows "decode_frame_prioritized zdec
      (packet_header VERSION_COPY_RECTS FLAG_COPY_RECTS fid width height mb @ write_copy_rects rects @ rest) frame width height prio
    = decode_tiles zdec rest mb (apply_copy_rects frame width height rects) width height prio"
proof -
  have b: "width < 2 ^ 32" "height < 2 ^ 32" "mb < 2 ^ 16" using assms(1,2) by (simp_all add: dims_ok_def)
  note h = header_fields[OF b, of VERSION_COPY_RECTS FLAG_COPY_RECTS fid "write_copy_rects rects @ rest"]
  have f: "FLAG_COPY_RECTS AND FLAG_NOP = 0" "FLAG_COPY_RECTS AND FLAG_KEYFRAME = 0"
    unfolding FLAG_KEYFRAME_def FLAG_NOP_def FLAG_COPY_RECTS_def by simp_all
  have w: "write_copy_rects rects @ rest = le_bytes 2 (of_nat (length rects) :: u16) @ concat (map copy_rect_bytes rects) @ rest"
    using assms(4) by (simp add: write_copy_rects_def)
  have n: "unat (le_word (take 2 (write_copy_rects rects @ rest)) :: u16) = length rects"
    "drop 2 (write_copy_rects rects @ rest) = concat (map copy_rect_bytes rects) @ rest" "\<not> length (write_copy_rects rects @ rest) < 2"
    unfolding w using assms(4) by (simp_all add: unat_of_nat_u16)
  show ?thesis
    unfolding decode_frame_prioritized_def h(2,4-9) Let_def n read_written_copy_rects[OF assms(3)]
    using h(1) f n(3) by simp
qed

lemma decode_no_tiles: "decode_tiles zdec [] 0 frame width height prio = (frame, Inr [])"
  by (simp add: decode_tiles_def Let_def split: option.splits)

definition covers :: "nat \<Rightarrow> nat \<Rightarrow> bytes \<Rightarrow> bytes \<Rightarrow> nat list \<Rightarrow> bool" where
  "covers width height rgba prev ts \<longleftrightarrow> (\<forall>k < width * height * 4. rgba ! k \<noteq> prev ! k \<longrightarrow> tile_of width k \<in> set ts)"

lemma dirty_indices_covers:
  "length rgba = width * height * 4 \<Longrightarrow> length prev = width * height * 4 \<Longrightarrow> covers width height rgba prev (dirty_indices rgba prev width height)"
  unfolding covers_def using dirty_indices_cover by blast

lemma covers_dirty:
  assumes "length rgba = width * height * 4" "length prev = width * height * 4" "covers width height rgba prev ts"
  shows "covers width height rgba prev
    (filter (\<lambda>idx. tile_is_dirty rgba prev width height (idx mod tiles_in_dim width) (idx div tiles_in_dim width)) ts)"
  using assms dirty_indices_cover[OF assms(1,2)] unfolding covers_def by (auto simp: dirty_indices_def Let_def)

lemma decode_covering_tiles:
  assumes z: "zstd_ok zenc zdec" and dims: "dims_ok width height"
    and len: "length rgba = width * height * 4" "length prev = width * height * 4"
    and ts: "distinct ts" "\<forall>idx \<in> set ts. idx < tiles_in_dim width * tiles_in_dim height" "covers width height rgba prev ts"
  shows "\<exists>ord. decode_tiles zdec (dirty_map ((tiles_in_dim width * tiles_in_dim height + 7) div 8) ts @
      fst (write_entries s (order_by_focus (map (encode_one zenc rgba prev width height False) ts) (tiles_in_dim width) focus)))
      ((tiles_in_dim width * tiles_in_dim height + 7) div 8) (swap_frame prev) width height prio = (swap_frame rgba, Inr ord)"
proof (rule decode_assembled[OF z dims len(1) _ ts(1,2) _ refl])
  show "length (swap_frame prev) = width * height * 4" using len by simp
  show "\<forall>k < width * height * 4. swap_frame prev ! k = (if tile_of width k \<in> set ts then tile_base False prev k else rgba ! swap_ix k)"
  proof (intro allI impI)
    fix k assume k: "k < width * height * 4"
    have "tile_of width (swap_ix k) = tile_of width k" by (simp add: tile_of_def swap_ix_props(1))
    then show "swap_frame prev ! k = (if tile_of width k \<in> set ts then tile_base False prev k else rgba ! swap_ix k)"
      using ts(3) swap_ix_less[OF k] k len unfolding covers_def by (auto simp: nth_swap_frame tile_base_def)
  qed
qed

lemma decode_wire_in_step:
  assumes "dims_ok width height" "data = packet_header ver flags fid width height mb @ rest" "mb < 65536"
    and "ed_width ed = width" "ed_height ed = height" "ed_frame ed = swap_frame prev" "length prev = width * height * 4"
    and "decode_frame_prioritized zdec data (swap_frame prev) width height None = (swap_frame rgba, Inr ord)"
  shows "decode_wire zdec ed data = (\<lparr>ed_frame = swap_frame rgba, ed_width = width, ed_height = height\<rparr>, Inr (swap_frame rgba))"
proof -
  have b: "width < 2 ^ 32" "height < 2 ^ 32" "mb < 2 ^ 16" using assms(1,3) by (simp_all add: dims_ok_def)
  note h = header_fields[OF b, of ver flags fid rest, folded assms(2)]
  have "fit_buffer width height ed = ed" using assms(4-7) by (simp add: fit_buffer_def)
  then show ?thesis
    unfolding decode_wire_def h(3,6,7) Let_def using h(1) assms(4-6,8) by (cases ed) (simp add: decode_frame_def)
qed


text \<open>A packet that turns the reference frame \<open>prev\<close> into \<open>rgba\<close> at a decoder in step.\<close>

definition decodes_to :: "(bytes \<Rightarrow> bytes option) \<Rightarrow> nat \<Rightarrow> nat \<Rightarrow> bytes \<Rightarrow> bytes \<Rightarrow> bytes \<Rightarrow> bool" where
  "decodes_to zdec width height prev rgba data \<longleftrightarrow>
     (\<exists>ver flags fid mb rest ord. data = packet_header ver flags fid width height mb @ rest \<and> mb < 65536 \<and>
        decode_frame_prioritized zdec data (swap_frame prev) width height None = (swap_frame rgba, Inr ord))"

lemma decodes_toI:
  "data = packet_header ver flags fid width height mb @ rest \<Longrightarrow> mb < 65536 \<Longrightarrow>
   decode_frame_prioritized zdec data (swap_frame prev) width height None = (swap_frame rgba, Inr ord) \<Longrightarrow>
   decodes_to zdec width height prev rgba data"
  unfolding decodes_to_def by blast

lemma map_bytes_small: "dims_ok width height \<Longrightarrow> (tiles_in_dim width * tiles_in_dim height + 7) div 8 < 65536"
  unfolding dims_ok_def by linarith

lemma decodes_nop:
  assumes "dims_ok width height"
  shows "decodes_to zdec width height prev prev (nop_packet_data fid width height)"
proof (rule decodes_toI[of _ EVCK_VERSION FLAG_NOP fid _ _ 0 "[]" _ _ _ "[]"])
  have b: "width < 2 ^ 32" "height < 2 ^ 32" "(0 :: nat) < 2 ^ 16" using assms by (simp_all add: dims_ok_def)
  note h = header_fields[OF b, of EVCK_VERSION FLAG_NOP fid "[]", simplified]
  show "decode_frame_prioritized zdec (nop_packet_data fid width height) (swap_frame prev) width height None = (swap_frame prev, Inr [])"
    unfolding nop_packet_data_def decode_frame_prioritized_def Let_def using h
    by (simp add: EVCK_VERSION_def FLAG_NOP_def FLAG_KEYFRAME_def)
qed (simp_all add: nop_packet_data_def)

lemma decodes_copy_only:
  assumes "dims_ok width height" "length prev = width * height * 4"
    and "\<forall>r \<in> set rects. copy_rect_is_valid r width height" "length rects \<le> 65535"
  shows "decodes_to zdec width height prev (apply_copy_rects prev width height rects) (copy_rect_only_packet_data fid width height rects)"
proof (rule decodes_toI[of _ VERSION_COPY_RECTS FLAG_COPY_RECTS fid _ _ 0 "write_copy_rects rects" _ _ _ "[]"])
  show "decode_frame_prioritized zdec (copy_rect_only_packet_data fid width height rects) (swap_frame prev) width height None
      = (swap_frame (apply_copy_rects prev width height rects), Inr [])"
    using decode_copy_packet[OF assms(1) _ assms(3,4), of 0 zdec fid "[]"]
    by (simp add: copy_rect_only_packet_data_def decode_no_tiles apply_copy_rects_swap[OF assms(2)])
qed (simp_all add: copy_rect_only_packet_data_def)

lemma decodes_copy_tiles:
  assumes z: "zstd_ok zenc zdec" and dims: "dims_ok width height"
    and len: "length rgba = width * height * 4" "length prev = width * height * 4"
    and rects: "\<forall>r \<in> set rects. copy_rect_is_valid r width height" "length rects \<le> 65535"
    and ts: "distinct ts" "\<forall>idx \<in> set ts. idx < tiles_in_dim width * tiles_in_dim height"
      "covers width height rgba (apply_copy_rects prev width height rects) ts"
    and as: "assemble_frame VERSION_COPY_RECTS FLAG_COPY_RECTS (write_copy_rects rects) fid width height focus
      (map (encode_one zenc rgba (apply_copy_rects prev width height rects) width height False) ts) = (data, stats, offs)"
  shows "decodes_to zdec width height prev rgba data"
proof -
  let ?mb = "(tiles_in_dim width * tiles_in_dim height + 7) div 8" and ?pr = "apply_copy_rects prev width height rects"
  obtain s where d: "data = packet_header VERSION_COPY_RECTS FLAG_COPY_RECTS fid width height ?mb @ write_copy_rects rects @ dirty_map ?mb ts @
      fst (write_entries s (order_by_focus (map (encode_one zenc rgba ?pr width height False) ts) (tiles_in_dim width) focus))"
    using assembled_data(1)[OF as] by blast
  note mb = map_bytes_small[OF dims]
  have lp: "length ?pr = width * height * 4" by (rule length_apply_copy_rects[OF len(2)])
  obtain ord where "decode_tiles zdec (dirty_map ?mb ts @ fst (write_entries s
      (order_by_focus (map (encode_one zenc rgba ?pr width height False) ts) (tiles_in_dim width) focus)))
      ?mb (swap_frame ?pr) width height None = (swap_frame rgba, Inr ord)"
    using decode_covering_tiles[OF z dims len(1) lp ts, of s focus None] by blast
  then have "decode_frame_prioritized zdec data (swap_frame prev) width height None = (swap_frame rgba, Inr ord)"
    unfolding d decode_copy_packet[OF dims mb rects] apply_copy_rects_swap[OF len(2)] .
  then show ?thesis by (rule decodes_toI[OF d mb])
qed

lemma decodes_tiles:
  assumes z: "zstd_ok zenc zdec" and dims: "dims_ok width height"
    and len: "length rgba = width * height * 4" "length prev = width * height * 4"
    and ts: "distinct ts" "\<forall>idx \<in> set ts. idx < tiles_in_dim width * tiles_in_dim height" "covers width height rgba prev ts"
    and as: "assemble_frame EVCK_VERSION 0 [] fid width height focus
      (map (encode_one zenc rgba prev width height False) ts) = (data, stats, offs)"
  shows "decodes_to zdec width height prev rgba data"
proof -
  let ?mb = "(tiles_in_dim width * tiles_in_dim height + 7) div 8"
  obtain s where d: "data = packet_header EVCK_VERSION 0 fid width height ?mb @ dirty_map ?mb ts @
      fst (write_entries s (order_by_focus (map (encode_one zenc rgba prev width height False) ts) (tiles_in_dim width) focus))"
    using assembled_data(1)[OF as] by auto
  note mb = map_bytes_small[OF dims]
  obtain ord where "decode_tiles zdec (dirty_map ?mb ts @ fst (write_entries s
      (order_by_focus (map (encode_one zenc rgba prev width height False) ts) (tiles_in_dim width) focus)))
      ?mb (swap_frame prev) width height None = (swap_frame rgba, Inr ord)"
    using decode_covering_tiles[OF z dims len ts, of s focus None] by blast
  then have "decode_frame_prioritized zdec data (swap_frame prev) width height None = (swap_frame rgba, Inr ord)"
    unfolding d using decode_header[OF dims refl mb, where key = False] by simp
  then show ?thesis by (rule decodes_toI[OF d mb])
qed

lemma decodes_copy_frame:
  assumes "zstd_ok zenc zdec" "dims_ok width height" "length rgba = width * height * 4" "length prev = width * height * 4"
    and rects: "\<forall>r \<in> set rects. copy_rect_is_valid r width height" "length rects \<le> 65535"
    and "encode_frame_with_offsets_and_copy_rects zenc rgba (apply_copy_rects prev width height rects) width height fid rects focus want
       = (data, stats, offs)"
  shows "decodes_to zdec width height prev rgba data"
proof (cases "rgba = apply_copy_rects prev width height rects")
  case True
  then have "data = copy_rect_only_packet_data fid width height rects"
    using assms(7) by (simp add: encode_frame_with_offsets_and_copy_rects_def copy_rect_only_packet_data_def Let_def)
  then show ?thesis using True decodes_copy_only[OF assms(2,4) rects] by simp
next
  case False
  let ?pr = "apply_copy_rects prev width height rects"
  have lp: "length ?pr = width * height * 4" by (rule length_apply_copy_rects[OF assms(4)])
  obtain offs' where "assemble_frame VERSION_COPY_RECTS FLAG_COPY_RECTS (write_copy_rects rects) fid width height focus
      (map (encode_one zenc rgba ?pr width height False) (dirty_indices rgba ?pr width height)) = (data, stats, offs')"
    using assms(7) False unfolding encode_frame_with_offsets_and_copy_rects_def Let_def by (auto split: prod.splits)
  then show ?thesis
    by (rule decodes_copy_tiles[OF assms(1-4) rects, rotated 3])
       (auto simp: dirty_indices_def Let_def intro: dirty_indices_covers[OF assms(3) lp, unfolded dirty_indices_def Let_def])
qed


section \<open>Lemmas: dirty rectangles\<close>

text \<open>Byte \<open>k\<close> of a frame belongs to a pixel inside the rectangle.\<close>

definition pixel_in_rect :: "nat \<Rightarrow> DirtyRect \<Rightarrow> nat \<Rightarrow> bool" where
  "pixel_in_rect width r k \<longleftrightarrow>
     unat (dr_left r) \<le> k div 4 mod width \<and> k div 4 mod width < unat (dr_right r) \<and>
     unat (dr_top r) \<le> k div 4 div width \<and> k div 4 div width < unat (dr_bottom r)"

lemma nth_mark: "i < length m \<Longrightarrow> m[j := True] ! i = (m ! i \<or> i = j)"
  by (cases "i = j") simp_all

lemma mark_row_nth:
  "length (fold (\<lambda>tx m. m[b + tx := True]) xs m) = length m \<and>
   (i < length m \<longrightarrow> fold (\<lambda>tx m. m[b + tx := True]) xs m ! i = (m ! i \<or> (\<exists>tx \<in> set xs. i = b + tx)))"
  by (induction xs arbitrary: m) (auto simp: nth_mark)

lemma mark_grid_nth:
  "length (fold (\<lambda>ty m. fold (\<lambda>tx m. m[ty * n + tx := True]) xs m) ys m) = length m \<and>
   (i < length m \<longrightarrow> fold (\<lambda>ty m. fold (\<lambda>tx m. m[ty * n + tx := True]) xs m) ys m ! i
      = (m ! i \<or> (\<exists>ty \<in> set ys. \<exists>tx \<in> set xs. i = ty * n + tx)))"
proof (induction ys arbitrary: m)
  case (Cons y ys)
  then show ?case using mark_row_nth[of "y * n" xs m i] by auto
qed simp

lemma mark_rect_mono:
  "length (fst (mark_rect width height r acc)) = length (fst acc) \<and>
   (i < length (fst acc) \<and> fst acc ! i \<longrightarrow> fst (mark_rect width height r acc) ! i)"
  unfolding mark_rect_def Let_def by (simp add: mark_grid_nth)

lemma mark_rects_mono:
  "length (fst (fold (mark_rect width height) rs acc)) = length (fst acc) \<and>
   (i < length (fst acc) \<and> fst acc ! i \<longrightarrow> fst (fold (mark_rect width height) rs acc) ! i)"
proof (induction rs arbitrary: acc)
  case (Cons r rs)
  then show ?case using mark_rect_mono[of width height r acc i] by (metis fold_simps(2))
qed simp

lemma tile_in_span:
  fixes a x r n :: nat
  assumes "a \<le> x" "x < r" "x div TILE_SIZE < n"
  shows "x div TILE_SIZE \<in> set [a div TILE_SIZE..<Suc (min ((r - 1) div TILE_SIZE) (n - 1))]"
proof -
  have "a div TILE_SIZE \<le> x div TILE_SIZE" "x div TILE_SIZE \<le> (r - 1) div TILE_SIZE"
    using assms(1,2) by (intro div_le_mono; simp)+
  then show ?thesis using assms(3) unfolding set_upt atLeastLessThan_iff less_Suc_eq_le by linarith
qed

lemma mark_rect_covers:
  assumes "k < width * height * 4" "pixel_in_rect width r k" "tile_of width k < length (fst acc)"
  shows "fst (mark_rect width height r acc) ! tile_of width k"
proof -
  let ?x = "k div 4 mod width" and ?y = "k div 4 div width"
  let ?l = "min (unat (dr_left r)) width" and ?t = "min (unat (dr_top r)) height"
  let ?r = "min (unat (dr_right r)) width" and ?b = "min (unat (dr_bottom r)) height"
  have w: "0 < width" using assms(1) by (cases width) auto
  have p: "k div 4 < width * height" using assms(1) by simp
  have xy: "?x < width" "?y < height" using w p by (simp_all add: less_mult_imp_div_less mult.commute)
  have r: "?l \<le> ?x" "?x < ?r" "?t \<le> ?y" "?y < ?b" using assms(2) xy by (simp_all add: pixel_in_rect_def)
  have ne: "\<not> (dirty_rect_is_empty r \<or> ?r \<le> ?l \<or> ?b \<le> ?t)"
    using assms(2) r by (auto simp: dirty_rect_is_empty_def pixel_in_rect_def word_le_nat_alt)
  have grid: "?x div TILE_SIZE < tiles_in_dim width" "?y div TILE_SIZE < tiles_in_dim height"
    using xy by (simp_all add: tile_index_less div_times_less_eq_dividend[THEN le_less_trans])
  have "?x div TILE_SIZE \<in> set [?l div TILE_SIZE..<Suc (min ((?r - 1) div TILE_SIZE) (tiles_in_dim width - 1))]"
    by (rule tile_in_span[OF r(1,2) grid(1)])
  moreover have "?y div TILE_SIZE \<in> set [?t div TILE_SIZE..<Suc (min ((?b - 1) div TILE_SIZE) (tiles_in_dim height - 1))]"
    by (rule tile_in_span[OF r(3,4) grid(2)])
  ultimately have "\<exists>ty \<in> set [?t div TILE_SIZE..<Suc (min ((?b - 1) div TILE_SIZE) (tiles_in_dim height - 1))].
      \<exists>tx \<in> set [?l div TILE_SIZE..<Suc (min ((?r - 1) div TILE_SIZE) (tiles_in_dim width - 1))].
        tile_of width k = ty * tiles_in_dim width + tx" unfolding tile_of_def by blast
  then show ?thesis
    unfolding mark_rect_def Let_def if_not_P[OF ne] fst_conv mark_grid_nth[THEN conjunct2, THEN mp, OF assms(3)] by (rule disjI2)
qed

lemma mark_rects_cover:
  assumes "k < width * height * 4" "r \<in> set rs" "pixel_in_rect width r k" "tile_of width k < length (fst acc)"
  shows "fst (fold (mark_rect width height) rs acc) ! tile_of width k"
  using assms(2,4)
proof (induction rs arbitrary: acc)
  case (Cons a rs)
  note m = mark_rect_mono[of width height a acc "tile_of width k"]
  show ?case
  proof (cases "a = r")
    case True
    have "fst (mark_rect width height a acc) ! tile_of width k" unfolding True by (rule mark_rect_covers[OF assms(1,3) Cons.prems(2)])
    then show ?thesis using mark_rects_mono[of width height rs "mark_rect width height a acc" "tile_of width k"] m Cons.prems(2) by simp
  next
    case False
    then show ?thesis using Cons m by simp
  qed
qed simp

lemma dirty_tile_indices_cover:
  assumes "dirty_tile_indices_from_rects rects width height = Some ts"
    and "\<forall>k < width * height * 4. rgba ! k \<noteq> prev ! k \<longrightarrow> (\<exists>r \<in> set rects. pixel_in_rect width r k)"
  shows "distinct ts" "\<forall>idx \<in> set ts. idx < tiles_in_dim width * tiles_in_dim height" "covers width height rgba prev ts"
proof -
  let ?tc = "tiles_in_dim width * tiles_in_dim height"
  let ?m = "fst (fold (mark_rect width height) rects (replicate ?tc False, False))"
  have ts: "ts = filter (\<lambda>idx. ?m ! idx) [0..<?tc]"
    using assms(1) by (auto simp: dirty_tile_indices_from_rects_def Let_def split: if_splits prod.splits)
  show "distinct ts" "\<forall>idx \<in> set ts. idx < ?tc" unfolding ts by simp_all
  show "covers width height rgba prev ts" unfolding covers_def
  proof (intro allI impI)
    fix k assume k: "k < width * height * 4" "rgba ! k \<noteq> prev ! k"
    then obtain r where r: "r \<in> set rects" "pixel_in_rect width r k" using assms(2) by blast
    note less = tile_of_less[OF k(1)]
    then show "tile_of width k \<in> set ts" unfolding ts
      using mark_rects_cover[OF k(1) r, of "(replicate ?tc False, False)"] by simp
  qed
qed


section \<open>Lemmas: every encoder path stays in step with the decoder\<close>

definition step_ok ::
  "(bytes \<Rightarrow> bytes option) \<Rightarrow> CpuEvrtckEncoder \<Rightarrow> EvrtckDecoder \<Rightarrow> bytes \<Rightarrow> CpuEvrtckEncoder \<times> EvrtckPacket \<times> FrameStats \<Rightarrow> bool" where
  "step_ok zdec ce ed bgra res \<longleftrightarrow>
     (case res of (ce', pkt, stats) \<Rightarrow>
        \<exists>ed'. decode_wire zdec ed (pk_data pkt) = (ed', Inr (swap_frame bgra)) \<and> in_sync ce' ed' \<and>
              ce_width ce' = ce_width ce \<and> ce_height ce' = ce_height ce)"

definition sync_pre :: "CpuEvrtckEncoder \<Rightarrow> EvrtckDecoder \<Rightarrow> bytes \<Rightarrow> bool" where
  "sync_pre ce ed bgra \<longleftrightarrow> dims_ok (ce_width ce) (ce_height ce) \<and> in_sync ce ed \<and> length bgra = ce_width ce * ce_height ce * 4"

lemma sync_preD:
  assumes "sync_pre ce ed bgra"
  shows "dims_ok (ce_width ce) (ce_height ce)" "in_sync ce ed" "length bgra = ce_width ce * ce_height ce * 4"
    "length (ce_prev ce) = ce_width ce * ce_height ce * 4"
    "\<not> ce_pending_keyframe ce \<Longrightarrow> ed_width ed = ce_width ce \<and> ed_height ed = ce_height ce \<and> ed_frame ed = swap_frame (ce_prev ce)"
  using assms by (auto simp: sync_pre_def in_sync_def)

lemma encode_inner_step:
  assumes "zstd_ok zenc zdec" "sync_pre ce ed bgra"
  shows "step_ok zdec ce ed bgra (encode_inner zenc ce bgra fid)"
proof -
  obtain ce' pkt st ofs where e: "encode_inner_impl zenc ce bgra fid False = (ce', pkt, st, ofs)" by (metis prod_cases4)
  show ?thesis using encode_step_sync[OF assms(1) sync_preD(1,2,3)[OF assms(2)] e] by (simp add: step_ok_def encode_inner_def e)
qed

lemma replaced_reference_step:
  assumes "sync_pre ce ed bgra" "\<not> ce_pending_keyframe ce" "decodes_to zdec (ce_width ce) (ce_height ce) (ce_prev ce) bgra data"
  shows "step_ok zdec ce ed bgra (ce\<lparr>ce_pending_keyframe := False, ce_prev := bgra\<rparr>, packet_of ce fid data, stats)"
proof -
  note pre = sync_preD[OF assms(1)]
  obtain ver flags fid' mb rest ord where d: "data = packet_header ver flags fid' (ce_width ce) (ce_height ce) mb @ rest" "mb < 65536"
    "decode_frame_prioritized zdec data (swap_frame (ce_prev ce)) (ce_width ce) (ce_height ce) None = (swap_frame bgra, Inr ord)"
    using assms(3) unfolding decodes_to_def by blast
  note ed = pre(5)[OF assms(2)]
  from decode_wire_in_step[OF pre(1) d(1,2) _ _ _ pre(4) d(3)] ed
  have "decode_wire zdec ed data = (\<lparr>ed_frame = swap_frame bgra, ed_width = ce_width ce, ed_height = ce_height ce\<rparr>, Inr (swap_frame bgra))"
    by blast
  then show ?thesis using pre(3) by (simp add: step_ok_def packet_of_def in_sync_def)
qed

lemma valid_rects_props:
  "\<forall>r \<in> set (valid_rects ce rects). copy_rect_is_valid r (ce_width ce) (ce_height ce)"
  "length (valid_rects ce rects) \<le> length rects"
  by (simp_all add: valid_rects_def)

lemma copy_rects_step:
  assumes "zstd_ok zenc zdec" "sync_pre ce ed bgra" "length rects \<le> 65535"
  shows "step_ok zdec ce ed bgra (encode_inner_with_copy_rects zenc ce bgra fid rects)"
proof (cases "ce_pending_keyframe ce \<or> rects = [] \<or> valid_rects ce rects = []")
  case True
  then have "encode_inner_with_copy_rects zenc ce bgra fid rects = encode_inner zenc ce bgra fid"
    by (auto simp: encode_inner_with_copy_rects_def Let_def valid_rects_def)
  then show ?thesis using encode_inner_step[OF assms(1,2)] by simp
next
  case False
  note pre = sync_preD[OF assms(2)]
  let ?v = "valid_rects ce rects"
  have v: "length ?v \<le> 65535" using valid_rects_props(2)[of ce rects] assms(3) by linarith
  obtain data st ofs where e: "encode_frame_with_offsets_and_copy_rects zenc bgra
      (apply_copy_rects (ce_prev ce) (ce_width ce) (ce_height ce) ?v) (ce_width ce) (ce_height ce) fid ?v (ce_focus ce) False = (data, st, ofs)"
    by (metis prod_cases3)
  from replaced_reference_step[OF assms(2) _ decodes_copy_frame[OF assms(1) pre(1,3,4) valid_rects_props(1) v e], of fid st] False
  show ?thesis by (simp add: encode_inner_with_copy_rects_def Let_def e)
qed

lemma scroll_step:
  assumes "zstd_ok zenc zdec" "sync_pre ce ed bgra"
  shows "step_ok zdec ce ed bgra (encode_inner_with_scroll_detection zenc ce bgra fid)"
proof -
  have e: "step_ok zdec ce ed bgra (encode_inner zenc ce bgra fid)" by (rule encode_inner_step[OF assms])
  have c: "step_ok zdec ce ed bgra (encode_inner_with_copy_rects zenc ce bgra fid [r])" for r
    by (rule copy_rects_step[OF assms]) simp
  show ?thesis unfolding encode_inner_with_scroll_detection_def
    by (cases "detect_full_width_vertical_scroll (ce_prev ce) bgra (ce_width ce) (ce_height ce)")
       (simp_all only: option.case e c simp_thms split: if_split)
qed

definition hints_ok :: "CpuEvrtckEncoder \<Rightarrow> bytes \<Rightarrow> CopyRect list \<Rightarrow> DirtyRect list \<Rightarrow> bool" where
  "hints_ok ce bgra copy_rects dirty_rects \<longleftrightarrow> length copy_rects \<le> 65535 \<and>
     (dirty_rects = [] \<or>
      (\<forall>k < ce_width ce * ce_height ce * 4.
         bgra ! k \<noteq> apply_copy_rects (ce_prev ce) (ce_width ce) (ce_height ce) (valid_rects ce copy_rects) ! k \<longrightarrow>
         (\<exists>r \<in> set dirty_rects. pixel_in_rect (ce_width ce) r k)))"

lemma apply_no_copy_rects [simp]: "apply_copy_rects frame w h [] = frame"
  by (simp add: apply_copy_rects_def)

lemma hinted_packet:
  assumes z: "zstd_ok zenc zdec" and pre: "sync_pre ce ed bgra" and ok: "hints_ok ce bgra copies dirty"
    and ts: "dirty_tile_indices_from_rects dirty (ce_width ce) (ce_height ce) = Some ts"
  defines "w \<equiv> ce_width ce" and "h \<equiv> ce_height ce" and "v \<equiv> valid_rects ce copies"
  defines "pr \<equiv> apply_copy_rects (ce_prev ce) w h v"
  shows "bgra = pr \<Longrightarrow> decodes_to zdec w h (ce_prev ce) bgra
      (if v = [] then nop_packet_data fid w h else copy_rect_only_packet_data fid w h v)"
    and "v = [] \<Longrightarrow> decodes_to zdec w h (ce_prev ce) bgra
      (fst (encode_pframe_from_dirty_indices zenc bgra pr w h fid ts (ce_focus ce)))"
    and "v \<noteq> [] \<Longrightarrow> decodes_to zdec w h (ce_prev ce) bgra
      (fst (encode_copy_rect_frame_from_dirty_indices zenc bgra pr w h fid v ts (ce_focus ce)))"
proof -
  note p = sync_preD[OF pre, folded w_def h_def]
  have v: "\<forall>r \<in> set v. copy_rect_is_valid r w h" "length v \<le> 65535"
    using valid_rects_props[of ce copies] ok unfolding v_def w_def h_def hints_ok_def by auto
  have lp: "length pr = w * h * 4" unfolding pr_def by (rule length_apply_copy_rects[OF p(4)])
  have "dirty \<noteq> []" using ts by (auto simp: dirty_tile_indices_from_rects_def)
  then have "\<forall>k < w * h * 4. bgra ! k \<noteq> pr ! k \<longrightarrow> (\<exists>r \<in> set dirty. pixel_in_rect w r k)"
    using ok unfolding hints_ok_def pr_def v_def w_def h_def by blast
  note cov = dirty_tile_indices_cover[OF ts[folded w_def h_def] this]
  show "decodes_to zdec w h (ce_prev ce) bgra
      (if v = [] then nop_packet_data fid w h else copy_rect_only_packet_data fid w h v)" if "bgra = pr"
    using decodes_nop[OF p(1)] decodes_copy_only[OF p(1,4) v] that unfolding pr_def by simp
  show "decodes_to zdec w h (ce_prev ce) bgra (fst (encode_pframe_from_dirty_indices zenc bgra pr w h fid ts (ce_focus ce)))" if "v = []"
  proof -
    obtain data st ofs where as: "assemble_frame EVCK_VERSION 0 [] fid w h (ce_focus ce)
        (map (encode_one zenc bgra pr w h False) ts) = (data, st, ofs)" by (metis prod_cases3)
    have pr: "pr = ce_prev ce" using that by (simp add: pr_def)
    show ?thesis using decodes_tiles[OF z p(1,3,4) cov[unfolded pr] as[unfolded pr]] as
      by (simp add: encode_pframe_from_dirty_indices_def pr)
  qed
  let ?d = "filter (\<lambda>idx. tile_is_dirty bgra pr w h (idx mod tiles_in_dim w) (idx div tiles_in_dim w)) ts"
  have d: "distinct ?d" "\<forall>idx \<in> set ?d. idx < tiles_in_dim w * tiles_in_dim h" "covers w h bgra pr ?d"
    using cov covers_dirty[OF p(3) lp cov(3)] by simp_all
  show "decodes_to zdec w h (ce_prev ce) bgra
      (fst (encode_copy_rect_frame_from_dirty_indices zenc bgra pr w h fid v ts (ce_focus ce)))"
  proof (cases "?d = []")
    case True
    have "bgra = pr" by (rule nth_equalityI) (use d(3) True p(3) lp in \<open>auto simp: covers_def\<close>)
    then show ?thesis using True decodes_copy_only[OF p(1,4) v]
      by (simp add: encode_copy_rect_frame_from_dirty_indices_def Let_def pr_def)
  next
    case False
    obtain data st ofs where as: "assemble_frame VERSION_COPY_RECTS FLAG_COPY_RECTS (write_copy_rects v) fid w h (ce_focus ce)
        (map (encode_one zenc bgra pr w h False) ?d) = (data, st, ofs)" by (metis prod_cases3)
    show ?thesis using decodes_copy_tiles[OF z p(1,3,4) v d[unfolded pr_def] as[unfolded pr_def]] False as
      unfolding encode_copy_rect_frame_from_dirty_indices_def Let_def by (simp add: pr_def)
  qed
qed

lemma capture_hints_step:
  assumes "zstd_ok zenc zdec" "sync_pre ce ed bgra" "hints_ok ce bgra copies dirty"
  shows "step_ok zdec ce ed bgra (encode_inner_with_capture_hints zenc ce bgra fid copies dirty)"
proof -
  let ?w = "ce_width ce" and ?h = "ce_height ce" and ?v = "valid_rects ce copies"
  let ?pr = "apply_copy_rects (ce_prev ce) ?w ?h ?v"
  have pr: "(if ?v \<noteq> [] then ?pr else ce_prev ce) = ?pr" by simp
  note p = sync_preD[OF assms(2)]
  have v: "length ?v \<le> 65535" using valid_rects_props(2)[of ce copies] assms(3) unfolding hints_ok_def by linarith
  note upd = replaced_reference_step[OF assms(2)]
  consider (key) "ce_pending_keyframe ce"
    | (scroll) "\<not> ce_pending_keyframe ce" "dirty_tile_indices_from_rects dirty ?w ?h = None" "?v = []"
    | (copy) "\<not> ce_pending_keyframe ce" "dirty_tile_indices_from_rects dirty ?w ?h = None" "?v \<noteq> []"
    | (hints) ts where "\<not> ce_pending_keyframe ce" "dirty_tile_indices_from_rects dirty ?w ?h = Some ts" by blast
  then show ?thesis
  proof cases
    case key
    then show ?thesis using encode_inner_step[OF assms(1,2)] by (simp add: encode_inner_with_capture_hints_def)
  next
    case scroll
    then show ?thesis using scroll_step[OF assms(1,2)] by (simp add: encode_inner_with_capture_hints_def Let_def)
  next
    case copy
    obtain data st ofs where e: "encode_frame_with_offsets_and_copy_rects zenc bgra ?pr ?w ?h fid ?v (ce_focus ce) False = (data, st, ofs)"
      by (metis prod_cases3)
    show ?thesis using upd[OF copy(1) decodes_copy_frame[OF assms(1) p(1,3,4) valid_rects_props(1) v e], of fid st] copy
      unfolding encode_inner_with_capture_hints_def Let_def by (simp add: e)
  next
    case hints
    note hp = hinted_packet[OF assms hints(2)]
    obtain d1 s1 where e1: "encode_pframe_from_dirty_indices zenc bgra (ce_prev ce) ?w ?h fid ts (ce_focus ce) = (d1, s1)" by fastforce
    obtain d2 s2 where e2: "encode_copy_rect_frame_from_dirty_indices zenc bgra ?pr ?w ?h fid ?v ts (ce_focus ce) = (d2, s2)" by fastforce
    note r = upd[OF hints(1) hp(1), of fid] upd[OF hints(1) hp(2), of fid fid] upd[OF hints(1) hp(3), of fid fid]
    show ?thesis using r hints
      unfolding encode_inner_with_capture_hints_def Let_def pr by (simp add: e1 e2)
  qed
qed


section \<open>Lemmas: a run of the encoder and the decoder\<close>

datatype capture_event =
  CapEncode bytes u32
  | CapOffsets bytes u32
  | CapCopyRects bytes u32 "CopyRect list"
  | CapHints bytes u32 "CopyRect list" "DirtyRect list"
  | CapScroll bytes u32
  | CapKeyframe
  | CapFocus u32 u32
  | CapClearFocus

text \<open>One call of the encoder: its state and the packet, if the call makes one.\<close>

definition capture_step ::
  "(bytes \<Rightarrow> bytes option) \<Rightarrow> capture_event \<Rightarrow> CpuEvrtckEncoder \<Rightarrow> CpuEvrtckEncoder \<times> EvrtckPacket option" where
  "capture_step zenc ev ce =
     (case ev of
        CapEncode bgra fid \<Rightarrow> (case encode_inner zenc ce bgra fid of (ce', pkt, st) \<Rightarrow> (ce', Some pkt))
      | CapOffsets bgra fid \<Rightarrow> (case encode_inner_with_offsets zenc ce bgra fid of (ce', pkt, st, ofs) \<Rightarrow> (ce', Some pkt))
      | CapCopyRects bgra fid rects \<Rightarrow>
          (case encode_inner_with_copy_rects zenc ce bgra fid rects of (ce', pkt, st) \<Rightarrow> (ce', Some pkt))
      | CapHints bgra fid rects dirty \<Rightarrow>
          (case encode_inner_with_capture_hints zenc ce bgra fid rects dirty of (ce', pkt, st) \<Rightarrow> (ce', Some pkt))
      | CapScroll bgra fid \<Rightarrow> (case encode_inner_with_scroll_detection zenc ce bgra fid of (ce', pkt, st) \<Rightarrow> (ce', Some pkt))
      | CapKeyframe \<Rightarrow> (request_keyframe ce, None)
      | CapFocus x y \<Rightarrow> (set_focus_pixel x y ce, None)
      | CapClearFocus \<Rightarrow> (clear_focus ce, None))"

fun captured :: "capture_event \<Rightarrow> bytes option" where
  "captured (CapEncode bgra fid) = Some bgra"
| "captured (CapOffsets bgra fid) = Some bgra"
| "captured (CapCopyRects bgra fid rects) = Some bgra"
| "captured (CapHints bgra fid rects dirty) = Some bgra"
| "captured (CapScroll bgra fid) = Some bgra"
| "captured _ = None"

text \<open>What the encoder relies on: frames of its size, at most 65,535 copy rectangles, and dirty rectangles, where they are
  given, that contain every pixel in which the frame differs from the copied reference.\<close>

definition event_ok :: "CpuEvrtckEncoder \<Rightarrow> capture_event \<Rightarrow> bool" where
  "event_ok ce ev \<longleftrightarrow>
     (case captured ev of None \<Rightarrow> True | Some bgra \<Rightarrow> length bgra = ce_width ce * ce_height ce * 4) \<and>
     (case ev of CapCopyRects bgra fid rects \<Rightarrow> length rects \<le> 65535
               | CapHints bgra fid rects dirty \<Rightarrow> hints_ok ce bgra rects dirty | _ \<Rightarrow> True)"

fun capture_run ::
  "(bytes \<Rightarrow> bytes option) \<Rightarrow> (bytes \<Rightarrow> bytes option) \<Rightarrow> capture_event list \<Rightarrow> CpuEvrtckEncoder \<Rightarrow> EvrtckDecoder
   \<Rightarrow> (EvrtckError + bytes) list" where
  "capture_run zenc zdec [] ce ed = []"
| "capture_run zenc zdec (ev # evs) ce ed =
     (case capture_step zenc ev ce of
        (ce', None) \<Rightarrow> capture_run zenc zdec evs ce' ed
      | (ce', Some pkt) \<Rightarrow> (case decode_wire zdec ed (pk_data pkt) of (ed', r) \<Rightarrow> r # capture_run zenc zdec evs ce' ed'))"

fun events_ok :: "(bytes \<Rightarrow> bytes option) \<Rightarrow> capture_event list \<Rightarrow> CpuEvrtckEncoder \<Rightarrow> bool" where
  "events_ok zenc [] ce = True"
| "events_ok zenc (ev # evs) ce \<longleftrightarrow> event_ok ce ev \<and> events_ok zenc evs (fst (capture_step zenc ev ce))"

lemma offsets_step:
  assumes "zstd_ok zenc zdec" "sync_pre ce ed bgra" "encode_inner_with_offsets zenc ce bgra fid = (ce', pkt, st, ofs)"
  shows "step_ok zdec ce ed bgra (ce', pkt, st)"
  using encode_step_sync[OF assms(1) sync_preD(1,2,3)[OF assms(2)]] assms(3)
  unfolding encode_inner_with_offsets_def step_ok_def by blast

lemma capture_step_frame:
  assumes z: "zstd_ok zenc zdec" and "dims_ok (ce_width ce) (ce_height ce)" "in_sync ce ed" "event_ok ce ev" "captured ev = Some bgra"
  shows "\<exists>ce' pkt st. capture_step zenc ev ce = (ce', Some pkt) \<and> step_ok zdec ce ed bgra (ce', pkt, st)"
proof -
  have pre: "sync_pre ce ed bgra" using assms(2-5) by (simp add: sync_pre_def event_ok_def)
  show ?thesis
  proof (cases ev)
    case (CapEncode b fid)
    then show ?thesis using encode_inner_step[OF z pre, of fid] assms(5)
      by (cases "encode_inner zenc ce bgra fid") (auto simp: capture_step_def)
  next
    case (CapOffsets b fid)
    obtain ce' pkt st ofs where e: "encode_inner_with_offsets zenc ce bgra fid = (ce', pkt, st, ofs)" by (metis prod_cases4)
    show ?thesis using offsets_step[OF z pre e] assms(5) by (auto simp: capture_step_def CapOffsets e)
  next
    case (CapCopyRects b fid rects)
    then show ?thesis using copy_rects_step[OF z pre, of rects fid] assms(4,5)
      by (cases "encode_inner_with_copy_rects zenc ce bgra fid rects") (auto simp: capture_step_def event_ok_def)
  next
    case (CapHints b fid rects dirty)
    then show ?thesis using capture_hints_step[OF z pre, of rects dirty fid] assms(4,5)
      by (cases "encode_inner_with_capture_hints zenc ce bgra fid rects dirty") (auto simp: capture_step_def event_ok_def)
  next
    case (CapScroll b fid)
    then show ?thesis using scroll_step[OF z pre, of fid] assms(5)
      by (cases "encode_inner_with_scroll_detection zenc ce bgra fid") (auto simp: capture_step_def)
  qed (use assms(5) in simp_all)
qed

lemma capture_step_quiet:
  assumes "captured ev = None" "in_sync ce ed"
  shows "\<exists>ce'. capture_step zenc ev ce = (ce', None) \<and> in_sync ce' ed \<and> ce_width ce' = ce_width ce \<and> ce_height ce' = ce_height ce"
  using assms by (cases ev)
    (simp_all add: capture_step_def in_sync_def request_keyframe_def set_focus_pixel_def clear_focus_def set_focus_def)

lemma capture_run_sync:
  assumes z: "zstd_ok zenc zdec"
  shows "dims_ok (ce_width ce) (ce_height ce) \<Longrightarrow> in_sync ce ed \<Longrightarrow> events_ok zenc evs ce \<Longrightarrow>
    capture_run zenc zdec evs ce ed = map (\<lambda>b. Inr (swap_frame b)) (List.map_filter captured evs)"
proof (induction evs arbitrary: ce ed)
  case (Cons ev evs)
  have ok: "event_ok ce ev" "events_ok zenc evs (fst (capture_step zenc ev ce))" using Cons.prems(3) by simp_all
  show ?case
  proof (cases "captured ev")
    case None
    obtain ce' where s: "capture_step zenc ev ce = (ce', None)" "in_sync ce' ed" "ce_width ce' = ce_width ce" "ce_height ce' = ce_height ce"
      using capture_step_quiet[OF None Cons.prems(2)] by blast
    show ?thesis using Cons.IH[of ce' ed] Cons.prems(1) ok(2) s by (simp add: None map_filter_simps)
  next
    case (Some bgra)
    obtain ce' pkt st where s: "capture_step zenc ev ce = (ce', Some pkt)" "step_ok zdec ce ed bgra (ce', pkt, st)"
      using capture_step_frame[OF z Cons.prems(1,2) ok(1) Some] by blast
    then obtain ed' where d: "decode_wire zdec ed (pk_data pkt) = (ed', Inr (swap_frame bgra))" "in_sync ce' ed'"
      "ce_width ce' = ce_width ce" "ce_height ce' = ce_height ce" by (auto simp: step_ok_def)
    show ?thesis using Cons.IH[of ce' ed'] Cons.prems(1) ok(2) s(1) d by (simp add: Some map_filter_simps)
  qed
qed (simp add: map_filter_simps)


section \<open>Lemmas: scroll detection\<close>

definition rows_match :: "bytes \<Rightarrow> bytes \<Rightarrow> nat \<Rightarrow> nat \<Rightarrow> nat \<Rightarrow> bool \<Rightarrow> bool" where
  "rows_match prev bgra width height dy up \<longleftrightarrow>
     (let off = dy * (width * 4); moved = (height - dy) * (width * 4) in
      if up then subslice off (off + moved) prev = subslice 0 moved bgra
      else subslice 0 moved prev = subslice off (off + moved) bgra)"

definition best_ok :: "bytes \<Rightarrow> bytes \<Rightarrow> nat \<Rightarrow> nat \<Rightarrow> nat list \<Rightarrow> (nat \<times> bool) option \<Rightarrow> bool" where
  "best_ok prev bgra width height dys best \<longleftrightarrow>
     (case best of
        None \<Rightarrow> \<forall>dy \<in> set dys. \<forall>up. dy < height \<longrightarrow> \<not> rows_match prev bgra width height dy up
      | Some (dy, up) \<Rightarrow> dy < height \<and> rows_match prev bgra width height dy up \<and>
          (\<forall>dy' \<in> set dys. \<forall>up'. dy' < height \<and> rows_match prev bgra width height dy' up' \<longrightarrow> dy' \<le> dy))"

lemma try_offset_match:
  "try_offset prev bgra width height dy best =
     (if height \<le> dy then best
      else let b = (if rows_match prev bgra width height dy True then choose_larger_scroll best dy True else best)
           in if rows_match prev bgra width height dy False then choose_larger_scroll b dy False else b)"
  by (simp add: try_offset_def rows_match_def Let_def)

lemma best_ok_try:
  assumes "best_ok prev bgra width height dys best"
  shows "best_ok prev bgra width height (dys @ [dy]) (try_offset prev bgra width height dy best)"
proof (cases "height \<le> dy")
  case True
  then show ?thesis using assms by (auto simp: try_offset_match best_ok_def split: option.splits)
next
  case False
  have all: "(\<forall>u. P u) = (P True \<and> P False)" for P by (metis (full_types))
  show ?thesis using assms False unfolding try_offset_match best_ok_def choose_larger_scroll_def Let_def all
    by (cases best) (auto split: if_splits, (meson nat_le_linear order_trans)+)
qed

lemma best_ok_fold:
  "best_ok prev bgra width height done' best \<Longrightarrow>
   best_ok prev bgra width height (done' @ dys) (fold (try_offset prev bgra width height) dys best)"
proof (induction dys arbitrary: done' best)
  case (Cons dy dys)
  from Cons.IH[OF best_ok_try[OF Cons.prems, of dy]] show ?case by simp
qed simp

lemma rows_match_nth:
  assumes "rows_match prev bgra width height dy up" "dy < height" "length prev = width * height * 4" "length bgra = width * height * 4"
    and "j < (height - dy) * (width * 4)"
  shows "if up then prev ! (dy * (width * 4) + j) = bgra ! j else prev ! j = bgra ! (dy * (width * 4) + j)"
proof -
  let ?off = "dy * (width * 4)" and ?m = "(height - dy) * (width * 4)"
  have "?off + ?m = (dy + (height - dy)) * (width * 4)" by (simp only: add_mult_distrib)
  also have "\<dots> = width * height * 4" using assms(2) by simp
  finally have b: "?off + ?m = width * height * 4" .
  have s: "subslice ?off (?off + ?m) xs ! j = xs ! (?off + j)" "subslice 0 ?m xs ! j = xs ! j"
    if "length xs = width * height * 4" for xs :: bytes
    using nth_subslice[of ?off j "?off + ?m" xs] nth_subslice[of 0 j ?m xs] assms(5) b that by auto
  show ?thesis using assms(1) s[OF assms(3)] s[OF assms(4)] unfolding rows_match_def Let_def by (metis (full_types))
qed

lemma detected_scroll:
  assumes "detect_full_width_vertical_scroll prev bgra width height = Some r"
    and len: "length prev = width * height * 4" "length bgra = width * height * 4" and dims: "width < 2 ^ 32" "height < 2 ^ 32"
  shows "copy_rect_is_valid r width height"
    and "k < width * height * 4 \<Longrightarrow> in_rect width (unat (cp_dst_x r)) (unat (cp_dst_y r)) (unat (cp_dst_x r) + unat (cp_width r))
       (unat (cp_dst_y r) + unat (cp_height r)) k \<Longrightarrow> apply_copy_rect width height r prev ! k = bgra ! k"
proof -
  have "best_ok prev bgra width height [] None" by (simp add: best_ok_def)
  note best = best_ok_fold[OF this, of candidate_offsets]
  obtain dy up where f: "fold (try_offset prev bgra width height) candidate_offsets None = Some (dy, up)" and
    r: "r = \<lparr>cp_src_x = 0, cp_src_y = (if up then of_nat dy else 0), cp_dst_x = 0, cp_dst_y = (if up then 0 else of_nat dy),
              cp_width = of_nat width, cp_height = of_nat (height - dy)\<rparr>" and w: "0 < width"
    using assms(1) by (auto simp: detect_full_width_vertical_scroll_def split: if_splits)
  have dy: "dy < height" "rows_match prev bgra width height dy up" using best f by (simp_all add: best_ok_def)
  define n where "n = height - dy"
  have n: "0 < n" "dy + n = height" using dy(1) by (simp_all add: n_def)
  have u: "unat (of_nat dy :: u32) = dy" "unat (of_nat n :: u32) = n" "unat (of_nat width :: u32) = width"
    using dims n by (simp_all add: unat_of_nat_u32)
  have nz: "(of_nat width :: u32) \<noteq> 0" "(of_nat n :: u32) \<noteq> 0" using u w n(1) by (metis unat_0 less_numeral_extra(3))+
  show v: "copy_rect_is_valid r width height" using u nz n unfolding r n_def[symmetric] by (simp add: copy_rect_is_valid_def)
  assume k: "k < width * height * 4" and i: "in_rect width (unat (cp_dst_x r)) (unat (cp_dst_y r)) (unat (cp_dst_x r) + unat (cp_width r))
       (unat (cp_dst_y r) + unat (cp_height r)) k"
  have a: "apply_copy_rect width height r prev ! k = prev ! copy_source width r k"
    using apply_copy_rect_nth[OF v len(1)] i k len(1) by simp
  let ?q = "k div (width * 4)" and ?m = "k mod (width * 4)"
  have km: "k = ?q * (width * 4) + ?m" by (rule div_mult_mod_eq[symmetric])
  have q: "if up then ?q < height - dy else dy \<le> ?q \<and> ?q < height" using i u n unfolding r n_def[symmetric] by (auto simp: in_rect_def split: if_splits)
  show "apply_copy_rect width height r prev ! k = bgra ! k"
  proof (cases up)
    case True
    have "Suc ?q \<le> height - dy" using q True by simp
    from mult_le_mono1[OF this, of "width * 4"] have j: "k < (height - dy) * (width * 4)"
      using km mod_less_divisor[of "width * 4" k] w by (simp only: mult_Suc) linarith
    have "copy_source width r k = dy * (width * 4) + k" using km True u unfolding r
      by (simp add: copy_source_def add_mult_distrib)
    then show ?thesis using a rows_match_nth[OF dy(2,1) len j] True by simp
  next
    case False
    define j where "j = (?q - dy) * (width * 4) + ?m"
    have "dy * (width * 4) + (?q - dy) * (width * 4) = (dy + (?q - dy)) * (width * 4)" by (simp only: add_mult_distrib)
    then have kj: "k = dy * (width * 4) + j" using km q False unfolding j_def by simp
    have "Suc (?q - dy) \<le> height - dy" using q False by (simp add: Suc_diff_le[symmetric] diff_le_mono Suc_leI)
    from mult_le_mono1[OF this, of "width * 4"] have j: "j < (height - dy) * (width * 4)"
      using mod_less_divisor[of "width * 4" k] w unfolding j_def by (simp only: mult_Suc) linarith
    have "copy_source width r k = j" using False u unfolding r j_def by (simp add: copy_source_def)
    then show ?thesis using a rows_match_nth[OF dy(2,1) len j] False kj by simp
  qed
qed


section \<open>Lemmas: the absolute overlay\<close>

lemma distinct_remdups_adj_sorted: "sorted xs \<Longrightarrow> distinct (remdups_adj xs)" for xs :: "'a::linorder list"
  by (induction xs rule: remdups_adj.induct) (auto simp: less_le_not_le)

lemma subset_indices_props:
  assumes "tile_count \<le> 65536"
  shows "set (subset_indices tile_count tiles) = {i. i < tile_count \<and> (\<exists>t \<in> set tiles. unat t = i)}"
    "distinct (subset_indices tile_count tiles)"
proof -
  show "set (subset_indices tile_count tiles) = {i. i < tile_count \<and> (\<exists>t \<in> set tiles. unat t = i)}"
    by (auto simp: subset_indices_def)
  have "distinct (remdups_adj (sort (filter (\<lambda>i. unat i < tile_count) tiles)))"
    by (metis distinct_remdups_adj_sorted sorted_sort)
  then show "distinct (subset_indices tile_count tiles)"
    unfolding subset_indices_def by (simp add: distinct_map inj_on_def word_unat_eq_iff)
qed

lemma zero_tile_nth:
  assumes "x1 \<le> width" "x0 \<le> x1" "y1 \<le> h" "length frame = width * h * 4"
  shows "length (zero_tile width x0 y0 x1 y1 frame) = length frame \<and>
    (\<forall>k < length frame. zero_tile width x0 y0 x1 y1 frame ! k = (if in_rect width x0 y0 x1 y1 k then 0 else frame ! k))"
proof -
  note p = paint_rows[OF assms, of "\<lambda>_ _. replicate ((x1 - x0) * 4) 0" y0, OF length_replicate]
  have "replicate ((x1 - x0) * 4) (0 :: u8) ! (k mod (width * 4) - x0 * 4) = 0" if "in_rect width x0 y0 x1 y1 k" for k
    using in_rect_row(3)[OF that] by simp
  then show ?thesis using p unfolding zero_tile_def by simp
qed

text \<open>One absolute tile replaces its pixels, whatever was there.\<close>

lemma overlay_tile:
  assumes "idx < tiles_in_dim width * tiles_in_dim height" "length frame = width * height * 4"
    and "paints width height (rect_of_tile width height idx) (\<lambda>_. 0) tgt px"
    and "rect_of_tile width height idx = (x0, y0, x1, y1)"
  shows "\<exists>frame'. paint_tile width x0 y0 x1 y1 px (zero_tile width x0 y0 x1 y1 frame) = Inr frame' \<and> length frame' = length frame \<and>
    (\<forall>k < length frame. frame' ! k = (if tile_of width k = idx then tgt k else frame ! k))"
proof -
  have g: "x0 < x1" "y0 < y1" "x1 \<le> width" "y1 \<le> height"
      "\<forall>k < width * height * 4. in_rect width x0 y0 x1 y1 k \<longleftrightarrow> tile_of width k = idx"
    using tile_grid[OF assms(1)] assms(4) by auto
  note z = zero_tile_nth[OF g(3) less_imp_le[OF g(1)] g(4) assms(2), of y0]
  let ?z = "zero_tile width x0 y0 x1 y1 frame"
  obtain frame' where "paint_tile width x0 y0 x1 y1 px ?z = Inr frame'" "length frame' = length ?z"
    "\<forall>k < length ?z. frame' ! k = (if in_rect width x0 y0 x1 y1 k then tgt k else ?z ! k)"
    using assms(3) z assms(2) unfolding paints_def assms(4) case_prod_conv by (metis (no_types, lifting))
  then show ?thesis using z g(5) assms(2) by auto
qed

lemma overlay_written_entries:
  assumes "tiles_in_dim width * tiles_in_dim height \<le> 65536"
  shows "\<forall>e \<in> set es. tile_entry_ok (tiles_in_dim width * tiles_in_dim height) e \<Longrightarrow>
    \<forall>(idx, mode, enc) \<in> set es. \<exists>p. decompress_tile zdec enc mode = Inr p \<and>
        paints width height (rect_of_tile width height idx) (\<lambda>_. 0) tgt p \<Longrightarrow>
    length frame = width * height * 4 \<Longrightarrow>
    \<exists>frame'. overlay_entries zdec width height (length es) (fst (write_entries s (map entry_of es)) @ rest) frame
        = (frame', Inr (map fst es)) \<and> length frame' = length frame \<and>
      (\<forall>k < length frame. frame' ! k = (if tile_of width k \<in> fst ` set es then tgt k else frame ! k))"
proof (induction es arbitrary: s frame)
  case (Cons e es)
  let ?tc = "tiles_in_dim width * tiles_in_dim height"
  obtain idx mode enc where e: "e = (idx, mode, enc)" by (cases e)
  have ok: "idx < ?tc" "mode = MODE_SOLID \<and> length enc = 4 \<or> (mode = MODE_DELTA \<or> mode = MODE_ZSTD) \<and> length enc < 2 ^ 32"
    using Cons.prems(1) by (auto simp: e tile_entry_ok_def)
  obtain px where px: "decompress_tile zdec enc mode = Inr px" "paints width height (rect_of_tile width height idx) (\<lambda>_. 0) tgt px"
    using Cons.prems(2) by (auto simp: e)
  obtain x0 y0 x1 y1 where r: "rect_of_tile width height idx = (x0, y0, x1, y1)" by (metis prod_cases4)
  obtain fr where fr: "paint_tile width x0 y0 x1 y1 px (zero_tile width x0 y0 x1 y1 frame) = Inr fr" "length fr = length frame"
    "\<forall>k < length frame. fr ! k = (if tile_of width k = idx then tgt k else frame ! k)"
    using overlay_tile[OF ok(1) Cons.prems(3) px(2) r] by blast
  let ?s = "s + length (le_bytes 2 (of_nat idx :: u16) @ mode # entry_body mode enc)"
  let ?tail = "fst (write_entries ?s (map entry_of es)) @ rest"
  obtain fr' where fr': "overlay_entries zdec width height (length es) ?tail fr = (fr', Inr (map fst es))" "length fr' = length fr"
    "\<forall>k < length fr. fr' ! k = (if tile_of width k \<in> fst ` set es then tgt k else fr ! k)"
    using Cons.IH[of fr ?s] Cons.prems fr(2) by auto
  have u: "unat (of_nat idx :: u16) = idx" using ok(1) assms by (simp add: unat_of_nat_u16)
  have len: "unat (of_nat (length enc) :: u32) = length enc" if "length enc < 2 ^ 32" using that by (simp add: unat_of_nat_u32)
  have w: "fst (write_entries s (map entry_of (e # es))) @ rest = le_bytes 2 (of_nat idx :: u16) @ mode # entry_body mode enc @ ?tail"
    by (simp add: e entry_of_def Let_def split: prod.splits)
  have "overlay_entries zdec width height (length (e # es)) (fst (write_entries s (map entry_of (e # es))) @ rest) frame
      = (fr', Inr (map fst (e # es)))"
    unfolding w using ok(2) u ok(1) len px(1) r fr(1) fr'(1)
    by (auto simp: e entry_body_def MODE_SOLID_def MODE_DELTA_def MODE_ZSTD_def)
  then show ?case using fr fr' by (auto simp: e)
qed simp

lemma encode_inner_keyframe:
  "ce_pending_keyframe ce \<Longrightarrow> fst (encode_inner zenc ce bgra fid) = ce\<lparr>ce_pending_keyframe := False, ce_prev := bgra\<rparr>"
  by (simp add: encode_inner_def encode_inner_impl_def Let_def split: prod.split)

lemma hints_example: "hints_ok \<lparr>ce_prev = [1, 2, 3, 4, 5, 6, 7, 8], ce_width = 2, ce_height = 1, ce_pending_keyframe = False, ce_focus = None\<rparr>
 [1, 2, 3, 4, 1, 2, 3, 9] [\<lparr>cp_src_x = 0, cp_src_y = 0, cp_dst_x = 1, cp_dst_y = 0, cp_width = 1, cp_height = 1\<rparr>]
  [\<lparr>dr_left = 1, dr_top = 0, dr_right = 2, dr_bottom = 1\<rparr>]" (is "hints_ok ?ce ?b ?cp ?dr")
proof -
  have v: "valid_rects ?ce ?cp = ?cp" by (simp add: valid_rects_def copy_rect_is_valid_def)
  have p: "apply_copy_rects [1, 2, 3, 4, 5, 6, 7, 8] 2 1 ?cp = [1, 2, 3, 4, 1, 2, 3, 4]"
    by (simp add: apply_copy_rects_def apply_copy_rect_def copy_rect_is_valid_def Let_def splice_def subslice_def)
  have "pixel_in_rect 2 (hd ?dr) k" if "k < 8" "?b ! k \<noteq> [1, 2, 3, 4, 1, 2, 3, 4] ! k" for k
  proof -
    have "k \<noteq> 0 \<and> k \<noteq> 1 \<and> k \<noteq> 2 \<and> k \<noteq> 3" using that(2) by (intro conjI notI) simp_all
    then have "k div 4 = 1" using that(1) by linarith
    then show ?thesis by (simp add: pixel_in_rect_def)
  qed
  then show ?thesis unfolding hints_ok_def v by (simp add: p[unfolded One_nat_def])
qed


section \<open>Properties\<close>

text \<open>C3: The screen codec is lossless on every encoder path. For any sequence of calls to a new encoder (plain frames, frames
  with offsets, copy rectangles, capture hints, scroll detection, keyframe requests, focus changes) every packet is accepted
  by the decoder, whatever state it starts in, and gives exactly the captured frame with red and blue exchanged; dirty
  rectangles, where they are given, must contain every pixel that the copy rectangles leave different.\<close>

theorem capture_stream_lossless:
  assumes "zstd_ok zenc zdec" "dims_ok width height" "events_ok zenc evs (encoder_new width height)"
  shows "capture_run zenc zdec evs (encoder_new width height) ed = map (\<lambda>b. Inr (swap_frame b)) (List.map_filter captured evs)"
  by (rule capture_run_sync[OF assms(1) _ _ assms(3)]) (use assms(2) in \<open>simp_all add: in_sync_def encoder_new_def\<close>)

theorem capture_stream_lossless_witness:
  "capture_run Some Some
     [CapEncode [1, 2, 3, 4, 5, 6, 7, 8] 1,
      CapHints [1, 2, 3, 4, 1, 2, 3, 9] 2
        [\<lparr>cp_src_x = 0, cp_src_y = 0, cp_dst_x = 1, cp_dst_y = 0, cp_width = 1, cp_height = 1\<rparr>]
        [\<lparr>dr_left = 1, dr_top = 0, dr_right = 2, dr_bottom = 1\<rparr>]]
     (encoder_new 2 1) decoder_new = [Inr [3, 2, 1, 4, 7, 6, 5, 8], Inr [3, 2, 1, 4, 3, 2, 1, 9]]"
proof -
  let ?cp = "[\<lparr>cp_src_x = 0, cp_src_y = 0, cp_dst_x = 1, cp_dst_y = 0, cp_width = 1, cp_height = 1\<rparr>]"
  let ?dr = "[\<lparr>dr_left = 1, dr_top = 0, dr_right = 2, dr_bottom = 1\<rparr>]"
  let ?evs = "[CapEncode [1, 2, 3, 4, 5, 6, 7, 8] 1, CapHints [1, 2, 3, 4, 1, 2, 3, 9] 2 ?cp ?dr]"
  let ?ce = "\<lparr>ce_prev = [1, 2, 3, 4, 5, 6, 7, 8], ce_width = 2, ce_height = 1, ce_pending_keyframe = False, ce_focus = None\<rparr>"
  have z: "zstd_ok Some Some" by (simp add: zstd_ok_def TILE_SIZE_def)
  have d: "dims_ok 2 1" by (simp add: dims_ok_def tiles_in_dim_def TILE_SIZE_def)
  have k: "fst (capture_step Some (CapEncode [1, 2, 3, 4, 5, 6, 7, 8] 1) (encoder_new 2 1)) = ?ce"
  proof -
    have "fst (encode_inner Some (encoder_new 2 1) [1, 2, 3, 4, 5, 6, 7, 8] 1) = ?ce"
      using encode_inner_keyframe[of "encoder_new 2 1" Some "[1, 2, 3, 4, 5, 6, 7, 8]" 1] by (simp add: encoder_new_def)
    then show ?thesis
      by (cases "encode_inner Some (encoder_new 2 1) [1, 2, 3, 4, 5, 6, 7, 8] 1") (simp add: capture_step_def)
  qed
  have e: "events_ok Some ?evs (encoder_new 2 1)"
    unfolding events_ok.simps k using hints_example by (simp add: event_ok_def encoder_new_def)
  have s: "map (\<lambda>b. Inr (swap_frame b) :: EvrtckError + bytes) (List.map_filter captured ?evs)
      = [Inr [3, 2, 1, 4, 7, 6, 5, 8], Inr [3, 2, 1, 4, 3, 2, 1, 9]]" by code_simp
  show ?thesis unfolding capture_stream_lossless[OF z d e] by (rule s)
qed

text \<open>A detected scroll is real. The rectangle is inside the frame, and copying it makes every byte of its destination
  equal to the captured frame; without a detection no candidate offset matches in either direction.\<close>

theorem scroll_detection_exact:
  assumes "length prev = width * height * 4" "length bgra = width * height * 4"
    and "0 < width" "width < 2 ^ 32" "0 < height" "height < 2 ^ 32"
  shows "case detect_full_width_vertical_scroll prev bgra width height of
      None \<Rightarrow> \<forall>dy \<in> set candidate_offsets. \<forall>up. dy < height \<longrightarrow> \<not> rows_match prev bgra width height dy up
    | Some r \<Rightarrow> copy_rect_is_valid r width height \<and>
        (\<forall>k < width * height * 4.
           in_rect width (unat (cp_dst_x r)) (unat (cp_dst_y r)) (unat (cp_dst_x r) + unat (cp_width r))
             (unat (cp_dst_y r) + unat (cp_height r)) k \<longrightarrow> apply_copy_rect width height r prev ! k = bgra ! k)"
proof (cases "detect_full_width_vertical_scroll prev bgra width height")
  case None
  have "best_ok prev bgra width height [] None" by (simp add: best_ok_def)
  from best_ok_fold[OF this, of candidate_offsets] None assms show ?thesis
    by (simp add: detect_full_width_vertical_scroll_def best_ok_def)
next
  case (Some r)
  show ?thesis unfolding Some option.case using detected_scroll[OF Some assms(1,2,4,6)] by blast
qed

theorem scroll_detection_exact_witness:
  "copy_rect_is_valid \<lparr>cp_src_x = 0, cp_src_y = 8, cp_dst_x = 0, cp_dst_y = 0, cp_width = 1, cp_height = 1\<rparr> 1 9"
proof -
  let ?prev = "replicate 32 0 @ [1, 2, 3, 4]" and ?cur = "[1, 2, 3, 4] @ replicate 32 (0 :: u8)"
  have d: "detect_full_width_vertical_scroll ?prev ?cur 1 9 =
      Some \<lparr>cp_src_x = 0, cp_src_y = 8, cp_dst_x = 0, cp_dst_y = 0, cp_width = 1, cp_height = 1\<rparr>" by code_simp
  show ?thesis using scroll_detection_exact[of ?prev 1 9 ?cur] unfolding d by simp
qed

text \<open>C21: The overlay is exact on any background. Applying the stream of a tile selection replaces exactly the selected tiles
  that lie inside the frame by the captured pixels, leaves every other byte as it was, and reports the tiles in order.\<close>

theorem absolute_overlay_exact:
  assumes "zstd_ok zenc zdec" "dims_ok width height" "length rgba = width * height * 4"
    and "ed_width ed = width" "ed_height ed = height" "length (ed_frame ed) = width * height * 4"
  shows "\<exists>frame'. apply_absolute_overlay zdec ed (encode_tile_subset_absolute zenc rgba width height fid tiles)
      = (ed\<lparr>ed_frame := frame'\<rparr>, Inr (subset_indices (tiles_in_dim width * tiles_in_dim height) tiles)) \<and>
    length frame' = width * height * 4 \<and>
    (\<forall>k < width * height * 4. frame' ! k =
       (if \<exists>t \<in> set tiles. unat t = tile_of width k then swap_frame rgba ! k else ed_frame ed ! k))"
proof -
  let ?tc = "tiles_in_dim width * tiles_in_dim height" and ?ts = "subset_indices (tiles_in_dim width * tiles_in_dim height) tiles"
  let ?mb = "(?tc + 7) div 8"
  have tc: "?tc \<le> 65536" using assms(2) by (simp add: dims_ok_def)
  note ts = subset_indices_props[OF tc, of tiles]
  have less: "\<forall>idx \<in> set ?ts. idx < ?tc" unfolding ts(1) by simp
  obtain es where es: "map (encode_one zenc rgba [] width height True) ?ts = map entry_of es" "map fst es = ?ts"
    "\<forall>e \<in> set es. tile_entry_ok ?tc e"
    "\<forall>(idx, mode, enc) \<in> set es. \<exists>p. decompress_tile zdec enc mode = Inr p \<and>
        paints width height (rect_of_tile width height idx) (tile_base True []) (\<lambda>k. rgba ! swap_ix k) p"
    using tile_entries[OF assms(1,3) less] by blast
  have base: "tile_base True [] = (\<lambda>_. 0)" by (simp add: tile_base_def fun_eq_iff)
  obtain frame' where o: "overlay_entries zdec width height (length es) (fst (write_entries 0 (map entry_of es)) @ []) (ed_frame ed)
        = (frame', Inr (map fst es))" "length frame' = length (ed_frame ed)"
      "\<forall>k < length (ed_frame ed). frame' ! k = (if tile_of width k \<in> fst ` set es then rgba ! swap_ix k else ed_frame ed ! k)"
    using overlay_written_entries[OF tc es(3) es(4)[unfolded base] assms(6), of 0 "[]"] by blast
  have set: "fst ` set es = set ?ts" using es(2) by (metis set_map)
  have dm: "length (dirty_map ?mb ?ts) = ?mb" "sum_list (map count_ones (dirty_map ?mb ?ts)) = length es"
    using dirty_map_count[OF ts(2), of ?mb] less arg_cong[OF es(2), of length] by fastforce+
  have b: "width < 2 ^ 32" "height < 2 ^ 32" "?mb < 2 ^ 16" using assms(2) map_bytes_small[OF assms(2)] by (simp_all add: dims_ok_def)
  let ?rest = "dirty_map ?mb ?ts @ fst (write_entries 0 (map entry_of es))"
  note h = header_fields[OF b, of EVCK_VERSION 0 fid ?rest]
  have "apply_absolute_overlay zdec ed (packet_header EVCK_VERSION 0 fid width height ?mb @ ?rest) = (ed\<lparr>ed_frame := frame'\<rparr>, Inr ?ts)"
    unfolding apply_absolute_overlay_def h(2,4,6-9) Let_def using h(1) assms(4,5) dm o(1) es(2) by simp
  moreover have "encode_tile_subset_absolute zenc rgba width height fid tiles = packet_header EVCK_VERSION 0 fid width height ?mb @ ?rest"
    by (simp add: encode_tile_subset_absolute_def Let_def es(1))
  moreover have "frame' ! k = (if \<exists>t \<in> set tiles. unat t = tile_of width k then swap_frame rgba ! k else ed_frame ed ! k)"
    if k: "k < width * height * 4" for k
    using o(3) k assms(3,6) tile_of_less[OF k] unfolding set ts(1) by (simp add: nth_swap_frame)
  ultimately show ?thesis using o(2) assms(6) by (intro exI[of _ frame'] conjI) simp_all
qed

theorem absolute_overlay_exact_witness:
  "\<exists>frame'. apply_absolute_overlay Some \<lparr>ed_frame = [9, 9, 9, 9], ed_width = 1, ed_height = 1\<rparr>
      (encode_tile_subset_absolute Some [1, 2, 3, 4] 1 1 5 [0, 7, 0])
     = (\<lparr>ed_frame = frame', ed_width = 1, ed_height = 1\<rparr>, Inr (subset_indices (tiles_in_dim 1 * tiles_in_dim 1) [0, 7, 0])) \<and>
     length frame' = 4"
proof -
  have z: "zstd_ok Some Some" by (simp add: zstd_ok_def TILE_SIZE_def)
  have d: "dims_ok 1 1" by (simp add: dims_ok_def tiles_in_dim_def TILE_SIZE_def)
  show ?thesis
    using absolute_overlay_exact[OF z d, of "[1, 2, 3, 4]" "\<lparr>ed_frame = [9, 9, 9, 9], ed_width = 1, ed_height = 1\<rparr>" 5 "[0, 7, 0]"]
    by auto
qed

end
