(* ===== verification/Relay_Framing.thy ===== *)
theory Relay_Framing
  imports Prelude "HOL-Library.Sublist"
begin

text \<open>
  Messages on the TCP connection to the relay and the rendezvous server
  (\<^verbatim>\<open>src/src/transport.rs\<close>: \<open>encode_frame_len\<close>, \<open>send_framed\<close>, \<open>read_framed\<close>). A frame is a
  header of one to four bytes, whose two low bits give the header length and whose other bits give the
  payload length, then the payload.

  The connection is a record: what the peer sends, as bytes with the silences between them, the read
  timeout set on the socket, the bytes written so far and how many more the connection accepts before
  a write fails. Times are in milliseconds. \<open>read_exact\<close> gives up when a silence reaches the read
  timeout; what it has read by then is consumed. The end of the input is the peer's close.
\<close>

section \<open>The TCP stream of the standard library\<close>

datatype rx = Byte u8 | Gap nat

datatype IoError = TimedOut | UnexpectedEof | WriteFailed

record TcpStream =
  ts_in :: "rx list"
  ts_timeout :: "nat option"
  ts_out :: bytes
  ts_room :: "nat option"

fun read_bytes :: "nat option \<Rightarrow> nat \<Rightarrow> rx list \<Rightarrow> rx list \<times> (IoError + bytes)" where
  "read_bytes t 0 inp = (inp, Inr [])"
| "read_bytes t (Suc n) [] = ([], Inl UnexpectedEof)"
| "read_bytes t (Suc n) (Gap d # inp) = (case t of
      Some w \<Rightarrow> if w \<le> d then (Gap (d - w) # inp, Inl TimedOut) else read_bytes t (Suc n) inp
    | None \<Rightarrow> read_bytes t (Suc n) inp)"
| "read_bytes t (Suc n) (Byte b # inp) = (case read_bytes t n inp of
      (inp', Inl e) \<Rightarrow> (inp', Inl e)
    | (inp', Inr bs) \<Rightarrow> (inp', Inr (b # bs)))"

definition read_exact :: "nat \<Rightarrow> TcpStream \<Rightarrow> TcpStream \<times> (IoError + bytes)" where
  "read_exact n s = (case read_bytes (ts_timeout s) n (ts_in s) of (inp, res) \<Rightarrow> (s\<lparr>ts_in := inp\<rparr>, res))"

definition write_all :: "bytes \<Rightarrow> TcpStream \<Rightarrow> TcpStream \<times> (IoError + unit)" where
  "write_all bs s = (case ts_room s of
      None \<Rightarrow> (s\<lparr>ts_out := ts_out s @ bs\<rparr>, Inr ())
    | Some r \<Rightarrow> if length bs \<le> r then (s\<lparr>ts_out := ts_out s @ bs, ts_room := Some (r - length bs)\<rparr>, Inr ())
                else (s\<lparr>ts_out := ts_out s @ take r bs, ts_room := Some 0\<rparr>, Inl WriteFailed))"

section \<open>Framing\<close>

datatype FrameError = TooLarge | HeaderRead IoError | PayloadRead IoError | TcpWrite IoError

definition encode_frame_len :: "nat \<Rightarrow> FrameError + bytes" where
  "encode_frame_len len = (
     if len \<le> 0x3f then Inr [of_nat (push_bit 2 len)]
     else if len \<le> 0x3fff then Inr (le_bytes 2 (of_nat (push_bit 2 len) OR 1 :: u16))
     else if len \<le> 0x3fffff then
       (let header = of_nat (push_bit 2 len) OR 2 :: u32
        in Inr [ucast (header AND 0xff), ucast (drop_bit 8 header AND 0xff), ucast (drop_bit 16 header AND 0xff)])
     else if len \<le> 0x3fffffff then Inr (le_bytes 4 (of_nat (push_bit 2 len) OR 3 :: u32))
     else Inl TooLarge)"

definition send_framed :: "bytes \<Rightarrow> TcpStream \<Rightarrow> TcpStream \<times> (FrameError + unit)" where
  "send_framed payload s = (case encode_frame_len (length payload) of
      Inl e \<Rightarrow> (s, Inl e)
    | Inr header \<Rightarrow>
       (case write_all header s of
          (s, Inl e) \<Rightarrow> (s, Inl (TcpWrite e))
        | (s, Inr _) \<Rightarrow>
           (case write_all payload s of
              (s, Inl e) \<Rightarrow> (s, Inl (TcpWrite e))
            | (s, Inr _) \<Rightarrow> (s, Inr ()))))"

text \<open>The length in a complete header: the bytes from the low end, shifted right by two.\<close>

definition header_len :: "bytes \<Rightarrow> nat" where
  "header_len header =
     (let len = unat (header ! 0);
          len = (if length header > 1 then len OR push_bit 8 (unat (header ! 1)) else len);
          len = (if length header > 2 then len OR push_bit 16 (unat (header ! 2)) else len);
          len = (if length header > 3 then len OR push_bit 24 (unat (header ! 3)) else len)
      in drop_bit 2 len)"

definition FRAME_READ_MS :: nat where "FRAME_READ_MS = 5000"

definition read_framed :: "TcpStream \<Rightarrow> TcpStream \<times> (FrameError + bytes)" where
  "read_framed s = (case read_exact 1 s of
      (s, Inl e) \<Rightarrow> (s, Inl (HeaderRead e))
    | (s, Inr first) \<Rightarrow>
       (let prev_timeout = ts_timeout s;
            s = s\<lparr>ts_timeout := Some FRAME_READ_MS\<rparr>;
            head_len = unat (first ! 0 AND 3) + 1
        in case (if head_len > 1 then read_exact (head_len - 1) s else (s, Inr [])) of
             (s, Inl e) \<Rightarrow> (s, Inl (HeaderRead e))
           | (s, Inr rest) \<Rightarrow>
              (case read_exact (header_len (first @ rest)) s of
                 (s, res) \<Rightarrow>
                   (s\<lparr>ts_timeout := prev_timeout\<rparr>,
                    case res of Inl e \<Rightarrow> Inl (PayloadRead e) | Inr payload \<Rightarrow> Inr payload))))"

section \<open>Reading bytes with pauses\<close>

text \<open>The bytes of an input, and that no silence in it reaches a limit.\<close>

fun rx_bytes :: "rx list \<Rightarrow> bytes" where
  "rx_bytes [] = []"
| "rx_bytes (Byte b # inp) = b # rx_bytes inp"
| "rx_bytes (Gap d # inp) = rx_bytes inp"

fun gaps_below :: "nat \<Rightarrow> rx list \<Rightarrow> bool" where
  "gaps_below w [] \<longleftrightarrow> True"
| "gaps_below w (Byte b # inp) \<longleftrightarrow> gaps_below w inp"
| "gaps_below w (Gap d # inp) \<longleftrightarrow> d < w \<and> gaps_below w inp"

lemma rx_bytes_append [simp]: "rx_bytes (xs @ ys) = rx_bytes xs @ rx_bytes ys"
  by (induction xs rule: rx_bytes.induct) simp_all

lemma gaps_below_append [simp]: "gaps_below w (xs @ ys) \<longleftrightarrow> gaps_below w xs \<and> gaps_below w ys"
  by (induction xs rule: rx_bytes.induct) simp_all

lemma rx_bytes_map_Byte [simp]: "rx_bytes (map Byte bs) = bs"
  by (induction bs) simp_all

lemma gaps_below_map_Byte [simp]: "gaps_below w (map Byte bs)"
  by (induction bs) simp_all

definition quiet_below :: "nat option \<Rightarrow> rx list \<Rightarrow> bool" where
  "quiet_below t inp \<longleftrightarrow> (case t of None \<Rightarrow> True | Some w \<Rightarrow> gaps_below w inp)"

lemma quiet_below_Some [simp]: "quiet_below (Some w) inp \<longleftrightarrow> gaps_below w inp"
  by (simp add: quiet_below_def)

lemma read_bytes_Gap: "quiet_below t [Gap d] \<Longrightarrow> read_bytes t n (Gap d # inp) = (if n = 0 then (Gap d # inp, Inr []) else read_bytes t n inp)"
  by (cases n) (auto simp: quiet_below_def split: option.splits)

lemma quiet_below_Cons: "quiet_below t (x # inp) \<longleftrightarrow> quiet_below t [x] \<and> quiet_below t inp"
  by (cases x) (auto simp: quiet_below_def split: option.splits)

text \<open>A segment of the input that stops right after a byte; the silence that follows belongs to the next.\<close>

definition ends_in_byte :: "rx list \<Rightarrow> bool" where
  "ends_in_byte seg \<longleftrightarrow> (seg = [] \<or> (\<exists>b. last seg = Byte b))"

lemma ends_in_byte_suffix: "ends_in_byte seg \<Longrightarrow> suffix seg' seg \<Longrightarrow> ends_in_byte seg'"
  by (auto simp: ends_in_byte_def suffix_def)

lemma ends_in_byte_silent: "ends_in_byte seg \<Longrightarrow> rx_bytes seg = [] \<Longrightarrow> seg = []"
  by (cases seg rule: rev_cases) (auto simp: ends_in_byte_def)

lemma read_part_ex:
  "quiet_below t seg \<Longrightarrow> rx_bytes seg = bs @ ys \<Longrightarrow>
     \<exists>seg'. read_bytes t (length bs) (seg @ inp) = (seg' @ inp, Inr bs) \<and> suffix seg' seg \<and> rx_bytes seg' = ys"
proof (induction seg arbitrary: bs)
  case (Cons x seg)
  note q = iffD1 [OF quiet_below_Cons Cons.prems(1)]
  show ?case
  proof (cases bs)
    case Nil
    then show ?thesis using Cons.prems(2) by (intro exI [of _ "x # seg"]) simp
  next
    case bs: (Cons z zs)
    show ?thesis
    proof (cases x)
      case (Byte b)
      then have "z = b" "rx_bytes seg = zs @ ys" using Cons.prems(2) bs by simp_all
      with Cons.IH [of zs] q obtain seg' where "read_bytes t (length zs) (seg @ inp) = (seg' @ inp, Inr zs)"
          "suffix seg' seg" "rx_bytes seg' = ys"
        by blast
      then show ?thesis using \<open>z = b\<close> by (intro exI [of _ seg']) (simp add: Byte bs suffix_Cons)
    next
      case (Gap d)
      then have "rx_bytes seg = bs @ ys" using Cons.prems(2) by simp
      with Cons.IH [of bs] q obtain seg' where "read_bytes t (length bs) (seg @ inp) = (seg' @ inp, Inr bs)"
          "suffix seg' seg" "rx_bytes seg' = ys"
        by blast
      then show ?thesis using q unfolding Gap
        by (intro exI [of _ seg']) (simp add: read_bytes_Gap bs suffix_Cons del: read_bytes.simps)
    qed
  qed
qed simp

lemma read_part:
  assumes "quiet_below t seg" "rx_bytes seg = bs @ ys"
  obtains seg' where "read_bytes t (length bs) (seg @ inp) = (seg' @ inp, Inr bs)" "suffix seg' seg" "rx_bytes seg' = ys"
  using read_part_ex [OF assms] by blast

lemma read_whole:
  assumes "quiet_below t seg" "ends_in_byte seg"
  shows "read_bytes t (length (rx_bytes seg)) (seg @ inp) = (inp, Inr (rx_bytes seg))"
proof -
  obtain seg' where "read_bytes t (length (rx_bytes seg)) (seg @ inp) = (seg' @ inp, Inr (rx_bytes seg))"
      "suffix seg' seg" "rx_bytes seg' = []"
    using read_part [OF assms(1), of "rx_bytes seg" "[]"] by auto
  with assms(2) show ?thesis using ends_in_byte_suffix ends_in_byte_silent by fastforce
qed

lemma quiet_below_suffix: "suffix inp' inp \<Longrightarrow> quiet_below t inp \<Longrightarrow> quiet_below t inp'"
  by (auto simp: suffix_def quiet_below_def split: option.splits)

lemma read_bytes_consumes:
  "read_bytes t n inp = (inp', res) \<Longrightarrow> length inp' \<le> length inp \<and> (0 < n \<and> isl res = False \<longrightarrow> length inp' < length inp)"
proof (induction inp arbitrary: n inp' res)
  case Nil
  then show ?case by (cases n) auto
next
  case (Cons x inp)
  show ?case
  proof (cases n)
    case (Suc m)
    show ?thesis
    proof (cases x)
      case (Byte b)
      obtain i r where r: "read_bytes t m inp = (i, r)" by fastforce
      show ?thesis using Cons.IH [OF r] Cons.prems r Suc Byte by (cases r) auto
    next
      case (Gap d)
      then show ?thesis using Cons.prems Cons.IH [of n inp' res] Suc
        by (auto split: option.splits if_splits)
    qed
  qed (use Cons.prems in auto)
qed

lemma read_bytes_length: "read_bytes t n inp = (inp', Inr bs) \<Longrightarrow> length bs = n"
  by (induction t n inp arbitrary: inp' bs rule: read_bytes.induct)
    (auto split: option.splits if_splits prod.splits sum.splits)

section \<open>Header arithmetic\<close>

lemma or_push_bit_add:
  assumes "(x::nat) < 2 ^ n"
  shows "x OR push_bit n y = x + push_bit n y"
proof -
  have "bit x k \<Longrightarrow> k < n" for k
    using assms take_bit_nat_eq_self [of x n] by (metis bit_take_bit_iff)
  then have "x AND push_bit n y = 0"
    by (intro bit_eqI) (auto simp: bit_simps dest: leD)
  then show ?thesis by (simp add: disjunctive_add_eq_or)
qed

lemma tagged_len:
  assumes "t < 4"
  shows "of_nat (push_bit 2 len) OR of_nat t = (of_nat (4 * len + t) :: 'a::len word)"
proof -
  have "push_bit 2 len OR t = 4 * len + t"
    using or_push_bit_add [of t 2 len] assms by (simp add: or.commute push_bit_eq_mult)
  then show ?thesis by (metis of_nat_or_eq)
qed

lemma header_len_arith:
  "header_len [a] = unat a div 4"
  "header_len [a, b] = (unat a + 256 * unat b) div 4"
  "header_len [a, b, c] = (unat a + 256 * unat b + 65536 * unat c) div 4"
  "header_len [a, b, c, d] = (unat a + 256 * unat b + 65536 * unat c + 16777216 * unat d) div 4"
proof -
  have b: "unat x < 256" for x :: u8 by simp
  have 2: "unat a OR push_bit 8 (unat b) = unat a + 256 * unat b"
    using or_push_bit_add [of "unat a" 8 "unat b"] b [of a] by (simp add: push_bit_eq_mult)
  have 3: "(unat a + 256 * unat b) OR push_bit 16 (unat c) = unat a + 256 * unat b + 65536 * unat c"
    using or_push_bit_add [of "unat a + 256 * unat b" 16 "unat c"] b [of a] b [of b] by (simp add: push_bit_eq_mult)
  have 4: "(unat a + 256 * unat b + 65536 * unat c) OR push_bit 24 (unat d)
      = unat a + 256 * unat b + 65536 * unat c + 16777216 * unat d"
    using or_push_bit_add [of "unat a + 256 * unat b + 65536 * unat c" 24 "unat d"] b [of a] b [of b] b [of c]
    by (simp add: push_bit_eq_mult)
  show "header_len [a] = unat a div 4"
    "header_len [a, b] = (unat a + 256 * unat b) div 4"
    "header_len [a, b, c] = (unat a + 256 * unat b + 65536 * unat c) div 4"
    "header_len [a, b, c, d] = (unat a + 256 * unat b + 65536 * unat c + 16777216 * unat d) div 4"
    unfolding header_len_def Let_def
    by (simp_all add: 2 3 4 drop_bit_eq_div flip: One_nat_def)
qed

text \<open>The little-endian bytes of a 32-bit number below \<open>256 ^ n\<close>, and the low two bits.\<close>

lemma unat_byte: "unat (ucast (drop_bit k (w :: 'a::len word)) :: u8) = unat w div 2 ^ k mod 256"
proof -
  have "unat (ucast (drop_bit k w) :: u8) = take_bit 8 (drop_bit k (unat w))"
    by (simp only: unsigned_ucast_eq unsigned_drop_bit_eq) (simp add: unsigned_take_bit_eq take_bit_nat_eq_self)
  then show ?thesis by (simp add: take_bit_eq_mod drop_bit_eq_div)
qed

lemma unat_low_bits: "unat ((b :: u8) AND 3) = unat b mod 4"
proof -
  have "b AND 3 = take_bit 2 b" by (simp add: take_bit_eq_mask mask_numeral)
  then have "unat (b AND 3) = take_bit 2 (unat b)" by (simp only: unsigned_take_bit_eq)
  then show ?thesis by (simp add: take_bit_eq_mod)
qed

lemma byte_digits:
  "(v::nat) mod 256 + 256 * (v div 256 mod 256) = v mod 65536"
  "v mod 65536 + 65536 * (v div 65536 mod 256) = v mod 16777216"
  "v mod 16777216 + 16777216 * (v div 16777216 mod 256) = v mod 4294967296"
  using mod_mult2_eq [of v 256 256] mod_mult2_eq [of v 65536 256] mod_mult2_eq [of v 16777216 256] by simp_all

lemma tag_low: "t < 4 \<Longrightarrow> (4 * n + t) mod 256 mod 4 = (t :: nat)"
  by (simp add: mod_mod_cancel)

lemma frame_header:
  assumes "len \<le> 0x3fffffff"
  obtains b hs where "encode_frame_len len = Inr (b # hs)" "length hs = unat (b AND 3)" "header_len (b # hs) = len"
proof -
  have u: "unat (of_nat n :: u32) = n" if "n < 2 ^ 32" for n using that by (simp add: unat_of_nat_u32)
  have m: "w AND 0xff = take_bit 8 w" for w :: u32 by (simp add: take_bit_eq_mask mask_numeral)
  have mb: "ucast (take_bit 8 w) = (ucast w :: u8)" for w :: u32
    by (rule bit_word_eqI) (auto simp: bit_simps)
  have t16: "of_nat (push_bit 2 len) OR 1 = (of_nat (4 * len + 1) :: u16)" using tagged_len [of 1 len] by simp
  have t32: "of_nat (push_bit 2 len) OR 2 = (of_nat (4 * len + 2) :: u32)" using tagged_len [of 2 len] by simp
  have t33: "of_nat (push_bit 2 len) OR 3 = (of_nat (4 * len + 3) :: u32)" using tagged_len [of 3 len] by simp
  consider "len \<le> 0x3f" | "0x3f < len" "len \<le> 0x3fff" | "0x3fff < len" "len \<le> 0x3fffff" | "0x3fffff < len"
    by linarith
  then show thesis
  proof cases
    case 1
    have p: "push_bit 2 len = 4 * len" by (simp add: push_bit_eq_mult)
    have v: "unat (of_nat (push_bit 2 len) :: u8) = 4 * len" unfolding p using 1 by (intro unat_of_nat_u8) simp
    have e: "encode_frame_len len = Inr [of_nat (push_bit 2 len)]" using 1 by (simp add: encode_frame_len_def)
    show thesis by (rule that [OF e]) (simp_all add: unat_low_bits v header_len_arith)
  next
    case 2
    let ?w = "of_nat (4 * len + 1) :: u16"
    have v: "unat ?w = 4 * len + 1" using 2 by (intro unat_of_nat_u16) simp
    have e: "encode_frame_len len = Inr [ucast (drop_bit 0 ?w), ucast (drop_bit 8 ?w)]"
      using 2 by (simp only: encode_frame_len_def t16) (simp add: le_bytes_def be_bytes_def upt_rec)
    have d: "unat (ucast (drop_bit 0 ?w) :: u8) = (4 * len + 1) mod 256"
      "unat (ucast (drop_bit 8 ?w) :: u8) = (4 * len + 1) div 256 mod 256" unfolding unat_byte v by simp_all
    show thesis
    proof (rule that [OF e])
      show "length [ucast (drop_bit 8 ?w) :: u8] = unat (ucast (drop_bit 0 ?w) AND (3 :: u8))"
        unfolding unat_low_bits d using tag_low [of 1 len] by simp
      show "header_len [ucast (drop_bit 0 ?w), ucast (drop_bit 8 ?w)] = len"
        unfolding header_len_arith d byte_digits using 2 by simp
    qed
  next
    case 3
    let ?w = "of_nat (4 * len + 2) :: u32"
    have v: "unat ?w = 4 * len + 2" using 3 by (intro u) simp
    have e: "encode_frame_len len = Inr [ucast (drop_bit 0 ?w), ucast (drop_bit 8 ?w), ucast (drop_bit 16 ?w)]"
      using 3 by (simp only: encode_frame_len_def t32 m mb Let_def) simp
    have d: "unat (ucast (drop_bit 0 ?w) :: u8) = (4 * len + 2) mod 256"
      "unat (ucast (drop_bit 8 ?w) :: u8) = (4 * len + 2) div 256 mod 256"
      "unat (ucast (drop_bit 16 ?w) :: u8) = (4 * len + 2) div 65536 mod 256" unfolding unat_byte v by simp_all
    show thesis
    proof (rule that [OF e])
      show "length [ucast (drop_bit 8 ?w) :: u8, ucast (drop_bit 16 ?w)]
          = unat (ucast (drop_bit 0 ?w) AND (3 :: u8))"
        unfolding unat_low_bits d using tag_low [of 2 len] by (simp del: add_2_eq_Suc')
      show "header_len [ucast (drop_bit 0 ?w), ucast (drop_bit 8 ?w), ucast (drop_bit 16 ?w)] = len"
        unfolding header_len_arith d byte_digits using 3 by simp
    qed
  next
    case 4
    let ?w = "of_nat (4 * len + 3) :: u32"
    have v: "unat ?w = 4 * len + 3" using assms by (intro u) simp
    have e: "encode_frame_len len = Inr [ucast (drop_bit 0 ?w), ucast (drop_bit 8 ?w), ucast (drop_bit 16 ?w), ucast (drop_bit 24 ?w)]"
      using 4 assms by (simp only: encode_frame_len_def t33) (simp add: le_bytes_def be_bytes_def upt_rec)
    have d: "unat (ucast (drop_bit 0 ?w) :: u8) = (4 * len + 3) mod 256"
      "unat (ucast (drop_bit 8 ?w) :: u8) = (4 * len + 3) div 256 mod 256"
      "unat (ucast (drop_bit 16 ?w) :: u8) = (4 * len + 3) div 65536 mod 256"
      "unat (ucast (drop_bit 24 ?w) :: u8) = (4 * len + 3) div 16777216 mod 256" unfolding unat_byte v by simp_all
    show thesis
    proof (rule that [OF e])
      show "length [ucast (drop_bit 8 ?w) :: u8, ucast (drop_bit 16 ?w), ucast (drop_bit 24 ?w)]
          = unat (ucast (drop_bit 0 ?w) AND (3 :: u8))"
        unfolding unat_low_bits d using tag_low [of 3 len] by simp
      show "header_len [ucast (drop_bit 0 ?w), ucast (drop_bit 8 ?w), ucast (drop_bit 16 ?w), ucast (drop_bit 24 ?w)] = len"
        unfolding header_len_arith d byte_digits using assms by simp
    qed
  qed
qed

section \<open>One frame\<close>

text \<open>The bytes of a frame on the wire, and that they arrive in time: the first byte before the caller's
  timeout, each further byte within five seconds of the one before.\<close>

definition frame_of :: "bytes \<Rightarrow> bytes" where
  "frame_of payload = (case encode_frame_len (length payload) of Inl _ \<Rightarrow> [] | Inr header \<Rightarrow> header @ payload)"

definition MAX_FRAME :: nat where "MAX_FRAME = 0x3fffffff"

definition arrives :: "nat option \<Rightarrow> bytes \<Rightarrow> rx list \<Rightarrow> bool" where
  "arrives t frame seg \<longleftrightarrow> (\<exists>pre b tl. seg = pre @ Byte b # tl \<and> rx_bytes pre = [] \<and> quiet_below t pre
      \<and> gaps_below FRAME_READ_MS tl \<and> ends_in_byte tl \<and> frame = b # rx_bytes tl)"

lemma frame_of_split:
  assumes "length payload \<le> MAX_FRAME"
  obtains b hs where "encode_frame_len (length payload) = Inr (b # hs)" "frame_of payload = b # hs @ payload"
    "length hs = unat (b AND 3)" "header_len (b # hs) = length payload"
proof -
  obtain b hs where h: "encode_frame_len (length payload) = Inr (b # hs)" "length hs = unat (b AND 3)" "header_len (b # hs) = length payload"
    by (rule frame_header [OF assms [unfolded MAX_FRAME_def]])
  show thesis by (rule that [OF h(1) _ h(2,3)]) (simp add: frame_of_def h(1))
qed

lemma read_silence:
  assumes "rx_bytes pre = []" "quiet_below t pre"
  shows "read_bytes t (Suc 0) (pre @ Byte b # inp) = (inp, Inr [b])"
proof -
  have q: "quiet_below t (pre @ [Byte b])" using assms by (auto simp: quiet_below_def split: option.splits)
  have "ends_in_byte (pre @ [Byte b])" by (simp add: ends_in_byte_def)
  from read_whole [OF q this, of inp] show ?thesis using assms(1) by simp
qed

lemma read_framed_unfold:
  "read_framed s = (case read_exact 1 s of
      (s1, Inl e) \<Rightarrow> (s1, Inl (HeaderRead e))
    | (s1, Inr first) \<Rightarrow>
       (case (if 0 < unat (first ! 0 AND 3) then read_exact (unat (first ! 0 AND 3)) (s1\<lparr>ts_timeout := Some FRAME_READ_MS\<rparr>)
              else (s1\<lparr>ts_timeout := Some FRAME_READ_MS\<rparr>, Inr [])) of
          (s2, Inl e) \<Rightarrow> (s2, Inl (HeaderRead e))
        | (s2, Inr hs) \<Rightarrow>
           (case read_exact (header_len (first @ hs)) s2 of
              (s3, res) \<Rightarrow> (s3\<lparr>ts_timeout := ts_timeout s1\<rparr>,
                           case res of Inl e \<Rightarrow> Inl (PayloadRead e) | Inr payload \<Rightarrow> Inr payload))))"
  unfolding read_framed_def Let_def less_add_same_cancel2 add_diff_cancel_right' ..

lemma read_framed_first:
  assumes "rx_bytes pre = []" "quiet_below (ts_timeout s) pre" "ts_in s = pre @ Byte b # inp"
  shows "read_framed s =
    (let s1 = s\<lparr>ts_in := inp, ts_timeout := Some FRAME_READ_MS\<rparr>; n = unat (b AND 3)
     in case (if 0 < n then read_exact n s1 else (s1, Inr [])) of
          (s2, Inl e) \<Rightarrow> (s2, Inl (HeaderRead e))
        | (s2, Inr hs) \<Rightarrow>
           (case read_exact (header_len (b # hs)) s2 of
              (s3, res) \<Rightarrow> (s3\<lparr>ts_timeout := ts_timeout s\<rparr>,
                           case res of Inl e \<Rightarrow> Inl (PayloadRead e) | Inr payload \<Rightarrow> Inr payload)))"
proof -
  have r: "read_exact 1 s = (s\<lparr>ts_in := inp\<rparr>, Inr [b])"
    unfolding read_exact_def assms(3) by (simp add: read_silence [OF assms(1,2)])
  show ?thesis unfolding read_framed_unfold r by (simp add: Let_def)
qed

lemma read_framed_ok:
  assumes "length payload \<le> MAX_FRAME" "arrives (ts_timeout s) (frame_of payload) seg" "ts_in s = seg @ inp"
  shows "read_framed s = (s\<lparr>ts_in := inp\<rparr>, Inr payload)"
proof -
  obtain b hs where f: "frame_of payload = b # hs @ payload" "length hs = unat (b AND 3)" "header_len (b # hs) = length payload"
    by (rule frame_of_split [OF assms(1)])
  obtain pre tl where seg: "seg = pre @ Byte b # tl" "rx_bytes pre = []" "quiet_below (ts_timeout s) pre"
      "gaps_below FRAME_READ_MS tl" "ends_in_byte tl" "rx_bytes tl = hs @ payload"
    using assms(2) f(1) unfolding arrives_def by auto
  obtain tl' where h: "read_bytes (Some FRAME_READ_MS) (length hs) (tl @ inp) = (tl' @ inp, Inr hs)" "suffix tl' tl" "rx_bytes tl' = payload"
    using read_part [of "Some FRAME_READ_MS" tl hs payload inp] seg by auto
  have "quiet_below (Some FRAME_READ_MS) tl'" using quiet_below_suffix [OF h(2), of "Some FRAME_READ_MS"] seg by simp
  from read_whole [OF this ends_in_byte_suffix [OF seg(5) h(2)], of inp]
  have p: "read_bytes (Some FRAME_READ_MS) (length payload) (tl' @ inp) = (inp, Inr payload)" using h(3) by simp
  have s: "ts_in s = pre @ Byte b # (tl @ inp)" using assms(3) seg by simp
  show ?thesis
  proof (cases "hs = []")
    case True
    have "read_bytes (Some FRAME_READ_MS) (length payload) (tl @ inp) = (inp, Inr payload)"
      using read_whole [of "Some FRAME_READ_MS" tl inp] seg True by simp
    with True f(2,3) show ?thesis
      unfolding read_framed_first [OF seg(2,3) s] by (simp add: Let_def read_exact_def)
  next
    case False
    then have "0 < unat (b AND 3)" unfolding f(2) [symmetric] by simp
    then show ?thesis using h(1) p f(3)
      unfolding read_framed_first [OF seg(2,3) s] f(2) [symmetric] by (simp add: Let_def read_exact_def)
  qed
qed

lemma read_framed_consumes:
  "read_framed s = (s', Inr payload) \<Longrightarrow> length (ts_in s') < length (ts_in s)"
proof -
  assume a: "read_framed s = (s', Inr payload)"
  have c: "length (ts_in s2) \<le> length (ts_in s1)" if "read_exact n s1 = (s2, r)" for n s1 s2 r
    using that read_bytes_consumes [of "ts_timeout s1" n "ts_in s1"] by (auto simp: read_exact_def split: prod.splits)
  obtain s1 r where r: "read_exact 1 s = (s1, r)" by fastforce
  then obtain first where first: "r = Inr first" using a by (cases r) (auto simp: read_framed_def)
  have l: "length (ts_in s1) < length (ts_in s)"
    using r first read_bytes_consumes [of "ts_timeout s" 1 "ts_in s"] by (auto simp: read_exact_def split: prod.splits)
  let ?s1 = "s1\<lparr>ts_timeout := Some FRAME_READ_MS\<rparr>"
  obtain s2 r2 where 2: "(if 0 < unat (first ! 0 AND 3) then read_exact (unat (first ! 0 AND 3)) ?s1 else (?s1, Inr [])) = (s2, r2)"
    by fastforce
  then have l2: "length (ts_in s2) \<le> length (ts_in s1)" by (auto split: if_splits dest: c)
  note a' = a [unfolded read_framed_unfold r first, simplified 2 prod.case sum.case]
  obtain hs where hs: "r2 = Inr hs" using a' by (cases r2) auto
  obtain s3 r3 where 3: "read_exact (header_len (first @ hs)) s2 = (s3, r3)" by fastforce
  have "ts_in s' = ts_in s3" using a' hs 3 by auto
  then show ?thesis using l l2 c [OF 3] by simp
qed

lemma send_framed_cases:
  "send_framed payload s =
     (if MAX_FRAME < length payload then (s, Inl TooLarge)
      else case write_all (frame_of payload) s of (s', Inl e) \<Rightarrow> (s', Inl (TcpWrite e)) | (s', Inr _) \<Rightarrow> (s', Inr ()))"
proof (cases "length payload \<le> MAX_FRAME")
  case True
  obtain b hs where e: "encode_frame_len (length payload) = Inr (b # hs)" and f: "frame_of payload = b # hs @ payload"
    by (rule frame_of_split [OF True])
  show ?thesis
  proof (cases "ts_room s")
    case None
    then show ?thesis using True by (simp add: send_framed_def e f write_all_def)
  next
    case (Some r)
    then show ?thesis using True by (auto simp: send_framed_def e f write_all_def take_Cons' not_le)
  qed
next
  case False
  then show ?thesis by (simp add: send_framed_def encode_frame_len_def MAX_FRAME_def)
qed

section \<open>Sequences of frames\<close>

fun send_frames :: "bytes list \<Rightarrow> TcpStream \<Rightarrow> TcpStream \<times> (FrameError + unit)" where
  "send_frames [] s = (s, Inr ())"
| "send_frames (p # ps) s = (case send_framed p s of (s', Inl e) \<Rightarrow> (s', Inl e) | (s', Inr _) \<Rightarrow> send_frames ps s')"

fun read_frames :: "nat \<Rightarrow> TcpStream \<Rightarrow> TcpStream \<times> (FrameError + bytes list)" where
  "read_frames 0 s = (s, Inr [])"
| "read_frames (Suc n) s = (case read_framed s of
      (s', Inl e) \<Rightarrow> (s', Inl e)
    | (s', Inr p) \<Rightarrow> (case read_frames n s' of (s'', Inl e) \<Rightarrow> (s'', Inl e) | (s'', Inr ps) \<Rightarrow> (s'', Inr (p # ps))))"

lemma send_framed_open:
  "length p \<le> MAX_FRAME \<Longrightarrow> ts_room s = None \<Longrightarrow> send_framed p s = (s\<lparr>ts_out := ts_out s @ frame_of p\<rparr>, Inr ())"
  by (simp add: send_framed_cases write_all_def)

lemma send_frames_ok:
  "\<forall>p \<in> set ps. length p \<le> MAX_FRAME \<Longrightarrow> ts_room s = None \<Longrightarrow>
     send_frames ps s = (s\<lparr>ts_out := ts_out s @ concat (map frame_of ps)\<rparr>, Inr ())"
  by (induction ps arbitrary: s) (simp_all add: send_framed_open)

lemma read_frames_ok:
  "list_all2 (\<lambda>p seg. arrives t (frame_of p) seg) ps segs \<Longrightarrow> \<forall>p \<in> set ps. length p \<le> MAX_FRAME \<Longrightarrow>
     ts_timeout r = t \<Longrightarrow> ts_in r = concat segs @ inp \<Longrightarrow> read_frames (length ps) r = (r\<lparr>ts_in := inp\<rparr>, Inr ps)"
proof (induction ps segs arbitrary: r rule: list_all2_induct)
  case Nil
  then show ?case by simp
next
  case (Cons p ps seg segs)
  have "read_framed r = (r\<lparr>ts_in := concat segs @ inp\<rparr>, Inr p)"
    using Cons.prems Cons.hyps(1) by (intro read_framed_ok [of p r seg]) simp_all
  moreover have "read_frames (length ps) (r\<lparr>ts_in := concat segs @ inp\<rparr>) = (r\<lparr>ts_in := inp\<rparr>, Inr ps)"
    using Cons.IH [of "r\<lparr>ts_in := concat segs @ inp\<rparr>"] Cons.prems by simp
  ultimately show ?case by simp
qed

lemma arrives_bytes: "arrives t f seg \<Longrightarrow> rx_bytes seg = f"
  by (auto simp: arrives_def)

lemma arrives_after:
  assumes "f \<noteq> []" "rx_bytes pre = []" "quiet_below t pre"
  shows "arrives t f (pre @ map Byte f)"
proof -
  obtain b f' where f: "f = b # f'" using assms(1) by (cases f) auto
  have "ends_in_byte (map Byte f')" by (cases f' rule: rev_cases) (simp_all add: ends_in_byte_def)
  then show ?thesis unfolding arrives_def using assms
    by (intro exI [of _ pre] exI [of _ b] exI [of _ "map Byte f'"]) (simp add: f)
qed

lemma read_bytes_stalled:
  "length bs < n \<Longrightarrow> w \<le> d \<Longrightarrow> read_bytes (Some w) n (map Byte bs @ Gap d # inp) = (Gap (d - w) # inp, Inl TimedOut)"
proof (induction bs arbitrary: n)
  case Nil
  then show ?case by (cases n) simp_all
next
  case (Cons b bs)
  then show ?case by (cases n) simp_all
qed

section \<open>Properties\<close>

text \<open>C28: frames written with \<open>send_framed\<close> are read back by \<open>read_framed\<close>, as many and in the same order,
  whatever pauses the network puts in, as long as each frame starts before the caller's read timeout and its
  bytes then follow within five seconds of each other. The caller's timeout is in force again after each frame.\<close>

theorem framing_roundtrip:
  assumes "\<forall>p \<in> set ps. length p \<le> MAX_FRAME" "ts_room s = None"
    and "list_all2 (\<lambda>p seg. arrives (ts_timeout r) (frame_of p) seg) ps segs" "ts_in r = concat segs @ inp"
  shows "send_frames ps s = (s\<lparr>ts_out := ts_out s @ rx_bytes (concat segs)\<rparr>, Inr ())
    \<and> read_frames (length ps) r = (r\<lparr>ts_in := inp\<rparr>, Inr ps)"
proof -
  have "rx_bytes (concat segs) = concat (map frame_of ps)"
    using assms(3) by (induction rule: list_all2_induct) (simp_all add: arrives_bytes)
  then show ?thesis using send_frames_ok [OF assms(1,2)] read_frames_ok [OF assms(3,1) refl assms(4)] by simp
qed

theorem framing_roundtrip_witness:
  "let seg1 = [Gap 40, Byte 8, Gap 4000, Byte 1, Byte 2]; seg2 = [Gap 90, Byte 0];
       r = \<lparr>ts_in = concat [seg1, seg2] @ [Gap 7], ts_timeout = Some 100, ts_out = [], ts_room = None\<rparr>
   in read_frames (length [[1, 2 :: u8], []]) r = (r\<lparr>ts_in := [Gap 7]\<rparr>, Inr [[1, 2], []])"
proof -
  have f: "frame_of [1, 2] = [8, 1, 2]" "frame_of [] = [0]" by (simp_all add: frame_of_def encode_frame_len_def push_bit_eq_mult)
  have a1: "arrives (Some 100) [8, 1, 2] [Gap 40, Byte 8, Gap 4000, Byte 1, Byte 2]"
    unfolding arrives_def by (intro exI [of _ "[Gap 40]"] exI [of _ 8] exI [of _ "[Gap 4000, Byte 1, Byte 2]"])
      (simp add: FRAME_READ_MS_def ends_in_byte_def)
  have a2: "arrives (Some 100) [0] [Gap 90, Byte 0]"
    unfolding arrives_def by (intro exI [of _ "[Gap 90]"] exI [of _ 0] exI [of _ "[]"]) (simp add: ends_in_byte_def)
  show ?thesis unfolding Let_def
    by (rule conjunct2 [OF framing_roundtrip [where s = "\<lparr>ts_in = [], ts_timeout = None, ts_out = [], ts_room = None\<rparr>"
        and segs = "[[Gap 40, Byte 8, Gap 4000, Byte 1, Byte 2], [Gap 90, Byte 0]]"]])
      (simp_all add: a1 a2 f MAX_FRAME_def)
qed

text \<open>what \<open>send_framed\<close> does to the connection. A payload of more than \<open>0x3fffffff\<close> bytes is refused and
  nothing is written; otherwise the bytes written are the frame, or, when the connection fails on the way, the
  part of the frame that fitted.\<close>

theorem send_framed_outcome:
  "send_framed payload s =
     (if 0x3fffffff < length payload then (s, Inl TooLarge)
      else case ts_room s of
         None \<Rightarrow> (s\<lparr>ts_out := ts_out s @ frame_of payload\<rparr>, Inr ())
       | Some r \<Rightarrow> if length (frame_of payload) \<le> r
                   then (s\<lparr>ts_out := ts_out s @ frame_of payload, ts_room := Some (r - length (frame_of payload))\<rparr>, Inr ())
                   else (s\<lparr>ts_out := ts_out s @ take r (frame_of payload), ts_room := Some 0\<rparr>, Inl (TcpWrite WriteFailed)))"
  by (simp add: send_framed_cases write_all_def MAX_FRAME_def split: option.split)

text \<open>C30: a pause of five seconds inside a frame breaks the framing. In the payload, \<open>read_framed\<close> reports a
  timeout, has dropped the part already read and has restored the caller's timeout; the next call then takes
  the rest of the payload for a frame, so when that rest has the form of a frame \<open>q\<close>, the reader returns \<open>q\<close>,
  which the peer never sent as a message. In the header, the timeout is reported too, but the socket keeps
  the five seconds: the caller's timeout is not restored.\<close>

theorem interrupted_frame:
  assumes "length (p @ frame_of q) \<le> MAX_FRAME" "length q \<le> MAX_FRAME" "FRAME_READ_MS \<le> d" "quiet_below (ts_timeout s) [Gap (d - FRAME_READ_MS)]"
    and "encode_frame_len (length (p @ frame_of q)) = Inr header" "header = b # hs"
  shows "(ts_in s = map Byte (header @ p) @ Gap d # map Byte (frame_of q) @ inp \<longrightarrow>
            (\<exists>s'. read_framed s = (s', Inl (PayloadRead TimedOut)) \<and> ts_timeout s' = ts_timeout s
               \<and> read_framed s' = (s\<lparr>ts_in := inp\<rparr>, Inr q)))
     \<and> (ts_in s = Byte b # Gap d # map Byte (hs @ p @ frame_of q) @ inp \<and> hs \<noteq> [] \<longrightarrow>
            read_framed s = (s\<lparr>ts_in := Gap (d - FRAME_READ_MS) # map Byte (hs @ p @ frame_of q) @ inp,
                              ts_timeout := Some FRAME_READ_MS\<rparr>, Inl (HeaderRead TimedOut)))"
proof -
  let ?t = "Some FRAME_READ_MS" and ?f = "frame_of q"
  have h: "length hs = unat (b AND 3)" "header_len (b # hs) = length p + length ?f"
    using frame_of_split [OF assms(1)] assms(5,6) by (metis Inr_inject list.inject, metis Inr_inject length_append list.inject)
  obtain c gs where f: "?f = c # gs @ q" by (rule frame_of_split [OF assms(2)])
  have q0: "quiet_below (ts_timeout s) []" by (simp add: quiet_below_def split: option.split)
  have first: "ts_in s = [] @ Byte b # rest \<Longrightarrow> read_framed s =
      (let s1 = s\<lparr>ts_in := rest, ts_timeout := ?t\<rparr>; n = unat (b AND 3)
       in case (if 0 < n then read_exact n s1 else (s1, Inr [])) of
          (s2, Inl e) \<Rightarrow> (s2, Inl (HeaderRead e))
        | (s2, Inr hs) \<Rightarrow>
           (case read_exact (header_len (b # hs)) s2 of
              (s3, res) \<Rightarrow> (s3\<lparr>ts_timeout := ts_timeout s\<rparr>,
                           case res of Inl e \<Rightarrow> Inl (PayloadRead e) | Inr payload \<Rightarrow> Inr payload)))" for rest
    by (rule read_framed_first) (simp_all add: q0)
  have hs_read: "(if 0 < unat (b AND 3) then read_exact (unat (b AND 3)) (s\<lparr>ts_in := map Byte hs @ rest, ts_timeout := ?t\<rparr>)
        else (s\<lparr>ts_in := map Byte hs @ rest, ts_timeout := ?t\<rparr>, Inr [])) = (s\<lparr>ts_in := rest, ts_timeout := ?t\<rparr>, Inr hs)" for rest
  proof -
    have "ends_in_byte (map Byte hs)" by (cases hs rule: rev_cases) (simp_all add: ends_in_byte_def)
    then have "read_bytes ?t (length hs) (map Byte hs @ rest) = (rest, Inr hs)"
      using read_whole [of ?t "map Byte hs" rest] by simp
    then show ?thesis unfolding h(1) [symmetric] by (auto simp: read_exact_def)
  qed
  let ?s' = "s\<lparr>ts_in := Gap (d - FRAME_READ_MS) # map Byte ?f @ inp\<rparr>"
  have "\<exists>s'. read_framed s = (s', Inl (PayloadRead TimedOut)) \<and> ts_timeout s' = ts_timeout s
      \<and> read_framed s' = (s\<lparr>ts_in := inp\<rparr>, Inr q)" if i: "ts_in s = map Byte (header @ p) @ Gap d # map Byte ?f @ inp"
  proof (intro exI [of _ ?s'] conjI)
    have "length p < length p + length ?f" using f by simp
    then have "read_bytes ?t (length p + length ?f) (map Byte p @ Gap d # map Byte ?f @ inp)
        = (Gap (d - FRAME_READ_MS) # map Byte ?f @ inp, Inl TimedOut)"
      by (rule read_bytes_stalled) (rule assms(3))
    then show "read_framed s = (?s', Inl (PayloadRead TimedOut))"
      using i assms(6) by (subst first [of "map Byte hs @ map Byte p @ Gap d # map Byte ?f @ inp"])
        (simp_all add: Let_def hs_read h(2) read_exact_def)
    have "arrives (ts_timeout ?s') ?f (Gap (d - FRAME_READ_MS) # map Byte ?f)"
      using arrives_after [of ?f "[Gap (d - FRAME_READ_MS)]" "ts_timeout s"] assms(4) f by simp
    from read_framed_ok [OF assms(2) this, of inp] show "read_framed ?s' = (s\<lparr>ts_in := inp\<rparr>, Inr q)" by simp
  qed simp
  moreover have "read_framed s = (s\<lparr>ts_in := Gap (d - FRAME_READ_MS) # map Byte (hs @ p @ ?f) @ inp, ts_timeout := ?t\<rparr>, Inl (HeaderRead TimedOut))"
    if i: "ts_in s = Byte b # Gap d # map Byte (hs @ p @ ?f) @ inp \<and> hs \<noteq> []"
  proof -
    have n: "0 < unat (b AND 3)" using i unfolding h(1) [symmetric] by simp
    then obtain m where m: "unat (b AND 3) = Suc m" by (cases "unat (b AND 3)") simp_all
    show ?thesis using i assms(3) by (subst first [of "Gap d # map Byte (hs @ p @ ?f) @ inp"])
        (simp_all add: Let_def m read_exact_def)
  qed
  ultimately show ?thesis by blast
qed

theorem interrupted_frame_witness:
  "let s = \<lparr>ts_in = map Byte ([12] @ [7]) @ Gap 5000 # map Byte (frame_of [9]) @ [], ts_timeout = Some 1000, ts_out = [], ts_room = None\<rparr>
   in \<exists>s'. read_framed s = (s', Inl (PayloadRead TimedOut)) \<and> ts_timeout s' = ts_timeout s
        \<and> read_framed s' = (s\<lparr>ts_in := []\<rparr>, Inr [9])"
proof -
  have f: "frame_of [9] = [4, 9]" by (simp add: frame_of_def encode_frame_len_def push_bit_eq_mult)
  have e: "encode_frame_len (length ([7] @ frame_of [9])) = Inr ([12] @ [])"
    unfolding f by (simp add: encode_frame_len_def push_bit_eq_mult)
  show ?thesis unfolding Let_def
    by (rule mp [OF conjunct1 [OF interrupted_frame [where p = "[7]" and q = "[9]" and d = 5000 and header = "[12]" and b = 12 and hs = "[]" and inp = "[]"]]])
      (use e in \<open>simp_all add: f MAX_FRAME_def FRAME_READ_MS_def\<close>)
qed

end
