(* ===== verification/Relay_Cipher.thy ===== *)
theory Relay_Cipher
  imports Evrt2_Crypto
begin

text \<open>
  The cryptography of the relay connection (\<^verbatim>\<open>src/src/crypto.rs\<close>): signing, the sealed
  symmetric key, and the stream cipher with its two halves. The \<open>dryoc\<close> functions are parameters: the
  secretbox of \<open>Crypto\<close>, and the signature and box functions of \<open>Nacl\<close>, whose documented laws are
  \<open>sign_law\<close> and \<open>box_law\<close>; key pairs and random keys are arguments. Sequence counters are 64-bit words;
  they wrap as in a release build.
\<close>

section \<open>Parameters\<close>

record Nacl =
  nc_sign :: "bytes \<Rightarrow> bytes \<Rightarrow> bytes option"
  nc_sign_open :: "bytes \<Rightarrow> bytes \<Rightarrow> bytes option"
  nc_box_easy :: "bytes \<Rightarrow> bytes \<Rightarrow> bytes \<Rightarrow> bytes \<Rightarrow> bytes option"
  nc_box_open_easy :: "bytes \<Rightarrow> bytes \<Rightarrow> bytes \<Rightarrow> bytes \<Rightarrow> bytes option"

definition SIGN_SK_LEN :: nat where "SIGN_SK_LEN = 64"
definition BOX_PK_LEN :: nat where "BOX_PK_LEN = 32"
definition BOX_SK_LEN :: nat where "BOX_SK_LEN = 32"
definition SECRETBOX_KEY_LEN :: nat where "SECRETBOX_KEY_LEN = 32"
definition SIGN_BYTES :: nat where "SIGN_BYTES = 64"
definition MAC_BYTES :: nat where "MAC_BYTES = 16"

lemmas nacl_consts = SIGN_SK_LEN_def BOX_PK_LEN_def BOX_SK_LEN_def SECRETBOX_KEY_LEN_def SIGN_BYTES_def MAC_BYTES_def
  NONCE_LEN_def

text \<open>A signed message opens with the public key of the pair and starts with the 64 bytes of the signature.
  A message boxed with one pair for the public key of another opens with that pair's secret key.\<close>

definition sign_law :: "Nacl \<Rightarrow> bytes \<Rightarrow> bytes \<Rightarrow> bool" where
  "sign_law na pk sk \<longleftrightarrow> (\<forall>m. \<exists>sm. nc_sign na m sk = Some sm \<and> length sm = length m + SIGN_BYTES
      \<and> nc_sign_open na sm pk = Some m)"

definition box_law :: "Nacl \<Rightarrow> bytes \<times> bytes \<Rightarrow> bytes \<times> bytes \<Rightarrow> bool" where
  "box_law na a b \<longleftrightarrow> (\<forall>m n. \<exists>ct. nc_box_easy na m n (fst b) (snd a) = Some ct \<and> length ct = length m + MAC_BYTES
      \<and> nc_box_open_easy na ct n (fst a) (snd b) = Some m)"

section \<open>Signatures and the sealed key\<close>

definition sign :: "Nacl \<Rightarrow> bytes \<Rightarrow> bytes \<Rightarrow> bytes option" where
  "sign na message sign_sk = (if length sign_sk = SIGN_SK_LEN then nc_sign na message sign_sk else None)"

definition verify_signed_message :: "Nacl \<Rightarrow> bytes \<Rightarrow> bytes \<Rightarrow> bytes option" where
  "verify_signed_message na sm sign_pk =
     (if length sign_pk \<noteq> 32 then None
      else if length sm < SIGN_BYTES then None
      else nc_sign_open na sm sign_pk)"

definition open_symmetric_key :: "Nacl \<Rightarrow> bytes \<Rightarrow> bytes \<Rightarrow> bytes \<Rightarrow> bytes option" where
  "open_symmetric_key na sealed their_pk our_box_sk =
     (if length their_pk \<noteq> BOX_PK_LEN \<or> length our_box_sk \<noteq> BOX_SK_LEN then None
      else if length sealed < MAC_BYTES then None
      else case nc_box_open_easy na sealed (replicate NONCE_LEN 0) their_pk our_box_sk of
             None \<Rightarrow> None
           | Some key \<Rightarrow> if length key = SECRETBOX_KEY_LEN then Some key else None)"

text \<open>The key pair and the key are what \<open>crypto_box_keypair\<close> and \<open>copy_randombytes\<close> return.\<close>

definition create_symmetric_key_msg ::
  "Nacl \<Rightarrow> bytes \<times> bytes \<Rightarrow> bytes \<Rightarrow> bytes \<Rightarrow> (bytes \<times> bytes \<times> bytes) option" where
  "create_symmetric_key_msg na pair key their_pk =
     (if length their_pk \<noteq> BOX_PK_LEN then None
      else case nc_box_easy na key (replicate NONCE_LEN 0) their_pk (snd pair) of
             None \<Rightarrow> None
           | Some sealed \<Rightarrow> Some (fst pair, sealed, key))"

section \<open>The stream cipher\<close>

record StreamCipher =
  sc_key :: bytes
  sc_send_seq :: u64
  sc_recv_seq :: u64

record SendCipher =
  snd_key :: bytes
  snd_seq :: u64

record RecvCipher =
  rcv_key :: bytes
  rcv_seq :: u64

datatype CipherError = CiphertextTooShort | OpenFailed

definition stream_cipher_new :: "bytes \<Rightarrow> StreamCipher option" where
  "stream_cipher_new key =
     (if length key = SECRETBOX_KEY_LEN then Some \<lparr>sc_key = key, sc_send_seq = 0, sc_recv_seq = 0\<rparr> else None)"

definition into_halves :: "StreamCipher \<Rightarrow> SendCipher \<times> RecvCipher" where
  "into_halves s = (\<lparr>snd_key = sc_key s, snd_seq = sc_send_seq s\<rparr>, \<lparr>rcv_key = sc_key s, rcv_seq = sc_recv_seq s\<rparr>)"

definition stream_nonce :: "u64 \<Rightarrow> bytes" where
  "stream_nonce seq = splice 0 (le_bytes 8 seq) (replicate NONCE_LEN 0)"

text \<open>The output buffer is zero-initialised and \<open>crypto_secretbox_easy\<close> does not fail on it.\<close>

definition stream_encrypt :: "Crypto \<Rightarrow> StreamCipher \<Rightarrow> bytes \<Rightarrow> StreamCipher \<times> bytes" where
  "stream_encrypt c s plaintext =
     (let s = s\<lparr>sc_send_seq := sc_send_seq s + 1\<rparr>
      in (s, cr_secretbox_easy c plaintext (stream_nonce (sc_send_seq s)) (sc_key s)))"

definition secretbox_opened :: "Crypto \<Rightarrow> bytes \<Rightarrow> u64 \<Rightarrow> bytes \<Rightarrow> CipherError + bytes" where
  "secretbox_opened c key seq ciphertext =
     (if length ciphertext < MAC_BYTES then Inl CiphertextTooShort
      else case cr_secretbox_open_easy c ciphertext (stream_nonce seq) key of
             None \<Rightarrow> Inl OpenFailed
           | Some pt \<Rightarrow> Inr pt)"

definition stream_decrypt :: "Crypto \<Rightarrow> StreamCipher \<Rightarrow> bytes \<Rightarrow> StreamCipher \<times> (CipherError + bytes)" where
  "stream_decrypt c s ciphertext =
     (let s = s\<lparr>sc_recv_seq := sc_recv_seq s + 1\<rparr>
      in (s, secretbox_opened c (sc_key s) (sc_recv_seq s) ciphertext))"

definition send_cipher_encrypt :: "Crypto \<Rightarrow> SendCipher \<Rightarrow> bytes \<Rightarrow> SendCipher \<times> bytes" where
  "send_cipher_encrypt c s plaintext =
     (let s = s\<lparr>snd_seq := snd_seq s + 1\<rparr>
      in (s, cr_secretbox_easy c plaintext (stream_nonce (snd_seq s)) (snd_key s)))"

definition recv_cipher_decrypt :: "Crypto \<Rightarrow> RecvCipher \<Rightarrow> bytes \<Rightarrow> RecvCipher \<times> (CipherError + bytes)" where
  "recv_cipher_decrypt c s ciphertext =
     (let s = s\<lparr>rcv_seq := rcv_seq s + 1\<rparr>
      in (s, secretbox_opened c (rcv_key s) (rcv_seq s) ciphertext))"

section \<open>Runs of the ciphers\<close>

fun encrypt_run :: "Crypto \<Rightarrow> StreamCipher \<Rightarrow> bytes list \<Rightarrow> StreamCipher \<times> bytes list" where
  "encrypt_run c s [] = (s, [])"
| "encrypt_run c s (p # ps) = (case stream_encrypt c s p of (s, ct) \<Rightarrow> (case encrypt_run c s ps of (s, cts) \<Rightarrow> (s, ct # cts)))"

fun decrypt_run :: "Crypto \<Rightarrow> StreamCipher \<Rightarrow> bytes list \<Rightarrow> StreamCipher \<times> (CipherError + bytes) list" where
  "decrypt_run c s [] = (s, [])"
| "decrypt_run c s (f # fs) = (case stream_decrypt c s f of (s, r) \<Rightarrow> (case decrypt_run c s fs of (s, rs) \<Rightarrow> (s, r # rs)))"

definition seal_at :: "Crypto \<Rightarrow> bytes \<Rightarrow> u64 \<Rightarrow> bytes \<Rightarrow> bytes" where
  "seal_at c k seq p = cr_secretbox_easy c p (stream_nonce seq) k"

lemma encrypt_run_nth:
  "encrypt_run c s ps = (s', cts) \<Longrightarrow> length cts = length ps \<and> sc_key s' = sc_key s \<and> sc_recv_seq s' = sc_recv_seq s
     \<and> sc_send_seq s' = sc_send_seq s + of_nat (length ps)
     \<and> (\<forall>i < length ps. cts ! i = seal_at c (sc_key s) (sc_send_seq s + of_nat (Suc i)) (ps ! i))"
proof (induction ps arbitrary: s cts)
  case (Cons p ps)
  obtain s1 ct where e: "stream_encrypt c s p = (s1, ct)" by fastforce
  obtain cts' where r: "encrypt_run c s1 ps = (s', cts')" "cts = ct # cts'" using Cons.prems e by (auto split: prod.splits)
  have s1: "sc_key s1 = sc_key s" "sc_recv_seq s1 = sc_recv_seq s" "sc_send_seq s1 = sc_send_seq s + 1"
      "ct = seal_at c (sc_key s) (sc_send_seq s + 1) p"
    using e by (auto simp: stream_encrypt_def Let_def seal_at_def)
  show ?case using Cons.IH [OF r(1)] s1 r(2) by (auto simp: nth_Cons ac_simps split: nat.split)
qed simp

lemma decrypt_run_nth:
  "decrypt_run c r fs = (r', rs) \<Longrightarrow> length rs = length fs \<and> sc_key r' = sc_key r \<and> sc_send_seq r' = sc_send_seq r
     \<and> sc_recv_seq r' = sc_recv_seq r + of_nat (length fs)
     \<and> (\<forall>i < length fs. rs ! i = secretbox_opened c (sc_key r) (sc_recv_seq r + of_nat (Suc i)) (fs ! i))"
proof (induction fs arbitrary: r rs)
  case (Cons f fs)
  obtain r1 x where e: "stream_decrypt c r f = (r1, x)" by fastforce
  obtain rs' where d: "decrypt_run c r1 fs = (r', rs')" "rs = x # rs'" using Cons.prems e by (auto split: prod.splits)
  have r1: "sc_key r1 = sc_key r" "sc_send_seq r1 = sc_send_seq r" "sc_recv_seq r1 = sc_recv_seq r + 1"
      "x = secretbox_opened c (sc_key r) (sc_recv_seq r + 1) f"
    using e by (auto simp: stream_decrypt_def Let_def)
  show ?case using Cons.IH [OF d(1)] r1 d(2) by (auto simp: nth_Cons ac_simps split: nat.split)
qed simp

lemma secretbox_opened_seal: "secretbox_law c \<Longrightarrow> secretbox_opened c k seq (seal_at c k seq p) = Inr p"
  by (simp add: secretbox_opened_def seal_at_def secretbox_law_def MAC_BYTES_def SECRETBOX_MAC_LEN_def)

text \<open>Authenticity, idealised: what was sealed under one sequence number does not open under another.\<close>

definition secretbox_nonce_law :: "Crypto \<Rightarrow> bool" where
  "secretbox_nonce_law c \<longleftrightarrow> (\<forall>k p i j. i \<noteq> j \<longrightarrow> cr_secretbox_open_easy c (seal_at c k j p) (stream_nonce i) k = None)"

lemma secretbox_opened_other:
  "secretbox_law c \<Longrightarrow> secretbox_nonce_law c \<Longrightarrow> i \<noteq> j \<Longrightarrow> secretbox_opened c k i (seal_at c k j p) = Inl OpenFailed"
  by (simp add: secretbox_opened_def secretbox_nonce_law_def secretbox_law_def MAC_BYTES_def SECRETBOX_MAC_LEN_def seal_at_def)

lemma add_of_nat_eq:
  assumes "(x :: u64) + of_nat i = x + of_nat j" "i < 2 ^ 64" "j < 2 ^ 64"
  shows "i = j"
proof -
  have n: "unat (of_nat k :: u64) = k" if "k < 2 ^ 64" for k using that by (intro unat_of_nat_id) simp
  have "of_nat i = (of_nat j :: u64)" using assms(1) by simp
  then have "unat (of_nat i :: u64) = unat (of_nat j :: u64)" by simp
  then show ?thesis unfolding n [OF assms(2)] n [OF assms(3)] .
qed

text \<open>A cipher is used as a whole during the handshake and as two halves afterwards. Calls on the whole
  cipher, and the same calls on the halves, each half seeing only its own.\<close>

datatype cipher_call = Enc bytes | Dec bytes
datatype cipher_result = Enc_out bytes | Dec_out "CipherError + bytes"

fun whole_run :: "Crypto \<Rightarrow> StreamCipher \<Rightarrow> cipher_call list \<Rightarrow> StreamCipher \<times> cipher_result list" where
  "whole_run c s [] = (s, [])"
| "whole_run c s (Enc p # ops) = (case stream_encrypt c s p of (s, ct) \<Rightarrow> (case whole_run c s ops of (s, os) \<Rightarrow> (s, Enc_out ct # os)))"
| "whole_run c s (Dec f # ops) = (case stream_decrypt c s f of (s, r) \<Rightarrow> (case whole_run c s ops of (s, os) \<Rightarrow> (s, Dec_out r # os)))"

fun send_run :: "Crypto \<Rightarrow> SendCipher \<Rightarrow> bytes list \<Rightarrow> SendCipher \<times> bytes list" where
  "send_run c s [] = (s, [])"
| "send_run c s (p # ps) = (case send_cipher_encrypt c s p of (s, ct) \<Rightarrow> (case send_run c s ps of (s, cts) \<Rightarrow> (s, ct # cts)))"

fun recv_run :: "Crypto \<Rightarrow> RecvCipher \<Rightarrow> bytes list \<Rightarrow> RecvCipher \<times> (CipherError + bytes) list" where
  "recv_run c s [] = (s, [])"
| "recv_run c s (f # fs) = (case recv_cipher_decrypt c s f of (s, r) \<Rightarrow> (case recv_run c s fs of (s, rs) \<Rightarrow> (s, r # rs)))"

fun enc_inputs :: "cipher_call list \<Rightarrow> bytes list" where
  "enc_inputs [] = []" | "enc_inputs (Enc p # ops) = p # enc_inputs ops" | "enc_inputs (Dec f # ops) = enc_inputs ops"

fun dec_inputs :: "cipher_call list \<Rightarrow> bytes list" where
  "dec_inputs [] = []" | "dec_inputs (Enc p # ops) = dec_inputs ops" | "dec_inputs (Dec f # ops) = f # dec_inputs ops"

fun enc_outputs :: "cipher_result list \<Rightarrow> bytes list" where
  "enc_outputs [] = []" | "enc_outputs (Enc_out p # os) = p # enc_outputs os" | "enc_outputs (Dec_out r # os) = enc_outputs os"

fun dec_outputs :: "cipher_result list \<Rightarrow> (CipherError + bytes) list" where
  "dec_outputs [] = []" | "dec_outputs (Enc_out p # os) = dec_outputs os" | "dec_outputs (Dec_out r # os) = r # dec_outputs os"

lemma halves_encrypt: "stream_encrypt c s p = (s', ct) \<Longrightarrow> send_cipher_encrypt c (fst (into_halves s)) p = (fst (into_halves s'), ct)
    \<and> snd (into_halves s') = snd (into_halves s)"
  by (auto simp: stream_encrypt_def send_cipher_encrypt_def into_halves_def Let_def)

lemma halves_decrypt: "stream_decrypt c s f = (s', r) \<Longrightarrow> recv_cipher_decrypt c (snd (into_halves s)) f = (snd (into_halves s'), r)
    \<and> fst (into_halves s') = fst (into_halves s)"
  by (auto simp: stream_decrypt_def recv_cipher_decrypt_def into_halves_def Let_def)

text \<open>An instance of the laws: the tag is the start of the nonce, the box of key pairs the same with a tag
  of zeros.\<close>

definition demo_crypto :: Crypto where
  "demo_crypto = \<lparr>cr_hmac_sha256 = (\<lambda>k m. replicate 32 0), cr_sha256 = (\<lambda>m. replicate 32 (sum_list m)),
     cr_secretbox_easy = (\<lambda>m n k. take 16 (n @ replicate 16 0) @ m),
     cr_secretbox_open_easy = (\<lambda>x n k. if take 16 x = take 16 (n @ replicate 16 0) then Some (drop 16 x) else None)\<rparr>"

definition demo_nacl :: Nacl where
  "demo_nacl = \<lparr>nc_sign = (\<lambda>m sk. Some (replicate 64 0 @ m)), nc_sign_open = (\<lambda>s pk. Some (drop 64 s)),
     nc_box_easy = (\<lambda>m n pk sk. Some (replicate 16 0 @ m)), nc_box_open_easy = (\<lambda>x n pk sk. Some (drop 16 x))\<rparr>"

lemma le_bytes_inject:
  fixes v w :: "'a::len word"
  assumes "LENGTH('a) \<le> 8 * n" "le_bytes n v = le_bytes n w"
  shows "v = w"
  using assms le_word_le_bytes by metis

lemma stream_nonce_eq: "stream_nonce i = le_bytes 8 i @ replicate 16 0"
  by (simp add: stream_nonce_def splice_def NONCE_LEN_def)

lemma demo_laws:
  "digest_sizes demo_crypto" "secretbox_law demo_crypto" "secretbox_nonce_law demo_crypto"
  "sign_law demo_nacl pk sk" "box_law demo_nacl a b"
proof -
  show "secretbox_nonce_law demo_crypto"
    using le_bytes_inject [where n = 8 and 'a = 64]
    by (auto simp: secretbox_nonce_law_def demo_crypto_def seal_at_def stream_nonce_eq)
qed (simp_all add: digest_sizes_def secretbox_law_def demo_crypto_def SECRETBOX_MAC_LEN_def sign_law_def box_law_def
      demo_nacl_def SIGN_BYTES_def MAC_BYTES_def min_def)

text \<open>What \<open>create_symmetric_key_msg\<close> seals for a box key, \<open>open_symmetric_key\<close> opens with its secret.\<close>

lemma symmetric_key_agreement:
  assumes "box_law na client host" "length (fst host) = 32" "length (snd host) = 32" "length (fst client) = 32" "length key = 32"
  obtains sealed where "create_symmetric_key_msg na client key (fst host) = Some (fst client, sealed, key)"
    "open_symmetric_key na sealed (fst client) (snd host) = Some key"
proof -
  obtain sealed where "nc_box_easy na key (replicate NONCE_LEN 0) (fst host) (snd client) = Some sealed"
      "length sealed = length key + MAC_BYTES" "nc_box_open_easy na sealed (replicate NONCE_LEN 0) (fst client) (snd host) = Some key"
    using assms(1) unfolding box_law_def by blast
  then show thesis using assms
    by (intro that [of sealed]) (simp_all add: create_symmetric_key_msg_def open_symmetric_key_def nacl_consts)
qed

lemma open_symmetric_key_length: "open_symmetric_key na sealed pk sk = Some key \<Longrightarrow> length key = 32"
  by (auto simp: open_symmetric_key_def nacl_consts split: if_splits option.splits)

section \<open>Properties\<close>



text \<open>splitting the cipher after the handshake changes nothing. However encryptions and decryptions
  interleave, the whole cipher gives the outputs that the two halves give when each runs on its own, and both
  end in the same counters.\<close>

theorem cipher_halves_equivalent:
  assumes "whole_run c s ops = (s', os)"
  shows "send_run c (fst (into_halves s)) (enc_inputs ops) = (fst (into_halves s'), enc_outputs os)
    \<and> recv_run c (snd (into_halves s)) (dec_inputs ops) = (snd (into_halves s'), dec_outputs os)"
  using assms
proof (induction ops arbitrary: s os)
  case (Cons op ops)
  show ?case
  proof (cases op)
    case (Enc p)
    obtain s1 ct where e: "stream_encrypt c s p = (s1, ct)" by fastforce
    obtain os' where w: "whole_run c s1 ops = (s', os')" "os = Enc_out ct # os'"
      using Cons.prems Enc e by (auto split: prod.splits)
    show ?thesis using Cons.IH [OF w(1)] halves_encrypt [OF e] w(2) Enc by simp
  next
    case (Dec f)
    obtain s1 r where e: "stream_decrypt c s f = (s1, r)" by fastforce
    obtain os' where w: "whole_run c s1 ops = (s', os')" "os = Dec_out r # os'"
      using Cons.prems Dec e by (auto split: prod.splits)
    show ?thesis using Cons.IH [OF w(1)] halves_decrypt [OF e] w(2) Dec by simp
  qed
qed simp

theorem cipher_halves_equivalent_witness:
  "let s = \<lparr>sc_key = [7], sc_send_seq = 0, sc_recv_seq = 0\<rparr>; ops = [Enc [1], Dec [2], Enc [3]];
       (s', os) = whole_run demo_crypto s ops
   in send_run demo_crypto (fst (into_halves s)) (enc_inputs ops) = (fst (into_halves s'), enc_outputs os)
    \<and> recv_run demo_crypto (snd (into_halves s)) (dec_inputs ops) = (snd (into_halves s'), dec_outputs os)"
proof -
  let ?s = "\<lparr>sc_key = [7], sc_send_seq = 0, sc_recv_seq = 0\<rparr>"
  obtain s' os where w: "whole_run demo_crypto ?s [Enc [1], Dec [2], Enc [3]] = (s', os)" by fastforce
  show ?thesis unfolding Let_def w prod.case by (rule cipher_halves_equivalent [OF w])
qed

text \<open>the two directions of a connection share one sequence of nonces. Two ciphers with the same key and
  counters at zero, as the handshake leaves them at both ends, encrypt their \<open>i\<close>-th messages under the same
  key and nonce; so a frame is accepted not only by the peer but also by the end that sent it, when it is
  sent back in the position it came from.\<close>

theorem cipher_reflection:
  assumes "secretbox_law c" "stream_cipher_new key = Some s" "encrypt_run c s ps = (s', cts)"
  shows "decrypt_run c s' cts = (s'\<lparr>sc_recv_seq := of_nat (length ps)\<rparr>, map Inr ps)
    \<and> (\<forall>i < length ps. cts ! i = cr_secretbox_easy c (ps ! i) (stream_nonce (of_nat (Suc i))) key)"
proof -
  have s: "sc_key s = key" "sc_send_seq s = 0" "sc_recv_seq s = 0"
    using assms(2) by (auto simp: stream_cipher_new_def split: if_splits)
  note e = encrypt_run_nth [OF assms(3), unfolded s, simplified]
  obtain r' rs where d: "decrypt_run c s' cts = (r', rs)" by fastforce
  note dd = decrypt_run_nth [OF d, unfolded conjunct1 [OF conjunct2 [OF e]]]
  have "rs = map Inr ps"
  proof (rule nth_equalityI)
    fix i assume "i < length rs"
    then have i: "i < length ps" using dd e by simp
    then have "rs ! i = secretbox_opened c key (of_nat (Suc i)) (seal_at c key (of_nat (Suc i)) (ps ! i))"
      using dd e by simp
    with i show "rs ! i = map Inr ps ! i" by (simp add: secretbox_opened_seal [OF assms(1)])
  qed (use dd e in simp)
  moreover have "r' = s'\<lparr>sc_recv_seq := of_nat (length ps)\<rparr>" using dd e by simp
  ultimately show ?thesis using e d by (simp add: seal_at_def)
qed

theorem cipher_reflection_witness:
  "let s = \<lparr>sc_key = replicate 32 7, sc_send_seq = 0, sc_recv_seq = 0\<rparr>; (s', cts) = encrypt_run demo_crypto s [[1], [2]]
   in snd (decrypt_run demo_crypto s' cts) = map Inr [[1], [2]]"
proof -
  let ?s = "\<lparr>sc_key = replicate 32 7, sc_send_seq = 0, sc_recv_seq = 0\<rparr>"
  obtain s' cts where e: "encrypt_run demo_crypto ?s [[1], [2]] = (s', cts)" by fastforce
  have n: "stream_cipher_new (replicate 32 7) = Some ?s" by (simp add: stream_cipher_new_def SECRETBOX_KEY_LEN_def)
  show ?thesis unfolding Let_def e prod.case conjunct1 [OF cipher_reflection [OF demo_laws(2) n e]] by simp
qed

end
