(* ===== verification/Relay_Peer.thy ===== *)
theory Relay_Peer
  imports Relay_Framing Relay_Cipher
begin

text \<open>
  Peer messages over the relay connection (\<^verbatim>\<open>src/src/rustdesk_proto.rs\<close>,
  \<^verbatim>\<open>src/src/host.rs\<close>: \<open>send_peer_enc\<close>, \<open>send_peer_sc\<close>, \<open>recv_peer_enc\<close>, \<open>recv_peer_rc\<close> and
  the secure handshake of \<open>relay_session_inner\<close>; \<^verbatim>\<open>src/src/transport.rs\<close>: the client's answer to
  it). The protobuf codec is generated by the \<open>prost\<close> crate and is the parameter record \<open>Proto\<close>. Message
  bodies that no modelled code looks into are their encoded bytes.
\<close>

section \<open>Messages\<close>

record LoginRequest =
  lr_username :: rust_str
  lr_password :: bytes
  lr_my_id :: rust_str
  lr_my_name :: rust_str
  lr_option :: "bytes option"
  lr_video_ack_required :: bool
  lr_version :: rust_str
  lr_my_platform :: rust_str
  lr_evrt2_only :: bool

record Hash =
  hash_salt :: rust_str
  hash_challenge :: rust_str

record PublicKey =
  pk_asymmetric_value :: bytes
  pk_symmetric_value :: bytes

record TestDelay =
  td_time :: u64
  td_from_client :: bool
  td_last_delay :: u32
  td_target_bitrate :: u32

datatype LoginResponseUnion = Error rust_str | PeerInfoResponse bytes

datatype PeerUnion =
    SignedId bytes | PublicKeyMsg PublicKey | TestDelayMsg TestDelay | VideoFrame bytes
  | LoginRequestMsg LoginRequest | LoginResponse "LoginResponseUnion option" | HashMsg Hash
  | MouseEvent bytes | CursorData bytes | CursorId u64 | CursorPosition bytes | KeyEvent bytes
  | Clipboard bytes | Misc bytes | PeerInfo bytes | ScreenshotRequest bytes | ScreenshotResponse bytes
  | Shell bytes

type_synonym PeerMessage = "PeerUnion option"

record Proto =
  pr_encode :: "PeerMessage \<Rightarrow> bytes"
  pr_decode :: "bytes \<Rightarrow> PeerMessage option"
  pr_encode_id_pk :: "rust_str \<times> bytes \<Rightarrow> bytes"

text \<open>What \<open>prost\<close> documents, for one message: decoding inverts encoding, and only a message without a union
  encodes to nothing. The second predicate says that the message fits into a frame.\<close>

definition proto_ok :: "Proto \<Rightarrow> PeerMessage \<Rightarrow> bool" where
  "proto_ok pr m \<longleftrightarrow> pr_decode pr (pr_encode pr m) = Some m \<and> (pr_encode pr m = [] \<longleftrightarrow> m = None)"

definition fits_frame :: "Proto \<Rightarrow> PeerMessage \<Rightarrow> bool" where
  "fits_frame pr m \<longleftrightarrow> length (pr_encode pr m) + MAC_BYTES \<le> MAX_FRAME"

section \<open>Sending and receiving\<close>

datatype ChanError = ReadErr FrameError | DecryptErr CipherError | PeerDecode

definition encrypt_opt :: "Crypto \<Rightarrow> StreamCipher option \<Rightarrow> bytes \<Rightarrow> StreamCipher option \<times> bytes" where
  "encrypt_opt c cipher bs = (case cipher of
      None \<Rightarrow> (None, bs)
    | Some s \<Rightarrow> (case stream_encrypt c s bs of (s, ct) \<Rightarrow> (Some s, ct)))"

definition send_peer_enc ::
  "Crypto \<Rightarrow> Proto \<Rightarrow> TcpStream \<Rightarrow> StreamCipher option \<Rightarrow> PeerMessage \<Rightarrow> TcpStream \<times> StreamCipher option \<times> (FrameError + unit)" where
  "send_peer_enc c pr stream cipher msg = (case encrypt_opt c cipher (pr_encode pr msg) of
      (cipher, bs) \<Rightarrow> (case send_framed bs stream of (stream, res) \<Rightarrow> (stream, cipher, res)))"

definition send_peer_sc ::
  "Crypto \<Rightarrow> Proto \<Rightarrow> TcpStream \<Rightarrow> SendCipher option \<Rightarrow> PeerMessage \<Rightarrow> TcpStream \<times> SendCipher option \<times> (FrameError + unit)" where
  "send_peer_sc c pr stream cipher msg = (case (case cipher of
        None \<Rightarrow> (None, pr_encode pr msg)
      | Some s \<Rightarrow> (case send_cipher_encrypt c s (pr_encode pr msg) of (s, ct) \<Rightarrow> (Some s, ct))) of
      (cipher, bs) \<Rightarrow> (case send_framed bs stream of (stream, res) \<Rightarrow> (stream, cipher, res)))"

definition recv_peer_enc ::
  "Crypto \<Rightarrow> Proto \<Rightarrow> TcpStream \<Rightarrow> StreamCipher option \<Rightarrow> TcpStream \<times> StreamCipher option \<times> (ChanError + PeerMessage option)" where
  "recv_peer_enc c pr stream cipher = (case read_framed stream of
      (stream, Inl e) \<Rightarrow> (stream, cipher, Inl (ReadErr e))
    | (stream, Inr payload) \<Rightarrow>
       (if payload = [] then (stream, cipher, Inr None)
        else case (case cipher of
               None \<Rightarrow> (None, Inr payload)
             | Some s \<Rightarrow> (case stream_decrypt c s payload of (s, res) \<Rightarrow> (Some s, res))) of
           (cipher, Inl e) \<Rightarrow> (stream, cipher, Inl (DecryptErr e))
         | (cipher, Inr plain) \<Rightarrow>
            (case pr_decode pr plain of
               None \<Rightarrow> (stream, cipher, Inl PeerDecode)
             | Some msg \<Rightarrow> (stream, cipher, Inr (Some msg)))))"

definition recv_peer_rc ::
  "Crypto \<Rightarrow> Proto \<Rightarrow> TcpStream \<Rightarrow> RecvCipher option \<Rightarrow> TcpStream \<times> RecvCipher option \<times> (ChanError + PeerMessage option)" where
  "recv_peer_rc c pr stream cipher = (case read_framed stream of
      (stream, Inl e) \<Rightarrow> (stream, cipher, Inl (ReadErr e))
    | (stream, Inr payload) \<Rightarrow>
       (if payload = [] then (stream, cipher, Inr None)
        else case (case cipher of
               None \<Rightarrow> (None, Inr payload)
             | Some s \<Rightarrow> (case recv_cipher_decrypt c s payload of (s, res) \<Rightarrow> (Some s, res))) of
           (cipher, Inl e) \<Rightarrow> (stream, cipher, Inl (DecryptErr e))
         | (cipher, Inr plain) \<Rightarrow>
            (case pr_decode pr plain of
               None \<Rightarrow> (stream, cipher, Inl PeerDecode)
             | Some msg \<Rightarrow> (stream, cipher, Inr (Some msg)))))"

section \<open>The host's secure handshake\<close>

datatype HandshakeError = SignFailed | HandshakeSend FrameError | HandshakeRead FrameError | OnlyKeepalives
  | HandshakeDecode | KeyNotOpened | NoPublicKey

text \<open>Waiting for the peer's \<open>PublicKey\<close>; keepalives are answered, other messages are counted.\<close>

function handshake_loop ::
  "Nacl \<Rightarrow> Proto \<Rightarrow> bytes \<Rightarrow> nat \<Rightarrow> TcpStream \<Rightarrow> TcpStream \<times> (HandshakeError + StreamCipher option)" where
  "handshake_loop na pr box_sk tries relay = (case read_framed relay of
      (relay', Inl e) \<Rightarrow> (relay', Inl (HandshakeRead e))
    | (relay', Inr payload) \<Rightarrow>
       (if payload = [] then
          (let relay'' = (case encode_frame_len 0 of Inl _ \<Rightarrow> relay' | Inr frame \<Rightarrow> fst (write_all frame relay'))
           in if tries + 1 > 200 then (relay'', Inl OnlyKeepalives)
              else handshake_loop na pr box_sk (tries + 1) relay'')
        else case pr_decode pr payload of
            None \<Rightarrow> (relay', Inl HandshakeDecode)
          | Some (Some (PublicKeyMsg pk)) \<Rightarrow>
             (if pk_asymmetric_value pk = [] then (relay', Inr None)
              else case open_symmetric_key na (pk_symmetric_value pk) (pk_asymmetric_value pk) box_sk of
                  Some symkey \<Rightarrow> (relay', Inr (stream_cipher_new symkey))
                | None \<Rightarrow> (relay', Inl KeyNotOpened))
          | Some other \<Rightarrow>
             (if tries + 1 > 20 then (relay', Inl NoPublicKey)
              else handshake_loop na pr box_sk (tries + 1) relay')))"
  by pat_completeness auto

lemma write_all_in [simp]: "ts_in (fst (write_all bs s)) = ts_in s" "ts_timeout (fst (write_all bs s)) = ts_timeout s"
  by (auto simp: write_all_def split: option.split)

termination handshake_loop
  by (relation "measure (\<lambda>(na, pr, sk, tries, relay). length (ts_in relay))")
    (auto dest!: read_framed_consumes [OF sym] split: sum.splits)

declare handshake_loop.simps [simp del]

text \<open>The whole handshake, with the ephemeral key pair \<open>crypto::gen_box_keypair\<close> returns.\<close>

definition host_handshake ::
  "Nacl \<Rightarrow> Proto \<Rightarrow> rust_str \<Rightarrow> bytes \<Rightarrow> bytes \<times> bytes \<Rightarrow> TcpStream \<Rightarrow> TcpStream \<times> (HandshakeError + StreamCipher option)" where
  "host_handshake na pr local_id host_sign_sk pair relay =
     (case sign na (pr_encode_id_pk pr (local_id, fst pair)) host_sign_sk of
        None \<Rightarrow> (relay, Inl SignFailed)
      | Some sm \<Rightarrow>
         (case send_framed (pr_encode pr (Some (SignedId sm))) relay of
            (relay, Inl e) \<Rightarrow> (relay, Inl (HandshakeSend e))
          | (relay, Inr _) \<Rightarrow> handshake_loop na pr (snd pair) 0 relay))"

text \<open>The client's answer to a \<open>SignedId\<close> and to a message without a union; it has none of this kind to others.\<close>

definition empty_public_key :: PublicKey where
  "empty_public_key = \<lparr>pk_asymmetric_value = [], pk_symmetric_value = []\<rparr>"

definition client_secure_answer :: "PeerMessage \<Rightarrow> PeerMessage option" where
  "client_secure_answer m = (case m of
      Some (SignedId _) \<Rightarrow> Some (Some (PublicKeyMsg empty_public_key))
    | None \<Rightarrow> Some (Some (PublicKeyMsg empty_public_key))
    | _ \<Rightarrow> None)"

section \<open>A channel of peer messages\<close>

text \<open>Both pairs of functions have the same shape, over the cipher they use.\<close>

definition send_with ::
  "('s \<Rightarrow> bytes \<Rightarrow> 's \<times> bytes) \<Rightarrow> Proto \<Rightarrow> TcpStream \<Rightarrow> 's \<Rightarrow> PeerMessage \<Rightarrow> TcpStream \<times> 's \<times> (FrameError + unit)" where
  "send_with enc pr stream cipher msg = (case enc cipher (pr_encode pr msg) of
      (cipher, bs) \<Rightarrow> (case send_framed bs stream of (stream, res) \<Rightarrow> (stream, cipher, res)))"

definition recv_with ::
  "('r \<Rightarrow> bytes \<Rightarrow> 'r \<times> (CipherError + bytes)) \<Rightarrow> Proto \<Rightarrow> TcpStream \<Rightarrow> 'r \<Rightarrow> TcpStream \<times> 'r \<times> (ChanError + PeerMessage option)" where
  "recv_with dec pr stream cipher = (case read_framed stream of
      (stream, Inl e) \<Rightarrow> (stream, cipher, Inl (ReadErr e))
    | (stream, Inr payload) \<Rightarrow>
       (if payload = [] then (stream, cipher, Inr None)
        else case dec cipher payload of
           (cipher, Inl e) \<Rightarrow> (stream, cipher, Inl (DecryptErr e))
         | (cipher, Inr plain) \<Rightarrow>
            (case pr_decode pr plain of
               None \<Rightarrow> (stream, cipher, Inl PeerDecode)
             | Some msg \<Rightarrow> (stream, cipher, Inr (Some msg)))))"

definition decrypt_opt :: "Crypto \<Rightarrow> StreamCipher option \<Rightarrow> bytes \<Rightarrow> StreamCipher option \<times> (CipherError + bytes)" where
  "decrypt_opt c cipher payload = (case cipher of
      None \<Rightarrow> (None, Inr payload) | Some s \<Rightarrow> (case stream_decrypt c s payload of (s, res) \<Rightarrow> (Some s, res)))"

definition encrypt_half :: "Crypto \<Rightarrow> SendCipher option \<Rightarrow> bytes \<Rightarrow> SendCipher option \<times> bytes" where
  "encrypt_half c cipher bs = (case cipher of
      None \<Rightarrow> (None, bs) | Some s \<Rightarrow> (case send_cipher_encrypt c s bs of (s, ct) \<Rightarrow> (Some s, ct)))"

definition decrypt_half :: "Crypto \<Rightarrow> RecvCipher option \<Rightarrow> bytes \<Rightarrow> RecvCipher option \<times> (CipherError + bytes)" where
  "decrypt_half c cipher payload = (case cipher of
      None \<Rightarrow> (None, Inr payload) | Some s \<Rightarrow> (case recv_cipher_decrypt c s payload of (s, res) \<Rightarrow> (Some s, res)))"

lemma channel_shapes:
  "send_peer_enc c = send_with (encrypt_opt c)" "recv_peer_enc c = recv_with (decrypt_opt c)"
  "send_peer_sc c = send_with (encrypt_half c)" "recv_peer_rc c = recv_with (decrypt_half c)"
  by (rule ext | simp only: send_peer_enc_def send_with_def recv_peer_enc_def recv_with_def decrypt_opt_def
      send_peer_sc_def encrypt_half_def recv_peer_rc_def decrypt_half_def)+

lemma recv_with_consumes:
  "recv_with dec pr s ci = (s', ci', Inr m) \<Longrightarrow> length (ts_in s') < length (ts_in s)"
  by (auto simp: recv_with_def dest: read_framed_consumes split: prod.splits sum.splits if_splits option.splits)

text \<open>What the ends put on the connection: messages, and the empty frames that keep it alive.\<close>

datatype peer_item = KeepaliveFrame | Message PeerMessage

fun item_payload :: "('s \<Rightarrow> bytes \<Rightarrow> 's \<times> bytes) \<Rightarrow> Proto \<Rightarrow> 's \<Rightarrow> peer_item \<Rightarrow> 's \<times> bytes" where
  "item_payload enc pr s KeepaliveFrame = (s, [])"
| "item_payload enc pr s (Message m) = enc s (pr_encode pr m)"

fun payload_run :: "('s \<Rightarrow> bytes \<Rightarrow> 's \<times> bytes) \<Rightarrow> Proto \<Rightarrow> 's \<Rightarrow> peer_item list \<Rightarrow> 's \<times> bytes list" where
  "payload_run enc pr s [] = (s, [])"
| "payload_run enc pr s (x # xs) = (case item_payload enc pr s x of (s, p) \<Rightarrow> (case payload_run enc pr s xs of (s, ps) \<Rightarrow> (s, p # ps)))"

fun send_items ::
  "(TcpStream \<Rightarrow> 's \<Rightarrow> PeerMessage \<Rightarrow> TcpStream \<times> 's \<times> (FrameError + unit))
     \<Rightarrow> TcpStream \<Rightarrow> 's \<Rightarrow> peer_item list \<Rightarrow> TcpStream \<times> 's \<times> (FrameError + unit)" where
  "send_items send stream s [] = (stream, s, Inr ())"
| "send_items send stream s (KeepaliveFrame # xs) = (case send_framed [] stream of
      (stream, Inl e) \<Rightarrow> (stream, s, Inl e)
    | (stream, Inr _) \<Rightarrow> send_items send stream s xs)"
| "send_items send stream s (Message m # xs) = (case send stream s m of
      (stream, s, Inl e) \<Rightarrow> (stream, s, Inl e)
    | (stream, s, Inr _) \<Rightarrow> send_items send stream s xs)"

fun recv_items ::
  "(TcpStream \<Rightarrow> 'r \<Rightarrow> TcpStream \<times> 'r \<times> (ChanError + PeerMessage option)) \<Rightarrow> nat \<Rightarrow> TcpStream \<Rightarrow> 'r \<Rightarrow> TcpStream \<times> 'r \<times> (ChanError + peer_item list)" where
  "recv_items recv 0 stream r = (stream, r, Inr [])"
| "recv_items recv (Suc n) stream r = (case recv stream r of
      (stream, r, Inl e) \<Rightarrow> (stream, r, Inl e)
    | (stream, r, Inr got) \<Rightarrow> (case recv_items recv n stream r of
          (stream, r, Inl e) \<Rightarrow> (stream, r, Inl e)
        | (stream, r, Inr xs) \<Rightarrow> (stream, r, Inr ((case got of None \<Rightarrow> KeepaliveFrame | Some m \<Rightarrow> Message m) # xs))))"

text \<open>The contract between a sending and a receiving cipher: what one encrypts the other decrypts, the two
  staying aligned, and a ciphertext is at most 16 bytes longer and never shorter.\<close>

locale aligned_ciphers =
  fixes enc :: "'s \<Rightarrow> bytes \<Rightarrow> 's \<times> bytes" and dec :: "'r \<Rightarrow> bytes \<Rightarrow> 'r \<times> (CipherError + bytes)"
    and aligned :: "'s \<Rightarrow> 'r \<Rightarrow> bool"
  assumes opens: "aligned s r \<Longrightarrow> enc s p = (s', ct) \<Longrightarrow> \<exists>r'. dec r ct = (r', Inr p) \<and> aligned s' r'"
    and sizes: "aligned s r \<Longrightarrow> enc s p = (s', ct) \<Longrightarrow> length p \<le> length ct \<and> length ct \<le> length p + MAC_BYTES"
begin

lemma recv_message:
  assumes "proto_ok pr m" "fits_frame pr m" "m \<noteq> None" "aligned s r" "enc s (pr_encode pr m) = (s', bs)"
    and "arrives (ts_timeout stream) (frame_of bs) seg" "ts_in stream = seg @ inp"
  obtains r' where "recv_with dec pr stream r = (stream\<lparr>ts_in := inp\<rparr>, r', Inr (Some m))" "aligned s' r'"
    "length bs \<le> MAX_FRAME"
proof -
  have sz: "length (pr_encode pr m) \<le> length bs" "length bs \<le> MAX_FRAME"
    using sizes [OF assms(4,5)] assms(2) unfolding fits_frame_def by linarith+
  have law: "pr_decode pr (pr_encode pr m) = Some m" "pr_encode pr m \<noteq> []"
    using assms(1,3) unfolding proto_ok_def by blast+
  have ne: "bs \<noteq> []" using sz(1) law(2) by (cases bs) simp_all
  obtain r' where r': "dec r bs = (r', Inr (pr_encode pr m))" "aligned s' r'" using opens [OF assms(4,5)] by blast
  have "recv_with dec pr stream r = (stream\<lparr>ts_in := inp\<rparr>, r', Inr (Some m))"
    unfolding recv_with_def read_framed_ok [OF sz(2) assms(6,7)] prod.case sum.case using ne r'(1) law(1) by simp
  then show thesis by (rule that [OF _ r'(2) sz(2)])
qed

lemma channel_ok:
  assumes "\<forall>m. Message m \<in> set items \<longrightarrow> m \<noteq> None \<and> proto_ok pr m \<and> fits_frame pr m"
    and "aligned s r" "payload_run enc pr s items = (s', ps)" "ts_room out = None"
    and "list_all2 (\<lambda>p seg. arrives (ts_timeout inn) (frame_of p) seg) ps segs" "ts_in inn = concat segs @ inp"
  shows "send_items (send_with enc pr) out s items = (out\<lparr>ts_out := ts_out out @ concat (map frame_of ps)\<rparr>, s', Inr ())
    \<and> (\<exists>r'. recv_items (recv_with dec pr) (length items) inn r = (inn\<lparr>ts_in := inp\<rparr>, r', Inr items) \<and> aligned s' r')"
  using assms
proof (induction items arbitrary: s r ps out inn segs)
  case Nil
  then show ?case by auto
next
  case (Cons x xs)
  obtain s1 p ps1 where p: "item_payload enc pr s x = (s1, p)" "payload_run enc pr s1 xs = (s', ps1)" "ps = p # ps1"
    using Cons.prems(3) by (auto split: prod.splits)
  obtain seg segs1 where seg: "segs = seg # segs1" "arrives (ts_timeout inn) (frame_of p) seg"
      "list_all2 (\<lambda>p seg. arrives (ts_timeout inn) (frame_of p) seg) ps1 segs1"
    using Cons.prems(5) p(3) by (auto simp: list_all2_Cons1)
  have inn: "ts_in inn = seg @ (concat segs1 @ inp)" using Cons.prems(6) seg(1) by simp
  let ?inn = "inn\<lparr>ts_in := concat segs1 @ inp\<rparr>" and ?out = "out\<lparr>ts_out := ts_out out @ frame_of p\<rparr>"
  have "\<exists>r1. recv_with dec pr inn r = (?inn, r1, Inr (case x of KeepaliveFrame \<Rightarrow> None | Message m \<Rightarrow> Some m))
      \<and> aligned s1 r1 \<and> length p \<le> MAX_FRAME"
  proof (cases x)
    case KeepaliveFrame
    then have [simp]: "p = []" "s1 = s" using p(1) by auto
    show ?thesis using KeepaliveFrame Cons.prems(2) read_framed_ok [of p inn seg, OF _ seg(2) inn]
      by (simp add: recv_with_def)
  next
    case (Message m)
    then have m: "proto_ok pr m" "fits_frame pr m" "m \<noteq> None" "enc s (pr_encode pr m) = (s1, p)" using Cons.prems(1) p(1) by simp_all
    obtain r1 where "recv_with dec pr inn r = (?inn, r1, Inr (Some m))" "aligned s1 r1" "length p \<le> MAX_FRAME"
      by (rule recv_message [OF m(1-3) Cons.prems(2) m(4) seg(2) inn])
    then show ?thesis using Message by simp
  qed
  then obtain r1 where r1: "recv_with dec pr inn r = (?inn, r1, Inr (case x of KeepaliveFrame \<Rightarrow> None | Message m \<Rightarrow> Some m))"
      "aligned s1 r1" "length p \<le> MAX_FRAME" by blast
  have snd: "send_framed p out = (?out, Inr ())" by (rule send_framed_open [OF r1(3) Cons.prems(4)])
  have IH: "send_items (send_with enc pr) ?out s1 xs = (?out\<lparr>ts_out := ts_out ?out @ concat (map frame_of ps1)\<rparr>, s', Inr ())
    \<and> (\<exists>r'. recv_items (recv_with dec pr) (length xs) ?inn r1 = (?inn\<lparr>ts_in := inp\<rparr>, r', Inr xs) \<and> aligned s' r')"
    using Cons.prems(1,4) seg(3) by (intro Cons.IH [OF _ r1(2) p(2)]) simp_all
  have "send_items (send_with enc pr) out s (x # xs) = send_items (send_with enc pr) ?out s1 xs"
    using p(1) snd by (cases x) (auto simp: send_with_def)
  moreover have "\<exists>r'. recv_items (recv_with dec pr) (length (x # xs)) inn r = (inn\<lparr>ts_in := inp\<rparr>, r', Inr (x # xs)) \<and> aligned s' r'"
    using IH r1(1) by (cases x) auto
  ultimately show ?case using IH p(3) by simp
qed

end

text \<open>The two pairs of ciphers of the code satisfy it when they have the same key and the sender's counter is
  the receiver's; so do the ends of a plaintext connection.\<close>

definition aligned_opt :: "Crypto \<Rightarrow> StreamCipher option \<Rightarrow> StreamCipher option \<Rightarrow> bool" where
  "aligned_opt c a b \<longleftrightarrow> secretbox_law c \<and> (case a of None \<Rightarrow> b = None
     | Some s \<Rightarrow> (case b of None \<Rightarrow> False | Some r \<Rightarrow> sc_key r = sc_key s \<and> sc_recv_seq r = sc_send_seq s))"

definition aligned_half :: "Crypto \<Rightarrow> SendCipher option \<Rightarrow> RecvCipher option \<Rightarrow> bool" where
  "aligned_half c a b \<longleftrightarrow> secretbox_law c \<and> (case a of None \<Rightarrow> b = None
     | Some s \<Rightarrow> (case b of None \<Rightarrow> False | Some r \<Rightarrow> rcv_key r = snd_key s \<and> rcv_seq r = snd_seq s))"

lemma seal_size: "secretbox_law c \<Longrightarrow> length (cr_secretbox_easy c p n k) = length p + MAC_BYTES"
  by (simp add: secretbox_law_def MAC_BYTES_def SECRETBOX_MAC_LEN_def)

lemma opened_sealed: "secretbox_law c \<Longrightarrow> secretbox_opened c k seq (cr_secretbox_easy c p (stream_nonce seq) k) = Inr p"
  using secretbox_opened_seal by (simp add: seal_at_def)

interpretation whole: aligned_ciphers "encrypt_opt c" "decrypt_opt c" "aligned_opt c"
  by unfold_locales (auto simp: aligned_opt_def encrypt_opt_def decrypt_opt_def stream_encrypt_def stream_decrypt_def
      opened_sealed seal_size Let_def split: option.splits)

interpretation half: aligned_ciphers "encrypt_half c" "decrypt_half c" "aligned_half c"
  by unfold_locales (auto simp: aligned_half_def encrypt_half_def decrypt_half_def send_cipher_encrypt_def recv_cipher_decrypt_def
      opened_sealed seal_size Let_def split: option.splits)

section \<open>The handshake\<close>

lemma handshake_first_frame:
  assumes "length payload \<le> MAX_FRAME" "arrives (ts_timeout relay) (frame_of payload) seg" "ts_in relay = seg @ inp"
    and "payload \<noteq> []" "pr_decode pr payload = Some (Some (PublicKeyMsg pk))"
  shows "handshake_loop na pr box_sk tries relay = (relay\<lparr>ts_in := inp\<rparr>,
    if pk_asymmetric_value pk = [] then Inr None
    else case open_symmetric_key na (pk_symmetric_value pk) (pk_asymmetric_value pk) box_sk of
        Some symkey \<Rightarrow> Inr (stream_cipher_new symkey) | None \<Rightarrow> Inl KeyNotOpened)"
  unfolding handshake_loop.simps [of na pr box_sk tries relay] read_framed_ok [OF assms(1-3)]
  using assms(4,5) by (simp split: option.splits)

lemma host_handshake_answered:
  assumes "sign na (pr_encode_id_pk pr (local_id, fst pair)) sk = Some sm" "ts_room relay = None" "proto_ok pr (Some (PublicKeyMsg pk))"
    and "length (pr_encode pr (Some (SignedId sm))) \<le> MAX_FRAME" "length (pr_encode pr (Some (PublicKeyMsg pk))) \<le> MAX_FRAME"
    and "arrives (ts_timeout relay) (frame_of (pr_encode pr (Some (PublicKeyMsg pk)))) seg" "ts_in relay = seg @ inp"
  shows "host_handshake na pr local_id sk pair relay =
    (relay\<lparr>ts_in := inp, ts_out := ts_out relay @ frame_of (pr_encode pr (Some (SignedId sm)))\<rparr>,
     if pk_asymmetric_value pk = [] then Inr None
     else case open_symmetric_key na (pk_symmetric_value pk) (pk_asymmetric_value pk) (snd pair) of
         Some symkey \<Rightarrow> Inr (stream_cipher_new symkey) | None \<Rightarrow> Inl KeyNotOpened)"
proof -
  have law: "pr_decode pr (pr_encode pr (Some (PublicKeyMsg pk))) = Some (Some (PublicKeyMsg pk))"
      "pr_encode pr (Some (PublicKeyMsg pk)) \<noteq> []"
    using assms(3) unfolding proto_ok_def by blast+
  let ?r = "relay\<lparr>ts_out := ts_out relay @ frame_of (pr_encode pr (Some (SignedId sm)))\<rparr>"
  have s: "send_framed (pr_encode pr (Some (SignedId sm))) relay = (?r, Inr ())" by (rule send_framed_open [OF assms(4,2)])
  have "handshake_loop na pr (snd pair) 0 ?r = (?r\<lparr>ts_in := inp\<rparr>,
    if pk_asymmetric_value pk = [] then Inr None
    else case open_symmetric_key na (pk_symmetric_value pk) (pk_asymmetric_value pk) (snd pair) of
        Some symkey \<Rightarrow> Inr (stream_cipher_new symkey) | None \<Rightarrow> Inl KeyNotOpened)"
    by (rule handshake_first_frame [OF assms(5) _ _ law(2,1)]) (use assms(6,7) in simp_all)
  then show ?thesis by (simp add: host_handshake_def assms(1) s)
qed

text \<open>A codec for the messages of the examples.\<close>

definition demo_proto :: "PeerMessage list \<Rightarrow> Proto" where
  "demo_proto ms =
     \<lparr>pr_encode = (\<lambda>m. case m of None \<Rightarrow> [] | Some _ \<Rightarrow> replicate (Suc (length (takeWhile (\<lambda>x. x \<noteq> m) ms))) 1),
      pr_decode = (\<lambda>bs. if bs = [] then Some None else if length bs \<le> length ms then Some (ms ! (length bs - 1)) else None),
      pr_encode_id_pk = snd\<rparr>"

lemma demo_proto_ok:
  assumes "m \<in> set ms" "m \<noteq> None" "length ms < 1000"
  shows "proto_ok (demo_proto ms) m" "fits_frame (demo_proto ms) m" "length (pr_encode (demo_proto ms) m) \<le> MAX_FRAME"
proof -
  let ?n = "length (takeWhile (\<lambda>x. x \<noteq> m) ms)"
  have n: "?n < length ms" by (metis (full_types) assms(1) length_takeWhile_le nat_less_le takeWhile_eq_all_conv takeWhile_eq_take take_all_iff order_refl)
  have "ms ! ?n = m" using nth_length_takeWhile [of "\<lambda>x. x \<noteq> m" ms] n by simp
  then show "proto_ok (demo_proto ms) m" using n assms(2) by (auto simp: proto_ok_def demo_proto_def split: option.splits)
  show "fits_frame (demo_proto ms) m" "length (pr_encode (demo_proto ms) m) \<le> MAX_FRAME"
    using n assms(3) by (auto simp: fits_frame_def demo_proto_def MAX_FRAME_def MAC_BYTES_def split: option.splits)
qed

lemma frame_of_ne: "length p \<le> MAX_FRAME \<Longrightarrow> frame_of p \<noteq> []"
  by (metis frame_of_split list.discI)

section \<open>Properties\<close>

text \<open>C14: the relay channel delivers. What one end sends with \<open>send_peer_enc\<close>, keepalive frames in between,
  the other end receives with \<open>recv_peer_enc\<close>: the same messages, the keepalives as \<open>None\<close>, in the same order,
  over a plaintext connection as over an encrypted one, whatever pauses the network puts in.\<close>

theorem peer_channel_delivers:
  assumes "\<forall>m. Message m \<in> set items \<longrightarrow> m \<noteq> None \<and> proto_ok pr m \<and> fits_frame pr m"
    and "aligned_opt c ci cr" "payload_run (encrypt_opt c) pr ci items = (ci', ps)" "ts_room out = None"
    and "list_all2 (\<lambda>p seg. arrives (ts_timeout inn) (frame_of p) seg) ps segs" "ts_in inn = concat segs @ inp"
  shows "send_items (send_peer_enc c pr) out ci items = (out\<lparr>ts_out := ts_out out @ rx_bytes (concat segs)\<rparr>, ci', Inr ())
    \<and> (\<exists>cr'. recv_items (recv_peer_enc c pr) (length items) inn cr = (inn\<lparr>ts_in := inp\<rparr>, cr', Inr items)
         \<and> aligned_opt c ci' cr')"
proof -
  have "rx_bytes (concat segs) = concat (map frame_of ps)"
    using assms(5) by (induction rule: list_all2_induct) (simp_all add: arrives_bytes)
  then show ?thesis using whole.channel_ok [OF assms] by (simp add: channel_shapes)
qed

theorem peer_channel_delivers_witness:
  "let m = Some (KeyEvent [5]); pr = demo_proto [m]; items = [Message m, KeepaliveFrame];
       s = \<lparr>sc_key = [7], sc_send_seq = 3, sc_recv_seq = 9\<rparr>; r = \<lparr>sc_key = [7], sc_send_seq = 0, sc_recv_seq = 3\<rparr>;
       (ci', ps) = payload_run (encrypt_opt demo_crypto) pr (Some s) items;
       inn = \<lparr>ts_in = concat (map (\<lambda>p. map Byte (frame_of p)) ps) @ [], ts_timeout = Some 50, ts_out = [], ts_room = None\<rparr>
   in \<exists>cr'. recv_items (recv_peer_enc demo_crypto pr) (length items) inn (Some r) = (inn\<lparr>ts_in := []\<rparr>, cr', Inr items)"
proof -
  let ?m = "Some (KeyEvent [5])" and ?s = "\<lparr>sc_key = [7], sc_send_seq = 3, sc_recv_seq = 9\<rparr>"
    and ?r = "\<lparr>sc_key = [7], sc_send_seq = 0, sc_recv_seq = 3\<rparr>"
  let ?pr = "demo_proto [?m]" and ?items = "[Message ?m, KeepaliveFrame]"
  obtain ci' ps where p: "payload_run (encrypt_opt demo_crypto) ?pr (Some ?s) ?items = (ci', ps)" by fastforce
  let ?inn = "\<lparr>ts_in = concat (map (\<lambda>p. map Byte (frame_of p)) ps) @ [], ts_timeout = Some 50, ts_out = [], ts_room = None\<rparr>"
  have a: "aligned_opt demo_crypto (Some ?s) (Some ?r)" by (simp add: aligned_opt_def demo_laws)
  have ok: "\<forall>m. Message m \<in> set ?items \<longrightarrow> m \<noteq> None \<and> proto_ok ?pr m \<and> fits_frame ?pr m"
    using demo_proto_ok [of ?m "[?m]"] by simp
  have ps: "\<forall>p \<in> set ps. frame_of p \<noteq> []"
  proof -
    obtain ct where e: "stream_encrypt demo_crypto ?s (pr_encode ?pr ?m) = (ct, hd ps)" and ps: "ps = [hd ps, []]"
      using p by (auto simp: encrypt_opt_def split: prod.splits)
    have "hd ps = cr_secretbox_easy demo_crypto (pr_encode ?pr ?m) (stream_nonce (sc_send_seq ct)) (sc_key ct)"
      using e by (auto simp: stream_encrypt_def Let_def)
    then have "length (hd ps) = length (pr_encode ?pr ?m) + MAC_BYTES" by (simp only: seal_size [OF demo_laws(2)])
    then have "length (hd ps) \<le> MAX_FRAME" by (simp add: demo_proto_def MAC_BYTES_def MAX_FRAME_def)
    then have "\<forall>p \<in> set [hd ps, []]. frame_of p \<noteq> []" by (simp add: frame_of_ne)
    with ps show ?thesis by simp
  qed
  have "list_all2 (\<lambda>p seg. arrives (Some 50) (frame_of p) seg) ps (map (\<lambda>p. map Byte (frame_of p)) ps)"
    using ps arrives_after [of _ "[]" "Some 50"] by (simp add: list_all2_map2 list_all2_same)
  from peer_channel_delivers [OF ok a p _ _, of "\<lparr>ts_in = [], ts_timeout = None, ts_out = [], ts_room = None\<rparr>" ?inn _ "[]"] this
  show ?thesis unfolding Let_def p by auto
qed

text \<open>C29: two ends of this program never encrypt the relay connection. The client answers the host's
  \<open>SignedId\<close> with an empty \<open>PublicKey\<close>, on which the handshake ends without a cipher; everything the host
  sends afterwards is on the connection as it is encoded.\<close>

theorem relay_stays_plaintext:
  assumes "sign na (pr_encode_id_pk pr (local_id, fst pair)) sk = Some sm"
    and "client_secure_answer (Some (SignedId sm)) = Some answer" "ts_room relay = None" "proto_ok pr answer"
    and "length (pr_encode pr (Some (SignedId sm))) \<le> MAX_FRAME" "length (pr_encode pr answer) \<le> MAX_FRAME"
    and "arrives (ts_timeout relay) (frame_of (pr_encode pr answer)) seg" "ts_in relay = seg @ inp"
    and "host_handshake na pr local_id sk pair relay = (relay', res)" "length (pr_encode pr msg) \<le> MAX_FRAME"
  shows "res = Inr None \<and> ts_in relay' = inp
    \<and> send_peer_enc c pr relay' None msg = (relay'\<lparr>ts_out := ts_out relay' @ frame_of (pr_encode pr msg)\<rparr>, None, Inr ())"
proof -
  have a: "answer = Some (PublicKeyMsg empty_public_key)" using assms(2) by (simp add: client_secure_answer_def)
  note h = host_handshake_answered [OF assms(1,3,4-8) [unfolded a]]
  have "relay' = relay\<lparr>ts_in := inp, ts_out := ts_out relay @ frame_of (pr_encode pr (Some (SignedId sm)))\<rparr>" "res = Inr None"
    using h assms(9) by (simp_all add: empty_public_key_def)
  then show ?thesis using assms(3,10) by (simp add: send_peer_enc_def encrypt_opt_def send_framed_open)
qed

theorem relay_stays_plaintext_witness:
  "let sm = replicate 64 0 @ [1]; answer = Some (PublicKeyMsg empty_public_key); pr = demo_proto [Some (SignedId sm), answer];
       relay = \<lparr>ts_in = map Byte (frame_of (pr_encode pr answer)), ts_timeout = Some 10000, ts_out = [], ts_room = None\<rparr>
   in snd (host_handshake demo_nacl pr [] (replicate 64 0) ([1], []) relay) = Inr None"
proof -
  let ?sm = "replicate 64 0 @ [1] :: bytes" and ?a = "Some (PublicKeyMsg empty_public_key)"
  let ?pr = "demo_proto [Some (SignedId ?sm), ?a]"
  let ?relay = "\<lparr>ts_in = map Byte (frame_of (pr_encode ?pr ?a)), ts_timeout = Some 10000, ts_out = [], ts_room = None\<rparr>"
  obtain relay' res where h: "host_handshake demo_nacl ?pr [] (replicate 64 0) ([1], []) ?relay = (relay', res)" by fastforce
  have s: "sign demo_nacl (pr_encode_id_pk ?pr ([], fst ([1], []))) (replicate 64 0) = Some ?sm"
    by (simp add: sign_def SIGN_SK_LEN_def demo_nacl_def demo_proto_def)
  have ok: "proto_ok ?pr ?a" "length (pr_encode ?pr ?a) \<le> MAX_FRAME" "length (pr_encode ?pr (Some (SignedId ?sm))) \<le> MAX_FRAME"
    by (rule demo_proto_ok; simp)+
  have "arrives (Some 10000) (frame_of (pr_encode ?pr ?a)) (map Byte (frame_of (pr_encode ?pr ?a)))"
    using arrives_after [of "frame_of (pr_encode ?pr ?a)" "[]" "Some 10000"] frame_of_ne [OF ok(2)] by simp
  then have "res = Inr None"
    using relay_stays_plaintext [OF s _ _ ok(1,3,2) _ _ h ok(2), of _ "[]"] by (simp add: client_secure_answer_def)
  then show ?thesis unfolding Let_def h by simp
qed

text \<open>C34: with a peer that seals a symmetric key for the host's box key, the handshake ends with a cipher at
  both ends, with the same key and aligned in both directions.\<close>

theorem handshake_agrees_on_key:
  assumes "sign na (pr_encode_id_pk pr (local_id, fst pair)) sk = Some sm" "box_law na peer pair"
    and "length (fst pair) = 32" "length (snd pair) = 32" "length (fst peer) = 32" "length key = 32"
    and "create_symmetric_key_msg na peer key (fst pair) = Some (peer_pk, sealed, peer_key)"
    and "answer = Some (PublicKeyMsg \<lparr>pk_asymmetric_value = peer_pk, pk_symmetric_value = sealed\<rparr>)"
    and "ts_room relay = None" "proto_ok pr answer" "length (pr_encode pr (Some (SignedId sm))) \<le> MAX_FRAME"
    and "length (pr_encode pr answer) \<le> MAX_FRAME"
    and "arrives (ts_timeout relay) (frame_of (pr_encode pr answer)) seg" "ts_in relay = seg @ inp" "secretbox_law c"
  shows "\<exists>relay' cipher. host_handshake na pr local_id sk pair relay = (relay', Inr (Some cipher)) \<and> ts_in relay' = inp
    \<and> stream_cipher_new peer_key = Some cipher \<and> sc_key cipher = key \<and> aligned_opt c (Some cipher) (Some cipher)"
proof -
  obtain sealed' where k: "create_symmetric_key_msg na peer key (fst pair) = Some (fst peer, sealed', key)"
      "open_symmetric_key na sealed' (fst peer) (snd pair) = Some key"
    by (rule symmetric_key_agreement [OF assms(2-6)])
  then have e: "peer_pk = fst peer" "sealed = sealed'" "peer_key = key" using assms(7) by simp_all
  have ne: "fst peer \<noteq> []" using assms(5) by auto
  note h = host_handshake_answered [OF assms(1,9) assms(10-14) [unfolded assms(8)]]
  show ?thesis using h k(2) e ne assms(6,15)
    by (simp add: stream_cipher_new_def SECRETBOX_KEY_LEN_def aligned_opt_def)
qed

theorem handshake_agrees_on_key_witness:
  "let sm = replicate 64 0 @ replicate 32 1; key = replicate 32 9;
       answer = Some (PublicKeyMsg \<lparr>pk_asymmetric_value = replicate 32 3, pk_symmetric_value = replicate 16 0 @ key\<rparr>);
       pr = demo_proto [Some (SignedId sm), answer];
       relay = \<lparr>ts_in = map Byte (frame_of (pr_encode pr answer)), ts_timeout = Some 10000, ts_out = [], ts_room = None\<rparr>
   in \<exists>relay' cipher. host_handshake demo_nacl pr [] (replicate 64 0) (replicate 32 1, replicate 32 2) relay = (relay', Inr (Some cipher))
        \<and> sc_key cipher = key"
proof -
  let ?sm = "replicate 64 0 @ replicate 32 1 :: bytes" and ?key = "replicate 32 9 :: bytes"
  let ?a = "Some (PublicKeyMsg \<lparr>pk_asymmetric_value = replicate 32 3, pk_symmetric_value = replicate 16 0 @ ?key\<rparr>)"
  let ?pr = "demo_proto [Some (SignedId ?sm), ?a]"
  let ?relay = "\<lparr>ts_in = map Byte (frame_of (pr_encode ?pr ?a)), ts_timeout = Some 10000, ts_out = [], ts_room = None\<rparr>"
  have s: "sign demo_nacl (pr_encode_id_pk ?pr ([], fst (replicate 32 1, replicate 32 2 :: bytes))) (replicate 64 0) = Some ?sm"
    by (simp add: sign_def SIGN_SK_LEN_def demo_nacl_def demo_proto_def)
  have k: "create_symmetric_key_msg demo_nacl (replicate 32 3, replicate 32 4) ?key (fst (replicate 32 1, replicate 32 2 :: bytes))
      = Some (replicate 32 3, replicate 16 0 @ ?key, ?key)"
    by (simp add: create_symmetric_key_msg_def BOX_PK_LEN_def demo_nacl_def)
  have ok: "proto_ok ?pr ?a" "length (pr_encode ?pr ?a) \<le> MAX_FRAME" "length (pr_encode ?pr (Some (SignedId ?sm))) \<le> MAX_FRAME"
    by (rule demo_proto_ok; simp)+
  have "arrives (ts_timeout ?relay) (frame_of (pr_encode ?pr ?a)) (map Byte (frame_of (pr_encode ?pr ?a)))"
    using arrives_after [of "frame_of (pr_encode ?pr ?a)" "[]" "Some 10000"] frame_of_ne [OF ok(2)] by simp
  from handshake_agrees_on_key [OF s demo_laws(5) _ _ _ _ k refl _ ok(1,3,2) this, of "[]" demo_crypto] show ?thesis
    unfolding Let_def by (auto simp: demo_laws)
qed

end
