(* ===== verification/Relay_Login.thy ===== *)
theory Relay_Login
  imports Relay_Peer
begin

text \<open>
  The host's login phase (\<^verbatim>\<open>src/src/host.rs\<close>: the identity of the peer, \<open>wait_for_approval\<close>,
  \<open>verify_password\<close>, \<open>verify_access_password\<close>, \<open>send_login_error\<close> and the login loop of
  \<open>relay_session_inner\<close>) and the client's login request (\<^verbatim>\<open>src/src/transport.rs\<close>:
  \<open>build_login_request\<close>).

  Strings are lists of Unicode scalar values. The clock is a parameter: the time at the start of each turn
  of the loop and the time at which its message is handled, in milliseconds. The decisions the user makes
  (\<open>approve_incoming\<close>) are a list with their times; the approvals map takes them in as time passes. Log
  lines are left out; the approval request is the event the host's user sees.
\<close>

section \<open>Strings\<close>

definition utf8_char :: "nat \<Rightarrow> bytes" where
  "utf8_char ch =
     (if ch < 0x80 then [of_nat ch]
      else if ch < 0x800 then [of_nat (0xC0 + ch div 64), of_nat (0x80 + ch mod 64)]
      else if ch < 0x10000 then [of_nat (0xE0 + ch div 4096), of_nat (0x80 + ch div 64 mod 64), of_nat (0x80 + ch mod 64)]
      else [of_nat (0xF0 + ch div 262144), of_nat (0x80 + ch div 4096 mod 64), of_nat (0x80 + ch div 64 mod 64), of_nat (0x80 + ch mod 64)])"

definition as_bytes :: "rust_str \<Rightarrow> bytes" where
  "as_bytes s = concat (map utf8_char s)"

definition of_ascii :: "string \<Rightarrow> rust_str" where
  "of_ascii s = map of_char s"

definition ascii_lower :: "nat \<Rightarrow> nat" where
  "ascii_lower ch = (if 65 \<le> ch \<and> ch \<le> 90 then ch + 32 else ch)"

definition eq_ignore_ascii_case :: "rust_str \<Rightarrow> rust_str \<Rightarrow> bool" where
  "eq_ignore_ascii_case a b \<longleftrightarrow> map ascii_lower a = map ascii_lower b"

text \<open>\<open>char::is_control\<close>: the Unicode category \<open>Cc\<close>.\<close>

definition is_control :: "nat \<Rightarrow> bool" where
  "is_control ch \<longleftrightarrow> ch \<le> 0x1F \<or> (0x7F \<le> ch \<and> ch \<le> 0x9F)"

text \<open>\<open>format!("{:016x}", n)\<close>.\<close>

definition hex16 :: "u64 \<Rightarrow> rust_str" where
  "hex16 n = map (\<lambda>i. hex_char (unat (drop_bit (4 * i) n AND 0xF))) (rev [0..<16])"

section \<open>Passwords\<close>

definition verify_password :: "Crypto \<Rightarrow> bytes \<Rightarrow> rust_str \<Rightarrow> rust_str \<Rightarrow> rust_str \<Rightarrow> bool" where
  "verify_password c received our_password salt challenge =
     (if received = [] then our_password = []
      else let h1 = cr_sha256 c (as_bytes our_password @ as_bytes salt);
               expected = cr_sha256 c (h1 @ as_bytes challenge)
           in received = expected)"

record AppConfig =
  cfg_local_password :: rust_str
  cfg_permanent_password :: rust_str
  cfg_require_confirmation :: bool

definition verify_access_password :: "Crypto \<Rightarrow> bytes \<Rightarrow> AppConfig \<Rightarrow> rust_str \<Rightarrow> rust_str \<Rightarrow> bool" where
  "verify_access_password c received cfg salt challenge \<longleftrightarrow>
     verify_password c received (cfg_local_password cfg) salt challenge
     \<or> (str_trim (cfg_permanent_password cfg) \<noteq> []
        \<and> verify_password c received (cfg_permanent_password cfg) salt challenge)"

text \<open>The client's request. The video option is built by other code and is an argument, encoded; so is the
  name of the operating system.\<close>

definition build_login_request ::
  "Crypto \<Rightarrow> rust_str \<Rightarrow> rust_str \<Rightarrow> rust_str \<Rightarrow> rust_str \<Rightarrow> rust_str \<Rightarrow> rust_str \<Rightarrow> bytes \<Rightarrow> rust_str \<Rightarrow> bool \<Rightarrow> PeerMessage" where
  "build_login_request c password salt challenge remote_id client_id client_name video_option os evrt2_only =
     (let password_hash = (if password = [] then []
            else let h1 = cr_sha256 c (as_bytes password @ as_bytes salt)
                 in cr_sha256 c (h1 @ as_bytes challenge))
      in Some (LoginRequestMsg \<lparr>lr_username = remote_id, lr_password = password_hash, lr_my_id = client_id,
            lr_my_name = client_name, lr_option = Some video_option, lr_video_ack_required = False,
            lr_version = of_ascii ''1.4.6'', lr_my_platform = os, lr_evrt2_only = evrt2_only\<rparr>))"

text \<open>The client's answer to a \<open>Hash\<close>: it logs in once.\<close>

definition client_hash_answer ::
  "Crypto \<Rightarrow> bool \<Rightarrow> rust_str \<Rightarrow> Hash \<Rightarrow> rust_str \<Rightarrow> rust_str \<Rightarrow> rust_str \<Rightarrow> bytes \<Rightarrow> rust_str \<Rightarrow> bool \<Rightarrow> bool \<times> PeerMessage option" where
  "client_hash_answer c sent_login password h remote_id client_id client_name video_option os evrt2_only =
     (if \<not> sent_login then
        (True, Some (build_login_request c password (hash_salt h) (hash_challenge h) remote_id client_id client_name
                       video_option os evrt2_only))
      else (sent_login, None))"

section \<open>The peer's identity\<close>

record RemoteIdentity =
  ri_peer_id :: rust_str
  ri_peer_name :: rust_str
  ri_platform :: rust_str
  ri_version :: rust_str

definition clean_identity_field :: "rust_str \<Rightarrow> nat \<Rightarrow> rust_str" where
  "clean_identity_field value limit = take limit (filter (\<lambda>ch. \<not> is_control ch) (str_trim value))"

text \<open>The Russian words for ``unknown device'', as code points.\<close>

definition unknown_device :: rust_str where
  "unknown_device = [0x41D, 0x435, 0x438, 0x437, 0x432, 0x435, 0x441, 0x442, 0x43D, 0x43E, 0x435, 32,
     0x443, 0x441, 0x442, 0x440, 0x43E, 0x439, 0x441, 0x442, 0x432, 0x43E]"

definition remote_identity_from_login :: "LoginRequest \<Rightarrow> RemoteIdentity" where
  "remote_identity_from_login login =
     (let raw_id = clean_identity_field (lr_my_id login) 128;
          raw_name = clean_identity_field (lr_my_name login) 128;
          peer_id =
            (if raw_id \<noteq> [] \<and> \<not> eq_ignore_ascii_case raw_id (of_ascii ''evertydesk-lite'')
                \<and> \<not> eq_ignore_ascii_case raw_id (of_ascii ''rustdesk'') then raw_id
             else if raw_name \<noteq> [] \<and> \<not> eq_ignore_ascii_case raw_name (of_ascii ''evertydesk lite'')
                \<and> \<not> eq_ignore_ascii_case raw_name (of_ascii ''rustdesk'') then raw_name
             else unknown_device)
      in \<lparr>ri_peer_id = peer_id, ri_peer_name = raw_name,
          ri_platform = clean_identity_field (lr_my_platform login) 64,
          ri_version = clean_identity_field (lr_version login) 32\<rparr>)"

section \<open>Approvals\<close>

text \<open>The approvals map, and the decisions of the user that are still to come, by time.\<close>

record Approvals =
  ap_map :: "rust_str \<rightharpoonup> bool"
  ap_coming :: "(nat \<times> rust_str \<times> bool) list"

definition approve_incoming :: "rust_str \<Rightarrow> bool \<Rightarrow> (rust_str \<rightharpoonup> bool) \<Rightarrow> (rust_str \<rightharpoonup> bool)" where
  "approve_incoming peer_id accept m = m(peer_id \<mapsto> accept)"

definition approvals_at :: "nat \<Rightarrow> Approvals \<Rightarrow> Approvals" where
  "approvals_at t ap =
     \<lparr>ap_map = foldl (\<lambda>m (_, p, d). approve_incoming p d m) (ap_map ap) (takeWhile (\<lambda>(u, _). u \<le> t) (ap_coming ap)),
      ap_coming = dropWhile (\<lambda>(u, _). u \<le> t) (ap_coming ap)\<rparr>"

text \<open>\<open>approvals().lock().unwrap().remove(p)\<close> at a time.\<close>

definition approvals_remove :: "nat \<Rightarrow> rust_str \<Rightarrow> Approvals \<Rightarrow> bool option \<times> Approvals" where
  "approvals_remove t p ap =
     (let ap = approvals_at t ap in (ap_map ap p, ap\<lparr>ap_map := (ap_map ap)(p := None)\<rparr>))"

function wait_for_approval :: "nat \<Rightarrow> nat \<Rightarrow> rust_str \<Rightarrow> Approvals \<Rightarrow> bool option \<times> Approvals" where
  "wait_for_approval now deadline peer_id ap =
     (if now < deadline then
        (case approvals_remove now peer_id ap of
           (Some decision, ap) \<Rightarrow> (Some decision, ap)
         | (None, ap) \<Rightarrow> wait_for_approval (now + 150) deadline peer_id ap)
      else (None, ap))"
  by pat_completeness auto
termination
  by (relation "measure (\<lambda>(now, deadline, _, _). deadline - now)") auto

declare wait_for_approval.simps [simp del]

section \<open>The login loop\<close>

datatype LoginError = LoginTimeout | RelayRead ChanError | LoginSend FrameError | IncomingRejected
  | ApprovalTimedOut | TooManyPasswords | TooManyOthers

datatype HostEvent = ApprovalRequested RemoteIdentity

record LoginState =
  ls_relay :: TcpStream
  ls_cipher :: "StreamCipher option"
  ls_approvals :: Approvals
  ls_identity :: RemoteIdentity
  ls_events :: "HostEvent list"
  ls_others :: nat
  ls_pw_attempts :: nat

definition LOGIN_DEADLINE_MS :: nat where "LOGIN_DEADLINE_MS = 90000"
definition APPROVAL_MS :: nat where "APPROVAL_MS = 45000"

definition send_peer :: "Crypto \<Rightarrow> Proto \<Rightarrow> PeerMessage \<Rightarrow> LoginState \<Rightarrow> LoginState \<times> (FrameError + unit)" where
  "send_peer c pr msg st = (case send_peer_enc c pr (ls_relay st) (ls_cipher st) msg of
      (relay, cipher, res) \<Rightarrow> (st\<lparr>ls_relay := relay, ls_cipher := cipher\<rparr>, res))"

definition send_login_error :: "Crypto \<Rightarrow> Proto \<Rightarrow> rust_str \<Rightarrow> LoginState \<Rightarrow> LoginState \<times> (FrameError + unit)" where
  "send_login_error c pr message st = send_peer c pr (Some (LoginResponse (Some (Error message)))) st"

text \<open>One \<open>LoginRequest\<close>: \<open>Some\<close> ends the loop, \<open>None\<close> goes on. The check of the attempts at the bottom is
  reached from the branches that neither accept nor return.\<close>

definition count_attempt :: "LoginState \<times> (FrameError + unit) \<Rightarrow> LoginState \<times> (LoginError + LoginRequest) option" where
  "count_attempt r = (case r of
      (st, Inl e) \<Rightarrow> (st, Some (Inl (LoginSend e)))
    | (st, Inr _) \<Rightarrow>
       (let st = st\<lparr>ls_pw_attempts := ls_pw_attempts st + 1\<rparr>
        in if ls_pw_attempts st > 10 then (st, Some (Inl TooManyPasswords)) else (st, None)))"

definition login_request ::
  "Crypto \<Rightarrow> Proto \<Rightarrow> AppConfig \<Rightarrow> rust_str \<Rightarrow> rust_str \<Rightarrow> rust_str \<Rightarrow> nat \<Rightarrow> LoginRequest \<Rightarrow> LoginState
     \<Rightarrow> LoginState \<times> (LoginError + LoginRequest) option" where
  "login_request c pr cfg salt challenge peer_id t lr st =
     (let identity = remote_identity_from_login lr;
          request_peer_id = ri_peer_id identity;
          st = st\<lparr>ls_identity := identity\<rparr>;
          st = (if request_peer_id \<noteq> peer_id
                then st\<lparr>ls_approvals := snd (approvals_remove t request_peer_id (ls_approvals st))\<rparr> else st)
      in if lr_password lr = [] then
           (if cfg_require_confirmation cfg \<or> lr_password lr = [] then
              (let st = st\<lparr>ls_events := ls_events st @ [ApprovalRequested identity]\<rparr>
               in case wait_for_approval t (t + APPROVAL_MS) request_peer_id (ls_approvals st) of
                    (decision, ap) \<Rightarrow>
                      (let st = st\<lparr>ls_approvals := ap\<rparr>
                       in case decision of
                            Some True \<Rightarrow> (st, Some (Inr lr))
                          | Some False \<Rightarrow> (case send_login_error c pr (of_ascii ''Rejected'') st of
                                (st, Inl e) \<Rightarrow> (st, Some (Inl (LoginSend e)))
                              | (st, Inr _) \<Rightarrow> (st, Some (Inl IncomingRejected)))
                          | None \<Rightarrow> (case send_login_error c pr (of_ascii ''Timeout'') st of
                                (st, Inl e) \<Rightarrow> (st, Some (Inl (LoginSend e)))
                              | (st, Inr _) \<Rightarrow> (st, Some (Inl ApprovalTimedOut)))))
            else count_attempt (send_login_error c pr (of_ascii ''Empty Password'') st))
         else if verify_access_password c (lr_password lr) cfg salt challenge then (st, Some (Inr lr))
         else count_attempt (send_login_error c pr (of_ascii ''Wrong Password'') st))"

definition login_message ::
  "Crypto \<Rightarrow> Proto \<Rightarrow> AppConfig \<Rightarrow> rust_str \<Rightarrow> rust_str \<Rightarrow> rust_str \<Rightarrow> nat \<Rightarrow> PeerMessage \<Rightarrow> LoginState
     \<Rightarrow> LoginState \<times> (LoginError + LoginRequest) option" where
  "login_message c pr cfg salt challenge peer_id t msg st = (case msg of
      Some (LoginRequestMsg lr) \<Rightarrow> login_request c pr cfg salt challenge peer_id t lr st
    | Some (TestDelayMsg d) \<Rightarrow>
       (fst (send_peer c pr (Some (TestDelayMsg (d\<lparr>td_from_client := False\<rparr>))) st), None)
    | other \<Rightarrow>
       (let st = st\<lparr>ls_others := ls_others st + 1\<rparr>
        in if ls_others st > 40 then (st, Some (Inl TooManyOthers)) else (st, None)))"

lemma send_peer_in [simp]:
  "ts_in (ls_relay (fst (send_peer c pr msg st))) = ts_in (ls_relay st)"
  by (simp add: send_peer_def send_peer_enc_def send_framed_cases write_all_def split: prod.splits option.splits)

lemma send_peer_fields [simp]:
  "ls_approvals (fst (send_peer c pr msg st)) = ls_approvals st"
  "ls_pw_attempts (fst (send_peer c pr msg st)) = ls_pw_attempts st"
  "ls_others (fst (send_peer c pr msg st)) = ls_others st"
  "ls_events (fst (send_peer c pr msg st)) = ls_events st"
  by (simp_all add: send_peer_def split: prod.split)

lemma send_login_error_fields [simp]:
  "ts_in (ls_relay (fst (send_login_error c pr e st))) = ts_in (ls_relay st)"
  "ls_approvals (fst (send_login_error c pr e st)) = ls_approvals st"
  "ls_pw_attempts (fst (send_login_error c pr e st)) = ls_pw_attempts st"
  "ls_others (fst (send_login_error c pr e st)) = ls_others st"
  by (simp_all add: send_login_error_def)

lemma send_login_error_result:
  "send_login_error c pr e st = (st', x) \<Longrightarrow> ts_in (ls_relay st') = ts_in (ls_relay st) \<and> ls_approvals st' = ls_approvals st
     \<and> ls_pw_attempts st' = ls_pw_attempts st \<and> ls_others st' = ls_others st"
  using send_login_error_fields [of c pr e st] by simp

text \<open>The outcomes of handling a login request and a message, as rules.\<close>

lemma count_attempt_cases:
  assumes "count_attempt (send_login_error c pr e st) = (st', r)"
  shows "ts_in (ls_relay st') = ts_in (ls_relay st) \<and> ls_approvals st' = ls_approvals st \<and> ls_others st' = ls_others st
    \<and> ((\<exists>err. r = Some (Inl (LoginSend err)) \<and> ls_pw_attempts st' = ls_pw_attempts st)
       \<or> (r = Some (Inl TooManyPasswords) \<and> ls_pw_attempts st' = ls_pw_attempts st + 1 \<and> 10 < ls_pw_attempts st')
       \<or> (r = None \<and> ls_pw_attempts st' = ls_pw_attempts st + 1 \<and> ls_pw_attempts st' \<le> 10))"
proof -
  obtain s res where s: "send_login_error c pr e st = (s, res)" by fastforce
  note send_login_error_result [OF s]
  then show ?thesis using assms s by (auto simp: count_attempt_def Let_def split: sum.splits if_splits)
qed

definition request_state :: "rust_str \<Rightarrow> nat \<Rightarrow> LoginRequest \<Rightarrow> LoginState \<Rightarrow> LoginState" where
  "request_state peer_id t lr st =
     (let identity = remote_identity_from_login lr; st = st\<lparr>ls_identity := identity\<rparr>
      in if ri_peer_id identity \<noteq> peer_id
         then st\<lparr>ls_approvals := snd (approvals_remove t (ri_peer_id identity) (ls_approvals st))\<rparr> else st)"

lemma request_state_fields [simp]:
  "ls_relay (request_state p t lr st) = ls_relay st" "ls_cipher (request_state p t lr st) = ls_cipher st"
  "ls_pw_attempts (request_state p t lr st) = ls_pw_attempts st" "ls_others (request_state p t lr st) = ls_others st"
  by (simp_all add: request_state_def Let_def)

lemma login_request_cases:
  assumes "login_request c pr cfg salt challenge peer_id t lr st = (st', r)"
  defines "rid \<equiv> ri_peer_id (remote_identity_from_login lr)" and "st0 \<equiv> request_state peer_id t lr st"
  obtains
    (approval) d ap where "lr_password lr = []" "wait_for_approval t (t + APPROVAL_MS) rid (ls_approvals st0) = (d, ap)"
      "ls_approvals st' = ap" "ts_in (ls_relay st') = ts_in (ls_relay st)" "ls_pw_attempts st' = ls_pw_attempts st" "ls_others st' = ls_others st"
      "(d = Some True \<and> r = Some (Inr lr)) \<or> (d \<noteq> Some True \<and> (\<exists>e. r = Some (Inl e) \<and> e \<noteq> TooManyPasswords))"
  | (password) "lr_password lr \<noteq> []" "verify_access_password c (lr_password lr) cfg salt challenge" "st' = st0" "r = Some (Inr lr)"
  | (wrong) "lr_password lr \<noteq> []" "\<not> verify_access_password c (lr_password lr) cfg salt challenge"
      "count_attempt (send_login_error c pr (of_ascii ''Wrong Password'') st0) = (st', r)"
proof (cases "lr_password lr = []")
  case True
  let ?id = "remote_identity_from_login lr"
  let ?st1 = "st0\<lparr>ls_events := ls_events st0 @ [ApprovalRequested ?id]\<rparr>"
  obtain d ap where w: "wait_for_approval t (t + APPROVAL_MS) rid (ls_approvals st0) = (d, ap)" by fastforce
  let ?st2 = "?st1\<lparr>ls_approvals := ap\<rparr>"
  have e: "(st', r) = (case d of Some True \<Rightarrow> (?st2, Some (Inr lr))
      | Some False \<Rightarrow> (case send_login_error c pr (of_ascii ''Rejected'') ?st2 of
            (st, Inl e) \<Rightarrow> (st, Some (Inl (LoginSend e))) | (st, Inr _) \<Rightarrow> (st, Some (Inl IncomingRejected)))
      | None \<Rightarrow> (case send_login_error c pr (of_ascii ''Timeout'') ?st2 of
            (st, Inl e) \<Rightarrow> (st, Some (Inl (LoginSend e))) | (st, Inr _) \<Rightarrow> (st, Some (Inl ApprovalTimedOut))))"
    using assms(1) w unfolding login_request_def rid_def st0_def request_state_def Let_def by (simp add: True)
  have s2: "ls_approvals ?st2 = ap" "ts_in (ls_relay ?st2) = ts_in (ls_relay st)" "ls_pw_attempts ?st2 = ls_pw_attempts st" "ls_others ?st2 = ls_others st"
    by (simp_all add: st0_def)
  have "ls_approvals st' = ap \<and> ts_in (ls_relay st') = ts_in (ls_relay st) \<and> ls_pw_attempts st' = ls_pw_attempts st \<and> ls_others st' = ls_others st
      \<and> ((d = Some True \<and> r = Some (Inr lr)) \<or> (d \<noteq> Some True \<and> (\<exists>e. r = Some (Inl e) \<and> e \<noteq> TooManyPasswords)))"
    using e s2 by (auto dest!: send_login_error_result split: option.splits bool.splits prod.splits sum.splits)
  then show thesis by (intro approval [OF True w]) simp_all
next
  case False
  show thesis
  proof (cases "verify_access_password c (lr_password lr) cfg salt challenge")
    case True
    then show thesis using assms(1) False
      by (intro password) (simp_all add: login_request_def st0_def request_state_def Let_def)
  next
    case nv: False
    then show thesis using assms(1) False
      by (intro wrong) (simp_all add: login_request_def st0_def request_state_def Let_def)
  qed
qed

lemma login_message_cases:
  assumes "login_message c pr cfg salt challenge peer_id t msg st = (st', r)"
  obtains (login) lr where "msg = Some (LoginRequestMsg lr)" "login_request c pr cfg salt challenge peer_id t lr st = (st', r)"
  | (delay) d where "msg = Some (TestDelayMsg d)" "st' = fst (send_peer c pr (Some (TestDelayMsg (d\<lparr>td_from_client := False\<rparr>))) st)" "r = None"
  | (other) "st' = st\<lparr>ls_others := ls_others st + 1\<rparr>" "r = (if 40 < ls_others st' then Some (Inl TooManyOthers) else None)"
proof (cases "\<exists>lr. msg = Some (LoginRequestMsg lr)")
  case True
  then show thesis using assms login by (auto simp: login_message_def)
next
  case nl: False
  show thesis
  proof (cases "\<exists>d. msg = Some (TestDelayMsg d)")
    case True
    then show thesis using assms delay by (auto simp: login_message_def)
  next
    case False
    have "login_message c pr cfg salt challenge peer_id t msg st
        = (let st = st\<lparr>ls_others := ls_others st + 1\<rparr> in if ls_others st > 40 then (st, Some (Inl TooManyOthers)) else (st, None))"
    proof (cases msg)
      case (Some u)
      then show ?thesis using nl False by (cases u) (simp_all add: login_message_def)
    qed (simp add: login_message_def)
    then show thesis using assms other by (simp add: Let_def split: if_splits)
  qed
qed

lemma login_message_in: "login_message c pr cfg salt challenge peer_id t msg st = (st', r) \<Longrightarrow> ts_in (ls_relay st') = ts_in (ls_relay st)"
proof (erule login_message_cases)
  fix lr assume "login_request c pr cfg salt challenge peer_id t lr st = (st', r)"
  then show ?thesis
  proof (cases rule: login_request_cases)
    case wrong
    then show ?thesis using count_attempt_cases by fastforce
  qed simp_all
qed simp_all

function login_loop ::
  "Crypto \<Rightarrow> Proto \<Rightarrow> AppConfig \<Rightarrow> rust_str \<Rightarrow> rust_str \<Rightarrow> rust_str \<Rightarrow> (nat \<Rightarrow> nat) \<Rightarrow> (nat \<Rightarrow> nat) \<Rightarrow> nat \<Rightarrow> nat \<Rightarrow> LoginState
     \<Rightarrow> LoginState \<times> (LoginError + LoginRequest)" where
  "login_loop c pr cfg salt challenge peer_id clock handled login_deadline k st =
     (if login_deadline \<le> clock k then (st, Inl LoginTimeout)
      else case recv_peer_enc c pr (ls_relay st) (ls_cipher st) of
          (relay, cipher, Inl e) \<Rightarrow> (st\<lparr>ls_relay := relay, ls_cipher := cipher\<rparr>, Inl (RelayRead e))
        | (relay, cipher, Inr None) \<Rightarrow>
            login_loop c pr cfg salt challenge peer_id clock handled login_deadline (k + 1) (st\<lparr>ls_relay := relay, ls_cipher := cipher\<rparr>)
        | (relay, cipher, Inr (Some msg)) \<Rightarrow>
            (case login_message c pr cfg salt challenge peer_id (handled k) msg (st\<lparr>ls_relay := relay, ls_cipher := cipher\<rparr>) of
               (st, Some res) \<Rightarrow> (st, res)
             | (st, None) \<Rightarrow> login_loop c pr cfg salt challenge peer_id clock handled login_deadline (k + 1) st))"
  by pat_completeness auto

lemma recv_peer_enc_consumes: "recv_peer_enc c pr s ci = (s', ci', Inr m) \<Longrightarrow> length (ts_in s') < length (ts_in s)"
  unfolding channel_shapes by (rule recv_with_consumes)

termination login_loop
  by (relation "measure (\<lambda>(_, _, _, _, _, _, _, _, _, _, st). length (ts_in (ls_relay st)))")
    (auto dest!: recv_peer_enc_consumes [OF sym] login_message_in [OF sym])

declare login_loop.simps [simp del]

text \<open>From the challenge to the login: stale approvals of this peer are dropped, the \<open>Hash\<close> is sent, and the
  loop runs with a deadline of 90 seconds.\<close>

definition host_login ::
  "Crypto \<Rightarrow> Proto \<Rightarrow> AppConfig \<Rightarrow> rust_str \<Rightarrow> u64 \<Rightarrow> u64 \<Rightarrow> (nat \<Rightarrow> nat) \<Rightarrow> (nat \<Rightarrow> nat) \<Rightarrow> nat \<Rightarrow> TcpStream \<Rightarrow> StreamCipher option
     \<Rightarrow> RemoteIdentity \<Rightarrow> Approvals \<Rightarrow> LoginState \<times> (LoginError + LoginRequest)" where
  "host_login c pr cfg peer_id r1 r2 clock handled start relay cipher identity approvals =
     (let ap = snd (approvals_remove start peer_id approvals);
          salt = hex16 r1; challenge = hex16 r2;
          st = \<lparr>ls_relay = relay, ls_cipher = cipher, ls_approvals = ap, ls_identity = identity, ls_events = [],
                ls_others = 0, ls_pw_attempts = 0\<rparr>
      in case send_peer c pr (Some (HashMsg \<lparr>hash_salt = salt, hash_challenge = challenge\<rparr>)) st of
           (st, Inl e) \<Rightarrow> (st, Inl (LoginSend e))
         | (st, Inr _) \<Rightarrow> login_loop c pr cfg salt challenge peer_id clock handled (start + LOGIN_DEADLINE_MS) 0 st)"

section \<open>Approvals of this session\<close>

lemma approvals_fold:
  "foldl (\<lambda>m (_, p, d). approve_incoming p d m) m evs p = Some d \<Longrightarrow> m p = Some d \<or> (\<exists>u. (u, p, d) \<in> set evs)"
proof (induction evs arbitrary: m)
  case (Cons e evs)
  obtain u q b where e: "e = (u, q, b)" by (cases e)
  from Cons.IH [of "approve_incoming q b m"] Cons.prems
  show ?case by (auto simp: e approve_incoming_def split: if_splits)
qed simp

definition from_session :: "(nat \<times> rust_str \<times> bool) set \<Rightarrow> rust_str \<Rightarrow> Approvals \<Rightarrow> bool" where
  "from_session C p ap \<longleftrightarrow> set (ap_coming ap) \<subseteq> C \<and> (\<forall>d. ap_map ap p = Some d \<longrightarrow> (\<exists>t. (t, p, d) \<in> C))"

lemma from_session_at: "from_session C p ap \<Longrightarrow> from_session C p (approvals_at t ap)"
  unfolding from_session_def approvals_at_def
  by (auto dest!: approvals_fold dest: set_takeWhileD set_dropWhileD)

lemma approvals_remove_coming: "set (ap_coming (snd (approvals_remove t q ap))) \<subseteq> set (ap_coming ap)"
  by (auto simp: approvals_remove_def Let_def approvals_at_def dest: set_dropWhileD)

lemma from_session_removed: "set (ap_coming ap) \<subseteq> C \<Longrightarrow> from_session C q (snd (approvals_remove t q ap))"
  using approvals_remove_coming [of t q ap] by (auto simp: from_session_def approvals_remove_def Let_def)

lemma from_session_remove:
  assumes "from_session C p ap"
  shows "from_session C p (snd (approvals_remove t q ap))"
  using from_session_at [OF assms, of t] by (auto simp: from_session_def approvals_remove_def Let_def)

lemma wait_for_approval_session:
  "wait_for_approval now deadline p ap = (Some d, ap') \<Longrightarrow> from_session C p ap \<Longrightarrow> \<exists>t. (t, p, d) \<in> C"
proof (induction now deadline p ap rule: wait_for_approval.induct)
  case (1 now deadline p ap)
  obtain r ap1 where r: "approvals_remove now p ap = (r, ap1)" by fastforce
  have lt: "now < deadline" using 1(2) by (subst (asm) wait_for_approval.simps) (simp split: if_splits)
  show ?case
  proof (cases r)
    case None
    then have "wait_for_approval (now + 150) deadline p ap1 = (Some d, ap')"
      using 1(2) lt r by (subst (asm) wait_for_approval.simps) simp
    moreover have "from_session C p ap1" using from_session_remove [OF 1(3), of now p] r by simp
    ultimately show ?thesis using 1(1) [OF lt r [symmetric] None] by simp
  next
    case (Some d')
    then have "d' = d" using 1(2) lt r by (subst (asm) wait_for_approval.simps) simp
    then have "ap_map (approvals_at now ap) p = Some d" using r Some by (simp add: approvals_remove_def Let_def)
    then show ?thesis using from_session_at [OF 1(3), of now] by (simp add: from_session_def)
  qed
qed

definition admitted ::
  "(nat \<times> rust_str \<times> bool) set \<Rightarrow> Crypto \<Rightarrow> AppConfig \<Rightarrow> rust_str \<Rightarrow> rust_str \<Rightarrow> LoginRequest \<Rightarrow> bool" where
  "admitted C c cfg salt challenge lr \<longleftrightarrow>
     (if lr_password lr = [] then \<exists>t. (t, ri_peer_id (remote_identity_from_login lr), True) \<in> C
      else verify_access_password c (lr_password lr) cfg salt challenge)"

lemma login_message_session:
  assumes "login_message c pr cfg salt challenge peer_id t msg st = (st', r)" "from_session C peer_id (ls_approvals st)"
  shows "(r = None \<longrightarrow> from_session C peer_id (ls_approvals st')) \<and> (\<forall>lr. r = Some (Inr lr) \<longrightarrow> admitted C c cfg salt challenge lr)"
  using assms(1)
proof (cases rule: login_message_cases)
  case (login lr)
  let ?rid = "ri_peer_id (remote_identity_from_login lr)"
  let ?st0 = "request_state peer_id t lr st"
  have C: "set (ap_coming (ls_approvals st)) \<subseteq> C" using assms(2) by (simp add: from_session_def)
  have s0: "from_session C peer_id (ls_approvals ?st0)" "from_session C ?rid (ls_approvals ?st0)"
    using assms(2) from_session_remove [OF assms(2), of t ?rid] from_session_removed [OF C, of ?rid t]
    by (auto simp: request_state_def Let_def)
  from login(2) show ?thesis
  proof (cases rule: login_request_cases)
    case (approval d ap)
    then show ?thesis using wait_for_approval_session [OF _ s0(2)] by (auto simp: admitted_def)
  next
    case password
    then show ?thesis by (simp add: admitted_def)
  next
    case wrong
    then show ?thesis using count_attempt_cases [OF wrong(3)] s0(1) by auto
  qed
qed (use assms(2) in auto)

lemma login_loop_session:
  "login_loop c pr cfg salt challenge peer_id clock handled dl k st = (st', Inr lr) \<Longrightarrow> from_session C peer_id (ls_approvals st)
     \<Longrightarrow> admitted C c cfg salt challenge lr"
proof (induction c pr cfg salt challenge peer_id clock handled dl k st rule: login_loop.induct)
  case (1 c pr cfg salt challenge peer_id clock handled dl k st)
  have lt: "\<not> dl \<le> clock k" using 1(3) by (subst (asm) login_loop.simps) (auto split: if_splits)
  obtain relay cipher got where g: "recv_peer_enc c pr (ls_relay st) (ls_cipher st) = (relay, cipher, got)" by (metis prod_cases3)
  let ?st = "st\<lparr>ls_relay := relay, ls_cipher := cipher\<rparr>"
  obtain m where m: "got = Inr m" using 1(3) lt g by (subst (asm) login_loop.simps) (cases got, auto)
  note g' = g [unfolded m]
  show ?case
  proof (cases m)
    case None
    then have "login_loop c pr cfg salt challenge peer_id clock handled dl (k + 1) ?st = (st', Inr lr)"
      using 1(3) lt g' by (subst (asm) login_loop.simps) simp
    then show ?thesis using 1(1) [OF lt g' [symmetric] refl refl None] 1(4) by simp
  next
    case (Some msg)
    obtain st1 r where lm: "login_message c pr cfg salt challenge peer_id (handled k) msg ?st = (st1, r)" by fastforce
    have s: "(r = None \<longrightarrow> from_session C peer_id (ls_approvals st1)) \<and> (\<forall>lr. r = Some (Inr lr) \<longrightarrow> admitted C c cfg salt challenge lr)"
      using login_message_session [OF lm, of C] 1(4) by simp
    have e: "(case r of Some res \<Rightarrow> (st1, res) | None \<Rightarrow> login_loop c pr cfg salt challenge peer_id clock handled dl (k + 1) st1) = (st', Inr lr)"
      using 1(3) lt g' Some lm by (subst (asm) login_loop.simps) (cases r; simp)
    show ?thesis
    proof (cases r)
      case None
      then show ?thesis using 1(2) [OF lt g' [symmetric] refl refl Some lm [symmetric] None] e s by simp
    next
      case (Some res)
      then show ?thesis using e s by simp
    qed
  qed
qed

section \<open>Guesses\<close>

text \<open>Messages handled one after the other, each with its time, until one of them ends the login.\<close>

fun login_run ::
  "Crypto \<Rightarrow> Proto \<Rightarrow> AppConfig \<Rightarrow> rust_str \<Rightarrow> rust_str \<Rightarrow> rust_str \<Rightarrow> (nat \<times> PeerMessage) list \<Rightarrow> LoginState
     \<Rightarrow> LoginState \<times> (LoginError + LoginRequest) option" where
  "login_run c pr cfg salt challenge peer_id [] st = (st, None)"
| "login_run c pr cfg salt challenge peer_id ((t, msg) # msgs) st =
     (case login_message c pr cfg salt challenge peer_id t msg st of
        (st, Some r) \<Rightarrow> (st, Some r)
      | (st, None) \<Rightarrow> login_run c pr cfg salt challenge peer_id msgs st)"

definition wrong_guess :: "Crypto \<Rightarrow> AppConfig \<Rightarrow> rust_str \<Rightarrow> rust_str \<Rightarrow> PeerMessage \<Rightarrow> bool" where
  "wrong_guess c cfg salt challenge msg = (case msg of
      Some (LoginRequestMsg lr) \<Rightarrow> lr_password lr \<noteq> [] \<and> \<not> verify_access_password c (lr_password lr) cfg salt challenge
    | _ \<Rightarrow> False)"

definition is_login :: "PeerMessage \<Rightarrow> bool" where
  "is_login msg = (case msg of Some (LoginRequestMsg lr) \<Rightarrow> True | _ \<Rightarrow> False)"

lemma wrong_guess_login: "wrong_guess c cfg salt challenge (Some (LoginRequestMsg lr)) \<longleftrightarrow>
    lr_password lr \<noteq> [] \<and> \<not> verify_access_password c (lr_password lr) cfg salt challenge"
  by (simp add: wrong_guess_def)

lemma login_message_none:
  assumes "login_message c pr cfg salt challenge peer_id t msg st = (st', None)"
  shows "(is_login msg \<longrightarrow> wrong_guess c cfg salt challenge msg)
    \<and> ls_pw_attempts st' = ls_pw_attempts st + (if wrong_guess c cfg salt challenge msg then 1 else 0)
    \<and> (ls_pw_attempts st \<le> 10 \<longrightarrow> ls_pw_attempts st' \<le> 10)"
proof (cases "is_login msg")
  case True
  then obtain lr where m: "msg = Some (LoginRequestMsg lr)" by (auto simp: is_login_def split: option.splits PeerUnion.splits)
  have "login_request c pr cfg salt challenge peer_id t lr st = (st', None)" using assms m by (simp add: login_message_def)
  then show ?thesis
  proof (cases rule: login_request_cases)
    case wrong
    then show ?thesis using count_attempt_cases [OF wrong(3)] by (auto simp: m wrong_guess_login)
  qed auto
next
  case False
  have w: "\<not> wrong_guess c cfg salt challenge msg" using False
    by (auto simp: wrong_guess_def is_login_def split: option.splits PeerUnion.splits)
  from assms show ?thesis
  proof (cases rule: login_message_cases)
    case (login lr)
    then show ?thesis using False by (simp add: is_login_def)
  qed (use w False in simp_all)
qed

lemma login_run_none:
  "login_run c pr cfg salt challenge peer_id msgs st = (st', None) \<Longrightarrow> ls_pw_attempts st \<le> 10 \<Longrightarrow>
     (\<forall>m \<in> snd ` set msgs. is_login m \<longrightarrow> wrong_guess c cfg salt challenge m)
     \<and> ls_pw_attempts st' = ls_pw_attempts st + length (filter (\<lambda>(_, m). wrong_guess c cfg salt challenge m) msgs)
     \<and> ls_pw_attempts st' \<le> 10"
proof (induction msgs arbitrary: st)
  case (Cons x msgs)
  obtain t m where x: "x = (t, m)" by (cases x)
  obtain st1 where s: "login_message c pr cfg salt challenge peer_id t m st = (st1, None)"
      "login_run c pr cfg salt challenge peer_id msgs st1 = (st', None)"
    using Cons.prems(1) x by (auto split: prod.splits option.splits)
  show ?case using Cons.IH [OF s(2)] login_message_none [OF s(1)] Cons.prems(2) by (auto simp: x)
qed simp

lemma host_login_accepts:
  assumes "digest_sizes c" "password \<noteq> []"
    and "password = cfg_local_password cfg \<or> (password = cfg_permanent_password cfg \<and> str_trim password \<noteq> [])"
    and "client_hash_answer c False password \<lparr>hash_salt = hex16 r1, hash_challenge = hex16 r2\<rparr> rid cid cname opt os e2 = (True, Some ans)"
    and "proto_ok pr ans" "length (pr_encode pr ans) \<le> MAX_FRAME" "ts_room relay = None"
    and "length (pr_encode pr (Some (HashMsg \<lparr>hash_salt = hex16 r1, hash_challenge = hex16 r2\<rparr>))) \<le> MAX_FRAME"
    and "arrives (ts_timeout relay) (frame_of (pr_encode pr ans)) seg" "ts_in relay = seg @ inp" "clock 0 < start + LOGIN_DEADLINE_MS"
  shows "\<exists>st' lr. host_login c pr cfg peer_id r1 r2 clock handled start relay None identity approvals = (st', Inr lr)
    \<and> ans = Some (LoginRequestMsg lr) \<and> ts_in (ls_relay st') = inp"
proof -
  let ?hash = "Some (HashMsg \<lparr>hash_salt = hex16 r1, hash_challenge = hex16 r2\<rparr>)"
  let ?pw = "cr_sha256 c (cr_sha256 c (as_bytes password @ as_bytes (hex16 r1)) @ as_bytes (hex16 r2))"
  obtain lr where ans: "ans = Some (LoginRequestMsg lr)" and lr: "lr_password lr = ?pw"
    using assms(2,4) by (auto simp: client_hash_answer_def build_login_request_def Let_def)
  have ne: "?pw \<noteq> []" using assms(1) by (auto simp: digest_sizes_def dest: arg_cong [where f = length])
  have ok: "verify_access_password c ?pw cfg (hex16 r1) (hex16 r2)"
    using assms(3) ne by (auto simp: verify_access_password_def verify_password_def Let_def)
  let ?relay = "relay\<lparr>ts_out := ts_out relay @ frame_of (pr_encode pr ?hash)\<rparr>"
  let ?ap = "snd (approvals_remove start peer_id approvals)"
  let ?st = "\<lparr>ls_relay = ?relay, ls_cipher = None, ls_approvals = ?ap, ls_identity = identity, ls_events = [],
                ls_others = 0, ls_pw_attempts = 0\<rparr>"
  have h: "host_login c pr cfg peer_id r1 r2 clock handled start relay None identity approvals
      = login_loop c pr cfg (hex16 r1) (hex16 r2) peer_id clock handled (start + LOGIN_DEADLINE_MS) 0 ?st"
    by (simp add: host_login_def Let_def send_peer_def send_peer_enc_def encrypt_opt_def send_framed_open [OF assms(8,7)])
  have law: "pr_decode pr (pr_encode pr ans) = Some ans" "pr_encode pr ans \<noteq> []"
    using assms(5) ans by (auto simp: proto_ok_def)
  have rf: "read_framed ?relay = (?relay\<lparr>ts_in := inp\<rparr>, Inr (pr_encode pr ans))"
    by (rule read_framed_ok [OF assms(6)]) (use assms(9,10) in simp_all)
  have rcv: "recv_peer_enc c pr ?relay None = (?relay\<lparr>ts_in := inp\<rparr>, None, Inr (Some ans))"
    unfolding recv_peer_enc_def rf using law by simp
  let ?st1 = "?st\<lparr>ls_relay := ?relay\<lparr>ts_in := inp\<rparr>, ls_cipher := None\<rparr>"
  have lm: "login_message c pr cfg (hex16 r1) (hex16 r2) peer_id (handled 0) ans ?st1
      = (request_state peer_id (handled 0) lr ?st1, Some (Inr lr))"
    using ok ne by (simp add: ans login_message_def login_request_def lr request_state_def Let_def)
  have "login_loop c pr cfg (hex16 r1) (hex16 r2) peer_id clock handled (start + LOGIN_DEADLINE_MS) 0 ?st
      = (request_state peer_id (handled 0) lr ?st1, Inr lr)"
    using assms(11) lm by (subst login_loop.simps) (simp add: rcv)
  then show ?thesis using h ans by simp
qed

text \<open>The data of the examples: a client with the one-time password ``a''.\<close>

definition demo_cfg :: AppConfig where
  "demo_cfg = \<lparr>cfg_local_password = [97], cfg_permanent_password = [], cfg_require_confirmation = False\<rparr>"

definition demo_hash :: Hash where
  "demo_hash = \<lparr>hash_salt = hex16 1, hash_challenge = hex16 2\<rparr>"

definition demo_answer :: PeerMessage where
  "demo_answer = build_login_request demo_crypto [97] (hex16 1) (hex16 2) [] [] [] [] [] False"

definition demo_login_proto :: Proto where
  "demo_login_proto = demo_proto [demo_answer, Some (HashMsg demo_hash)]"

definition demo_relay :: TcpStream where
  "demo_relay = \<lparr>ts_in = map Byte (frame_of (pr_encode demo_login_proto demo_answer)), ts_timeout = Some 10000, ts_out = [], ts_room = None\<rparr>"

definition demo_identity :: RemoteIdentity where
  "demo_identity = \<lparr>ri_peer_id = [], ri_peer_name = [], ri_platform = [], ri_version = []\<rparr>"

definition demo_approvals :: Approvals where
  "demo_approvals = \<lparr>ap_map = (\<lambda>_. None), ap_coming = []\<rparr>"

lemma demo_login_facts:
  "client_hash_answer demo_crypto False [97] \<lparr>hash_salt = hex16 1, hash_challenge = hex16 2\<rparr> [] [] [] [] [] False = (True, Some demo_answer)"
  "proto_ok demo_login_proto demo_answer" "length (pr_encode demo_login_proto demo_answer) \<le> MAX_FRAME"
  "length (pr_encode demo_login_proto (Some (HashMsg \<lparr>hash_salt = hex16 1, hash_challenge = hex16 2\<rparr>))) \<le> MAX_FRAME"
  "arrives (ts_timeout demo_relay) (frame_of (pr_encode demo_login_proto demo_answer)) (ts_in demo_relay)"
proof -
  have ne: "demo_answer \<noteq> None" by (simp add: demo_answer_def build_login_request_def Let_def)
  show "client_hash_answer demo_crypto False [97] \<lparr>hash_salt = hex16 1, hash_challenge = hex16 2\<rparr> [] [] [] [] [] False = (True, Some demo_answer)"
    by (simp add: client_hash_answer_def demo_answer_def)
  show "proto_ok demo_login_proto demo_answer" and l: "length (pr_encode demo_login_proto demo_answer) \<le> MAX_FRAME"
    unfolding demo_login_proto_def by (rule demo_proto_ok; use ne in simp)+
  show "length (pr_encode demo_login_proto (Some (HashMsg \<lparr>hash_salt = hex16 1, hash_challenge = hex16 2\<rparr>))) \<le> MAX_FRAME"
    unfolding demo_login_proto_def by (rule demo_proto_ok) (simp_all add: demo_hash_def)
  show "arrives (ts_timeout demo_relay) (frame_of (pr_encode demo_login_proto demo_answer)) (ts_in demo_relay)"
    using arrives_after [of "frame_of (pr_encode demo_login_proto demo_answer)" "[]" "Some 10000"] frame_of_ne [OF l]
    by (simp add: demo_relay_def)
qed

lemma demo_login:
  "\<exists>st' lr. host_login demo_crypto demo_login_proto demo_cfg [] 1 2 (\<lambda>_. 0) (\<lambda>_. 0) 0 demo_relay None demo_identity demo_approvals = (st', Inr lr)
     \<and> demo_answer = Some (LoginRequestMsg lr)"
  using host_login_accepts [OF demo_laws(1) _ _ demo_login_facts(1-3) _ demo_login_facts(4,5), where inp = "[]" and cfg = demo_cfg
      and clock = "\<lambda>_. 0" and start = 0 and peer_id = "[]" and handled = "\<lambda>_. 0" and identity = demo_identity and approvals = demo_approvals]
  by (auto simp: demo_cfg_def demo_relay_def LOGIN_DEADLINE_MS_def)

section \<open>Properties\<close>

text \<open>C10: the host lets a peer in only on proof. If the login phase ends with a login request, that request
  carries a password hash that verifies against the salt and challenge of this session, or no password, and
  then the user has accepted that peer after the phase began: decisions left from earlier sessions do not count,
  neither for the peer that asked for the connection nor for the name the request gives.\<close>

theorem login_requires_proof:
  assumes "host_login c pr cfg peer_id r1 r2 clock handled start relay cipher identity approvals = (st', Inr lr)"
    and "sorted (map fst (ap_coming approvals))"
  shows "if lr_password lr = []
    then \<exists>t > start. (t, ri_peer_id (remote_identity_from_login lr), True) \<in> set (ap_coming approvals)
    else verify_access_password c (lr_password lr) cfg (hex16 r1) (hex16 r2)"
proof -
  let ?ap = "snd (approvals_remove start peer_id approvals)"
  let ?C = "set (ap_coming ?ap)"
  let ?st = "\<lparr>ls_relay = relay, ls_cipher = cipher, ls_approvals = ?ap, ls_identity = identity, ls_events = [],
                ls_others = 0, ls_pw_attempts = 0\<rparr>"
  let ?msg = "Some (HashMsg \<lparr>hash_salt = hex16 r1, hash_challenge = hex16 r2\<rparr>)"
  obtain st1 x where s: "send_peer c pr ?msg ?st = (st1, x)" by fastforce
  have ap: "ls_approvals st1 = ?ap" using send_peer_fields(1) [of c pr ?msg ?st] s by simp
  have "login_loop c pr cfg (hex16 r1) (hex16 r2) peer_id clock handled (start + LOGIN_DEADLINE_MS) 0 st1 = (st', Inr lr)"
    using assms(1) s by (cases x) (simp_all add: host_login_def Let_def)
  moreover have "from_session ?C peer_id (ls_approvals st1)"
    unfolding ap by (auto simp: from_session_def approvals_remove_def Let_def)
  ultimately have adm: "admitted ?C c cfg (hex16 r1) (hex16 r2) lr" by (rule login_loop_session)
  have "t > start" if "(t, q) \<in> ?C" for t q
  proof -
    have d: "?C = set (dropWhile (\<lambda>(u, _). u \<le> start) (ap_coming approvals))"
      by (simp add: approvals_remove_def approvals_at_def Let_def)
    have "sorted (map fst xs) \<Longrightarrow> (t, q) \<in> set (dropWhile (\<lambda>(u, _). u \<le> start) xs) \<Longrightarrow> t > start" for xs
      by (induction xs) (force split: if_splits)+
    then show ?thesis using assms(2) that unfolding d by blast
  qed
  then have "(\<exists>t. (t, q) \<in> ?C) \<Longrightarrow> \<exists>t > start. (t, q) \<in> set (ap_coming approvals)" for q
    using approvals_remove_coming [of start peer_id approvals] by blast
  then show ?thesis using adm unfolding admitted_def by (cases "lr_password lr = []") simp_all
qed

theorem login_requires_proof_witness:
  "\<exists>st' lr. host_login demo_crypto demo_login_proto demo_cfg [] 1 2 (\<lambda>_. 0) (\<lambda>_. 0) 0 demo_relay None demo_identity demo_approvals = (st', Inr lr)
     \<and> verify_access_password demo_crypto (lr_password lr) demo_cfg (hex16 1) (hex16 2)"
proof -
  obtain st' lr where h: "host_login demo_crypto demo_login_proto demo_cfg [] 1 2 (\<lambda>_. 0) (\<lambda>_. 0) 0 demo_relay None demo_identity demo_approvals = (st', Inr lr)"
      and lr: "demo_answer = Some (LoginRequestMsg lr)" using demo_login by blast
  have "lr_password lr \<noteq> []" using lr
    by (auto simp: demo_answer_def build_login_request_def demo_crypto_def)
  moreover have "sorted (map fst (ap_coming demo_approvals))" by (simp add: demo_approvals_def)
  ultimately show ?thesis using login_requires_proof [OF h] h by auto
qed

text \<open>C35: a connection has at most ten wrong guesses that leave it in the login phase; the eleventh ends it. As
  long as messages leave it there, each login request among them carried a wrong password.\<close>

theorem login_guesses_bounded:
  assumes "login_run c pr cfg salt challenge peer_id msgs st = (st', res)" "ls_pw_attempts st = 0"
    and "10 < length (filter (\<lambda>(_, m). wrong_guess c cfg salt challenge m) msgs)"
  shows "\<exists>r. res = Some r"
proof (cases res)
  case None
  from login_run_none [OF assms(1) [unfolded None]] assms(2,3) show ?thesis by simp
qed simp

theorem login_guesses_bounded_witness:
  "let lr = \<lparr>lr_username = [], lr_password = [1], lr_my_id = [], lr_my_name = [], lr_option = None, lr_video_ack_required = False,
         lr_version = [], lr_my_platform = [], lr_evrt2_only = False\<rparr>;
       st = \<lparr>ls_relay = demo_relay, ls_cipher = None, ls_approvals = demo_approvals, ls_identity = demo_identity, ls_events = [],
         ls_others = 0, ls_pw_attempts = 0\<rparr>
   in snd (login_run demo_crypto demo_login_proto demo_cfg [] [] [] (replicate 11 (0, Some (LoginRequestMsg lr))) st) \<noteq> None"
proof -
  let ?lr = "\<lparr>lr_username = [], lr_password = [1], lr_my_id = [], lr_my_name = [], lr_option = None, lr_video_ack_required = False,
         lr_version = [], lr_my_platform = [], lr_evrt2_only = False\<rparr>"
  let ?st = "\<lparr>ls_relay = demo_relay, ls_cipher = None, ls_approvals = demo_approvals, ls_identity = demo_identity, ls_events = [],
         ls_others = 0, ls_pw_attempts = 0\<rparr>"
  obtain st' res where r: "login_run demo_crypto demo_login_proto demo_cfg [] [] [] (replicate 11 (0, Some (LoginRequestMsg ?lr))) ?st = (st', res)"
    by fastforce
  have "wrong_guess demo_crypto demo_cfg [] [] (Some (LoginRequestMsg ?lr))"
    by (auto simp: wrong_guess_login verify_access_password_def verify_password_def demo_crypto_def Let_def
        dest: arg_cong [where f = length])
  then have "10 < length (filter (\<lambda>(_, m). wrong_guess demo_crypto demo_cfg [] [] m) (replicate 11 (0 :: nat, Some (LoginRequestMsg ?lr))))"
    by (simp add: filter_replicate)
  from login_guesses_bounded [OF r _ this] show ?thesis unfolding Let_def r by auto
qed

text \<open>a login request without a password always ends the login phase, one way or the other: the user is
  asked, whatever the configuration says about confirmation, and the request counts as no attempt.\<close>

theorem empty_password_ends_login:
  assumes "lr_password lr = []" "login_message c pr cfg salt challenge peer_id t (Some (LoginRequestMsg lr)) st = (st', r)"
  shows "r \<noteq> None \<and> ls_pw_attempts st' = ls_pw_attempts st"
proof -
  have "login_request c pr cfg salt challenge peer_id t lr st = (st', r)" using assms(2) by (simp add: login_message_def)
  then show ?thesis by (cases rule: login_request_cases) (use assms(1) in auto)
qed

theorem empty_password_ends_login_witness:
  "let lr = \<lparr>lr_username = [], lr_password = [], lr_my_id = [], lr_my_name = [], lr_option = None, lr_video_ack_required = False,
         lr_version = [], lr_my_platform = [], lr_evrt2_only = False\<rparr>;
       st = \<lparr>ls_relay = demo_relay, ls_cipher = None, ls_approvals = demo_approvals, ls_identity = demo_identity, ls_events = [],
         ls_others = 0, ls_pw_attempts = 0\<rparr>
   in snd (login_message demo_crypto demo_login_proto demo_cfg [] [] [] 0 (Some (LoginRequestMsg lr)) st) \<noteq> None"
proof -
  let ?lr = "\<lparr>lr_username = [], lr_password = [], lr_my_id = [], lr_my_name = [], lr_option = None, lr_video_ack_required = False,
         lr_version = [], lr_my_platform = [], lr_evrt2_only = False\<rparr>"
  let ?st = "\<lparr>ls_relay = demo_relay, ls_cipher = None, ls_approvals = demo_approvals, ls_identity = demo_identity, ls_events = [],
         ls_others = 0, ls_pw_attempts = 0\<rparr>"
  obtain st' r where r: "login_message demo_crypto demo_login_proto demo_cfg [] [] [] 0 (Some (LoginRequestMsg ?lr)) ?st = (st', r)"
    by fastforce
  show ?thesis unfolding Let_def r using empty_password_ends_login [OF _ r] by simp
qed

text \<open>C36: a client that knows the one-time or the permanent password gets in: its answer to the host's \<open>Hash\<close>,
  when it arrives before the deadline, ends the login phase with its request.\<close>

theorem client_logs_in:
  assumes "digest_sizes c" "password \<noteq> []"
    and "password = cfg_local_password cfg \<or> (password = cfg_permanent_password cfg \<and> str_trim password \<noteq> [])"
    and "client_hash_answer c False password \<lparr>hash_salt = hex16 r1, hash_challenge = hex16 r2\<rparr> rid cid cname opt os e2 = (True, Some ans)"
    and "proto_ok pr ans" "length (pr_encode pr ans) \<le> MAX_FRAME" "ts_room relay = None"
    and "length (pr_encode pr (Some (HashMsg \<lparr>hash_salt = hex16 r1, hash_challenge = hex16 r2\<rparr>))) \<le> MAX_FRAME"
    and "arrives (ts_timeout relay) (frame_of (pr_encode pr ans)) seg" "ts_in relay = seg @ inp" "clock 0 < start + LOGIN_DEADLINE_MS"
  shows "\<exists>st' lr. host_login c pr cfg peer_id r1 r2 clock handled start relay None identity approvals = (st', Inr lr)
    \<and> ans = Some (LoginRequestMsg lr) \<and> ts_in (ls_relay st') = inp"
  using assms by (rule host_login_accepts)

theorem client_logs_in_witness:
  "\<exists>st' lr. host_login demo_crypto demo_login_proto demo_cfg [] 1 2 (\<lambda>_. 0) (\<lambda>_. 0) 0 demo_relay None demo_identity demo_approvals = (st', Inr lr)
     \<and> demo_answer = Some (LoginRequestMsg lr) \<and> ts_in (ls_relay st') = []"
  by (rule client_logs_in [OF demo_laws(1) _ _ demo_login_facts(1-3) _ demo_login_facts(4,5)])
    (simp_all add: demo_cfg_def demo_relay_def LOGIN_DEADLINE_MS_def)

end
