(* ===== verification/Viewer_Messages.thy ===== *)
theory Viewer_Messages
  imports Complex_Main Prelude
begin

text \<open>
  What the viewer asks of the host (\<^verbatim>\<open>src/src/transport.rs\<close>, with \<^verbatim>\<open>settings.rs\<close> and
  \<^verbatim>\<open>rustdesk_proto.rs\<close>): the stream options, the choice of the codec to ask for, and the ladders of frame
  rates and qualities the viewer moves on. Which codecs can be decoded here is a property of the platform and is the
  argument \<open>caps\<close>. Frame rates measured as \<open>f32\<close> are rationals; the rounding of \<open>f32\<close> is left out.
\<close>

section \<open>Codecs and qualities\<close>

datatype CodecPreference = WantEvrtck | WantAuto | WantH264 | WantH265 | WantAv1 | WantVp9

datatype PreferCodec = PreferAuto | PreferVp9 | PreferH264 | PreferH265 | PreferVp8 | PreferAv1

datatype ImageQuality = NotSet | Low | Balanced | Best

text \<open>The numbers of the wire format (\<open>quality as i32\<close>, \<open>prefer as i32\<close>).\<close>

fun quality_code :: "ImageQuality \<Rightarrow> int" where
  "quality_code NotSet = 0"
| "quality_code Low = 2"
| "quality_code Balanced = 3"
| "quality_code Best = 4"

fun prefer_code :: "PreferCodec \<Rightarrow> int" where
  "prefer_code PreferAuto = 0"
| "prefer_code PreferVp9 = 1"
| "prefer_code PreferH264 = 2"
| "prefer_code PreferH265 = 3"
| "prefer_code PreferVp8 = 4"
| "prefer_code PreferAv1 = 5"

text \<open>What \<open>crate::video::*_available\<close> answer, and whether a \<open>live-vpx\<close> feature is compiled in.\<close>

record Capabilities =
  cap_h264 :: bool
  cap_h265 :: bool
  cap_av1 :: bool
  cap_vp9 :: bool
  cap_vp8 :: bool
  cap_vpx_feature :: bool

record CodecAbility =
  ca_vp8 :: bool
  ca_vp9 :: bool
  ca_av1 :: bool
  ca_h264 :: bool
  ca_h265 :: bool

record SupportedDecoding =
  sd_ability_vp9 :: int
  sd_ability_h264 :: int
  sd_ability_h265 :: int
  sd_prefer :: int
  sd_ability_vp8 :: int
  sd_ability_av1 :: int
  sd_i444 :: "CodecAbility option"
  sd_prefer_chroma :: int

record OptionMessage =
  om_image_quality :: int
  om_custom_image_quality :: int
  om_supported_decoding :: "SupportedDecoding option"
  om_custom_fps :: int

fun preferred_codec :: "CodecPreference \<Rightarrow> bool \<Rightarrow> bool \<Rightarrow> bool \<Rightarrow> bool \<Rightarrow> PreferCodec" where
  "preferred_codec pref h264 h265 av1 vp9 =
     (if pref = WantEvrtck then PreferAuto
      else if pref = WantAv1 \<and> av1 then PreferAv1
      else if pref = WantH265 \<and> h265 then PreferH265
      else if pref = WantH264 \<and> h264 then PreferH264
      else if pref = WantVp9 \<and> vp9 then PreferVp9
      else if pref = WantAuto then PreferAuto
      else if h265 then PreferH265
      else if h264 then PreferH264
      else if av1 then PreferAv1
      else if vp9 then PreferVp9
      else PreferAuto)"

definition supported_decoding :: "Capabilities \<Rightarrow> CodecPreference \<Rightarrow> SupportedDecoding" where
  "supported_decoding caps pref =
     (let prefer = preferred_codec pref (cap_h264 caps) (cap_h265 caps) (cap_av1 caps) (cap_vp9 caps)
      in \<lparr>sd_ability_vp9 = of_bool (cap_vp9 caps), sd_ability_h264 = of_bool (cap_h264 caps),
          sd_ability_h265 = of_bool (cap_h265 caps), sd_prefer = prefer_code prefer,
          sd_ability_vp8 = of_bool (cap_vp8 caps), sd_ability_av1 = of_bool (cap_av1 caps),
          sd_i444 = Some \<lparr>ca_vp8 = False, ca_vp9 = cap_vpx_feature caps, ca_av1 = cap_av1 caps, ca_h264 = False,
                         ca_h265 = cap_h265 caps\<rparr>,
          sd_prefer_chroma = 0\<rparr>)"

definition fallback_codec_preference :: "Capabilities \<Rightarrow> CodecPreference" where
  "fallback_codec_preference caps =
     (if cap_h264 caps then WantH264
      else if cap_vp9 caps then WantVp9
      else if cap_h265 caps then WantH265
      else if cap_av1 caps then WantAv1
      else WantAuto)"

text \<open>\<open>i32::clamp\<close>, for bounds in order.\<close>

definition clamp :: "int \<Rightarrow> int \<Rightarrow> int \<Rightarrow> int" where
  "clamp lo hi x = (if x < lo then lo else if hi < x then hi else x)"

definition initial_stream_quality :: "int \<Rightarrow> CodecPreference \<Rightarrow> ImageQuality" where
  "initial_stream_quality fps pref =
     (if pref = WantEvrtck \<or> pref = WantAuto then (if 45 \<le> fps then Low else Balanced) else Best)"

definition video_option_message_quality :: "Capabilities \<Rightarrow> int \<Rightarrow> CodecPreference \<Rightarrow> ImageQuality \<Rightarrow> OptionMessage" where
  "video_option_message_quality caps fps pref quality =
     \<lparr>om_image_quality = quality_code quality, om_custom_image_quality = 0,
      om_supported_decoding = Some (supported_decoding caps pref), om_custom_fps = clamp 5 60 fps\<rparr>"

section \<open>Messages\<close>

text \<open>The messages the session loop hands to \<open>send_framed\<close>. A failure of the relay to take one is ignored by the loop;
  it ends the session at the next read.\<close>

datatype RelayMessage =
    OptionMsg OptionMessage
  | RefreshVideo bool
  | RefreshVideoDisplay int
  | SwitchDisplay int
  | CaptureDisplaysSet "int list"
  | MessageQuerySwitchDisplay int
  | VideoReceived bool
  | AutoAdjustFps int
  | TestDelay int bool
  | ScreenshotRequest int nat
  | VmAttach rust_str

definition send_codec_sync_options_quality :: "Capabilities \<Rightarrow> int \<Rightarrow> CodecPreference \<Rightarrow> ImageQuality \<Rightarrow> RelayMessage list" where
  "send_codec_sync_options_quality caps fps pref quality = [OptionMsg (video_option_message_quality caps fps pref quality)]"

definition send_codec_sync_options :: "Capabilities \<Rightarrow> int \<Rightarrow> CodecPreference \<Rightarrow> RelayMessage list" where
  "send_codec_sync_options caps fps pref = send_codec_sync_options_quality caps fps pref (initial_stream_quality fps pref)"

definition send_refresh_video_display :: "int \<Rightarrow> RelayMessage list" where
  "send_refresh_video_display display = [RefreshVideoDisplay (max display 0)]"

definition send_video_start_messages_with_quality ::
  "Capabilities \<Rightarrow> int \<Rightarrow> bool \<Rightarrow> int \<Rightarrow> CodecPreference \<Rightarrow> ImageQuality \<Rightarrow> RelayMessage list" where
  "send_video_start_messages_with_quality caps display refresh_all fps pref quality =
     send_codec_sync_options_quality caps fps pref quality
     @ (if refresh_all then [RefreshVideo True] else [])
     @ send_refresh_video_display display"

definition send_video_received :: "RelayMessage list" where
  "send_video_received = [VideoReceived True]"

definition custom_fps_option_message :: "int \<Rightarrow> RelayMessage" where
  "custom_fps_option_message fps =
     OptionMsg \<lparr>om_image_quality = quality_code NotSet, om_custom_image_quality = 0, om_supported_decoding = None,
                om_custom_fps = clamp 5 60 fps\<rparr>"

text \<open>\<open>wall_ms\<close> is the time of day.\<close>

definition send_stream_qos_feedback :: "int \<Rightarrow> int \<Rightarrow> RelayMessage list" where
  "send_stream_qos_feedback wall_ms fps =
     [custom_fps_option_message fps, AutoAdjustFps (clamp 5 60 fps)] @ send_video_received
     @ [TestDelay 0 False, TestDelay wall_ms True]"

definition send_switch_display :: "int \<Rightarrow> RelayMessage list" where
  "send_switch_display display =
     (let display = max display 0
      in [SwitchDisplay (max display 0), CaptureDisplaysSet [max display 0], MessageQuerySwitchDisplay (max display 0)])"

section \<open>Ladders\<close>

definition fps_ladder :: "int list" where "fps_ladder = [60, 30, 20, 15, 10, 5]"

text \<open>One step down: the first rung below \<open>next\<close> that is not below \<open>min_fps\<close>.\<close>

definition lower_rung :: "int \<Rightarrow> int \<Rightarrow> int" where
  "lower_rung min_fps next_fps =
     (case List.find (\<lambda>fps. min_fps \<le> fps) (filter (\<lambda>fps. fps < next_fps) fps_ladder) of
        Some candidate \<Rightarrow> candidate | None \<Rightarrow> next_fps)"

definition lower_adaptive_fps :: "int \<Rightarrow> int \<Rightarrow> bool \<Rightarrow> int" where
  "lower_adaptive_fps current min_fps severe =
     (let next_fps = clamp 5 60 current; steps = (if severe then 2 else 1)
      in max ((lower_rung min_fps ^^ steps) next_fps) (clamp 5 60 min_fps))"

definition backlog_recovery_min_fps :: "int \<Rightarrow> int \<Rightarrow> int" where
  "backlog_recovery_min_fps initial_fps min_fps =
     (let initial = clamp 5 60 initial_fps; m = clamp 5 initial min_fps
      in if 45 \<le> initial then min (max m 30) initial else m)"

definition raise_adaptive_fps :: "int \<Rightarrow> int \<Rightarrow> int" where
  "raise_adaptive_fps current max_fps =
     (case List.find (\<lambda>fps. current < fps \<and> fps \<le> max_fps) (rev fps_ladder) of Some fps \<Rightarrow> fps | None \<Rightarrow> current)"

definition best_quality_min_input_fps :: "int \<Rightarrow> rat" where
  "best_quality_min_input_fps target_fps =
     (let target = clamp 5 60 target_fps
      in if 45 \<le> target then of_int target * (85 / 100)
         else if 30 \<le> target then of_int target * (8 / 10)
         else max (of_int target * (75 / 100)) 10)"

definition balanced_quality_min_input_fps :: "int \<Rightarrow> rat" where
  "balanced_quality_min_input_fps target_fps =
     (let target = clamp 5 60 target_fps in if 45 \<le> target then 30 else if 30 \<le> target then 18 else 10)"

definition next_quality_after_stability :: "ImageQuality \<Rightarrow> int \<Rightarrow> rat \<Rightarrow> ImageQuality option" where
  "next_quality_after_stability current target_fps input_fps =
     (if current = Low \<and> balanced_quality_min_input_fps target_fps \<le> input_fps then Some Balanced
      else if current = Balanced \<and> best_quality_min_input_fps target_fps \<le> input_fps then Some Best
      else None)"

definition quality_raise_bootstrap_wait :: "ImageQuality \<Rightarrow> nat" where
  "quality_raise_bootstrap_wait next_quality = (if next_quality = Best then 12000 else 6000)"

definition decoder_latency_needs_recovery :: "nat \<Rightarrow> nat \<Rightarrow> bool" where
  "decoder_latency_needs_recovery queue_ms decode_ms \<longleftrightarrow> 350 \<le> queue_ms \<or> 90 \<le> decode_ms"

fun downgrade_one_quality :: "ImageQuality \<Rightarrow> ImageQuality" where
  "downgrade_one_quality Best = Balanced"
| "downgrade_one_quality Balanced = Low"
| "downgrade_one_quality Low = Low"
| "downgrade_one_quality NotSet = NotSet"

definition quality_drop_is_severe :: "int \<Rightarrow> rat \<Rightarrow> bool" where
  "quality_drop_is_severe target_fps input_fps \<longleftrightarrow> input_fps < max (of_int (clamp 5 60 target_fps) * (15 / 100)) 6"

definition downgrade_quality_for_low_input :: "ImageQuality \<Rightarrow> int \<Rightarrow> rat \<Rightarrow> ImageQuality option" where
  "downgrade_quality_for_low_input current target_fps input_fps =
     (let target = of_int (clamp 5 60 target_fps)
      in if current = Best \<and> input_fps < max (target * (35 / 100)) 10 then Some Balanced
         else if current = Balanced \<and> input_fps < max (target * (25 / 100)) 8 then Some Low
         else None)"

section \<open>Lemmas\<close>

lemma clamp_bounds: "lo \<le> hi \<Longrightarrow> lo \<le> clamp lo hi x" "lo \<le> hi \<Longrightarrow> clamp lo hi x \<le> hi"
  by (auto simp: clamp_def)

lemma clamp_id: "lo \<le> x \<Longrightarrow> x \<le> hi \<Longrightarrow> clamp lo hi x = x"
  by (auto simp: clamp_def)

lemma initial_quality_set: "initial_stream_quality fps pref \<noteq> NotSet"
  by (simp add: initial_stream_quality_def)

lemma downgrade_set: "q \<noteq> NotSet \<Longrightarrow> downgrade_one_quality q \<noteq> NotSet"
  by (cases q) simp_all

lemma find_SomeD: "List.find P xs = Some x \<Longrightarrow> x \<in> set xs \<and> P x"
  by (induction xs) (auto split: if_splits)

text \<open>A step down goes to a rung that is allowed, or stays.\<close>

lemma lower_rung_cases:
  obtains "lower_rung m n = n" | "lower_rung m n < n" "m \<le> lower_rung m n" "lower_rung m n \<in> set fps_ladder"
proof (cases "List.find (\<lambda>fps. m \<le> fps) (filter (\<lambda>fps. fps < n) fps_ladder)")
  case (Some c)
  note c = find_SomeD [OF Some]
  then show ?thesis using that(2) Some by (simp add: lower_rung_def)
next
  case None
  then show ?thesis using that(1) by (simp add: lower_rung_def)
qed

lemma lower_rung_bounds: "lower_rung m n \<le> n" "m \<le> n \<Longrightarrow> m \<le> lower_rung m n" "5 \<le> n \<Longrightarrow> 5 \<le> lower_rung m n"
  by (cases m n rule: lower_rung_cases; simp add: fps_ladder_def; fail | cases m n rule: lower_rung_cases, auto simp: fps_ladder_def)+

lemma lower_adaptive_bounds:
  assumes "5 \<le> m" "m \<le> 60" "5 \<le> c" "c \<le> 60"
  shows "m \<le> lower_adaptive_fps c m s" "lower_adaptive_fps c m s \<le> max c m"
  using assms lower_rung_bounds(1) [of m c] lower_rung_bounds(1) [of m "lower_rung m c"]
  by (auto simp: lower_adaptive_fps_def clamp_id numeral_2_eq_2)

lemma raise_adaptive_cases:
  obtains "raise_adaptive_fps c m = c" | "c < raise_adaptive_fps c m" "raise_adaptive_fps c m \<le> m"
proof (cases "List.find (\<lambda>fps. c < fps \<and> fps \<le> m) (rev fps_ladder)")
  case (Some f)
  then show ?thesis using that(2) find_SomeD [OF Some] by (simp add: raise_adaptive_fps_def)
next
  case None
  then show ?thesis using that(1) by (simp add: raise_adaptive_fps_def)
qed

lemma backlog_min_bounds:
  assumes "5 \<le> m" "m \<le> i" "i \<le> 60"
  shows "m \<le> backlog_recovery_min_fps i m" "backlog_recovery_min_fps i m \<le> i"
  using assms by (auto simp: backlog_recovery_min_fps_def clamp_id Let_def)

end
