(* ===== verification/Tcp_Viewer.thy ===== *)
theory Tcp_Viewer
  imports Evrtck_Capture Evrt2_Crypto
begin

text \<open>
  The viewer's decoder thread on the TCP relay (\<^verbatim>\<open>src/src/transport.rs\<close>: \<open>DecoderInput\<close>,
  \<open>trim_video_backlog_to_keyframe\<close>, \<open>decode_frame_loop\<close> and the screen codec branch of
  \<open>decode_one_frame\<close>). One turn of the loop takes what has queued up as a batch, drops what is too old, decodes
  the rest and shows the last picture. The decoders of the other codecs are libraries and platform services:
  they are the argument \<open>other\<close>, with a state of its own. The measured times of a frame (in the queue and in the decoder) are the argument \<open>tm\<close>; left out is
  the counter that switches a failing hardware decoder off.
\<close>

section \<open>Decoder input\<close>

record EncodedVideoFrame =
  evf_data :: bytes
  evf_key :: bool
  evf_pts :: int

datatype DecoderInput =
    Png rust_str bytes nat nat
  | H264 rust_str "EncodedVideoFrame list" nat nat
  | Vp8 rust_str "EncodedVideoFrame list" nat nat
  | Vp9 rust_str "EncodedVideoFrame list" nat nat
  | H265 rust_str "EncodedVideoFrame list" nat nat u32 u32
  | Av1 rust_str "EncodedVideoFrame list" nat nat u32 u32
  | Evrtck rust_str bytes bool nat

definition is_video :: "DecoderInput \<Rightarrow> bool" where
  "is_video inp = (case inp of Png _ _ _ _ \<Rightarrow> False | _ \<Rightarrow> True)"

definition is_evrtck :: "DecoderInput \<Rightarrow> bool" where
  "is_evrtck inp = (case inp of Evrtck _ _ _ _ \<Rightarrow> True | _ \<Rightarrow> False)"

fun has_keyframe :: "DecoderInput \<Rightarrow> bool" where
  "has_keyframe (Evrtck sid bytes key q) = key"
| "has_keyframe (H264 sid frames q n) = list_ex evf_key frames"
| "has_keyframe (Vp8 sid frames q n) = list_ex evf_key frames"
| "has_keyframe (Vp9 sid frames q n) = list_ex evf_key frames"
| "has_keyframe (H265 sid frames q n w h) = list_ex evf_key frames"
| "has_keyframe (Av1 sid frames q n w h) = list_ex evf_key frames"
| "has_keyframe (Png sid png q n) = False"

fun byte_len :: "DecoderInput \<Rightarrow> nat" where
  "byte_len (Png sid png q n) = n"
| "byte_len (H264 sid frames q n) = n"
| "byte_len (Vp8 sid frames q n) = n"
| "byte_len (Vp9 sid frames q n) = n"
| "byte_len (H265 sid frames q n w h) = n"
| "byte_len (Av1 sid frames q n w h) = n"
| "byte_len (Evrtck sid bytes key q) = length bytes"

fun codec_name :: "DecoderInput \<Rightarrow> string" where
  "codec_name (Png sid png q n) = ''PNG''"
| "codec_name (H264 sid frames q n) = ''H264''"
| "codec_name (Vp8 sid frames q n) = ''VP8''"
| "codec_name (Vp9 sid frames q n) = ''VP9''"
| "codec_name (Evrtck sid bytes key q) = ''EVRTCK''"
| "codec_name (H265 sid frames q n w h) = ''H265''"
| "codec_name (Av1 sid frames q n w h) = ''AV1''"

text \<open>\<open>format!("evrtck-tcp-{frame_id}")\<close>.\<close>

fun decimal :: "nat \<Rightarrow> rust_str" where
  "decimal n = (if n < 10 then [48 + n] else decimal (n div 10) @ [48 + n mod 10])"

declare decimal.simps [simp del]

definition flags_byte :: "bytes \<Rightarrow> u8" where
  "flags_byte bytes = (if 5 < length bytes then bytes ! 5 else 0)"

text \<open>The queue entry for a \<open>TcpEvrtckFrame\<close> that arrives at time \<open>now\<close>.\<close>

definition tcp_evrtck_input :: "nat \<Rightarrow> bytes \<Rightarrow> DecoderInput" where
  "tcp_evrtck_input now bytes =
     (let frame_id = (if 10 \<le> length bytes then le_word (subslice 6 10 bytes) else 0) :: u32;
          key = (flags_byte bytes AND FLAG_KEYFRAME \<noteq> 0)
      in Evrtck (map of_char ''evrtck-tcp-'' @ decimal (unat frame_id)) bytes key now)"

section \<open>The backlog\<close>

record BacklogTrim =
  bt_dropped :: nat
  bt_evrtck_chain_broken :: bool

definition MAX_VIDEO_BACKLOG :: nat where "MAX_VIDEO_BACKLOG = 3"

text \<open>\<open>Iterator::rposition\<close>.\<close>

definition rposition :: "('a \<Rightarrow> bool) \<Rightarrow> 'a list \<Rightarrow> nat option" where
  "rposition P xs = (case filter (\<lambda>i. P (xs ! i)) [0..<length xs] of [] \<Rightarrow> None | is \<Rightarrow> Some (last is))"

definition trim_video_backlog_to_keyframe :: "DecoderInput list \<Rightarrow> DecoderInput list \<times> BacklogTrim" where
  "trim_video_backlog_to_keyframe batch =
     (if length batch \<le> MAX_VIDEO_BACKLOG then (batch, \<lparr>bt_dropped = 0, bt_evrtck_chain_broken = False\<rparr>)
      else
        let before = length batch;
            evrtck_only = list_all is_evrtck batch;
            batch = (case rposition has_keyframe batch of
               Some index \<Rightarrow> (if 0 < index then drop index batch else batch)
             | None \<Rightarrow> (let keep_from = length batch - MAX_VIDEO_BACKLOG
                        in if 0 < keep_from then drop keep_from batch else batch));
            dropped = before - length batch;
            broken = (evrtck_only \<and> 0 < dropped \<and> \<not> (case batch of [] \<Rightarrow> False | x # _ \<Rightarrow> has_keyframe x));
            batch = (if broken then [] else batch)
        in (batch, \<lparr>bt_dropped = dropped, bt_evrtck_chain_broken = broken\<rparr>))"

section \<open>Decoding a batch\<close>

datatype DecoderFeedback = BacklogTrimmed nat | EvrtckChainBroken nat | DecodeFailed string | FrameDecoded string nat nat

datatype SessionEvent = Frame rust_str string nat nat bytes | FrameMetrics nat nat nat nat | Info rust_str

datatype DecodeError = NeedsMorePackets | OtherDecodeError rust_str

type_synonym 'd other_decoders = "'d \<Rightarrow> DecoderInput \<Rightarrow> 'd \<times> (DecodeError + SessionEvent option)"

definition decode_one_frame ::
  "(bytes \<Rightarrow> bytes option) \<Rightarrow> 'd other_decoders \<Rightarrow> DecoderInput \<Rightarrow> EvrtckDecoder \<times> 'd
     \<Rightarrow> (EvrtckDecoder \<times> 'd) \<times> (DecodeError + SessionEvent option)" where
  "decode_one_frame zdec other frame st = (case frame of
      Evrtck sid bytes key q \<Rightarrow>
        (if flags_byte bytes AND FLAG_NOP \<noteq> 0 then (st, Inr None)
         else case decode_wire zdec (fst st) bytes of
             (ed, Inr rgba) \<Rightarrow> ((ed, snd st), Inr (Some (Frame sid ''EVRTCK'' (ed_width ed) (ed_height ed) rgba)))
           | (ed, Inl e) \<Rightarrow> ((ed, snd st), Inr None))
    | _ \<Rightarrow> (case other (snd st) frame of (d, res) \<Rightarrow> ((fst st, d), res)))"

record 'd Turn =
  tn_decoders :: "EvrtckDecoder \<times> 'd"
  tn_feedback :: "DecoderFeedback list"
  tn_events :: "SessionEvent list"
  tn_dropped :: nat
  tn_latest :: "SessionEvent option"

definition decode_step :: "(bytes \<Rightarrow> bytes option) \<Rightarrow> 'd other_decoders \<Rightarrow> (DecoderInput \<Rightarrow> nat \<times> nat) \<Rightarrow> DecoderInput \<Rightarrow> 'd Turn \<Rightarrow> 'd Turn" where
  "decode_step zdec other tm frame tn = (case decode_one_frame zdec other frame (tn_decoders tn) of
      (st, Inr (Some event)) \<Rightarrow>
        tn\<lparr>tn_decoders := st, tn_events := tn_events tn @ [FrameMetrics (byte_len frame) (fst (tm frame)) (snd (tm frame)) (tn_dropped tn)],
           tn_feedback := tn_feedback tn @ [FrameDecoded (codec_name frame) (fst (tm frame)) (snd (tm frame))], tn_dropped := 0, tn_latest := Some event\<rparr>
    | (st, Inr None) \<Rightarrow> tn\<lparr>tn_decoders := st\<rparr>
    | (st, Inl NeedsMorePackets) \<Rightarrow> tn\<lparr>tn_decoders := st\<rparr>
    | (st, Inl (OtherDecodeError err)) \<Rightarrow>
        tn\<lparr>tn_decoders := st, tn_feedback := tn_feedback tn @ [DecodeFailed (codec_name frame)],
           tn_events := tn_events tn @ [Info (map of_char ''Frame decode failed: '' @ err)]\<rparr>)"

text \<open>One turn of \<open>decode_frame_loop\<close> on what was queued: the decoders, the feedback, and the events, the last
  picture at the end.\<close>

definition decode_batch ::
  "(bytes \<Rightarrow> bytes option) \<Rightarrow> 'd other_decoders \<Rightarrow> (DecoderInput \<Rightarrow> nat \<times> nat) \<Rightarrow> DecoderInput list \<Rightarrow> EvrtckDecoder \<times> 'd
     \<Rightarrow> (EvrtckDecoder \<times> 'd) \<times> DecoderFeedback list \<times> SessionEvent list" where
  "decode_batch zdec other tm batch st =
     (let (batch, st, feedback, dropped_frames) =
        (if list_ex is_video batch then
           (case trim_video_backlog_to_keyframe (filter is_video batch) of
              (batch, trim) \<Rightarrow>
                if 0 < bt_dropped trim then
                  (if bt_evrtck_chain_broken trim
                   then (batch, (decoder_reset (fst st), snd st), [EvrtckChainBroken (bt_dropped trim)], bt_dropped trim)
                   else (batch, st, [BacklogTrimmed (bt_dropped trim)], bt_dropped trim))
                else (batch, st, [], 0))
         else if 1 < length batch then ([last batch], st, [], length batch - 1)
         else (batch, st, [], 0));
        tn = fold (decode_step zdec other tm) batch
               \<lparr>tn_decoders = st, tn_feedback = feedback, tn_events = [], tn_dropped = dropped_frames, tn_latest = None\<rparr>
      in (tn_decoders tn, tn_feedback tn,
          tn_events tn @ (case tn_latest tn of None \<Rightarrow> [] | Some event \<Rightarrow> [event])))"

fun decode_batches ::
  "(bytes \<Rightarrow> bytes option) \<Rightarrow> 'd other_decoders \<Rightarrow> (DecoderInput \<Rightarrow> nat \<times> nat) \<Rightarrow> DecoderInput list list \<Rightarrow> EvrtckDecoder \<times> 'd
     \<Rightarrow> (DecoderFeedback list \<times> SessionEvent list) list" where
  "decode_batches zdec other tm [] st = []"
| "decode_batches zdec other tm (b # bs) st =
     (case decode_batch zdec other tm b st of (st', fb, evs) \<Rightarrow> (fb, evs) # decode_batches zdec other tm bs st')"

section \<open>Trimming\<close>

lemma sorted_le_last: "sorted xs \<Longrightarrow> x \<in> set xs \<Longrightarrow> x \<le> last xs"
  by (induction xs) auto

lemma rposition_Some:
  assumes "rposition P xs = Some i"
  shows "i < length xs" "P (xs ! i)" "\<forall>j. i < j \<and> j < length xs \<longrightarrow> \<not> P (xs ! j)"
proof -
  let ?is = "filter (\<lambda>i. P (xs ! i)) [0..<length xs]"
  have ne: "?is \<noteq> []" and i: "i = last ?is" using assms by (auto simp: rposition_def split: list.splits)
  then have "i \<in> set ?is" using last_in_set by blast
  then show "i < length xs" "P (xs ! i)" by simp_all
  have "sorted ?is" by (rule sorted_wrt_filter) simp
  then have "\<forall>j \<in> set ?is. j \<le> i" unfolding i using sorted_le_last by blast
  then show "\<forall>j. i < j \<and> j < length xs \<longrightarrow> \<not> P (xs ! j)" by force
qed

lemma rposition_None: "rposition P xs = None \<longleftrightarrow> (\<forall>x \<in> set xs. \<not> P x)"
proof -
  have "rposition P xs = None \<longleftrightarrow> filter (\<lambda>i. P (xs ! i)) [0..<length xs] = []"
    by (simp add: rposition_def split: list.split)
  then show ?thesis by (simp only: filter_empty_conv all_set_conv_all_nth) simp
qed

lemma trim_evrtck:
  assumes "list_all is_evrtck batch" "trim_video_backlog_to_keyframe batch = (batch', trim)"
  shows "(batch' = batch \<and> bt_dropped trim = 0 \<and> \<not> bt_evrtck_chain_broken trim)
    \<or> (\<exists>n. 0 < n \<and> n < length batch \<and> batch' = drop n batch \<and> has_keyframe (batch ! n) \<and> bt_dropped trim = n \<and> \<not> bt_evrtck_chain_broken trim)
    \<or> (batch' = [] \<and> bt_evrtck_chain_broken trim \<and> 3 < length batch \<and> bt_dropped trim = length batch - 3 \<and> (\<forall>x \<in> set batch. \<not> has_keyframe x))"
proof (cases "length batch \<le> MAX_VIDEO_BACKLOG")
  case True
  then show ?thesis using assms(2) by (auto simp: trim_video_backlog_to_keyframe_def)
next
  case False
  show ?thesis
  proof (cases "rposition has_keyframe batch")
    case None
    let ?b = "drop (length batch - MAX_VIDEO_BACKLOG) batch"
    have nk: "\<forall>x \<in> set batch. \<not> has_keyframe x" using None by (simp add: rposition_None)
    have "\<not> (case ?b of [] \<Rightarrow> False | x # _ \<Rightarrow> has_keyframe x)"
      using nk by (auto dest: in_set_dropD split: list.split) (metis in_set_dropD list.set_intros(1))
    then show ?thesis using assms False None nk
      by (auto simp: trim_video_backlog_to_keyframe_def Let_def MAX_VIDEO_BACKLOG_def split: list.splits)
  next
    case (Some i)
    note r = rposition_Some [OF Some]
    have d: "drop i batch = batch ! i # drop (Suc i) batch" using r(1) by (rule Cons_nth_drop_Suc [symmetric])
    show ?thesis
    proof (cases "i = 0")
      case True
      then show ?thesis using assms False Some by (auto simp: trim_video_backlog_to_keyframe_def Let_def)
    next
      case False
      then show ?thesis using assms \<open>\<not> length batch \<le> MAX_VIDEO_BACKLOG\<close> Some r d
        by (auto simp: trim_video_backlog_to_keyframe_def Let_def)
    qed
  qed
qed

section \<open>Flags of the packets\<close>

lemma header_flags:
  "5 < length (packet_header ver flags fid w h mb @ rest) \<and> (packet_header ver flags fid w h mb @ rest) ! 5 = flags"
  by (simp add: packet_header_def EVCK_MAGIC_def)

lemma flags_byte_header [simp]: "flags_byte (packet_header ver flags fid w h mb @ rest) = flags"
  using header_flags [of ver flags fid w h mb rest] by (simp add: flags_byte_def)

lemma flags_byte_assembled: "flags_byte (fst (assemble_frame ver flags copies fid w h focus tiles)) = flags"
  by (simp add: assemble_frame_def Let_def split_def)

lemma flags_byte_special:
  "flags_byte (nop_packet_data fid w h) = FLAG_NOP" "flags_byte (copy_rect_only_packet_data fid w h rects) = FLAG_COPY_RECTS"
  using flags_byte_header [of EVCK_VERSION FLAG_NOP fid w h 0 "[]"]
  by (simp_all add: nop_packet_data_def copy_rect_only_packet_data_def del: flags_byte_header) (simp_all add: copy_rect_only_packet_data_def)

text \<open>A packet of an encoder: it has the keyframe flag only if a keyframe was pending, and the flag of an idle
  packet only if it is one and no keyframe was pending.\<close>

definition flags_ok :: "CpuEvrtckEncoder \<Rightarrow> bytes \<Rightarrow> bool" where
  "flags_ok ce data \<longleftrightarrow> (flags_byte data AND FLAG_KEYFRAME \<noteq> 0 \<longrightarrow> ce_pending_keyframe ce)
     \<and> (flags_byte data AND FLAG_NOP \<noteq> 0 \<longrightarrow> \<not> ce_pending_keyframe ce \<and> (\<exists>fid. data = nop_packet_data fid (ce_width ce) (ce_height ce)))"

lemmas flag_consts = FLAG_KEYFRAME_def FLAG_NOP_def FLAG_COPY_RECTS_def

lemma flags_ok_plain: "flags_byte data = 0 \<or> flags_byte data = FLAG_COPY_RECTS \<Longrightarrow> flags_ok ce data"
  by (auto simp: flags_ok_def flag_consts)

lemma flags_ok_nop: "\<not> ce_pending_keyframe ce \<Longrightarrow> flags_ok ce (nop_packet_data fid (ce_width ce) (ce_height ce))"
  by (auto simp: flags_ok_def flags_byte_special flag_consts)

lemma flags_inner_impl:
  assumes "encode_inner_impl zenc ce bgra fid want = (ce', pkt, st, ofs)"
  shows "flags_ok ce (pk_data pkt)"
proof -
  have d: "pk_data pkt = fst (encode_frame_with_offsets zenc bgra (ce_prev ce) (ce_width ce) (ce_height ce) fid (ce_pending_keyframe ce) (ce_focus ce) want)"
    using assms by (auto simp: encode_inner_impl_def Let_def split: prod.splits)
  show ?thesis
  proof (cases "\<not> ce_pending_keyframe ce \<and> bgra = ce_prev ce")
    case True
    then show ?thesis unfolding d by (simp add: encode_frame_with_offsets_def Let_def flags_ok_nop)
  next
    case False
    then have "flags_byte (pk_data pkt) = (if ce_pending_keyframe ce then FLAG_KEYFRAME else 0)"
      unfolding d by (auto simp: encode_frame_with_offsets_def Let_def split_def flags_byte_assembled)
    then show ?thesis by (auto simp: flags_ok_def flag_consts)
  qed
qed

lemma flags_inner: "encode_inner zenc ce bgra fid = (ce', pkt, st) \<Longrightarrow> flags_ok ce (pk_data pkt)"
  by (auto simp: encode_inner_def dest: flags_inner_impl split: prod.splits)

lemma flags_copy_frame:
  "flags_byte (fst (encode_frame_with_offsets_and_copy_rects zenc bgra prev w h fid rects focus want)) = FLAG_COPY_RECTS"
  by (simp add: encode_frame_with_offsets_and_copy_rects_def Let_def split_def flags_byte_assembled)

lemma flags_copy_rects: "encode_inner_with_copy_rects zenc ce bgra fid rects = (ce', pkt, st) \<Longrightarrow> flags_ok ce (pk_data pkt)"
  using flags_copy_frame [of zenc bgra "apply_copy_rects (ce_prev ce) (ce_width ce) (ce_height ce) (valid_rects ce rects)"
      "ce_width ce" "ce_height ce" fid "valid_rects ce rects" "ce_focus ce" False]
  by (auto simp: encode_inner_with_copy_rects_def Let_def packet_of_def flags_ok_plain dest: flags_inner split: if_splits prod.splits)

lemma flags_scroll: "encode_inner_with_scroll_detection zenc ce bgra fid = (ce', pkt, st) \<Longrightarrow> flags_ok ce (pk_data pkt)"
  by (auto simp: encode_inner_with_scroll_detection_def dest: flags_inner flags_copy_rects split: if_splits option.splits)

lemma flags_dirty_indices:
  "flags_byte (fst (encode_pframe_from_dirty_indices zenc bgra prev w h fid idxs focus)) = 0"
  "flags_byte (fst (encode_copy_rect_frame_from_dirty_indices zenc bgra prev w h fid rects idxs focus)) = FLAG_COPY_RECTS"
  by (simp_all add: encode_pframe_from_dirty_indices_def encode_copy_rect_frame_from_dirty_indices_def Let_def split_def
      flags_byte_assembled flags_byte_special)

lemma flags_hints:
  assumes "encode_inner_with_capture_hints zenc ce bgra fid rects dirty = (ce', pkt, st)"
  shows "flags_ok ce (pk_data pkt)"
proof (cases "ce_pending_keyframe ce \<or> (dirty_tile_indices_from_rects dirty (ce_width ce) (ce_height ce) = None \<and> valid_rects ce rects = [])")
  case True
  then show ?thesis using assms
    by (auto simp: encode_inner_with_capture_hints_def Let_def dest: flags_inner flags_scroll split: if_splits)
next
  case False
  let ?v = "valid_rects ce rects"
  let ?p = "if ?v \<noteq> [] then apply_copy_rects (ce_prev ce) (ce_width ce) (ce_height ce) ?v else ce_prev ce"
  show ?thesis
  proof (cases "dirty_tile_indices_from_rects dirty (ce_width ce) (ce_height ce)")
    case None
    have "pk_data pkt = fst (encode_frame_with_offsets_and_copy_rects zenc bgra ?p (ce_width ce) (ce_height ce) fid ?v (ce_focus ce) False)"
      using assms False unfolding encode_inner_with_capture_hints_def Let_def None by (auto simp: packet_of_def split: prod.splits)
    then show ?thesis by (simp add: flags_ok_plain flags_copy_frame)
  next
    case (Some idxs)
    have d: "pk_data pkt = (if bgra = ?p then (if ?v = [] then nop_packet_data fid (ce_width ce) (ce_height ce)
           else copy_rect_only_packet_data fid (ce_width ce) (ce_height ce) ?v)
        else if ?v = [] then fst (encode_pframe_from_dirty_indices zenc bgra ?p (ce_width ce) (ce_height ce) fid idxs (ce_focus ce))
        else fst (encode_copy_rect_frame_from_dirty_indices zenc bgra ?p (ce_width ce) (ce_height ce) fid ?v idxs (ce_focus ce)))"
      using assms False unfolding encode_inner_with_capture_hints_def Let_def Some
      by (auto simp: packet_of_def split: prod.splits if_splits)
    show ?thesis using False unfolding d
      by (simp add: flags_ok_nop flags_ok_plain flags_byte_special flags_dirty_indices split del: if_split split: if_split)
  qed
qed

lemma capture_step_flags: "capture_step zenc ev ce = (ce', Some pkt) \<Longrightarrow> flags_ok ce (pk_data pkt)"
  by (cases ev) (auto simp: capture_step_def encode_inner_with_offsets_def
      dest: flags_inner flags_inner_impl flags_copy_rects flags_scroll flags_hints split: prod.splits)

section \<open>A stream of packets\<close>

text \<open>What an encoder sends: the captured frames with their packets.\<close>

fun capture_sent :: "(bytes \<Rightarrow> bytes option) \<Rightarrow> capture_event list \<Rightarrow> CpuEvrtckEncoder \<Rightarrow> (bytes \<times> bytes) list" where
  "capture_sent zenc [] ce = []"
| "capture_sent zenc (ev # evs) ce = (case capture_step zenc ev ce of
      (ce', None) \<Rightarrow> capture_sent zenc evs ce'
    | (ce', Some pkt) \<Rightarrow> (case captured ev of None \<Rightarrow> [] | Some bgra \<Rightarrow> [(bgra, pk_data pkt)]) @ capture_sent zenc evs ce')"

definition is_key :: "bytes \<Rightarrow> bool" where "is_key d \<longleftrightarrow> flags_byte d AND FLAG_KEYFRAME \<noteq> 0"
definition is_nop :: "bytes \<Rightarrow> bool" where "is_nop d \<longleftrightarrow> flags_byte d AND FLAG_NOP \<noteq> 0"

text \<open>A packet takes every decoder in one set of states to its frame and into another; idle packets are not
  decoded. A stream is linked when its packets do so one after the other, a keyframe from any state.\<close>

definition step_to :: "(bytes \<Rightarrow> bytes option) \<Rightarrow> bytes \<Rightarrow> bytes \<Rightarrow> (EvrtckDecoder \<Rightarrow> bool) \<Rightarrow> (EvrtckDecoder \<Rightarrow> bool) \<Rightarrow> bool" where
  "step_to zdec b d S S' \<longleftrightarrow> (\<forall>ed. S ed \<longrightarrow>
     (if is_nop d then S' ed else \<exists>ed'. decode_wire zdec ed d = (ed', Inr (swap_frame b)) \<and> S' ed'))"

fun linked :: "(bytes \<Rightarrow> bytes option) \<Rightarrow> (EvrtckDecoder \<Rightarrow> bool) \<Rightarrow> (bytes \<times> bytes) list \<Rightarrow> bool" where
  "linked zdec S [] \<longleftrightarrow> True"
| "linked zdec S ((b, d) # xs) \<longleftrightarrow> (\<exists>S'. step_to zdec b d S S' \<and> (is_key d \<longrightarrow> (\<forall>ed. S ed)) \<and> linked zdec S' xs)"

lemma linked_drop: "linked zdec S (us @ vs) \<Longrightarrow> \<exists>S'. linked zdec S' vs"
proof (induction us arbitrary: S)
  case (Cons u us)
  then show ?case by (cases u) fastforce
qed auto

lemma nop_keeps_decoder:
  assumes "dims_ok w h" "ed_width ed = w" "ed_height ed = h" "length (ed_frame ed) = w * h * 4"
  shows "decode_wire zdec ed (nop_packet_data fid w h) = (ed, Inr (ed_frame ed))"
proof -
  have b: "w < 2 ^ 32" "h < 2 ^ 32" "(0 :: nat) < 2 ^ 16" using assms(1) by (simp_all add: dims_ok_def)
  note hd = header_fields [OF b, of EVCK_VERSION FLAG_NOP fid "[]", simplified]
  have "fit_buffer w h ed = ed" using assms(2-4) by (simp add: fit_buffer_def)
  then show ?thesis unfolding nop_packet_data_def decode_wire_def decode_frame_def decode_frame_prioritized_def Let_def
    using hd by (simp add: EVCK_VERSION_def FLAG_NOP_def FLAG_KEYFRAME_def)
qed

lemma capture_linked:
  assumes z: "zstd_ok zenc zdec"
  shows "dims_ok (ce_width ce) (ce_height ce) \<Longrightarrow> length (ce_prev ce) = ce_width ce * ce_height ce * 4 \<Longrightarrow> events_ok zenc evs ce \<Longrightarrow>
    \<exists>S. (\<forall>ed. in_sync ce ed \<longrightarrow> S ed) \<and> linked zdec S (capture_sent zenc evs ce)"
proof (induction evs arbitrary: ce)
  case Nil
  show ?case by auto
next
  case (Cons ev evs)
  have ok: "event_ok ce ev" "events_ok zenc evs (fst (capture_step zenc ev ce))" using Cons.prems(3) by simp_all
  let ?ed = "\<lparr>ed_frame = swap_frame (ce_prev ce), ed_width = ce_width ce, ed_height = ce_height ce\<rparr>"
  have sync: "in_sync ce ?ed" using Cons.prems(2) by (simp add: in_sync_def)
  show ?case
  proof (cases "captured ev")
    case None
    obtain ce' where s: "capture_step zenc ev ce = (ce', None)" "in_sync ce' ?ed" "ce_width ce' = ce_width ce" "ce_height ce' = ce_height ce"
      using capture_step_quiet [OF None sync] by blast
    have q: "in_sync ce' ed" if "in_sync ce ed" for ed using capture_step_quiet [OF None that, where zenc = zenc] s(1) by auto
    obtain S where "\<forall>ed. in_sync ce' ed \<longrightarrow> S ed" "linked zdec S (capture_sent zenc evs ce')"
      using Cons.IH [of ce'] Cons.prems(1) ok(2) s by (auto simp: in_sync_def)
    then show ?thesis using q s(1) by auto
  next
    case (Some bgra)
    obtain ce' pkt st where s: "capture_step zenc ev ce = (ce', Some pkt)" "step_ok zdec ce ?ed bgra (ce', pkt, st)"
      using capture_step_frame [OF z Cons.prems(1) sync ok(1) Some] by blast
    have step: "\<exists>ed'. decode_wire zdec ed (pk_data pkt) = (ed', Inr (swap_frame bgra)) \<and> in_sync ce' ed'" if "in_sync ce ed" for ed
      using capture_step_frame [OF z Cons.prems(1) that ok(1) Some] s(1) by (auto simp: step_ok_def)
    have dims: "ce_width ce' = ce_width ce" "ce_height ce' = ce_height ce" "length (ce_prev ce') = ce_width ce' * ce_height ce' * 4"
      using s(2) by (auto simp: step_ok_def in_sync_def)
    obtain S where S: "\<forall>ed. in_sync ce' ed \<longrightarrow> S ed" "linked zdec S (capture_sent zenc evs ce')"
      using Cons.IH [of ce'] Cons.prems(1) ok(2) s(1) dims by auto
    note fl = capture_step_flags [OF s(1), unfolded flags_ok_def, folded is_key_def is_nop_def]
    have "step_to zdec bgra (pk_data pkt) (in_sync ce) S"
      unfolding step_to_def
    proof (intro allI impI)
      fix ed assume i: "in_sync ce ed"
      obtain ed' where ed': "decode_wire zdec ed (pk_data pkt) = (ed', Inr (swap_frame bgra))" "in_sync ce' ed'" using step [OF i] by blast
      show "if is_nop (pk_data pkt) then S ed else \<exists>ed'. decode_wire zdec ed (pk_data pkt) = (ed', Inr (swap_frame bgra)) \<and> S ed'"
      proof (cases "is_nop (pk_data pkt)")
        case True
        then obtain fid where n: "\<not> ce_pending_keyframe ce" "pk_data pkt = nop_packet_data fid (ce_width ce) (ce_height ce)" using fl by blast
        then have "ed_width ed = ce_width ce" "ed_height ed = ce_height ce" "ed_frame ed = swap_frame (ce_prev ce)" using i by (auto simp: in_sync_def)
        then have "ed' = ed" using nop_keeps_decoder [OF Cons.prems(1), of ed zdec fid] ed'(1) n(2) Cons.prems(2) by simp
        then show ?thesis using True S(1) ed'(2) by simp
      next
        case False
        then show ?thesis using ed' S(1) by auto
      qed
    qed
    moreover have "is_key (pk_data pkt) \<longrightarrow> (\<forall>ed. in_sync ce ed)" using fl Cons.prems(2) by (auto simp: in_sync_def)
    ultimately have "linked zdec (in_sync ce) (capture_sent zenc (ev # evs) ce)" using S(2) s(1) Some by auto
    then show ?thesis by blast
  qed
qed

section \<open>Turns on a linked stream\<close>

definition arrives_as :: "(bytes \<times> bytes) \<Rightarrow> DecoderInput \<Rightarrow> bool" where
  "arrives_as x inp \<longleftrightarrow> (\<exists>t. inp = tcp_evrtck_input t (snd x))"

definition picture_of :: "SessionEvent \<Rightarrow> bytes option" where
  "picture_of ev = (case ev of Frame sid codec w h rgba \<Rightarrow> Some rgba | _ \<Rightarrow> None)"

lemma input_facts:
  "is_evrtck (tcp_evrtck_input t d)" "is_video (tcp_evrtck_input t d)" "has_keyframe (tcp_evrtck_input t d) = is_key d"
  by (simp_all add: tcp_evrtck_input_def Let_def is_evrtck_def is_video_def is_key_def)

lemma decode_step_linked:
  assumes "linked zdec S ((b, d) # xs)" "S (fst (tn_decoders tn))"
  shows "\<exists>S'. S' (fst (tn_decoders (decode_step zdec other tm (tcp_evrtck_input t d) tn))) \<and> linked zdec S' xs
    \<and> (tn_latest (decode_step zdec other tm (tcp_evrtck_input t d) tn) = tn_latest tn
       \<or> map_option picture_of (tn_latest (decode_step zdec other tm (tcp_evrtck_input t d) tn)) = Some (Some (swap_frame b)))
    \<and> map picture_of (tn_events (decode_step zdec other tm (tcp_evrtck_input t d) tn))
        = map picture_of (tn_events tn) @ replicate (length (tn_events (decode_step zdec other tm (tcp_evrtck_input t d) tn)) - length (tn_events tn)) None"
proof -
  obtain S' where S': "step_to zdec b d S S'" "linked zdec S' xs" using assms(1) by auto
  obtain ed dd where st: "tn_decoders tn = (ed, dd)" by fastforce
  have n: "if is_nop d then S' ed else \<exists>ed'. decode_wire zdec ed d = (ed', Inr (swap_frame b)) \<and> S' ed'"
    using S'(1) assms(2) st by (simp add: step_to_def)
  show ?thesis
  proof (cases "is_nop d")
    case True
    then have "decode_step zdec other tm (tcp_evrtck_input t d) tn = tn\<lparr>tn_decoders := (ed, dd)\<rparr>"
      by (simp add: decode_step_def decode_one_frame_def tcp_evrtck_input_def Let_def is_nop_def st)
    then show ?thesis using True n S'(2) by auto
  next
    case False
    then obtain ed' where e: "decode_wire zdec ed d = (ed', Inr (swap_frame b))" "S' ed'" using n by auto
    have "\<exists>sid w h. decode_step zdec other tm (tcp_evrtck_input t d) tn
        = tn\<lparr>tn_decoders := (ed', dd), tn_events := tn_events tn @ [FrameMetrics (length d) (fst (tm (tcp_evrtck_input t d))) (snd (tm (tcp_evrtck_input t d))) (tn_dropped tn)],
           tn_feedback := tn_feedback tn @ [FrameDecoded ''EVRTCK'' (fst (tm (tcp_evrtck_input t d))) (snd (tm (tcp_evrtck_input t d)))], tn_dropped := 0,
           tn_latest := Some (Frame sid ''EVRTCK'' w h (swap_frame b))\<rparr>"
      using False e(1) by (auto simp: decode_step_def decode_one_frame_def tcp_evrtck_input_def Let_def is_nop_def st)
    then show ?thesis using e(2) S'(2) by (auto simp: picture_of_def)
  qed
qed

definition turn_ok :: "bytes set \<Rightarrow> 'd Turn \<Rightarrow> bool" where
  "turn_ok P tn \<longleftrightarrow> (\<forall>ev \<in> set (tn_events tn). picture_of ev = None)
     \<and> (\<forall>ev. tn_latest tn = Some ev \<longrightarrow> (\<exists>p \<in> P. picture_of ev = Some p))"

lemma decode_steps_linked:
  "linked zdec S (xs @ ys) \<Longrightarrow> S (fst (tn_decoders tn)) \<Longrightarrow> list_all2 arrives_as xs inps \<Longrightarrow> swap_frame ` fst ` set xs \<subseteq> P \<Longrightarrow> turn_ok P tn \<Longrightarrow>
   turn_ok P (fold (decode_step zdec other tm) inps tn)
     \<and> (\<exists>S'. S' (fst (tn_decoders (fold (decode_step zdec other tm) inps tn))) \<and> linked zdec S' ys)"
proof (induction xs arbitrary: S tn inps)
  case (Cons x xs)
  obtain b d where x: "x = (b, d)" by fastforce
  obtain inp inps' where i: "inps = inp # inps'" "arrives_as x inp" "list_all2 arrives_as xs inps'"
    using Cons.prems(3) by (auto simp: list_all2_Cons1)
  obtain t where t: "inp = tcp_evrtck_input t d" using i(2) x by (auto simp: arrives_as_def)
  let ?tn = "decode_step zdec other tm (tcp_evrtck_input t d) tn"
  have "linked zdec S ((b, d) # (xs @ ys))" using Cons.prems(1) x by simp
  from decode_step_linked [OF this Cons.prems(2), of other tm t] obtain S' where
    S': "S' (fst (tn_decoders ?tn))" "linked zdec S' (xs @ ys)"
      "tn_latest ?tn = tn_latest tn \<or> map_option picture_of (tn_latest ?tn) = Some (Some (swap_frame b))"
      "map picture_of (tn_events ?tn) = map picture_of (tn_events tn) @ replicate (length (tn_events ?tn) - length (tn_events tn)) None" by blast
  have "picture_of ` set (tn_events ?tn) \<subseteq> picture_of ` set (tn_events tn) \<union> {None}"
    using arg_cong [OF S'(4), of set] by auto
  then have "turn_ok P ?tn" using Cons.prems(4,5) S'(3) x unfolding turn_ok_def by fastforce
  then show ?case using Cons.IH [OF S'(2,1) i(3)] Cons.prems(4) i(1) t by simp
qed auto

lemma arrives_as_inputs:
  "list_all2 arrives_as xs inps \<Longrightarrow> list_all is_evrtck inps \<and> filter is_video inps = inps \<and> (inps \<noteq> [] \<longrightarrow> list_ex is_video inps)"
  by (induction rule: list_all2_induct) (auto simp: arrives_as_def input_facts)

definition turn_events :: "'d Turn \<Rightarrow> SessionEvent list" where
  "turn_events tn = tn_events tn @ (case tn_latest tn of None \<Rightarrow> [] | Some event \<Rightarrow> [event])"

definition start_turn :: "EvrtckDecoder \<times> 'd \<Rightarrow> DecoderFeedback list \<Rightarrow> nat \<Rightarrow> 'd Turn" where
  "start_turn st fb n = \<lparr>tn_decoders = st, tn_feedback = fb, tn_events = [], tn_dropped = n, tn_latest = None\<rparr>"

text \<open>A turn on inputs of the screen codec, in the three cases of trimming.\<close>

lemma decode_batch_cases:
  assumes "list_all2 arrives_as xs batch" "decode_batch zdec other tm batch st = (st', fb, evs)"
  obtains (all) tn where "tn = fold (decode_step zdec other tm) batch (start_turn st [] 0)"
      "st' = tn_decoders tn" "fb = tn_feedback tn" "evs = turn_events tn"
  | (from_key) n tn where "n < length batch" "has_keyframe (batch ! n)"
      "tn = fold (decode_step zdec other tm) (drop n batch) (start_turn st [BacklogTrimmed n] n)"
      "st' = tn_decoders tn" "fb = tn_feedback tn" "evs = turn_events tn"
  | (broken) "3 < length batch" "st' = (decoder_reset (fst st), snd st)" "fb = [EvrtckChainBroken (length batch - 3)]" "evs = []"
proof -
  note inps = arrives_as_inputs [OF assms(1)]
  show thesis
  proof (cases "batch = []")
    case True
    then show thesis using assms(2) by (intro all [OF refl]) (auto simp: decode_batch_def start_turn_def turn_events_def)
  next
    case False
    obtain b' tr where t: "trim_video_backlog_to_keyframe batch = (b', tr)" by fastforce
    have v: "list_ex is_video batch" "filter is_video batch = batch" using inps False by auto
    note d = assms(2) [unfolded decode_batch_def v if_P [OF v(1)] t Let_def prod.case]
    consider
        "b' = batch" "bt_dropped tr = 0"
      | n where "0 < n" "n < length batch" "b' = drop n batch" "has_keyframe (batch ! n)" "bt_dropped tr = n" "\<not> bt_evrtck_chain_broken tr"
      | "b' = []" "bt_evrtck_chain_broken tr" "3 < length batch" "bt_dropped tr = length batch - 3"
      using trim_evrtck [OF conjunct1 [OF inps] t] by (elim disjE conjE exE) simp_all
    then show thesis
    proof cases
      case 1
      show thesis using d unfolding 1 by (intro all [OF refl]) (simp_all add: start_turn_def turn_events_def)
    next
      case 2
      show thesis using d 2(1,6) unfolding 2(3,5) by (intro from_key [OF 2(2,4) refl]) (simp_all add: start_turn_def turn_events_def)
    next
      case 3
      show thesis using d 3(2,3) unfolding 3(1,4) by (intro broken) simp_all
    qed
  qed
qed

lemma turn_ok_start: "turn_ok P (start_turn st fb n)"
  by (simp add: turn_ok_def start_turn_def)

lemma turn_ok_pictures: "turn_ok P tn \<Longrightarrow> ev \<in> set (turn_events tn) \<Longrightarrow> picture_of ev = Some p \<Longrightarrow> p \<in> P"
  by (cases "tn_latest tn") (auto simp: turn_ok_def turn_events_def)

lemma decode_batch_linked:
  assumes l: "linked zdec S (xs @ ys)" "S (fst st)" and a: "list_all2 arrives_as xs batch"
    and d: "decode_batch zdec other tm batch st = (st', fb, evs)" and nb: "\<forall>n. EvrtckChainBroken n \<notin> set fb"
  shows "(\<forall>ev \<in> set evs. \<forall>p. picture_of ev = Some p \<longrightarrow> p \<in> swap_frame ` fst ` set xs) \<and> (\<exists>S'. S' (fst st') \<and> linked zdec S' ys)"
  using a d
proof (cases rule: decode_batch_cases)
  case (all tn)
  have "S (fst (tn_decoders (start_turn st [] 0)))" using l(2) by (simp add: start_turn_def)
  from decode_steps_linked [OF l(1) this a subset_refl turn_ok_start, where other = other and tm = tm] all show ?thesis
    using turn_ok_pictures by blast
next
  case (from_key n tn)
  have n: "n < length xs" using from_key(1) list_all2_lengthD [OF a] by simp
  have x: "drop n xs = xs ! n # drop (Suc n) xs" using n by (rule Cons_nth_drop_Suc [symmetric])
  have "linked zdec S (take n xs @ (drop n xs @ ys))" using l(1) by (metis append.assoc append_take_drop_id)
  then obtain S1 where S1: "linked zdec S1 (drop n xs @ ys)" using linked_drop by blast
  have "arrives_as (xs ! n) (batch ! n)" using a n by (simp add: list_all2_conv_all_nth)
  then have "is_key (snd (xs ! n))" using from_key(2) by (auto simp: arrives_as_def input_facts)
  then have any: "\<forall>ed. S1 ed" using S1 x by (cases "xs ! n") auto
  have sub: "swap_frame ` fst ` set (drop n xs) \<subseteq> swap_frame ` fst ` set xs" by (intro image_mono set_drop_subset)
  have a': "list_all2 arrives_as (drop n xs) (drop n batch)" using a by (simp add: list_all2_dropI)
  from decode_steps_linked [OF S1 _ a' sub turn_ok_start [where st = st and fb = "[BacklogTrimmed n]" and n = n], where other = other and tm = tm] any from_key show ?thesis
    using turn_ok_pictures by (metis (no_types, lifting))
next
  case broken
  then show ?thesis using nb by auto
qed

lemma decode_batches_linked:
  "linked zdec S (concat xss) \<Longrightarrow> S (fst st) \<Longrightarrow> list_all2 (list_all2 arrives_as) xss batches \<Longrightarrow> i < length batches \<Longrightarrow>
   \<forall>j \<le> i. \<forall>n. EvrtckChainBroken n \<notin> set (fst (decode_batches zdec other tm batches st ! j)) \<Longrightarrow>
   \<forall>ev \<in> set (snd (decode_batches zdec other tm batches st ! i)). \<forall>p. picture_of ev = Some p \<longrightarrow> p \<in> swap_frame ` fst ` set (xss ! i)"
proof (induction xss arbitrary: S st batches i)
  case Nil
  then show ?case by simp
next
  case (Cons xs xss)
  obtain b bs where b: "batches = b # bs" "list_all2 arrives_as xs b" "list_all2 (list_all2 arrives_as) xss bs"
    using Cons.prems(3) by (auto simp: list_all2_Cons1)
  obtain st' fb evs where d: "decode_batch zdec other tm b st = (st', fb, evs)" by (metis prod_cases3)
  have o: "decode_batches zdec other tm batches st = (fb, evs) # decode_batches zdec other tm bs st'" using b(1) d by simp
  have nb: "\<forall>n. EvrtckChainBroken n \<notin> set fb" using Cons.prems(5) o by force
  have l: "linked zdec S (xs @ concat xss)" using Cons.prems(1) by simp
  note h = decode_batch_linked [OF l Cons.prems(2) b(2) d nb]
  show ?case
  proof (cases i)
    case 0
    then show ?thesis using h o by simp
  next
    case (Suc k)
    obtain S' where S': "S' (fst st')" "linked zdec S' (concat xss)" using h by blast
    have "\<forall>j \<le> k. \<forall>n. EvrtckChainBroken n \<notin> set (fst (decode_batches zdec other tm bs st' ! j))"
      using Cons.prems(5) o Suc by (metis Suc_le_mono nth_Cons_Suc)
    then show ?thesis using Cons.IH [OF S'(2,1) b(3), of k] Cons.prems(4) b(1) o Suc by simp
  qed
qed

section \<open>A broken chain\<close>

lemma decode_step_broken:
  "EvrtckChainBroken n \<in> set (tn_feedback (decode_step zdec other tm inp tn)) \<longleftrightarrow> EvrtckChainBroken n \<in> set (tn_feedback tn)"
  by (auto simp: decode_step_def split: prod.splits sum.splits option.splits DecodeError.splits)

lemma decode_steps_broken:
  "EvrtckChainBroken n \<in> set (tn_feedback (fold (decode_step zdec other tm) inps tn)) \<longleftrightarrow> EvrtckChainBroken n \<in> set (tn_feedback tn)"
  by (induction inps arbitrary: tn) (simp_all add: decode_step_broken)

lemma short_batch_unbroken:
  assumes "list_all2 arrives_as xs batch" "length batch \<le> 3" "decode_batch zdec other tm batch st = (st', fb, evs)"
  shows "EvrtckChainBroken n \<notin> set fb"
  using assms(1,3)
proof (cases rule: decode_batch_cases)
  case (all tn)
  then show ?thesis by (simp add: decode_steps_broken start_turn_def)
next
  case (from_key m tn)
  then show ?thesis by (simp add: decode_steps_broken start_turn_def)
next
  case broken
  then show ?thesis using assms(2) by simp
qed

text \<open>An encoder on a screen of two pixels, four idle captures, then a capture in which the first pixel was copied onto
  the second.\<close>

abbreviation shown_frame :: bytes where "shown_frame \<equiv> [1, 2, 3, 4, 5, 6, 7, 8]"
abbreviation next_frame :: bytes where "next_frame \<equiv> [1, 2, 3, 4, 1, 2, 3, 4]"

abbreviation pixel_copy :: CopyRect where
  "pixel_copy \<equiv> \<lparr>cp_src_x = 0, cp_src_y = 0, cp_dst_x = 1, cp_dst_y = 0, cp_width = 1, cp_height = 1\<rparr>"

abbreviation idle_encoder :: CpuEvrtckEncoder where
  "idle_encoder \<equiv> \<lparr>ce_prev = shown_frame, ce_width = 2, ce_height = 1, ce_pending_keyframe = False, ce_focus = None\<rparr>"

lemma small_dims: "dims_ok 2 1"
  by (simp add: dims_ok_def tiles_in_dim_def TILE_SIZE_def)

lemma copied_pixel:
  "valid_rects idle_encoder [pixel_copy] = [pixel_copy]" "copy_rect_is_valid pixel_copy 2 1"
  "apply_copy_rects shown_frame 2 1 [pixel_copy] = next_frame"
  "apply_copy_rects (replicate 8 0) 2 1 [pixel_copy] = replicate 8 0"
  by (simp_all add: valid_rects_def copy_rect_is_valid_def apply_copy_rects_def apply_copy_rect_def Let_def splice_def subslice_def
      numeral_eq_Suc)

lemma idle_step:
  "\<exists>pkt. capture_step zenc (CapEncode shown_frame fid) idle_encoder = (idle_encoder, Some pkt) \<and> pk_data pkt = nop_packet_data fid 2 1"
  by (simp add: capture_step_def encode_inner_def encode_inner_impl_def encode_frame_with_offsets_def Let_def tiles_in_dim_def TILE_SIZE_def)

lemma copy_step:
  "\<exists>ce' pkt. capture_step zenc (CapCopyRects next_frame fid [pixel_copy]) idle_encoder = (ce', Some pkt)
     \<and> pk_data pkt = copy_rect_only_packet_data fid 2 1 [pixel_copy]"
  using copied_pixel by (simp add: capture_step_def encode_inner_with_copy_rects_def encode_frame_with_offsets_and_copy_rects_def
      copy_rect_only_packet_data_def packet_of_def Let_def)

lemma idle_stream:
  "capture_sent zenc (map (CapEncode shown_frame) fids @ [CapCopyRects next_frame fid [pixel_copy]]) idle_encoder
     = map (\<lambda>i. (shown_frame, nop_packet_data i 2 1)) fids @ [(next_frame, copy_rect_only_packet_data fid 2 1 [pixel_copy])]
   \<and> events_ok zenc (map (CapEncode shown_frame) fids @ [CapCopyRects next_frame fid [pixel_copy]]) idle_encoder"
proof (induction fids)
  case Nil
  obtain ce' pkt where "capture_step zenc (CapCopyRects next_frame fid [pixel_copy]) idle_encoder = (ce', Some pkt)"
    "pk_data pkt = copy_rect_only_packet_data fid 2 1 [pixel_copy]" using copy_step by blast
  then show ?case by (simp add: event_ok_def)
next
  case (Cons i fids)
  obtain pkt where "capture_step zenc (CapEncode shown_frame i) idle_encoder = (idle_encoder, Some pkt)"
    "pk_data pkt = nop_packet_data i 2 1" using idle_step by blast
  then show ?case using Cons.IH by (simp add: event_ok_def)
qed

lemma idle_batch_breaks_chain:
  assumes "length inps = 4" "\<forall>inp \<in> set inps. \<exists>t i. inp = tcp_evrtck_input t (nop_packet_data i 2 1)"
  shows "decode_batch zdec other tm inps (ed, d) = ((decoder_reset ed, d), [EvrtckChainBroken 1], [])"
proof -
  have e: "is_evrtck inp \<and> is_video inp \<and> \<not> has_keyframe inp" if mem: "inp \<in> set inps" for inp
  proof -
    obtain t i where i: "inp = tcp_evrtck_input t (nop_packet_data i 2 1)" using assms(2) mem by blast
    have "\<not> is_key (nop_packet_data i 2 1)" by (simp add: is_key_def flags_byte_special FLAG_NOP_def FLAG_KEYFRAME_def)
    then show ?thesis unfolding i by (simp add: input_facts)
  qed
  have ne: "inps \<noteq> []" using assms(1) by auto
  then have v: "list_ex is_video inps" "filter is_video inps = inps" "list_all is_evrtck inps" "\<forall>inp \<in> set inps. \<not> has_keyframe inp"
    using e list.set_sel(1) [OF ne] by (simp_all add: list_all_iff list_ex_iff filter_id_conv, blast)
  have r: "rposition has_keyframe inps = None" using v(4) by (simp add: rposition_None)
  have k: "\<not> (case drop 1 inps of [] \<Rightarrow> False | x # _ \<Rightarrow> has_keyframe x)"
    using v(4) by (auto dest: in_set_dropD split: list.split) (metis in_set_dropD list.set_intros(1))
  have "trim_video_backlog_to_keyframe inps = ([], \<lparr>bt_dropped = 1, bt_evrtck_chain_broken = True\<rparr>)"
    using assms(1) v(3) r k by (simp add: trim_video_backlog_to_keyframe_def Let_def MAX_VIDEO_BACKLOG_def)
  then show ?thesis using v by (simp add: decode_batch_def Let_def)
qed

lemma single_batch:
  assumes "is_video inp" "tn = decode_step zdec other tm inp (start_turn st [] 0)"
  shows "decode_batch zdec other tm [inp] st = (tn_decoders tn, tn_feedback tn, turn_events tn)"
proof -
  have "trim_video_backlog_to_keyframe [inp] = ([inp], \<lparr>bt_dropped = 0, bt_evrtck_chain_broken = False\<rparr>)"
    by (simp add: trim_video_backlog_to_keyframe_def MAX_VIDEO_BACKLOG_def)
  then show ?thesis using assms by (simp add: decode_batch_def Let_def start_turn_def turn_events_def)
qed

lemma copy_shown_as_black:
  assumes "ed_width ed = 2" "ed_height ed = 1" "ed_frame ed = replicate 8 0"
  shows "\<exists>st' fb evs ev. decode_batch zdec other tm [tcp_evrtck_input t (copy_rect_only_packet_data fid 2 1 [pixel_copy])] (ed, d) = (st', fb, evs)
     \<and> ev \<in> set evs \<and> picture_of ev = Some (replicate 8 0)"
proof -
  let ?d = "copy_rect_only_packet_data fid 2 1 [pixel_copy]" and ?z = "replicate 8 (0 :: u8)"
  let ?inp = "tcp_evrtck_input t ?d"
  let ?tn = "decode_step zdec other tm ?inp (start_turn (ed, d) [] 0)"
  have z: "swap_frame ?z = ?z" by code_simp
  have "decodes_to zdec 2 1 ?z (apply_copy_rects ?z 2 1 [pixel_copy]) ?d"
    by (rule decodes_copy_only [OF small_dims]) (simp_all add: copied_pixel(2) [simplified])
  then have "decodes_to zdec 2 1 ?z ?z ?d" unfolding copied_pixel(4) .
  then obtain ver flags fid' mb rest ord where p: "?d = packet_header ver flags fid' 2 1 mb @ rest" "mb < 65536"
      "decode_frame_prioritized zdec ?d (swap_frame ?z) 2 1 None = (swap_frame ?z, Inr ord)"
    unfolding decodes_to_def by blast
  have f: "ed_frame ed = swap_frame ?z" "length ?z = 2 * 1 * 4" unfolding assms(3) z by simp_all
  have w: "decode_wire zdec ed ?d = (\<lparr>ed_frame = swap_frame ?z, ed_width = 2, ed_height = 1\<rparr>, Inr (swap_frame ?z))"
    by (rule decode_wire_in_step [OF small_dims p(1,2) assms(1,2) f p(3)])
  have "flags_byte ?d AND FLAG_NOP = 0" by (simp add: flags_byte_special FLAG_COPY_RECTS_def FLAG_NOP_def)
  then have "\<exists>sid w h. tn_latest ?tn = Some (Frame sid ''EVRTCK'' w h ?z)"
    using w unfolding z by (simp add: decode_step_def decode_one_frame_def tcp_evrtck_input_def Let_def start_turn_def)
  then obtain sid w h where "tn_latest ?tn = Some (Frame sid ''EVRTCK'' w h ?z)" by blast
  then have "Frame sid ''EVRTCK'' w h ?z \<in> set (turn_events ?tn)" "picture_of (Frame sid ''EVRTCK'' w h ?z) = Some ?z"
    by (simp_all add: turn_events_def picture_of_def)
  then show ?thesis using single_batch [OF input_facts(2) refl, of zdec other tm t ?d "(ed, d)"] by blast
qed

section \<open>Properties\<close>

text \<open>C11: Every picture the viewer shows is one the host captured. The host's encoder is run on any sequence of captures,
  keyframe requests and focus changes; its packets reach the decoder thread in order and are queued up in batches of any
  size; the thread trims, decodes and shows them starting from any decoder. Up to the first broken chain, what a turn shows
  is the capture of one of the packets in its batch.\<close>

theorem tcp_pictures_correct:
  assumes "zstd_ok zenc zdec" "dims_ok width height" "events_ok zenc evs (encoder_new width height)"
    and "concat xss = capture_sent zenc evs (encoder_new width height)"
    and "list_all2 (list_all2 arrives_as) xss batches" "i < length batches"
    and "\<forall>j \<le> i. \<forall>n. EvrtckChainBroken n \<notin> set (fst (decode_batches zdec other tm batches (ed, d) ! j))"
  shows "\<forall>ev \<in> set (snd (decode_batches zdec other tm batches (ed, d) ! i)). \<forall>p. picture_of ev = Some p \<longrightarrow>
           p \<in> swap_frame ` fst ` set (xss ! i)"
proof -
  let ?ce = "encoder_new width height"
  have "in_sync ?ce ed" by (simp add: in_sync_def encoder_new_def)
  moreover obtain S where "\<forall>ed. in_sync ?ce ed \<longrightarrow> S ed" "linked zdec S (capture_sent zenc evs ?ce)"
    using capture_linked [OF assms(1) _ _ assms(3)] assms(2) by (auto simp: encoder_new_def)
  ultimately show ?thesis using decode_batches_linked [of zdec S xss "(ed, d)" batches i other tm] assms(4-7) by simp
qed

theorem tcp_pictures_correct_witness:
  "\<exists>pkt. capture_sent Some [CapEncode [1, 2, 3, 4, 5, 6, 7, 8] 1] (encoder_new 2 1) = [([1, 2, 3, 4, 5, 6, 7, 8], pkt)]
    \<and> set (List.map_filter picture_of (snd (decode_batches Some (\<lambda>d inp. (d, Inr None)) (\<lambda>inp. (0, 0)) [[tcp_evrtck_input 0 pkt]] (decoder_new, ()) ! 0)))
        \<subseteq> {[3, 2, 1, 4, 7, 6, 5, 8]}"
proof -
  let ?evs = "[CapEncode [1, 2, 3, 4, 5, 6, 7, 8] 1]" and ?other = "\<lambda>(d :: unit) inp. (d, Inr None :: DecodeError + SessionEvent option)"
    and ?tm = "\<lambda>inp. (0, 0)"
  obtain ce' pkt where s: "capture_step Some (CapEncode [1, 2, 3, 4, 5, 6, 7, 8] 1) (encoder_new 2 1) = (ce', Some pkt)"
    by (cases "encode_inner Some (encoder_new 2 1) [1, 2, 3, 4, 5, 6, 7, 8] 1") (simp add: capture_step_def)
  have sent: "capture_sent Some ?evs (encoder_new 2 1) = [([1, 2, 3, 4, 5, 6, 7, 8], pk_data pkt)]" using s by simp
  have a: "list_all2 arrives_as [([1, 2, 3, 4, 5, 6, 7, 8], pk_data pkt)] [tcp_evrtck_input 0 (pk_data pkt)]"
    by (auto simp: arrives_as_def)
  obtain st' fb out where d: "decode_batch Some ?other ?tm [tcp_evrtck_input 0 (pk_data pkt)] (decoder_new, ()) = (st', fb, out)" by (metis prod_cases3)
  have "zstd_ok Some Some" "events_ok Some ?evs (encoder_new 2 1)" by (simp_all add: zstd_ok_def TILE_SIZE_def event_ok_def encoder_new_def)
  note ok = this
  have c: "concat [[([1, 2, 3, 4, 5, 6, 7, 8], pk_data pkt)]] = capture_sent Some ?evs (encoder_new 2 1)" unfolding sent by simp
  have "list_all2 (list_all2 arrives_as) [[([1, 2, 3, 4, 5, 6, 7, 8], pk_data pkt)]] [[tcp_evrtck_input 0 (pk_data pkt)]]" using a by simp
  note pics = tcp_pictures_correct [OF ok(1) small_dims ok(2) c this, of 0 ?other ?tm decoder_new "()"]
  have out: "decode_batches Some ?other ?tm [[tcp_evrtck_input 0 (pk_data pkt)]] (decoder_new, ()) = [(fb, out)]"
    unfolding decode_batches.simps d by simp
  have "\<forall>ev \<in> set out. \<forall>p. picture_of ev = Some p \<longrightarrow> p \<in> {swap_frame [1, 2, 3, 4, 5, 6, 7, 8]}"
    using pics short_batch_unbroken [OF a _ d] unfolding out by simp
  moreover have "swap_frame [1, 2, 3, 4, 5, 6, 7, 8] = [3, 2, 1, 4, 7, 6, 5, 8]" by code_simp
  ultimately have "set (List.map_filter picture_of out) \<subseteq> {[3, 2, 1, 4, 7, 6, 5, 8]}" by (auto simp: List.map_filter_def)
  then show ?thesis using sent out by auto
qed


end
