(* ===== verification/Viewer_Control.thy ===== *)
theory Viewer_Control
  imports Viewer_Messages Tcp_Viewer
begin

text \<open>
  The control loop of the viewer (\<^verbatim>\<open>src/src/transport.rs\<close>, \<open>run_session\<close> from the start of its loop): how
  the feedback of the decoder thread, the commands of the user and the frames that arrive move the frame rate, the
  quality and the codec the viewer asks for, when it asks for a keyframe, and when it falls back to screenshots.

  The local variables of \<open>run_session\<close> are the record \<open>ViewerState\<close>, its constants the record \<open>ViewerConfig\<close>. Every
  handler takes the time at which it runs, in milliseconds, and returns the new state with the messages it sends.
  Texts for the log and the user interface are left out, and so are the commands and the messages of the host that do
  not touch this state. Counters that only grow are natural numbers; saturating ones saturate.
\<close>

section \<open>State\<close>

record ViewerConfig =
  vc_caps :: Capabilities
  vc_initial_fps :: int
  vc_min_fps :: int
  vc_control_only :: bool

definition viewer_config :: "Capabilities \<Rightarrow> nat \<Rightarrow> nat \<Rightarrow> bool \<Rightarrow> ViewerConfig" where
  "viewer_config caps target_fps min_fps control_only =
     \<lparr>vc_caps = caps, vc_initial_fps = clamp 5 60 (int target_fps),
      vc_min_fps = clamp 5 (clamp 5 60 (int target_fps)) (int min_fps), vc_control_only = control_only\<rparr>"

definition vc_backlog_min :: "ViewerConfig \<Rightarrow> int" where
  "vc_backlog_min cfg = backlog_recovery_min_fps (vc_initial_fps cfg) (vc_min_fps cfg)"

record ViewerState =
  vs_adaptive_quality :: bool
  vs_codec :: CodecPreference
  vs_target_fps :: int
  vs_quality :: ImageQuality
  vs_live_video_seen :: bool
  vs_latest_input_fps :: rat
  vs_last_decoder_recovery :: "nat option"
  vs_last_adaptive_raise :: nat
  vs_stable_decoded_frames :: nat
  vs_last_quality_change :: nat
  vs_low_input_windows :: nat
  vs_h264_failures :: nat
  vs_vp9_failures :: nat
  vs_h265_failures :: nat
  vs_av1_failures :: nat
  vs_last_live_bootstrap :: nat
  vs_current_display :: int
  vs_metric_packets :: nat
  vs_last_packet_metrics :: nat
  vs_skipped_video :: nat
  vs_auto_refresh :: bool
  vs_auto_refresh_millis :: nat
  vs_screenshot_id :: nat
  vs_screenshot_pending :: bool
  vs_screenshots_received :: nat
  vs_last_screenshot_sent :: "nat option"
  vs_last_frame_received :: nat
  vs_last_qos_sent :: "nat option"

definition U32_MAX :: nat where "U32_MAX = 2 ^ 32 - 1"

definition saturating_add32 :: "nat \<Rightarrow> nat \<Rightarrow> nat" where
  "saturating_add32 a b = min (a + b) U32_MAX"

text \<open>\<open>send_video_start_messages_with_quality\<close> on the current stream, then \<open>last_live_bootstrap = now\<close>.\<close>

definition restart_stream ::
  "ViewerConfig \<Rightarrow> nat \<Rightarrow> bool \<Rightarrow> ViewerState \<Rightarrow> ViewerState \<times> RelayMessage list" where
  "restart_stream cfg now refresh_all st =
     (st\<lparr>vs_last_live_bootstrap := now\<rparr>,
      send_video_start_messages_with_quality (vc_caps cfg) (vs_current_display st) refresh_all (vs_target_fps st)
        (vs_codec st) (vs_quality st))"

definition request_screenshot_once :: "nat \<Rightarrow> ViewerState \<Rightarrow> ViewerState \<times> RelayMessage list" where
  "request_screenshot_once now st =
     (st\<lparr>vs_screenshot_id := vs_screenshot_id st + 1, vs_last_screenshot_sent := Some now, vs_screenshot_pending := True\<rparr>,
      [ScreenshotRequest (max (vs_current_display st) 0) (vs_screenshot_id st + 1)])"

text \<open>The session before its loop: the display is subscribed, the stream started, and a first screenshot asked for.\<close>

definition viewer_new :: "ViewerConfig \<Rightarrow> CodecPreference \<Rightarrow> bool \<Rightarrow> nat \<Rightarrow> ViewerState" where
  "viewer_new cfg pref adaptive now =
     \<lparr>vs_adaptive_quality = adaptive, vs_codec = pref, vs_target_fps = vc_initial_fps cfg,
      vs_quality = initial_stream_quality (vc_initial_fps cfg) pref, vs_live_video_seen = False, vs_latest_input_fps = 0,
      vs_last_decoder_recovery = None, vs_last_adaptive_raise = now, vs_stable_decoded_frames = 0,
      vs_last_quality_change = now, vs_low_input_windows = 0, vs_h264_failures = 0, vs_vp9_failures = 0,
      vs_h265_failures = 0, vs_av1_failures = 0, vs_last_live_bootstrap = now, vs_current_display = 0,
      vs_metric_packets = 0, vs_last_packet_metrics = now, vs_skipped_video = 0, vs_auto_refresh = True,
      vs_auto_refresh_millis = 80, vs_screenshot_id = 0, vs_screenshot_pending = False, vs_screenshots_received = 0,
      vs_last_screenshot_sent = None, vs_last_frame_received = now, vs_last_qos_sent = None\<rparr>"

definition viewer_start :: "ViewerConfig \<Rightarrow> CodecPreference \<Rightarrow> bool \<Rightarrow> nat \<Rightarrow> ViewerState \<times> RelayMessage list" where
  "viewer_start cfg pref adaptive now =
     (let st = viewer_new cfg pref adaptive now
      in if vc_control_only cfg then (st, [])
         else case request_screenshot_once now st of (st', shot) \<Rightarrow>
           (st', send_switch_display (vs_current_display st)
              @ send_video_start_messages_with_quality (vc_caps cfg) (vs_current_display st) True (vs_target_fps st)
                  (vs_codec st) (vs_quality st)
              @ send_video_received @ shot))"

section \<open>Feedback of the decoder\<close>

text \<open>\<open>cooldown_ready\<close>: the last recovery, if any, is at least \<open>ms\<close> ago.\<close>

definition cooldown_ready :: "nat \<Rightarrow> nat \<Rightarrow> ViewerState \<Rightarrow> bool" where
  "cooldown_ready ms now st = (case vs_last_decoder_recovery st of None \<Rightarrow> True | Some t \<Rightarrow> ms \<le> now - t)"

text \<open>Lower the frame rate, with the quality that goes with it, if that lowers it.\<close>

definition lower_stream :: "ViewerConfig \<Rightarrow> nat \<Rightarrow> int \<Rightarrow> ViewerState \<Rightarrow> ViewerState \<times> RelayMessage list" where
  "lower_stream cfg now min_fps st =
     (if vs_adaptive_quality st \<and> cooldown_ready 4000 now st then
        (let next_fps = lower_adaptive_fps (vs_target_fps st) min_fps False
         in if next_fps < vs_target_fps st then
              restart_stream cfg now False
                (st\<lparr>vs_target_fps := next_fps, vs_quality := initial_stream_quality next_fps (vs_codec st),
                    vs_last_decoder_recovery := Some now, vs_last_adaptive_raise := now, vs_last_quality_change := now,
                    vs_low_input_windows := 0\<rparr>)
            else (st, []))
      else (st, []))"

definition on_backlog_trimmed :: "ViewerConfig \<Rightarrow> nat \<Rightarrow> ViewerState \<Rightarrow> ViewerState \<times> RelayMessage list" where
  "on_backlog_trimmed cfg now st = lower_stream cfg now (vc_backlog_min cfg) (st\<lparr>vs_stable_decoded_frames := 0\<rparr>)"

definition on_chain_broken :: "ViewerConfig \<Rightarrow> nat \<Rightarrow> ViewerState \<Rightarrow> ViewerState \<times> RelayMessage list" where
  "on_chain_broken cfg now st =
     restart_stream cfg now True
       (st\<lparr>vs_stable_decoded_frames := 0, vs_live_video_seen := False, vs_last_decoder_recovery := Some now\<rparr>)"

definition count_failure :: "string \<Rightarrow> ViewerState \<Rightarrow> ViewerState" where
  "count_failure codec st =
     (if codec = ''H264'' then st\<lparr>vs_h264_failures := vs_h264_failures st + 1\<rparr>
      else if codec = ''VP9'' then st\<lparr>vs_vp9_failures := vs_vp9_failures st + 1\<rparr>
      else if codec = ''H265'' then st\<lparr>vs_h265_failures := vs_h265_failures st + 1\<rparr>
      else if codec = ''AV1'' then st\<lparr>vs_av1_failures := vs_av1_failures st + 1\<rparr>
      else st)"

definition clear_failures :: "string \<Rightarrow> ViewerState \<Rightarrow> ViewerState" where
  "clear_failures codec st =
     (if codec = ''H264'' then st\<lparr>vs_h264_failures := 0\<rparr>
      else if codec = ''VP9'' then st\<lparr>vs_vp9_failures := 0\<rparr>
      else if codec = ''H265'' then st\<lparr>vs_h265_failures := 0\<rparr>
      else if codec = ''AV1'' then st\<lparr>vs_av1_failures := 0\<rparr>
      else st)"

text \<open>The codec to switch to when \<open>codec\<close> keeps failing; the counter of the codec starts again.\<close>

definition switch_codec :: "Capabilities \<Rightarrow> string \<Rightarrow> ViewerState \<Rightarrow> ViewerState option" where
  "switch_codec caps codec st =
     (if codec = ''VP9'' \<and> 3 \<le> vs_vp9_failures st \<and> cap_h264 caps \<and> vs_codec st \<noteq> WantH264 then
        Some (st\<lparr>vs_codec := WantH264, vs_vp9_failures := 0\<rparr>)
      else if codec = ''H264'' \<and> 3 \<le> vs_h264_failures st \<and> cap_vp9 caps \<and> vs_codec st \<noteq> WantVp9 then
        Some (st\<lparr>vs_codec := WantVp9, vs_h264_failures := 0\<rparr>)
      else if codec = ''AV1'' \<and> 2 \<le> vs_av1_failures st \<and> vs_codec st \<noteq> fallback_codec_preference caps then
        Some (st\<lparr>vs_codec := fallback_codec_preference caps, vs_av1_failures := 0\<rparr>)
      else if codec = ''H265'' \<and> 2 \<le> vs_h265_failures st \<and> vs_codec st \<noteq> fallback_codec_preference caps then
        Some (st\<lparr>vs_codec := fallback_codec_preference caps, vs_h265_failures := 0\<rparr>)
      else None)"

definition on_decode_failed :: "ViewerConfig \<Rightarrow> nat \<Rightarrow> string \<Rightarrow> ViewerState \<Rightarrow> ViewerState \<times> RelayMessage list" where
  "on_decode_failed cfg now codec st =
     (let st = count_failure codec (st\<lparr>vs_stable_decoded_frames := 0\<rparr>)
      in case switch_codec (vc_caps cfg) codec st of
           Some st \<Rightarrow>
             (let fps = max (min (vs_target_fps st) (vc_initial_fps cfg)) (vc_min_fps cfg)
              in restart_stream cfg now True
                   (st\<lparr>vs_target_fps := fps, vs_quality := initial_stream_quality fps (vs_codec st),
                       vs_last_decoder_recovery := Some now, vs_last_quality_change := now, vs_low_input_windows := 0\<rparr>))
         | None \<Rightarrow> lower_stream cfg now (vc_min_fps cfg) st)"

text \<open>The three parts of \<open>FrameDecoded\<close>: relief for a slow decoder, a better quality for a stable stream, and a
  higher frame rate for a decoder that keeps up.\<close>

definition relieve_decoder :: "ViewerConfig \<Rightarrow> nat \<Rightarrow> nat \<Rightarrow> nat \<Rightarrow> ViewerState \<Rightarrow> ViewerState \<times> RelayMessage list" where
  "relieve_decoder cfg now queue_ms decode_ms st =
     (if vs_adaptive_quality st \<and> vs_live_video_seen st \<and> decoder_latency_needs_recovery queue_ms decode_ms then
        (let st = st\<lparr>vs_stable_decoded_frames := 0\<rparr>
         in if cooldown_ready 2000 now st then
              (let severe = (700 \<le> queue_ms \<or> 140 \<le> decode_ms);
                   next_fps = lower_adaptive_fps (vs_target_fps st)
                     (backlog_recovery_min_fps (vc_initial_fps cfg) (vc_min_fps cfg)) severe;
                   next_quality = (if severe then Low else downgrade_one_quality (vs_quality st))
               in if next_fps < vs_target_fps st \<or> next_quality \<noteq> vs_quality st then
                    restart_stream cfg now True
                      (st\<lparr>vs_target_fps := next_fps, vs_quality := next_quality, vs_last_decoder_recovery := Some now,
                          vs_last_adaptive_raise := now, vs_last_quality_change := now, vs_low_input_windows := 0\<rparr>)
                  else (st, []))
            else (st, []))
      else (st, []))"

definition raise_quality :: "ViewerConfig \<Rightarrow> nat \<Rightarrow> nat \<Rightarrow> nat \<Rightarrow> ViewerState \<Rightarrow> ViewerState \<times> RelayMessage list" where
  "raise_quality cfg now queue_ms decode_ms st =
     (if vs_live_video_seen st \<and> queue_ms \<le> 200 \<and> decode_ms \<le> 60 \<and> 8000 \<le> now - vs_last_quality_change st then
        (case next_quality_after_stability (vs_quality st) (vs_target_fps st) (vs_latest_input_fps st) of
           Some next_quality \<Rightarrow>
             (if quality_raise_bootstrap_wait next_quality \<le> now - vs_last_live_bootstrap st then
                restart_stream cfg now False
                  (st\<lparr>vs_quality := next_quality, vs_last_quality_change := now, vs_low_input_windows := 0\<rparr>)
              else (st, []))
         | None \<Rightarrow> (st, []))
      else (st, []))"

definition raise_fps :: "ViewerConfig \<Rightarrow> nat \<Rightarrow> nat \<Rightarrow> nat \<Rightarrow> ViewerState \<Rightarrow> ViewerState \<times> RelayMessage list" where
  "raise_fps cfg now queue_ms decode_ms st =
     (if vs_adaptive_quality st \<and> vs_target_fps st < vc_initial_fps cfg \<and> queue_ms \<le> 120 \<and> decode_ms \<le> 45 then
        (let st = st\<lparr>vs_stable_decoded_frames := saturating_add32 (vs_stable_decoded_frames st) 1\<rparr>;
             needed = min (nat (max (vs_target_fps st) 5) * 8) U32_MAX
         in if needed \<le> vs_stable_decoded_frames st \<and> 8000 \<le> now - vs_last_adaptive_raise st then
              (let next_fps = raise_adaptive_fps (vs_target_fps st) (vc_initial_fps cfg)
               in if vs_target_fps st < next_fps then
                    restart_stream cfg now False
                      (st\<lparr>vs_target_fps := next_fps, vs_quality := initial_stream_quality next_fps (vs_codec st),
                          vs_stable_decoded_frames := 0, vs_last_adaptive_raise := now, vs_last_quality_change := now,
                          vs_low_input_windows := 0\<rparr>)
                  else (st, []))
            else (st, []))
      else (st\<lparr>vs_stable_decoded_frames := 0\<rparr>, []))"

definition on_frame_decoded ::
  "ViewerConfig \<Rightarrow> nat \<Rightarrow> string \<Rightarrow> nat \<Rightarrow> nat \<Rightarrow> ViewerState \<Rightarrow> ViewerState \<times> RelayMessage list" where
  "on_frame_decoded cfg now codec queue_ms decode_ms st =
     (let (st, out1) = relieve_decoder cfg now queue_ms decode_ms (clear_failures codec st);
          (st, out2) = raise_quality cfg now queue_ms decode_ms st;
          (st, out3) = raise_fps cfg now queue_ms decode_ms st
      in (st, out1 @ out2 @ out3))"

fun on_decoder_feedback :: "ViewerConfig \<Rightarrow> nat \<Rightarrow> DecoderFeedback \<Rightarrow> ViewerState \<Rightarrow> ViewerState \<times> RelayMessage list" where
  "on_decoder_feedback cfg now (BacklogTrimmed n) st = on_backlog_trimmed cfg now st"
| "on_decoder_feedback cfg now (EvrtckChainBroken n) st = on_chain_broken cfg now st"
| "on_decoder_feedback cfg now (DecodeFailed codec) st = on_decode_failed cfg now codec st"
| "on_decoder_feedback cfg now (FrameDecoded codec q d) st = on_frame_decoded cfg now codec q d st"

section \<open>Commands of the user\<close>

datatype ViewerCommand =
    CmdScreenshot
  | CmdSetDisplay int
  | CmdSetAutoRefresh bool nat
  | CmdRefreshVideo
  | CmdSetVideoFps int
  | CmdSetAdaptiveQuality bool
  | CmdSetVideoProfile int CodecPreference
  | CmdAttachVm rust_str

fun on_command :: "ViewerConfig \<Rightarrow> nat \<Rightarrow> ViewerCommand \<Rightarrow> ViewerState \<Rightarrow> ViewerState \<times> RelayMessage list" where
  "on_command cfg now CmdScreenshot st = (if vc_control_only cfg then (st, []) else request_screenshot_once now st)"
| "on_command cfg now (CmdSetDisplay index) st =
     (let st = st\<lparr>vs_current_display := max index 0\<rparr>
      in if vc_control_only cfg then (st, [])
         else let st = st\<lparr>vs_live_video_seen := False\<rparr>;
                  (st, out1) = restart_stream cfg now False st;
                  (st, out2) = request_screenshot_once now st
              in (st, send_switch_display (vs_current_display st) @ out1 @ out2))"
| "on_command cfg now (CmdSetAutoRefresh enabled millis) st =
     (let st = st\<lparr>vs_auto_refresh := enabled, vs_auto_refresh_millis := max millis 50\<rparr>
      in if vc_control_only cfg then (st, []) else restart_stream cfg now False st)"
| "on_command cfg now CmdRefreshVideo st =
     (if vc_control_only cfg then (st, [])
      else restart_stream cfg now False (st\<lparr>vs_live_video_seen := False, vs_last_decoder_recovery := Some now\<rparr>))"
| "on_command cfg now (CmdSetVideoFps fps) st =
     (let st = st\<lparr>vs_target_fps := clamp 5 60 fps, vs_quality := initial_stream_quality (clamp 5 60 fps) (vs_codec st)\<rparr>
      in if vc_control_only cfg then (st, [])
         else restart_stream cfg now False
           (st\<lparr>vs_last_decoder_recovery := Some now, vs_last_quality_change := now, vs_low_input_windows := 0\<rparr>))"
| "on_command cfg now (CmdSetAdaptiveQuality enabled) st =
     (st\<lparr>vs_adaptive_quality := enabled, vs_low_input_windows := 0, vs_last_quality_change := now\<rparr>, [])"
| "on_command cfg now (CmdSetVideoProfile fps codec) st =
     (let st = st\<lparr>vs_target_fps := clamp 5 60 fps, vs_codec := codec,
                 vs_quality := initial_stream_quality (clamp 5 60 fps) codec\<rparr>
      in if vc_control_only cfg then (st, [])
         else restart_stream cfg now True
           (st\<lparr>vs_live_video_seen := False, vs_last_decoder_recovery := Some now, vs_last_quality_change := now,
               vs_low_input_windows := 0\<rparr>))"
| "on_command cfg now (CmdAttachVm vm_id) st =
     (st\<lparr>vs_live_video_seen := False, vs_last_decoder_recovery := Some now\<rparr>, [VmAttach vm_id])"

section \<open>Frames from the host\<close>

datatype FrameSource = Screenshot | Video nat | SkippedVideo string

text \<open>The measured rate of the stream, once per 750 ms, and the quality that follows it down.\<close>

definition input_fps_of :: "nat \<Rightarrow> nat \<Rightarrow> rat" where
  "input_fps_of packets elapsed_ms = of_nat packets / max (of_nat elapsed_ms / 1000) (1 / 1000)"

definition follow_input_fps :: "ViewerConfig \<Rightarrow> nat \<Rightarrow> rat \<Rightarrow> ViewerState \<Rightarrow> ViewerState \<times> RelayMessage list" where
  "follow_input_fps cfg now input_fps st =
     (if vs_adaptive_quality st \<and> vs_live_video_seen st then
        (case downgrade_quality_for_low_input (vs_quality st) (vs_target_fps st) input_fps of
           Some next_quality \<Rightarrow>
             (let increment = (if quality_drop_is_severe (vs_target_fps st) input_fps then 2 else 1);
                  st = st\<lparr>vs_low_input_windows := saturating_add32 (vs_low_input_windows st) increment\<rparr>
              in if 2 \<le> vs_low_input_windows st \<and> 2000 \<le> now - vs_last_quality_change st then
                   restart_stream cfg now False
                     (st\<lparr>vs_quality := next_quality, vs_last_quality_change := now, vs_low_input_windows := 0\<rparr>)
                 else (st, []))
         | None \<Rightarrow> (st\<lparr>vs_low_input_windows := 0\<rparr>, []))
      else (st, []))"

definition measure_stream :: "ViewerConfig \<Rightarrow> nat \<Rightarrow> ViewerState \<Rightarrow> ViewerState \<times> RelayMessage list" where
  "measure_stream cfg now st =
     (let st = st\<lparr>vs_metric_packets := vs_metric_packets st + 1\<rparr>; metric_elapsed = now - vs_last_packet_metrics st
      in if 750 \<le> metric_elapsed then
           (let input_fps = input_fps_of (vs_metric_packets st) metric_elapsed;
                (st, out) = follow_input_fps cfg now input_fps (st\<lparr>vs_latest_input_fps := input_fps\<rparr>)
            in (st\<lparr>vs_metric_packets := 0, vs_last_packet_metrics := now\<rparr>, out))
         else (st, []))"

fun on_frame_source :: "ViewerConfig \<Rightarrow> nat \<Rightarrow> FrameSource option \<Rightarrow> ViewerState \<Rightarrow> ViewerState \<times> RelayMessage list" where
  "on_frame_source cfg now None st = (st, [])"
| "on_frame_source cfg now (Some (SkippedVideo codec)) st =
     (let st = st\<lparr>vs_skipped_video := vs_skipped_video st + 1\<rparr>
      in (st, if vs_skipped_video st = 1
              then send_codec_sync_options (vc_caps cfg) (vs_target_fps st) (fallback_codec_preference (vc_caps cfg)) else []))"
| "on_frame_source cfg now (Some Screenshot) st =
     (st\<lparr>vs_screenshots_received := vs_screenshots_received st + 1, vs_screenshot_pending := False,
         vs_last_frame_received := now\<rparr>, [])"
| "on_frame_source cfg now (Some (Video bytes)) st =
     (let (st, out) = measure_stream cfg now
            (st\<lparr>vs_screenshots_received := vs_screenshots_received st + 1, vs_screenshot_pending := False,
                vs_last_frame_received := now\<rparr>)
      in (st\<lparr>vs_live_video_seen := True\<rparr>, send_video_received @ out))"

section \<open>The end of a turn\<close>

definition qos_feedback :: "ViewerConfig \<Rightarrow> nat \<Rightarrow> int \<Rightarrow> ViewerState \<Rightarrow> ViewerState \<times> RelayMessage list" where
  "qos_feedback cfg now wall_ms st =
     (if \<not> vc_control_only cfg \<and> (case vs_last_qos_sent st of None \<Rightarrow> True | Some t \<Rightarrow> 1000 \<le> now - t) then
        (st\<lparr>vs_last_qos_sent := Some now\<rparr>, send_stream_qos_feedback wall_ms (vs_target_fps st))
      else (st, []))"

definition clamp_nat :: "nat \<Rightarrow> nat \<Rightarrow> nat \<Rightarrow> nat" where
  "clamp_nat lo hi x = (if x < lo then lo else if hi < x then hi else x)"

text \<open>The screenshots that stand in for video. \<open>android_live\<close> is the flag of the Android decoder, which draws by
  itself. First a stream that does not come is started again, then a screenshot is asked for.\<close>

definition retry_live_video :: "ViewerConfig \<Rightarrow> nat \<Rightarrow> bool \<Rightarrow> ViewerState \<Rightarrow> ViewerState \<times> RelayMessage list" where
  "retry_live_video cfg now android_live st =
     (if \<not> (vs_live_video_seen st \<or> android_live) \<and> 3000 \<le> now - vs_last_live_bootstrap st then
        (case restart_stream cfg now True st of (st', out) \<Rightarrow> (st', out @ send_video_received))
      else (st, []))"

definition auto_refresh :: "ViewerConfig \<Rightarrow> nat \<Rightarrow> bool \<Rightarrow> ViewerState \<Rightarrow> ViewerState \<times> RelayMessage list" where
  "auto_refresh cfg now android_live st =
     (if vs_auto_refresh st \<and> \<not> vc_control_only cfg then
        (let elapsed = (case vs_last_screenshot_sent st of None \<Rightarrow> 999000 | Some t \<Rightarrow> now - t);
             request_expired = (clamp_nat 700 2000 (vs_auto_refresh_millis st * 8) \<le> elapsed);
             effectively_live = (vs_live_video_seen st \<or> android_live);
             video_is_fresh = (android_live \<or> (vs_live_video_seen st \<and> now - vs_last_frame_received st < 1200));
             live_bootstrap_grace = (\<not> effectively_live \<and> now - vs_last_live_bootstrap st < 2500);
             (st, out1) = retry_live_video cfg now android_live st;
             (st, out2) = (if vs_auto_refresh_millis st \<le> elapsed \<and> \<not> video_is_fresh \<and> \<not> live_bootstrap_grace
                              \<and> (\<not> vs_screenshot_pending st \<or> request_expired)
                           then request_screenshot_once now st else (st, []))
         in (st, out1 @ out2))
      else (st, []))"

section \<open>Turns\<close>

datatype ViewerEvent =
    Feedback DecoderFeedback
  | Command ViewerCommand
  | Source "FrameSource option"
  | Qos int
  | Refresh bool

fun viewer_step :: "ViewerConfig \<Rightarrow> nat \<Rightarrow> ViewerEvent \<Rightarrow> ViewerState \<Rightarrow> ViewerState \<times> RelayMessage list" where
  "viewer_step cfg now (Feedback f) st = on_decoder_feedback cfg now f st"
| "viewer_step cfg now (Command c) st = on_command cfg now c st"
| "viewer_step cfg now (Source s) st = on_frame_source cfg now s st"
| "viewer_step cfg now (Qos wall_ms) st = qos_feedback cfg now wall_ms st"
| "viewer_step cfg now (Refresh android_live) st = auto_refresh cfg now android_live st"

text \<open>The steps of one turn of the loop: all queued feedback, all queued commands, one read from the host, the quality
  report, the screenshots.\<close>

definition loop_turn ::
  "DecoderFeedback list \<Rightarrow> ViewerCommand list \<Rightarrow> FrameSource option \<Rightarrow> int \<Rightarrow> bool \<Rightarrow> ViewerEvent list" where
  "loop_turn fbs cmds src wall_ms android_live = map Feedback fbs @ map Command cmds @ [Source src, Qos wall_ms, Refresh android_live]"

text \<open>Steps with the times at which they run; the states after each, and the messages of each.\<close>

fun viewer_run :: "ViewerConfig \<Rightarrow> (nat \<times> ViewerEvent) list \<Rightarrow> ViewerState \<Rightarrow> ViewerState \<times> RelayMessage list" where
  "viewer_run cfg [] st = (st, [])"
| "viewer_run cfg ((now, ev) # evs) st =
     (case viewer_step cfg now ev st of (st', out) \<Rightarrow> (case viewer_run cfg evs st' of (st'', outs) \<Rightarrow> (st'', out @ outs)))"

section \<open>Lemmas: what a step does to the stream\<close>

definition cfg_ok :: "ViewerConfig \<Rightarrow> bool" where
  "cfg_ok cfg \<longleftrightarrow> 5 \<le> vc_min_fps cfg \<and> vc_min_fps cfg \<le> vc_initial_fps cfg \<and> vc_initial_fps cfg \<le> 60"

lemma viewer_config_ok: "cfg_ok (viewer_config caps target_fps min_fps control_only)"
  using clamp_bounds [of 5 60 "int target_fps"] clamp_bounds [of 5 "clamp 5 60 (int target_fps)" "int min_fps"]
  by (simp add: cfg_ok_def viewer_config_def)

lemma restart_fst [simp]: "fst (restart_stream cfg now b st) = st\<lparr>vs_last_live_bootstrap := now\<rparr>"
  by (simp add: restart_stream_def)

lemma screenshot_fst [simp]:
  "fst (request_screenshot_once now st)
     = st\<lparr>vs_screenshot_id := vs_screenshot_id st + 1, vs_last_screenshot_sent := Some now, vs_screenshot_pending := True\<rparr>"
  by (simp add: request_screenshot_once_def)

lemma frame_decoded_fst:
  "fst (on_frame_decoded cfg now codec q d st)
     = fst (raise_fps cfg now q d (fst (raise_quality cfg now q d (fst (relieve_decoder cfg now q d (clear_failures codec st))))))"
  by (simp add: on_frame_decoded_def Let_def split_def)

text \<open>The values a step may give to the frame rate: the floor of the recovery, something between the floor and the old
  value, a higher value up to the initial one, or what the user asked for.\<close>

definition user_fps :: "ViewerEvent \<Rightarrow> int option" where
  "user_fps ev = (case ev of Command (CmdSetVideoFps fps) \<Rightarrow> Some fps | Command (CmdSetVideoProfile fps c) \<Rightarrow> Some fps | _ \<Rightarrow> None)"

definition stream_ok :: "int \<Rightarrow> int \<Rightarrow> ViewerState \<Rightarrow> bool" where
  "stream_ok lo hi st \<longleftrightarrow> lo \<le> vs_target_fps st \<and> vs_target_fps st \<le> hi \<and> vs_quality st \<noteq> NotSet"

lemma stream_ok_upd [simp]:
  "stream_ok lo hi (st\<lparr>vs_stable_decoded_frames := n\<rparr>) = stream_ok lo hi st"
  "stream_ok lo hi (st\<lparr>vs_last_live_bootstrap := n\<rparr>) = stream_ok lo hi st"
  by (simp_all add: stream_ok_def)

lemma failures_target [simp]:
  "vs_target_fps (count_failure codec st) = vs_target_fps st" "vs_quality (count_failure codec st) = vs_quality st"
  "vs_codec (count_failure codec st) = vs_codec st" "vs_adaptive_quality (count_failure codec st) = vs_adaptive_quality st"
  "vs_last_decoder_recovery (count_failure codec st) = vs_last_decoder_recovery st"
  "vs_target_fps (clear_failures codec st) = vs_target_fps st" "vs_quality (clear_failures codec st) = vs_quality st"
  "vs_codec (clear_failures codec st) = vs_codec st" "vs_adaptive_quality (clear_failures codec st) = vs_adaptive_quality st"
  "vs_last_decoder_recovery (clear_failures codec st) = vs_last_decoder_recovery st"
  "vs_stable_decoded_frames (clear_failures codec st) = vs_stable_decoded_frames st"
  "vs_last_adaptive_raise (clear_failures codec st) = vs_last_adaptive_raise st"
  by (simp_all add: count_failure_def clear_failures_def)

lemma switch_codec_fields:
  "switch_codec caps codec st = Some st' \<Longrightarrow> vs_target_fps st' = vs_target_fps st \<and> vs_codec st' \<noteq> vs_codec st
     \<and> vs_adaptive_quality st' = vs_adaptive_quality st"
  by (auto simp: switch_codec_def split: if_splits)

text \<open>A range for the frame rate that contains the configured one is kept by every step, as long as the user does not set
  a rate outside it.\<close>

locale stream_range =
  fixes cfg :: ViewerConfig and lo hi :: int
  assumes cfg: "cfg_ok cfg" and lo: "5 \<le> lo" "lo \<le> vc_min_fps cfg" and hi: "vc_initial_fps cfg \<le> hi" "hi \<le> 60"
begin

lemma lower_stream_ok:
  assumes "stream_ok lo hi st" "vc_min_fps cfg \<le> m" "m \<le> 60"
  shows "stream_ok lo hi (fst (lower_stream cfg now m st))"
proof -
  have "m \<le> lower_adaptive_fps (vs_target_fps st) m False"
    by (rule lower_adaptive_bounds) (use assms cfg lo hi in \<open>simp_all add: stream_ok_def cfg_ok_def\<close>)
  then show ?thesis using assms lo by (auto simp: lower_stream_def stream_ok_def Let_def initial_quality_set)
qed

lemma relieve_ok:
  assumes "stream_ok lo hi st"
  shows "stream_ok lo hi (fst (relieve_decoder cfg now q d st))"
proof -
  let ?m = "backlog_recovery_min_fps (vc_initial_fps cfg) (vc_min_fps cfg)"
  have m: "vc_min_fps cfg \<le> ?m" "?m \<le> vc_initial_fps cfg" using backlog_min_bounds cfg by (simp_all add: cfg_ok_def)
  have "?m \<le> lower_adaptive_fps (vs_target_fps st) ?m s \<and> lower_adaptive_fps (vs_target_fps st) ?m s \<le> max (vs_target_fps st) ?m" for s
    using lower_adaptive_bounds [of ?m "vs_target_fps st" s] assms cfg lo hi m by (simp add: stream_ok_def cfg_ok_def)
  note b = this
  have "lo \<le> lower_adaptive_fps (vs_target_fps st) ?m s \<and> lower_adaptive_fps (vs_target_fps st) ?m s \<le> hi" for s
    using b [of s] assms m lo hi by (auto simp: stream_ok_def)
  then show ?thesis using assms
    by (auto simp: relieve_decoder_def stream_ok_def Let_def downgrade_set)
qed

lemma raise_quality_ok: "stream_ok lo hi st \<Longrightarrow> stream_ok lo hi (fst (raise_quality cfg now q d st))"
  by (auto simp: raise_quality_def stream_ok_def next_quality_after_stability_def split: option.splits if_splits)

lemma raise_fps_ok: "stream_ok lo hi st \<Longrightarrow> stream_ok lo hi (fst (raise_fps cfg now q d st))"
  using hi raise_adaptive_cases [of "vs_target_fps st" "vc_initial_fps cfg" "stream_ok lo hi (fst (raise_fps cfg now q d st))"]
  by (auto simp: raise_fps_def stream_ok_def Let_def initial_quality_set)

lemma decode_failed_ok: "stream_ok lo hi st \<Longrightarrow> stream_ok lo hi (fst (on_decode_failed cfg now codec st))"
proof -
  assume a: "stream_ok lo hi st"
  let ?st = "count_failure codec (st\<lparr>vs_stable_decoded_frames := 0\<rparr>)"
  show ?thesis
  proof (cases "switch_codec (vc_caps cfg) codec ?st")
    case None
    have "stream_ok lo hi ?st" using a by (simp add: stream_ok_def)
    from lower_stream_ok [OF this order_refl] show ?thesis using None cfg by (simp add: on_decode_failed_def Let_def cfg_ok_def)
  next
    case (Some st')
    then show ?thesis using switch_codec_fields [OF Some] a cfg lo hi
      by (auto simp: on_decode_failed_def Let_def stream_ok_def cfg_ok_def initial_quality_set)
  qed
qed

lemma feedback_ok: "stream_ok lo hi st \<Longrightarrow> stream_ok lo hi (fst (on_decoder_feedback cfg now f st))"
proof (cases f)
  case (BacklogTrimmed n)
  assume a: "stream_ok lo hi st"
  have m: "vc_min_fps cfg \<le> vc_backlog_min cfg" "vc_backlog_min cfg \<le> 60"
    using backlog_min_bounds [of "vc_min_fps cfg" "vc_initial_fps cfg"] cfg by (simp_all add: vc_backlog_min_def cfg_ok_def)
  show ?thesis using lower_stream_ok [OF _ m, of "st\<lparr>vs_stable_decoded_frames := 0\<rparr>"] a BacklogTrimmed by (simp add: on_backlog_trimmed_def)
next
  case (EvrtckChainBroken n)
  assume "stream_ok lo hi st"
  then show ?thesis using EvrtckChainBroken by (simp add: on_chain_broken_def stream_ok_def)
next
  case (DecodeFailed codec)
  assume "stream_ok lo hi st"
  then show ?thesis using DecodeFailed decode_failed_ok by simp
next
  case (FrameDecoded codec q d)
  assume "stream_ok lo hi st"
  then have "stream_ok lo hi (clear_failures codec st)" by (simp add: stream_ok_def)
  then show ?thesis using FrameDecoded relieve_ok raise_quality_ok raise_fps_ok by (simp add: frame_decoded_fst)
qed

lemma source_ok: "stream_ok lo hi st \<Longrightarrow> stream_ok lo hi (fst (on_frame_source cfg now s st))"
  by (cases "(cfg, now, s, st)" rule: on_frame_source.cases)
    (auto simp: stream_ok_def measure_stream_def follow_input_fps_def downgrade_quality_for_low_input_def Let_def split_def
      split: option.splits)

lemma step_ok_stream:
  assumes "stream_ok lo hi st" "case user_fps ev of None \<Rightarrow> True | Some fps \<Rightarrow> lo = 5 \<and> hi = 60"
  shows "stream_ok lo hi (fst (viewer_step cfg now ev st))"
proof (cases ev)
  case (Command c)
  then show ?thesis using assms clamp_bounds [of 5 60]
    by (cases c) (auto simp: stream_ok_def user_fps_def Let_def split_def initial_quality_set request_screenshot_once_def)
qed (use assms feedback_ok source_ok in \<open>auto simp: stream_ok_def qos_feedback_def auto_refresh_def retry_live_video_def Let_def split_def
      restart_stream_def request_screenshot_once_def\<close>)

lemma run_ok_stream:
  assumes "stream_ok lo hi st" "\<forall>(t, ev) \<in> set evs. case user_fps ev of None \<Rightarrow> True | Some fps \<Rightarrow> lo = 5 \<and> hi = 60"
  shows "stream_ok lo hi (fst (viewer_run cfg evs st))"
  using assms
proof (induction evs arbitrary: st)
  case (Cons e evs)
  obtain t ev where e: "e = (t, ev)" by fastforce
  have "stream_ok lo hi (fst (viewer_step cfg t ev st))" using step_ok_stream Cons.prems e by simp
  then show ?case using Cons.IH Cons.prems(2) e by (simp add: split_def)
qed simp

end

interpretation widest: stream_range "viewer_config caps target_fps min_fps control_only" 5 60
  for caps target_fps min_fps control_only
  using viewer_config_ok [of caps target_fps min_fps control_only] by unfold_locales (simp_all add: cfg_ok_def)

interpretation configured: stream_range "viewer_config caps target_fps min_fps control_only"
    "vc_min_fps (viewer_config caps target_fps min_fps control_only)" "vc_initial_fps (viewer_config caps target_fps min_fps control_only)"
  for caps target_fps min_fps control_only
  using viewer_config_ok [of caps target_fps min_fps control_only] by unfold_locales (simp_all add: cfg_ok_def)

lemma viewer_start_ok:
  "cfg_ok cfg \<Longrightarrow> stream_ok (vc_min_fps cfg) (vc_initial_fps cfg) (fst (viewer_start cfg pref adaptive now))"
  by (simp add: viewer_start_def viewer_new_def Let_def split_def stream_ok_def cfg_ok_def initial_quality_set)

section \<open>Lemmas: recovery\<close>

text \<open>The time of the last recovery is never forgotten and never set back.\<close>

definition recovered_since :: "nat \<Rightarrow> ViewerState \<Rightarrow> bool" where
  "recovered_since t st \<longleftrightarrow> (\<exists>r \<ge> t. vs_last_decoder_recovery st = Some r)"

lemma recovered_since_upd [simp]:
  "recovered_since t (st\<lparr>vs_stable_decoded_frames := n\<rparr>) = recovered_since t st"
  "recovered_since t (count_failure codec st) = recovered_since t st"
  "recovered_since t (clear_failures codec st) = recovered_since t st"
  by (simp_all add: recovered_since_def)

lemma lower_stream_recovered: "recovered_since t st \<Longrightarrow> t \<le> now \<Longrightarrow> recovered_since t (fst (lower_stream cfg now m st))"
  by (auto simp: lower_stream_def recovered_since_def Let_def)

lemma decode_failed_recovered:
  assumes "recovered_since t st" "t \<le> now"
  shows "recovered_since t (fst (on_decode_failed cfg now codec st))"
proof (cases "switch_codec (vc_caps cfg) codec (count_failure codec (st\<lparr>vs_stable_decoded_frames := 0\<rparr>))")
  case None
  then show ?thesis using lower_stream_recovered assms by (simp add: on_decode_failed_def Let_def)
next
  case (Some st')
  then show ?thesis using assms(2) by (simp add: on_decode_failed_def Let_def recovered_since_def)
qed

lemma relieve_recovered: "recovered_since t st \<Longrightarrow> t \<le> now \<Longrightarrow> recovered_since t (fst (relieve_decoder cfg now q d st))"
  by (auto simp: relieve_decoder_def recovered_since_def Let_def)

lemma raise_recovered:
  "recovered_since t (fst (raise_quality cfg now q d st)) = recovered_since t st"
  "recovered_since t (fst (raise_fps cfg now q d st)) = recovered_since t st"
  by (simp_all add: raise_quality_def raise_fps_def recovered_since_def Let_def split: option.split)

lemma feedback_recovered:
  assumes "recovered_since t st" "t \<le> now"
  shows "recovered_since t (fst (on_decoder_feedback cfg now f st))"
  using assms lower_stream_recovered decode_failed_recovered relieve_recovered
  by (cases f) (auto simp: on_backlog_trimmed_def on_chain_broken_def frame_decoded_fst raise_recovered, simp_all add: recovered_since_def)

lemma source_fields:
  "vs_last_decoder_recovery (fst (on_frame_source cfg now s st)) = vs_last_decoder_recovery st"
  "vs_target_fps (fst (on_frame_source cfg now s st)) = vs_target_fps st"
  "vs_codec (fst (on_frame_source cfg now s st)) = vs_codec st"
  "vs_adaptive_quality (fst (on_frame_source cfg now s st)) = vs_adaptive_quality st"
  by (cases "(cfg, now, s, st)" rule: on_frame_source.cases;
      simp add: measure_stream_def follow_input_fps_def Let_def split_def split: option.split)+

lemma step_recovered:
  assumes "recovered_since t st" "t \<le> now"
  shows "recovered_since t (fst (viewer_step cfg now ev st))"
proof (cases ev)
  case (Command c)
  then show ?thesis using assms
    by (cases c) (auto simp: recovered_since_def Let_def split_def)
qed (use assms feedback_recovered source_fields in \<open>auto simp: recovered_since_def qos_feedback_def auto_refresh_def retry_live_video_def
      Let_def split_def restart_stream_def request_screenshot_once_def\<close>)

lemma run_recovered:
  assumes "recovered_since t st" "\<forall>(now, ev) \<in> set evs. t \<le> now"
  shows "recovered_since t (fst (viewer_run cfg evs st))"
  using assms
proof (induction evs arbitrary: st)
  case (Cons e evs)
  obtain now ev where e: "e = (now, ev)" by fastforce
  then show ?case using Cons.IH [of "fst (viewer_step cfg now ev st)"] Cons.prems step_recovered by (simp add: split_def)
qed simp

text \<open>Feedback that lowers the frame rate under the same codec, and is not a sudden end of a codec switch, had a reason
  and starts a new cooldown.\<close>

lemma raise_quality_fields:
  "vs_target_fps (fst (raise_quality cfg now q d st)) = vs_target_fps st"
  "vs_codec (fst (raise_quality cfg now q d st)) = vs_codec st"
  by (simp_all add: raise_quality_def split: option.split)

lemma raise_fps_fields:
  "vs_target_fps st \<le> vs_target_fps (fst (raise_fps cfg now q d st))"
  "vs_codec (fst (raise_fps cfg now q d st)) = vs_codec st"
  by (simp_all add: raise_fps_def Let_def)

lemma lower_stream_lowers:
  assumes "vs_target_fps (fst (lower_stream cfg now m st)) < vs_target_fps st"
  shows "vs_adaptive_quality st \<and> cooldown_ready 2000 now st \<and> recovered_since now (fst (lower_stream cfg now m st))"
  using assms by (auto simp: lower_stream_def Let_def recovered_since_def cooldown_ready_def split: if_splits option.splits)

lemma relieve_lowers:
  assumes "vs_target_fps (fst (relieve_decoder cfg now q d st)) < vs_target_fps st"
  shows "vs_adaptive_quality st \<and> cooldown_ready 2000 now st \<and> recovered_since now (fst (relieve_decoder cfg now q d st))"
  using assms by (auto simp: relieve_decoder_def Let_def recovered_since_def cooldown_ready_def split: if_splits option.splits)

lemma cooldown_upd [simp]:
  "cooldown_ready ms now (st\<lparr>vs_stable_decoded_frames := n\<rparr>) = cooldown_ready ms now st"
  "cooldown_ready ms now (count_failure codec st) = cooldown_ready ms now st"
  "cooldown_ready ms now (clear_failures codec st) = cooldown_ready ms now st"
  by (simp_all add: cooldown_ready_def)

lemma feedback_lowers:
  assumes "vs_target_fps (fst (on_decoder_feedback cfg now f st)) < vs_target_fps st" "vs_codec (fst (on_decoder_feedback cfg now f st)) = vs_codec st"
  shows "vs_adaptive_quality st \<and> cooldown_ready 2000 now st \<and> recovered_since now (fst (on_decoder_feedback cfg now f st))"
proof (cases f)
  case (BacklogTrimmed n)
  then show ?thesis using assms lower_stream_lowers [of cfg now _ "st\<lparr>vs_stable_decoded_frames := 0\<rparr>"]
    by (simp add: on_backlog_trimmed_def)
next
  case (EvrtckChainBroken n)
  then show ?thesis using assms by (simp add: on_chain_broken_def)
next
  case (DecodeFailed codec)
  let ?st = "count_failure codec (st\<lparr>vs_stable_decoded_frames := 0\<rparr>)"
  show ?thesis
  proof (cases "switch_codec (vc_caps cfg) codec ?st")
    case None
    then show ?thesis using assms lower_stream_lowers [of cfg now _ ?st] DecodeFailed by (simp add: on_decode_failed_def Let_def)
  next
    case (Some st')
    then show ?thesis using switch_codec_fields [OF Some] assms(2) DecodeFailed by (simp add: on_decode_failed_def Let_def)
  qed
next
  case (FrameDecoded codec q d)
  let ?st = "clear_failures codec st"
  let ?r = "fst (relieve_decoder cfg now q d ?st)"
  have "vs_target_fps ?r < vs_target_fps ?st"
    using assms(1) FrameDecoded raise_fps_fields(1) [of "fst (raise_quality cfg now q d ?r)" cfg now q d]
    by (simp add: frame_decoded_fst raise_quality_fields)
  from relieve_lowers [OF this] show ?thesis using FrameDecoded by (simp add: frame_decoded_fst raise_recovered)
qed

text \<open>A failure of a codec that has no counter.\<close>

lemma vp8_failure:
  assumes "vs_adaptive_quality st" "cooldown_ready 4000 now st"
    and "lower_adaptive_fps (vs_target_fps st) (vc_min_fps cfg) False < vs_target_fps st"
  shows "vs_target_fps (fst (viewer_step cfg now (Feedback (DecodeFailed ''VP8'')) st))
      = lower_adaptive_fps (vs_target_fps st) (vc_min_fps cfg) False"
    "vs_codec (fst (viewer_step cfg now (Feedback (DecodeFailed ''VP8'')) st)) = vs_codec st"
    "vs_adaptive_quality (fst (viewer_step cfg now (Feedback (DecodeFailed ''VP8'')) st))"
    "vs_last_decoder_recovery (fst (viewer_step cfg now (Feedback (DecodeFailed ''VP8'')) st)) = Some now"
  using assms by (simp_all add: on_decode_failed_def count_failure_def switch_codec_def lower_stream_def
      cooldown_ready_def restart_stream_def Let_def)

section \<open>Lemmas: a stable decoder\<close>

definition good_frame :: "ViewerEvent \<Rightarrow> bool" where
  "good_frame ev = (case ev of Feedback (FrameDecoded codec q d) \<Rightarrow> q \<le> 120 \<and> d \<le> 45 | _ \<Rightarrow> False)"

lemma good_frame_quiet:
  assumes "q \<le> 120" "d \<le> 45"
  shows "relieve_decoder cfg now q d st = (st, [])"
  using assms by (simp add: relieve_decoder_def decoder_latency_needs_recovery_def)

lemma raise_quality_more_fields:
  "vs_adaptive_quality (fst (raise_quality cfg now q d st)) = vs_adaptive_quality st"
  "vs_stable_decoded_frames (fst (raise_quality cfg now q d st)) = vs_stable_decoded_frames st"
  "vs_last_adaptive_raise (fst (raise_quality cfg now q d st)) = vs_last_adaptive_raise st"
  by (simp_all add: raise_quality_def split: option.split)

text \<open>Waiting: the frame is counted. Enough: the rate goes up a rung.\<close>

lemma good_frame_step:
  assumes "good_frame ev" "vs_adaptive_quality st" "vs_target_fps st < vc_initial_fps cfg" "5 \<le> vs_target_fps st" "vs_target_fps st \<le> 60"
    and "vs_stable_decoded_frames st < nat (vs_target_fps st) * 8"
  shows "vs_stable_decoded_frames st + 1 < nat (vs_target_fps st) * 8 \<Longrightarrow>
      (let st' = fst (viewer_step cfg now ev st)
       in vs_target_fps st' = vs_target_fps st \<and> vs_adaptive_quality st' \<and> vs_last_adaptive_raise st' = vs_last_adaptive_raise st
         \<and> vs_stable_decoded_frames st' = vs_stable_decoded_frames st + 1)"
    and "vs_stable_decoded_frames st + 1 = nat (vs_target_fps st) * 8 \<Longrightarrow> vs_last_adaptive_raise st + 8000 \<le> now \<Longrightarrow>
      vs_target_fps st < raise_adaptive_fps (vs_target_fps st) (vc_initial_fps cfg) \<Longrightarrow>
      vs_target_fps (fst (viewer_step cfg now ev st)) = raise_adaptive_fps (vs_target_fps st) (vc_initial_fps cfg)"
proof -
  obtain codec q d where ev: "ev = Feedback (FrameDecoded codec q d)" "q \<le> 120" "d \<le> 45"
    using assms(1) by (auto simp: good_frame_def split: ViewerEvent.splits DecoderFeedback.splits)
  let ?st = "fst (raise_quality cfg now q d (clear_failures codec st))"
  have f: "vs_target_fps ?st = vs_target_fps st" "vs_adaptive_quality ?st" "vs_last_adaptive_raise ?st = vs_last_adaptive_raise st"
      "vs_stable_decoded_frames ?st = vs_stable_decoded_frames st"
    using assms(2) by (simp_all add: raise_quality_fields raise_quality_more_fields)
  have step: "fst (viewer_step cfg now ev st) = fst (raise_fps cfg now q d ?st)"
    using ev by (simp add: frame_decoded_fst good_frame_quiet)
  have small: "nat (vs_target_fps st) * 8 \<le> U32_MAX" "max (vs_target_fps st) 5 = vs_target_fps st"
    using assms(4,5) by (simp_all add: U32_MAX_def)
  have sat: "saturating_add32 (vs_stable_decoded_frames st) 1 = vs_stable_decoded_frames st + 1"
    using small assms(6) by (simp add: saturating_add32_def)
  show "vs_stable_decoded_frames st + 1 < nat (vs_target_fps st) * 8 \<Longrightarrow>
      (let st' = fst (viewer_step cfg now ev st)
       in vs_target_fps st' = vs_target_fps st \<and> vs_adaptive_quality st' \<and> vs_last_adaptive_raise st' = vs_last_adaptive_raise st
         \<and> vs_stable_decoded_frames st' = vs_stable_decoded_frames st + 1)"
    unfolding step using f assms(3) ev sat small by (simp add: raise_fps_def Let_def)
  show "vs_stable_decoded_frames st + 1 = nat (vs_target_fps st) * 8 \<Longrightarrow> vs_last_adaptive_raise st + 8000 \<le> now \<Longrightarrow>
      vs_target_fps st < raise_adaptive_fps (vs_target_fps st) (vc_initial_fps cfg) \<Longrightarrow>
      vs_target_fps (fst (viewer_step cfg now ev st)) = raise_adaptive_fps (vs_target_fps st) (vc_initial_fps cfg)"
    unfolding step using f assms(3) ev sat small by (simp add: raise_fps_def Let_def)
qed

lemma good_frames_climb:
  assumes "vs_adaptive_quality st" "5 \<le> vs_target_fps st" "vc_initial_fps cfg \<le> 60"
    and "vs_target_fps st < raise_adaptive_fps (vs_target_fps st) (vc_initial_fps cfg)"
    and "\<forall>e \<in> set evs. good_frame (snd e)" "evs \<noteq> []" "vs_last_adaptive_raise st + 8000 \<le> fst (last evs)"
    and "vs_stable_decoded_frames st + length evs = nat (vs_target_fps st) * 8"
  shows "vs_target_fps (fst (viewer_run cfg evs st)) = raise_adaptive_fps (vs_target_fps st) (vc_initial_fps cfg)"
  using assms
proof (induction evs arbitrary: st)
  case (Cons e evs)
  obtain now ev where e: "e = (now, ev)" by fastforce
  have up: "vs_target_fps st < vc_initial_fps cfg"
    by (rule raise_adaptive_cases [of "vs_target_fps st" "vc_initial_fps cfg"]) (use Cons.prems(4) in linarith)+
  have pre: "good_frame ev" "vs_target_fps st \<le> 60" "vs_stable_decoded_frames st < nat (vs_target_fps st) * 8"
    using Cons.prems(3,5,8) up e by auto
  note step = good_frame_step [OF pre(1) Cons.prems(1) up Cons.prems(2) pre(2,3), of now]
  show ?case
  proof (cases evs)
    case Nil
    then show ?thesis using step(2) Cons.prems(4,7,8) e by (simp add: split_def)
  next
    case (Cons e' evs')
    let ?st = "fst (viewer_step cfg now ev st)"
    have s: "vs_target_fps ?st = vs_target_fps st" "vs_adaptive_quality ?st" "vs_last_adaptive_raise ?st = vs_last_adaptive_raise st"
        "vs_stable_decoded_frames ?st = vs_stable_decoded_frames st + 1"
      using step(1) Cons.prems(8) Cons by (simp_all add: Let_def)
    have "vs_target_fps (fst (viewer_run cfg evs ?st)) = raise_adaptive_fps (vs_target_fps ?st) (vc_initial_fps cfg)"
      by (rule Cons.IH) (use s Cons.prems Cons in auto)
    then show ?thesis using e s(1) by (simp add: split_def)
  qed
qed simp

section \<open>Lemmas: adaptive quality off\<close>

definition steady :: "ViewerEvent \<Rightarrow> bool" where
  "steady ev = (case ev of Command c \<Rightarrow> False | Feedback (DecodeFailed codec) \<Rightarrow> False | _ \<Rightarrow> True)"

definition not_below :: "ViewerState \<Rightarrow> ViewerState \<Rightarrow> bool" where
  "not_below st st' \<longleftrightarrow> \<not> vs_adaptive_quality st' \<and> vs_target_fps st' = vs_target_fps st
     \<and> quality_code (vs_quality st) \<le> quality_code (vs_quality st')"

lemma next_quality_up: "next_quality_after_stability q fps i = Some q' \<Longrightarrow> quality_code q \<le> quality_code q'"
  by (auto simp: next_quality_after_stability_def split: if_splits)

lemma raise_quality_not_below: "\<not> vs_adaptive_quality st \<Longrightarrow> not_below st (fst (raise_quality cfg now q d st))"
  by (auto simp: raise_quality_def not_below_def next_quality_up split: option.split)

lemma steady_not_below:
  assumes "steady ev" "\<not> vs_adaptive_quality st"
  shows "not_below st (fst (viewer_step cfg now ev st))"
proof (cases ev)
  case (Feedback f)
  show ?thesis
  proof (cases f)
    case (BacklogTrimmed n)
    then show ?thesis using assms(2) Feedback by (simp add: on_backlog_trimmed_def lower_stream_def not_below_def)
  next
    case (EvrtckChainBroken n)
    then show ?thesis using assms(2) Feedback by (simp add: on_chain_broken_def not_below_def)
  next
    case (DecodeFailed codec)
    then show ?thesis using assms(1) Feedback by (simp add: steady_def)
  next
    case (FrameDecoded codec q d)
    let ?st = "clear_failures codec st"
    have "relieve_decoder cfg now q d ?st = (?st, [])" using assms(2) by (simp add: relieve_decoder_def)
    moreover have "raise_fps cfg now q d s = (s\<lparr>vs_stable_decoded_frames := 0\<rparr>, [])" if "\<not> vs_adaptive_quality s" for s
      using that by (simp add: raise_fps_def)
    ultimately show ?thesis using raise_quality_not_below [of ?st cfg now q d] assms(2) Feedback FrameDecoded
      by (simp add: frame_decoded_fst not_below_def)
  qed
next
  case (Command c)
  then show ?thesis using assms(1) by (simp add: steady_def)
next
  case (Source src)
  then show ?thesis using assms(2)
    by (cases "(cfg, now, src, st)" rule: on_frame_source.cases)
      (simp_all add: not_below_def measure_stream_def follow_input_fps_def Let_def split_def)
qed (use assms(2) in \<open>auto simp: not_below_def qos_feedback_def auto_refresh_def retry_live_video_def Let_def split_def
      restart_stream_def request_screenshot_once_def\<close>)

section \<open>Properties\<close>

text \<open>C16: The stream the viewer asks for stays within its bounds. Whatever happens in a session (feedback of the decoder,
  commands of the user, frames and losses, in any order and at any times), the frame rate is between 5 and 60 and a
  quality is set; and as long as the user does not set a rate, it stays between the configured minimum and maximum.\<close>

theorem viewer_stream_bounds:
  assumes "cfg = viewer_config caps target_fps min_fps control_only"
    and "st = fst (viewer_run cfg evs (fst (viewer_start cfg pref adaptive now)))"
  shows "5 \<le> vs_target_fps st \<and> vs_target_fps st \<le> 60 \<and> vs_quality st \<noteq> NotSet
    \<and> ((\<forall>(t, ev) \<in> set evs. user_fps ev = None) \<longrightarrow> vc_min_fps cfg \<le> vs_target_fps st \<and> vs_target_fps st \<le> vc_initial_fps cfg)"
proof -
  have start: "stream_ok (vc_min_fps cfg) (vc_initial_fps cfg) (fst (viewer_start cfg pref adaptive now))" and ok: "cfg_ok cfg"
    using viewer_start_ok viewer_config_ok assms(1) by simp_all
  then have "stream_ok 5 60 (fst (viewer_start cfg pref adaptive now))" by (auto simp: stream_ok_def cfg_ok_def)
  then have "stream_ok 5 60 st" unfolding assms by (rule widest.run_ok_stream) (auto split: option.split)
  moreover have "stream_ok (vc_min_fps cfg) (vc_initial_fps cfg) st" if "\<forall>(t, ev) \<in> set evs. user_fps ev = None"
    unfolding assms by (rule configured.run_ok_stream [OF start [unfolded assms(1)]]) (use that in fastforce)
  ultimately show ?thesis by (auto simp: stream_ok_def)
qed

theorem viewer_stream_bounds_witness:
  "let cfg = viewer_config \<lparr>cap_h264 = True, cap_h265 = False, cap_av1 = False, cap_vp9 = True, cap_vp8 = True, cap_vpx_feature = True\<rparr> 60 10 False;
       fps = vs_target_fps (fst (viewer_run cfg [(5000, Feedback (DecodeFailed ''VP8'')), (9500, Feedback (BacklogTrimmed 3))]
               (fst (viewer_start cfg WantAuto True 0))))
   in 10 \<le> fps \<and> fps \<le> 60"
proof -
  let ?caps = "\<lparr>cap_h264 = True, cap_h265 = False, cap_av1 = False, cap_vp9 = True, cap_vp8 = True, cap_vpx_feature = True\<rparr>"
  have "vc_min_fps (viewer_config ?caps 60 10 False) = 10" by (simp add: viewer_config_def clamp_def)
  then show ?thesis using viewer_stream_bounds [OF refl refl, of ?caps 60 10 False
        "[(5000, Feedback (DecodeFailed ''VP8'')), (9500, Feedback (BacklogTrimmed 3))]" WantAuto True 0]
    by (simp only: Let_def user_fps_def) simp
qed

text \<open>C19: Relief comes in steps. When feedback lowers the frame rate twice without a change of codec, at least two seconds lie
  between the two, whatever happens in between.\<close>

theorem recovery_cooldown:
  assumes "st1 = fst (viewer_step cfg t1 (Feedback f1) st)" "vs_target_fps st1 < vs_target_fps st" "vs_codec st1 = vs_codec st"
    and "\<forall>(t, ev) \<in> set evs. t1 \<le> t"
    and "st2 = fst (viewer_run cfg evs st1)" "t1 \<le> t2"
    and "st3 = fst (viewer_step cfg t2 (Feedback f2) st2)" "vs_target_fps st3 < vs_target_fps st2" "vs_codec st3 = vs_codec st2"
  shows "t1 + 2000 \<le> t2"
proof -
  have "recovered_since t1 st1" using feedback_lowers [of cfg t1 f1 st] assms(1-3) by simp
  then have "recovered_since t1 st2" unfolding assms(5) using assms(4) by (rule run_recovered)
  moreover have "cooldown_ready 2000 t2 st2" using feedback_lowers [of cfg t2 f2 st2] assms(7-9) by simp
  ultimately show ?thesis by (auto simp: recovered_since_def cooldown_ready_def)
qed

theorem recovery_cooldown_witness:
  "let cfg = viewer_config \<lparr>cap_h264 = True, cap_h265 = False, cap_av1 = False, cap_vp9 = True, cap_vp8 = True, cap_vpx_feature = True\<rparr> 60 5 False;
       st = viewer_new cfg WantAuto True 0;
       st1 = fst (viewer_step cfg 5000 (Feedback (DecodeFailed ''VP8'')) st);
       st3 = fst (viewer_step cfg 9000 (Feedback (DecodeFailed ''VP8'')) st1)
   in (vs_target_fps st, vs_target_fps st1, vs_target_fps st3) = (60, 30, 20) \<and> (5000 :: nat) + 2000 \<le> 9000"
proof -
  let ?caps = "\<lparr>cap_h264 = True, cap_h265 = False, cap_av1 = False, cap_vp9 = True, cap_vp8 = True, cap_vpx_feature = True\<rparr>"
  let ?cfg = "viewer_config ?caps 60 5 False"
  let ?st = "viewer_new ?cfg WantAuto True 0"
  let ?st1 = "fst (viewer_step ?cfg 5000 (Feedback (DecodeFailed ''VP8'')) ?st)"
  let ?st3 = "fst (viewer_step ?cfg 9000 (Feedback (DecodeFailed ''VP8'')) ?st1)"
  have l: "lower_adaptive_fps 60 5 False = 30" "lower_adaptive_fps 30 5 False = 20" by code_simp+
  have s: "vs_target_fps ?st = 60" "vs_codec ?st = WantAuto"
    by (simp_all add: viewer_new_def viewer_config_def clamp_def)
  have s1: "vs_target_fps ?st1 = 30" "vs_codec ?st1 = WantAuto" "vs_adaptive_quality ?st1" "vs_last_decoder_recovery ?st1 = Some 5000"
    using vp8_failure [of ?st 5000 ?cfg] s l by (simp_all add: viewer_new_def viewer_config_def clamp_def cooldown_ready_def)
  have s3: "vs_target_fps ?st3 = 20" "vs_codec ?st3 = WantAuto"
    using vp8_failure [of ?st1 9000 ?cfg] s1 l by (simp_all add: viewer_config_def clamp_def cooldown_ready_def)
  have "(5000 :: nat) + 2000 \<le> 9000"
    by (rule recovery_cooldown [of ?st1 ?cfg 5000 "DecodeFailed ''VP8''" ?st "[]" ?st1 9000 ?st3 "DecodeFailed ''VP8''"])
      (use s s1 s3 in simp_all)
  then show ?thesis using s s1 s3 by (simp only: Let_def prod.inject simp_thms)
qed

text \<open>C24: A decoder that keeps up gets its frame rate back. After eight seconds' worth of frames that were neither queued nor
  decoded slowly, the last of them at least eight seconds after the last change, the rate is one rung higher.\<close>

theorem stable_decoder_climbs:
  assumes "vs_adaptive_quality st" "5 \<le> vs_target_fps st" "vc_initial_fps cfg \<le> 60"
    and "vs_target_fps st < raise_adaptive_fps (vs_target_fps st) (vc_initial_fps cfg)"
    and "\<forall>e \<in> set evs. good_frame (snd e)" "evs \<noteq> []" "vs_last_adaptive_raise st + 8000 \<le> fst (last evs)"
    and "vs_stable_decoded_frames st + length evs = nat (vs_target_fps st) * 8"
  shows "vs_target_fps (fst (viewer_run cfg evs st)) = raise_adaptive_fps (vs_target_fps st) (vc_initial_fps cfg)"
  by (rule good_frames_climb [OF assms])

theorem stable_decoder_climbs_witness:
  "vs_target_fps (fst (viewer_run
      (viewer_config \<lparr>cap_h264 = True, cap_h265 = False, cap_av1 = False, cap_vp9 = True, cap_vp8 = True, cap_vpx_feature = True\<rparr> 60 5 False)
      (replicate 40 (9000, Feedback (FrameDecoded ''VP8'' 10 10)))
      ((viewer_new
         (viewer_config \<lparr>cap_h264 = True, cap_h265 = False, cap_av1 = False, cap_vp9 = True, cap_vp8 = True, cap_vpx_feature = True\<rparr> 60 5 False)
         WantAuto True 0)\<lparr>vs_target_fps := 5\<rparr>))) = 10"
proof -
  let ?caps = "\<lparr>cap_h264 = True, cap_h265 = False, cap_av1 = False, cap_vp9 = True, cap_vp8 = True, cap_vpx_feature = True\<rparr>"
  let ?cfg = "viewer_config ?caps 60 5 False"
  have i: "vc_initial_fps ?cfg = 60" by (simp add: viewer_config_def clamp_def)
  have r: "raise_adaptive_fps 5 60 = 10" by code_simp
  show ?thesis using stable_decoder_climbs [of "(viewer_new ?cfg WantAuto True 0)\<lparr>vs_target_fps := 5\<rparr>" ?cfg
        "replicate 40 (9000, Feedback (FrameDecoded ''VP8'' 10 10))"] r
    by (simp add: viewer_new_def i good_frame_def)
qed

text \<open>With adaptive quality switched off the stream is left alone, or improved: whatever the decoder and the network do,
  short of a decoding failure, the frame rate does not change and the quality is never lowered.\<close>

theorem adaptive_off_never_lowers:
  assumes "\<not> vs_adaptive_quality st" "\<forall>(t, ev) \<in> set evs. steady ev"
  shows "vs_target_fps (fst (viewer_run cfg evs st)) = vs_target_fps st
    \<and> quality_code (vs_quality st) \<le> quality_code (vs_quality (fst (viewer_run cfg evs st)))"
proof -
  have "not_below st (fst (viewer_run cfg evs st))" using assms
  proof (induction evs arbitrary: st)
    case Nil
    then show ?case by (simp add: not_below_def)
  next
    case (Cons e evs)
    obtain t ev where e: "e = (t, ev)" by fastforce
    have n: "not_below st (fst (viewer_step cfg t ev st))" using steady_not_below Cons.prems e by simp
    then have "not_below (fst (viewer_step cfg t ev st)) (fst (viewer_run cfg evs (fst (viewer_step cfg t ev st))))"
      using Cons.IH Cons.prems(2) by (simp add: not_below_def)
    then show ?case using n e by (auto simp: not_below_def split_def)
  qed
  then show ?thesis by (simp add: not_below_def)
qed

theorem adaptive_off_never_lowers_witness:
  "let cfg = viewer_config \<lparr>cap_h264 = True, cap_h265 = False, cap_av1 = False, cap_vp9 = True, cap_vp8 = True, cap_vpx_feature = True\<rparr> 60 5 False
   in vs_target_fps (fst (viewer_run cfg [(1000, Source (Some (Video 9))), (9000, Feedback (FrameDecoded ''VP8'' 900 200))]
        (viewer_new cfg WantAuto False 0))) = 60"
proof -
  let ?cfg = "viewer_config \<lparr>cap_h264 = True, cap_h265 = False, cap_av1 = False, cap_vp9 = True, cap_vp8 = True, cap_vpx_feature = True\<rparr> 60 5 False"
  show ?thesis using adaptive_off_never_lowers [of "viewer_new ?cfg WantAuto False 0"
        "[(1000, Source (Some (Video 9))), (9000, Feedback (FrameDecoded ''VP8'' 900 200))]" ?cfg]
    by (simp add: steady_def viewer_new_def viewer_config_def clamp_def Let_def)
qed

text \<open>Overload can raise the frame rate. In a session of 60 frames per second the floor of the relief for a slow decoder is
  30; when the rate is below it (here the user asked for 15), a slow decoder makes the viewer ask for 30.\<close>

theorem overload_raises_fps:
  "let cfg = viewer_config caps 60 5 False;
       (st, out) = viewer_run cfg [(1000, Source (Some (Video 9))), (5000, Command (CmdSetVideoFps 15))] (viewer_new cfg WantAuto True 0);
       (st', out') = viewer_run cfg [(8000, Feedback (FrameDecoded codec 400 10))] st
   in vs_target_fps st = 15 \<and> vs_target_fps st' = 30
    \<and> out' = send_video_start_messages_with_quality caps 0 True 30 WantAuto Low"
proof -
  have l: "backlog_recovery_min_fps 60 5 = 30" "lower_adaptive_fps 15 30 False = 30" by code_simp+
  have c: "clear_failures codec st = st" if "vs_h264_failures st = 0" "vs_vp9_failures st = 0" "vs_h265_failures st = 0" "vs_av1_failures st = 0" for st
    using that by (simp add: clear_failures_def)
  show ?thesis
    by (simp add: viewer_config_def viewer_new_def clamp_def Let_def measure_stream_def follow_input_fps_def split_def
        downgrade_quality_for_low_input_def initial_stream_quality_def restart_stream_def on_frame_decoded_def c
        relieve_decoder_def decoder_latency_needs_recovery_def cooldown_ready_def l raise_quality_def raise_fps_def)
qed

end
