(* ===== verification/Host_Options.thy ===== *)
theory Host_Options
  imports Viewer_Messages
begin

text \<open>
  What the host makes of the wishes of the viewer (\<^verbatim>\<open>src/src/host.rs\<close>): the stream options of the login
  (\<open>negotiated_target_fps\<close>, \<open>negotiated_quality_milli\<close>, \<open>client_video_support\<close>), the options and display commands of
  a running session (\<open>handle_client_input_pipeline\<close>), and the codec a backend is asked to produce
  (\<open>negotiate_backend_codec\<close> and the cascade of backends). Which codecs the backends of this machine offer is the
  argument \<open>backends\<close>.
\<close>

section \<open>Options\<close>

definition MAX_TARGET_FPS :: nat where "MAX_TARGET_FPS = 60"
definition DEFAULT_QUALITY_MILLI :: nat where "DEFAULT_QUALITY_MILLI = 1000"
definition LOW_QUALITY_MILLI :: nat where "LOW_QUALITY_MILLI = 700"
definition BALANCED_QUALITY_MILLI :: nat where "BALANCED_QUALITY_MILLI = 1000"
definition BEST_QUALITY_MILLI :: nat where "BEST_QUALITY_MILLI = 1800"

definition clamp_fps :: "int \<Rightarrow> nat" where
  "clamp_fps fps = nat (clamp 5 (int MAX_TARGET_FPS) fps)"

text \<open>\<open>ImageQuality::try_from(..).unwrap_or(NotSet)\<close> and \<open>PreferCodec::try_from(..).unwrap_or(Auto)\<close>.\<close>

definition quality_of_code :: "int \<Rightarrow> ImageQuality" where
  "quality_of_code n = (if n = 2 then Low else if n = 3 then Balanced else if n = 4 then Best else NotSet)"

definition prefer_of_code :: "int \<Rightarrow> PreferCodec" where
  "prefer_of_code n =
     (if n = 1 then PreferVp9 else if n = 2 then PreferH264 else if n = 3 then PreferH265
      else if n = 4 then PreferVp8 else if n = 5 then PreferAv1 else PreferAuto)"

text \<open>\<open>(custom_image_quality >> 8) & 0x0fff\<close> of an \<open>i32\<close>.\<close>

definition custom_quality_raw :: "int \<Rightarrow> nat" where
  "custom_quality_raw n = nat ((n div 256) mod 4096)"

definition option_quality_milli :: "OptionMessage \<Rightarrow> nat option" where
  "option_quality_milli opt =
     (case quality_of_code (om_image_quality opt) of
        Best \<Rightarrow> Some BEST_QUALITY_MILLI
      | Balanced \<Rightarrow> Some BALANCED_QUALITY_MILLI
      | Low \<Rightarrow> Some LOW_QUALITY_MILLI
      | NotSet \<Rightarrow>
          (if 0 < om_custom_image_quality opt then
             (let raw = custom_quality_raw (om_custom_image_quality opt)
              in if 0 < raw then Some (min (max (raw * 20) LOW_QUALITY_MILLI) 4000) else None)
           else None))"

text \<open>The argument is the option message of the login request, if it has one.\<close>

definition negotiated_target_fps :: "OptionMessage option \<Rightarrow> nat \<Rightarrow> nat" where
  "negotiated_target_fps login_option configured_fps =
     (let host_limit = clamp_fps (int configured_fps);
          asked = (case login_option of
             Some opt \<Rightarrow> (if 0 < om_custom_fps opt then om_custom_fps opt else int host_limit)
           | None \<Rightarrow> int host_limit)
      in min (clamp_fps asked) host_limit)"

definition negotiated_quality_milli :: "OptionMessage option \<Rightarrow> nat" where
  "negotiated_quality_milli login_option =
     (case Option.bind login_option option_quality_milli of Some q \<Rightarrow> q | None \<Rightarrow> DEFAULT_QUALITY_MILLI)"

record ClientVideoSupport =
  cv_h264 :: bool
  cv_h265 :: bool
  cv_av1 :: bool
  cv_prefer :: PreferCodec

definition default_video_support :: ClientVideoSupport where
  "default_video_support = \<lparr>cv_h264 = True, cv_h265 = False, cv_av1 = False, cv_prefer = PreferH264\<rparr>"

definition client_video_support :: "OptionMessage option \<Rightarrow> ClientVideoSupport" where
  "client_video_support login_option =
     (case Option.bind login_option om_supported_decoding of
        None \<Rightarrow> default_video_support
      | Some sd \<Rightarrow> \<lparr>cv_h264 = (0 < sd_ability_h264 sd), cv_h265 = (0 < sd_ability_h265 sd), cv_av1 = (0 < sd_ability_av1 sd),
                  cv_prefer = prefer_of_code (sd_prefer sd)\<rparr>)"

section \<open>Commands of a running session\<close>

datatype PipelineCmd =
    Stop
  | SetFps nat
  | SetQuality nat
  | SetDisplay int
  | SetSubscribedDisplays "int list"
  | AddSubscribedDisplays "int list"
  | RemoveSubscribedDisplays "int list"
  | RefreshDisplay int
  | SendSwitchDisplay int
  | RequestIdr
  | EvrtPeerConnected nat
  | EvrtSessionEnded
  | SetClientCodec ClientVideoSupport
  | CursorMoved nat nat

record HostShared =
  hs_target_fps :: nat
  hs_quality_milli :: nat

definition on_option_message :: "OptionMessage \<Rightarrow> HostShared \<Rightarrow> HostShared \<times> PipelineCmd list" where
  "on_option_message opt hs =
     (let (hs, out1) = (if 0 < om_custom_fps opt
            then (hs\<lparr>hs_target_fps := clamp_fps (om_custom_fps opt)\<rparr>, [SetFps (clamp_fps (om_custom_fps opt))]) else (hs, []));
          (hs, out2) = (case option_quality_milli opt of
             Some quality \<Rightarrow> (hs\<lparr>hs_quality_milli := quality\<rparr>, [SetQuality quality]) | None \<Rightarrow> (hs, []));
          out3 = (case om_supported_decoding opt of
             Some sd \<Rightarrow> [SetClientCodec \<lparr>cv_h264 = (sd_ability_h264 sd \<noteq> 0), cv_h265 = (sd_ability_h265 sd \<noteq> 0),
                                         cv_av1 = (sd_ability_av1 sd \<noteq> 0), cv_prefer = prefer_of_code (sd_prefer sd)\<rparr>]
           | None \<Rightarrow> [])
      in (hs, out1 @ out2 @ out3))"

text \<open>The stream messages of the viewer. The ones without a branch here fall into the last branch of the source, which
  ignores them; of \<open>VmAttach\<close> only the refresh is kept, the virtual machines are not modelled.\<close>

fun on_viewer_message :: "RelayMessage \<Rightarrow> HostShared \<Rightarrow> HostShared \<times> PipelineCmd list" where
  "on_viewer_message (OptionMsg opt) hs = on_option_message opt hs"
| "on_viewer_message (SwitchDisplay display) hs = (hs, [SetDisplay (max display 0)])"
| "on_viewer_message (CaptureDisplaysSet displays) hs =
     (hs, if displays \<noteq> [] then [SetSubscribedDisplays (map (\<lambda>d. max d 0) displays)] else [])"
| "on_viewer_message (MessageQuerySwitchDisplay display) hs =
     (hs, if 0 \<le> display then [SendSwitchDisplay display] else [])"
| "on_viewer_message (RefreshVideoDisplay display) hs = (hs, [RefreshDisplay (max display 0)])"
| "on_viewer_message (VmAttach vm_id) hs = (hs, [RefreshDisplay 0])"
| "on_viewer_message (RefreshVideo b) hs = (hs, [])"
| "on_viewer_message (VideoReceived b) hs = (hs, [])"
| "on_viewer_message (AutoAdjustFps fps) hs = (hs, [])"
| "on_viewer_message (TestDelay t b) hs = (hs, [])"
| "on_viewer_message (ScreenshotRequest d i) hs = (hs, [])"

fun host_receive :: "RelayMessage list \<Rightarrow> HostShared \<Rightarrow> HostShared \<times> PipelineCmd list" where
  "host_receive [] hs = (hs, [])"
| "host_receive (m # ms) hs =
     (case on_viewer_message m hs of (hs', out) \<Rightarrow> (case host_receive ms hs' of (hs'', outs) \<Rightarrow> (hs'', out @ outs)))"

section \<open>Codec negotiation\<close>

datatype EncoderPreference = EncoderAuto | EncoderNvenc | EncoderSoftware

datatype NvencCodec = CodecH264 | CodecH265 | CodecAv1

fun codec_quality_rank :: "NvencCodec \<Rightarrow> nat" where
  "codec_quality_rank CodecAv1 = 4"
| "codec_quality_rank CodecH265 = 3"
| "codec_quality_rank CodecH264 = 1"

definition client_prefers_codec :: "PreferCodec \<Rightarrow> NvencCodec \<Rightarrow> bool" where
  "client_prefers_codec prefer codec \<longleftrightarrow>
     (prefer = PreferAv1 \<and> codec = CodecAv1) \<or> (prefer = PreferH265 \<and> codec = CodecH265) \<or> (prefer = PreferH264 \<and> codec = CodecH264)"

fun explicit_codec_target :: "CodecPreference \<Rightarrow> NvencCodec option" where
  "explicit_codec_target WantH264 = Some CodecH264"
| "explicit_codec_target WantH265 = Some CodecH265"
| "explicit_codec_target WantAv1 = Some CodecAv1"
| "explicit_codec_target WantVp9 = None"
| "explicit_codec_target WantAuto = None"
| "explicit_codec_target WantEvrtck = None"

definition client_can_decode_hardware :: "ClientVideoSupport \<Rightarrow> NvencCodec \<Rightarrow> bool" where
  "client_can_decode_hardware client codec =
     (case codec of CodecH264 \<Rightarrow> cv_h264 client | CodecH265 \<Rightarrow> cv_h265 client | CodecAv1 \<Rightarrow> cv_av1 client)"

text \<open>\<open>Iterator::max_by_key\<close>: the last of the elements with the greatest key.\<close>

fun max_by_key :: "('a \<Rightarrow> nat) \<Rightarrow> 'a list \<Rightarrow> 'a option" where
  "max_by_key f [] = None"
| "max_by_key f (x # xs) = (case max_by_key f xs of None \<Rightarrow> Some x | Some y \<Rightarrow> if f x \<le> f y then Some y else Some x)"

definition backend_score :: "NvencCodec option \<Rightarrow> ClientVideoSupport \<Rightarrow> NvencCodec \<times> bool \<Rightarrow> nat" where
  "backend_score explicit client c =
     codec_quality_rank (fst c) * 1000
     + (if Some (fst c) = explicit then 1000000 else 0)
     + (if client_prefers_codec (cv_prefer client) (fst c) then 10000 else 0)
     + (if snd c then 200 else 0)"

definition backend_candidates :: "NvencCodec option \<Rightarrow> ClientVideoSupport \<Rightarrow> (NvencCodec \<times> bool) list \<Rightarrow> (NvencCodec \<times> bool) list" where
  "backend_candidates explicit client available =
     filter (\<lambda>c. case explicit of None \<Rightarrow> True | Some want \<Rightarrow> fst c = want \<or> fst c = CodecH264)
       (filter (\<lambda>c. snd c \<or> fst c = CodecH264)
         (filter (\<lambda>c. client_can_decode_hardware client (fst c)) available))"

definition negotiate_backend_codec ::
  "(NvencCodec \<times> bool) list \<Rightarrow> EncoderPreference \<Rightarrow> CodecPreference \<Rightarrow> ClientVideoSupport \<Rightarrow> NvencCodec option" where
  "negotiate_backend_codec available encoder_preference codec_preference client =
     (if encoder_preference = EncoderSoftware \<or> available = [] then None
      else let explicit = explicit_codec_target codec_preference
           in map_option fst (max_by_key (backend_score explicit client) (backend_candidates explicit client available)))"

text \<open>The cascade of backends, each with its codecs and whether it has hardware for them: NVENC, oneVPL, Media Foundation
  and VideoToolbox on this machine.\<close>

fun negotiated_session_codec ::
  "(NvencCodec \<times> bool) list list \<Rightarrow> EncoderPreference \<Rightarrow> CodecPreference \<Rightarrow> ClientVideoSupport \<Rightarrow> NvencCodec option" where
  "negotiated_session_codec [] encoder_preference codec_preference client = None"
| "negotiated_session_codec (available # backends) encoder_preference codec_preference client =
     (case negotiate_backend_codec available encoder_preference codec_preference client of
        Some codec \<Rightarrow> Some codec
      | None \<Rightarrow> negotiated_session_codec backends encoder_preference codec_preference client)"

section \<open>Lemmas: options\<close>

lemma codes_roundtrip [simp]: "quality_of_code (quality_code q) = q" "prefer_of_code (prefer_code p) = p"
  by (cases q; simp add: quality_of_code_def) (cases p; simp add: prefer_of_code_def)

definition quality_milli :: "ImageQuality \<Rightarrow> nat" where
  "quality_milli q = (if q = Best then BEST_QUALITY_MILLI else if q = Low then LOW_QUALITY_MILLI else BALANCED_QUALITY_MILLI)"

lemma quality_of_option:
  "option_quality_milli (video_option_message_quality caps fps pref q) = (if q = NotSet then None else Some (quality_milli q))"
  by (cases q) (simp_all add: option_quality_milli_def video_option_message_quality_def quality_milli_def quality_of_code_def)

lemma clamp_fps_id: "5 \<le> n \<Longrightarrow> n \<le> 60 \<Longrightarrow> clamp_fps n = nat n"
  by (simp add: clamp_fps_def clamp_def MAX_TARGET_FPS_def)

lemma host_receive_append:
  "host_receive (ms @ ns) hs = (case host_receive ms hs of (hs', out) \<Rightarrow> case host_receive ns hs' of (hs'', outs) \<Rightarrow> (hs'', out @ outs))"
  by (induction ms arbitrary: hs) (auto split: prod.split)

lemma host_receive_append_fst: "fst (host_receive (ms @ ns) hs) = fst (host_receive ns (fst (host_receive ms hs)))"
  by (simp add: host_receive_append split_def)

text \<open>The options of the viewer set both values, whatever they were.\<close>

lemma host_receive_start:
  assumes "5 \<le> fps" "fps \<le> 60" "q \<noteq> NotSet"
  shows "fst (host_receive (send_video_start_messages_with_quality caps display refresh fps pref q) hs)
      = \<lparr>hs_target_fps = nat fps, hs_quality_milli = quality_milli q\<rparr>"
proof -
  let ?opt = "video_option_message_quality caps fps pref q"
  have "om_custom_fps ?opt = fps" using assms(1,2) by (simp add: video_option_message_quality_def clamp_id)
  then have o: "fst (on_option_message ?opt hs) = \<lparr>hs_target_fps = nat fps, hs_quality_milli = quality_milli q\<rparr>"
    using assms by (simp add: on_option_message_def quality_of_option clamp_fps_id Let_def)
  obtain hs' out where e: "on_option_message ?opt hs = (hs', out)" by fastforce
  then show ?thesis using o
    by (simp add: send_video_start_messages_with_quality_def send_codec_sync_options_quality_def send_refresh_video_display_def)
qed

section \<open>Lemmas: negotiation\<close>

lemma max_by_key_None [simp]: "max_by_key f xs = None \<longleftrightarrow> xs = []"
  by (cases xs) (auto split: option.splits)

lemma max_by_key_Some: "max_by_key f xs = Some x \<Longrightarrow> x \<in> set xs \<and> (\<forall>y \<in> set xs. f y \<le> f x)"
proof (induction xs arbitrary: x)
  case (Cons a xs)
  show ?case
  proof (cases "max_by_key f xs")
    case None
    then show ?thesis using Cons.prems by simp
  next
    case (Some y)
    then show ?thesis using Cons.IH [OF Some] Cons.prems by (fastforce split: if_splits)
  qed
qed simp

lemma score_bounds:
  "backend_score explicit client c \<le> (if Some (fst c) = explicit then 1000000 else 0) + (if client_prefers_codec (cv_prefer client) (fst c) then 10000 else 0) + 4200"
  "(if Some (fst c) = explicit then 1000000 else 0) + (if client_prefers_codec (cv_prefer client) (fst c) then 10000 else 0)
     + codec_quality_rank (fst c) * 1000 \<le> backend_score explicit client c"
  "backend_score explicit client c \<le> (if Some (fst c) = explicit then 1000000 else 0)
     + (if client_prefers_codec (cv_prefer client) (fst c) then 10000 else 0) + codec_quality_rank (fst c) * 1000 + 200"
  by (cases "fst c"; simp add: backend_score_def)+

text \<open>What a backend can produce for a client: a codec it has, in hardware unless it is H264, that the client decodes.\<close>

definition usable :: "(NvencCodec \<times> bool) list \<Rightarrow> ClientVideoSupport \<Rightarrow> NvencCodec \<Rightarrow> bool" where
  "usable available client codec \<longleftrightarrow>
     client_can_decode_hardware client codec \<and> (\<exists>hw. (codec, hw) \<in> set available \<and> (hw \<or> codec = CodecH264))"

lemma candidates_iff:
  "(\<exists>hw. (codec, hw) \<in> set (backend_candidates explicit client available))
     \<longleftrightarrow> usable available client codec \<and> (case explicit of None \<Rightarrow> True | Some want \<Rightarrow> codec = want \<or> codec = CodecH264)"
  by (auto simp: backend_candidates_def usable_def split: option.split)

lemma negotiated_candidate:
  assumes "negotiate_backend_codec available enc pref client = Some codec"
  obtains hw where "(codec, hw) \<in> set (backend_candidates (explicit_codec_target pref) client available)"
    "\<And>d hw'. (d, hw') \<in> set (backend_candidates (explicit_codec_target pref) client available) \<Longrightarrow>
       backend_score (explicit_codec_target pref) client (d, hw') \<le> backend_score (explicit_codec_target pref) client (codec, hw)"
  using assms by (force simp: negotiate_backend_codec_def Let_def split: if_splits dest!: max_by_key_Some)

lemma client_prefers_unique: "client_prefers_codec p c \<Longrightarrow> client_prefers_codec p d \<Longrightarrow> c = d"
  by (auto simp: client_prefers_codec_def)

text \<open>What the three outcomes of the negotiation say.\<close>

lemma negotiated_none:
  assumes "negotiate_backend_codec available enc pref client = None" "enc \<noteq> EncoderSoftware" "usable available client d"
  shows "case explicit_codec_target pref of Some want \<Rightarrow> d \<noteq> want \<and> d \<noteq> CodecH264 | None \<Rightarrow> False"
proof -
  have "backend_candidates (explicit_codec_target pref) client [] = []" by (simp add: backend_candidates_def)
  then have "backend_candidates (explicit_codec_target pref) client available = []"
    using assms(1,2) by (auto simp: negotiate_backend_codec_def Let_def split: if_splits)
  then have "\<not> (\<exists>hw. (d, hw) \<in> set (backend_candidates (explicit_codec_target pref) client available))" by simp
  then have "\<not> (case explicit_codec_target pref of None \<Rightarrow> True | Some want \<Rightarrow> d = want \<or> d = CodecH264)"
    unfolding candidates_iff using assms(3) by blast
  then show ?thesis by (simp split: option.splits)
qed

lemma negotiated_usable:
  assumes "negotiate_backend_codec available enc pref client = Some codec"
  shows "enc \<noteq> EncoderSoftware" "usable available client codec"
    "case explicit_codec_target pref of None \<Rightarrow> True | Some want \<Rightarrow> codec = want \<or> codec = CodecH264"
proof -
  obtain hw where "(codec, hw) \<in> set (backend_candidates (explicit_codec_target pref) client available)"
    by (rule negotiated_candidate [OF assms])
  then show "usable available client codec"
    "case explicit_codec_target pref of None \<Rightarrow> True | Some want \<Rightarrow> codec = want \<or> codec = CodecH264"
    using candidates_iff by blast+
  show "enc \<noteq> EncoderSoftware" using assms by (simp add: negotiate_backend_codec_def split: if_splits)
qed

lemma negotiated_score:
  assumes "negotiate_backend_codec available enc pref client = Some codec" "usable available client d"
    and "case explicit_codec_target pref of None \<Rightarrow> True | Some want \<Rightarrow> d = want \<or> d = CodecH264"
  shows "\<exists>hw hw'. backend_score (explicit_codec_target pref) client (d, hw')
    \<le> backend_score (explicit_codec_target pref) client (codec, hw)"
proof -
  obtain hw' where "(d, hw') \<in> set (backend_candidates (explicit_codec_target pref) client available)"
    using candidates_iff assms(2,3) by blast
  then show ?thesis using negotiated_candidate [OF assms(1)] by metis
qed

lemma negotiated_auto:
  assumes n: "negotiate_backend_codec available enc pref client = Some codec" "explicit_codec_target pref = None"
    and d: "usable available client d"
  shows "if client_prefers_codec (cv_prefer client) d then codec = d
    else client_prefers_codec (cv_prefer client) codec \<or> codec_quality_rank d \<le> codec_quality_rank codec"
proof -
  obtain hw hw' where "backend_score None client (d, hw') \<le> backend_score None client (codec, hw)"
    using negotiated_score [OF n(1) d] unfolding n(2) by auto
  with score_bounds(2) [of "(d, hw')" None client] score_bounds(1,3) [of None client "(codec, hw)"]
  show ?thesis using client_prefers_unique [of "cv_prefer client" codec d] by (simp split: if_splits)
qed

lemma negotiated_explicit:
  assumes n: "negotiate_backend_codec available enc pref client = Some codec" "explicit_codec_target pref = Some want"
  shows "if usable available client want then codec = want else codec = CodecH264"
proof -
  have "codec = want" if w: "usable available client want"
  proof -
    obtain hw hw' where "backend_score (Some want) client (want, hw') \<le> backend_score (Some want) client (codec, hw)"
      using negotiated_score [OF n(1) w] unfolding n(2) by auto
    with score_bounds(2) [of "(want, hw')" "Some want" client] score_bounds(1) [of "Some want" client "(codec, hw)"]
    show ?thesis by (simp split: if_splits)
  qed
  then show ?thesis using negotiated_usable [OF n(1)] n(2) by auto
qed

section \<open>Properties\<close>

text \<open>C18: The negotiated codec is the best usable one. A backend produces only a codec it has, in hardware unless it is H264,
  and that the viewer decodes. The choice of the host's user wins if it is usable, and only H264 stands in for it;
  otherwise the concrete wish of the viewer wins if it is usable; otherwise no usable codec compresses better. Nothing is
  produced only when the software encoder is asked for or nothing allowed is usable.\<close>

theorem negotiated_codec_best:
  "case negotiate_backend_codec available enc pref client of
     Some codec \<Rightarrow> enc \<noteq> EncoderSoftware \<and> usable available client codec \<and>
       (case explicit_codec_target pref of
          Some want \<Rightarrow> (if usable available client want then codec = want else codec = CodecH264)
        | None \<Rightarrow> (\<forall>d. usable available client d \<longrightarrow>
            (if client_prefers_codec (cv_prefer client) d then codec = d
             else client_prefers_codec (cv_prefer client) codec \<or> codec_quality_rank d \<le> codec_quality_rank codec)))
   | None \<Rightarrow> enc = EncoderSoftware \<or> (\<forall>d. usable available client d \<longrightarrow>
       (case explicit_codec_target pref of Some want \<Rightarrow> d \<noteq> want \<and> d \<noteq> CodecH264 | None \<Rightarrow> False))"
proof (cases "negotiate_backend_codec available enc pref client")
  case None
  then show ?thesis using negotiated_none by auto
next
  case (Some codec)
  then show ?thesis using negotiated_usable [OF Some] negotiated_auto [OF Some] negotiated_explicit [OF Some]
    by (auto split: option.split)
qed

theorem negotiated_codec_best_witness:
  "negotiate_backend_codec [(CodecH265, True), (CodecH264, True)] EncoderAuto WantAuto
     \<lparr>cv_h264 = True, cv_h265 = True, cv_av1 = False, cv_prefer = PreferVp9\<rparr> = Some CodecH265"
proof -
  let ?av = "[(CodecH265, True), (CodecH264, True)]"
  let ?client = "\<lparr>cv_h264 = True, cv_h265 = True, cv_av1 = False, cv_prefer = PreferVp9\<rparr>"
  have u: "usable ?av ?client CodecH265" by (auto simp: usable_def client_can_decode_hardware_def)
  show ?thesis
  proof (cases "negotiate_backend_codec ?av EncoderAuto WantAuto ?client")
    case None
    then show ?thesis using negotiated_codec_best [where available = ?av and enc = EncoderAuto and pref = WantAuto and client = ?client] u by auto
  next
    case (Some codec)
    then have c: "usable ?av ?client codec" "codec_quality_rank CodecH265 \<le> codec_quality_rank codec"
      using negotiated_codec_best [where available = ?av and enc = EncoderAuto and pref = WantAuto and client = ?client] u by (auto simp: client_prefers_codec_def)
    then have "codec = CodecH265" by (cases codec) (simp_all add: usable_def client_can_decode_hardware_def)
    then show ?thesis using Some by simp
  qed
qed

end
