(* ===== verification/Viewer_Host.thy ===== *)
theory Viewer_Host
  imports Viewer_Control Host_Options
begin

text \<open>
  The control loop of the viewer together with the host that receives its messages: what the viewer believes about the
  stream is what the host has been told. The relay delivers the messages in order; it is the channel of
  \<open>Relay_Peer\<close>.
\<close>

definition host_view :: "ViewerState \<Rightarrow> HostShared" where
  "host_view st = \<lparr>hs_target_fps = nat (vs_target_fps st), hs_quality_milli = quality_milli (vs_quality st)\<rparr>"

abbreviation valid_stream :: "ViewerState \<Rightarrow> bool" where "valid_stream st \<equiv> stream_ok 5 60 st"

text \<open>A handler keeps the host in step: started in step, its messages bring the host in step with its result.\<close>

definition keeps_step :: "(ViewerState \<Rightarrow> ViewerState \<times> RelayMessage list) \<Rightarrow> ViewerState \<Rightarrow> bool" where
  "keeps_step f st \<longleftrightarrow> (valid_stream st \<and> valid_stream (fst (f st))
     \<longrightarrow> fst (host_receive (snd (f st)) (host_view st)) = host_view (fst (f st)))"

lemma host_view_upd [simp]:
  "host_view (st\<lparr>vs_last_live_bootstrap := n\<rparr>) = host_view st"
  "host_view (st\<lparr>vs_stable_decoded_frames := n\<rparr>) = host_view st"
  "host_view (st\<lparr>vs_live_video_seen := b\<rparr>) = host_view st"
  "host_view (st\<lparr>vs_last_decoder_recovery := r\<rparr>) = host_view st"
  "host_view (st\<lparr>vs_screenshot_id := n\<rparr>) = host_view st"
  "host_view (st\<lparr>vs_last_screenshot_sent := r\<rparr>) = host_view st"
  "host_view (st\<lparr>vs_screenshot_pending := b\<rparr>) = host_view st"
  "host_view (st\<lparr>vs_current_display := d\<rparr>) = host_view st"
  "host_view (st\<lparr>vs_auto_refresh := b\<rparr>) = host_view st"
  "host_view (st\<lparr>vs_auto_refresh_millis := n\<rparr>) = host_view st"
  "host_view (st\<lparr>vs_adaptive_quality := b\<rparr>) = host_view st"
  "host_view (st\<lparr>vs_low_input_windows := n\<rparr>) = host_view st"
  "host_view (st\<lparr>vs_last_quality_change := n\<rparr>) = host_view st"
  "host_view (st\<lparr>vs_last_qos_sent := r\<rparr>) = host_view st"
  "host_view (clear_failures codec st) = host_view st"
  "host_view (count_failure codec st) = host_view st"
  by (simp_all add: host_view_def)

text \<open>Starting the stream again tells the host everything, whatever it knew.\<close>

lemma host_receive_restart:
  "valid_stream st \<Longrightarrow> fst (host_receive (snd (restart_stream cfg now b st)) hs) = host_view st"
  by (simp add: restart_stream_def host_receive_start stream_ok_def host_view_def)

lemma valid_restart [simp]: "valid_stream (fst (restart_stream cfg now b st)) = valid_stream st"
  by simp

lemma lower_stream_step: "keeps_step (lower_stream cfg now m) st"
  by (auto simp: keeps_step_def lower_stream_def Let_def host_receive_restart)

lemma relieve_step: "keeps_step (relieve_decoder cfg now q d) st"
  by (auto simp: keeps_step_def relieve_decoder_def Let_def host_receive_restart)

lemma raise_quality_step: "keeps_step (raise_quality cfg now q d) st"
  by (auto simp: keeps_step_def raise_quality_def Let_def host_receive_restart split: option.split)

lemma raise_fps_step: "keeps_step (raise_fps cfg now q d) st"
  by (auto simp: keeps_step_def raise_fps_def Let_def host_receive_restart)

lemma follow_input_step: "keeps_step (follow_input_fps cfg now i) st"
  by (auto simp: keeps_step_def follow_input_fps_def Let_def host_receive_restart split: option.split)

lemma host_receive_quiet [simp]:
  "host_receive send_video_received hs = (hs, [])"
  "fst (host_receive (snd (request_screenshot_once now st)) hs) = hs"
  "fst (host_receive (send_switch_display display) hs) = hs"
  by (simp_all add: send_video_received_def request_screenshot_once_def send_switch_display_def Let_def)

lemma qos_step:
  assumes "valid_stream st"
  shows "fst (host_receive (send_stream_qos_feedback wall_ms (vs_target_fps st)) (host_view st)) = host_view st"
proof -
  let ?opt = "\<lparr>om_image_quality = 0, om_custom_image_quality = 0, om_supported_decoding = None, om_custom_fps = vs_target_fps st\<rparr>"
  have "quality_of_code 0 = NotSet" by (simp add: quality_of_code_def)
  then have q: "option_quality_milli ?opt = None" by (simp add: option_quality_milli_def)
  have m: "custom_fps_option_message (vs_target_fps st) = OptionMsg ?opt"
    using assms by (simp add: custom_fps_option_message_def stream_ok_def clamp_id)
  have o: "on_option_message ?opt (host_view st) = (host_view st, [SetFps (nat (vs_target_fps st))])"
    using assms by (simp add: on_option_message_def q Let_def host_view_def stream_ok_def clamp_fps_id)
  show ?thesis unfolding send_stream_qos_feedback_def m by (simp add: o send_video_received_def)
qed

lemma valid_range: "cfg_ok cfg \<Longrightarrow> stream_range cfg 5 60"
  by unfold_locales (simp_all add: cfg_ok_def)

lemma valid_upd [simp]:
  "stream_ok lo hi (clear_failures codec st) = stream_ok lo hi st" "stream_ok lo hi (count_failure codec st) = stream_ok lo hi st"
  by (simp_all add: stream_ok_def)

lemma frame_decoded_step:
  assumes ok: "cfg_ok cfg" and v: "valid_stream st"
  shows "fst (host_receive (snd (on_frame_decoded cfg now codec q d st)) (host_view st)) = host_view (fst (on_frame_decoded cfg now codec q d st))"
proof -
  let ?s0 = "clear_failures codec st"
  let ?s1 = "fst (relieve_decoder cfg now q d ?s0)"
  let ?s2 = "fst (raise_quality cfg now q d ?s1)"
  have v0: "valid_stream ?s0" using v by simp
  have v1: "valid_stream ?s1" by (rule stream_range.relieve_ok [OF valid_range [OF ok] v0])
  have v2: "valid_stream ?s2" by (rule stream_range.raise_quality_ok [OF valid_range [OF ok] v1])
  have v3: "valid_stream (fst (raise_fps cfg now q d ?s2))" by (rule stream_range.raise_fps_ok [OF valid_range [OF ok] v2])
  have "snd (on_frame_decoded cfg now codec q d st)
      = snd (relieve_decoder cfg now q d ?s0) @ snd (raise_quality cfg now q d ?s1) @ snd (raise_fps cfg now q d ?s2)"
    by (simp add: on_frame_decoded_def Let_def split_def)
  then show ?thesis
    using relieve_step [of cfg now q d ?s0] raise_quality_step [of cfg now q d ?s1] raise_fps_step [of cfg now q d ?s2] v0 v1 v2 v3
    by (simp add: keeps_step_def host_receive_append_fst frame_decoded_fst)
qed

lemma decode_failed_step:
  assumes ok: "cfg_ok cfg" and v: "valid_stream st"
  shows "fst (host_receive (snd (on_decode_failed cfg now codec st)) (host_view st)) = host_view (fst (on_decode_failed cfg now codec st))"
proof -
  let ?st = "count_failure codec (st\<lparr>vs_stable_decoded_frames := 0\<rparr>)"
  have v': "valid_stream (fst (on_decode_failed cfg now codec st))" by (rule stream_range.decode_failed_ok [OF valid_range [OF ok] v])
  show ?thesis
  proof (cases "switch_codec (vc_caps cfg) codec ?st")
    case None
    then show ?thesis using lower_stream_step [of cfg now "vc_min_fps cfg" ?st] v v'
      by (simp add: on_decode_failed_def Let_def keeps_step_def)
  next
    case (Some st')
    then show ?thesis using v' by (simp add: on_decode_failed_def Let_def host_receive_restart)
  qed
qed

lemma feedback_step:
  assumes ok: "cfg_ok cfg" and v: "valid_stream st"
  shows "fst (host_receive (snd (on_decoder_feedback cfg now f st)) (host_view st)) = host_view (fst (on_decoder_feedback cfg now f st))"
proof -
  have v': "valid_stream (fst (on_decoder_feedback cfg now f st))" by (rule stream_range.feedback_ok [OF valid_range [OF ok] v])
  show ?thesis
  proof (cases f)
    case (BacklogTrimmed n)
    then show ?thesis using lower_stream_step [of cfg now "vc_backlog_min cfg" "st\<lparr>vs_stable_decoded_frames := 0\<rparr>"] v v'
      by (simp add: on_backlog_trimmed_def keeps_step_def)
  next
    case (EvrtckChainBroken n)
    have "valid_stream (st\<lparr>vs_stable_decoded_frames := 0, vs_live_video_seen := False, vs_last_decoder_recovery := Some now\<rparr>)"
      using v by (simp add: stream_ok_def)
    then show ?thesis using EvrtckChainBroken by (simp add: on_chain_broken_def host_receive_restart)
  next
    case (DecodeFailed codec)
    then show ?thesis using decode_failed_step [OF ok v] by simp
  next
    case (FrameDecoded codec q d)
    then show ?thesis using frame_decoded_step [OF ok v] by simp
  qed
qed

lemma command_step:
  assumes "\<not> vc_control_only cfg" "valid_stream st" "valid_stream (fst (on_command cfg now c st))"
  shows "fst (host_receive (snd (on_command cfg now c st)) (host_view st)) = host_view (fst (on_command cfg now c st))"
proof (cases c)
  case (CmdSetDisplay index)
  let ?st = "st\<lparr>vs_current_display := max index 0, vs_live_video_seen := False\<rparr>"
  have "valid_stream ?st" using assms(2) by (simp add: stream_ok_def)
  then show ?thesis using assms(1) CmdSetDisplay by (simp add: Let_def split_def host_receive_append_fst host_receive_restart)
next
  case (CmdSetAutoRefresh enabled millis)
  have "valid_stream (st\<lparr>vs_auto_refresh := enabled, vs_auto_refresh_millis := max millis 50\<rparr>)" using assms(2) by (simp add: stream_ok_def)
  then show ?thesis using assms(1) CmdSetAutoRefresh by (simp add: Let_def host_receive_restart)
next
  case CmdRefreshVideo
  have "valid_stream (st\<lparr>vs_live_video_seen := False, vs_last_decoder_recovery := Some now\<rparr>)" using assms(2) by (simp add: stream_ok_def)
  then show ?thesis using assms(1) CmdRefreshVideo by (simp add: host_receive_restart)
qed (use assms in \<open>simp_all add: Let_def host_receive_restart\<close>)

lemma source_step:
  assumes "valid_stream st" "valid_stream (fst (on_frame_source cfg now src st))" "\<And>codec. src \<noteq> Some (SkippedVideo codec)"
  shows "fst (host_receive (snd (on_frame_source cfg now src st)) (host_view st)) = host_view (fst (on_frame_source cfg now src st))"
proof (cases "(cfg, now, src, st)" rule: on_frame_source.cases)
  case (4 cfg' now' bytes st')
  let ?s0 = "st\<lparr>vs_screenshots_received := vs_screenshots_received st + 1, vs_screenshot_pending := False, vs_last_frame_received := now,
      vs_metric_packets := vs_metric_packets st + 1\<rparr>"
  let ?i = "input_fps_of (vs_metric_packets ?s0) (now - vs_last_packet_metrics ?s0)"
  let ?s1 = "?s0\<lparr>vs_latest_input_fps := ?i\<rparr>"
  have s1: "valid_stream ?s1" "host_view ?s1 = host_view st" using assms(1) by (simp_all add: stream_ok_def host_view_def)
  have "valid_stream (fst (follow_input_fps cfg now ?i ?s1))"
    using s1(1) by (auto simp: follow_input_fps_def stream_ok_def Let_def downgrade_quality_for_low_input_def split: option.split)
  then have f: "fst (host_receive (snd (follow_input_fps cfg now ?i ?s1)) (host_view st)) = host_view (fst (follow_input_fps cfg now ?i ?s1))"
    using follow_input_step [of cfg now ?i ?s1] s1 by (simp add: keeps_step_def)
  then show ?thesis using 4 by (simp add: measure_stream_def Let_def split_def host_receive_append_fst) (simp add: host_view_def)
qed (use assms in \<open>simp_all add: host_view_def\<close>)

lemma refresh_step:
  assumes "valid_stream st"
  shows "fst (host_receive (snd (auto_refresh cfg now b st)) (host_view st)) = host_view (fst (auto_refresh cfg now b st))"
proof -
  have r: "fst (host_receive (snd (retry_live_video cfg now b st)) (host_view st)) = host_view (fst (retry_live_video cfg now b st))"
    using assms by (auto simp: retry_live_video_def split_def host_receive_append_fst host_receive_restart)
  then show ?thesis by (auto simp: auto_refresh_def Let_def split_def host_receive_append_fst)
qed

definition not_skipped :: "ViewerEvent \<Rightarrow> bool" where
  "not_skipped ev = (case ev of Source (Some (SkippedVideo codec)) \<Rightarrow> False | _ \<Rightarrow> True)"

lemma step_in_step:
  assumes "cfg_ok cfg" "\<not> vc_control_only cfg" "valid_stream st" "not_skipped ev"
  shows "fst (host_receive (snd (viewer_step cfg now ev st)) (host_view st)) = host_view (fst (viewer_step cfg now ev st))"
proof -
  have v: "valid_stream (fst (viewer_step cfg now ev st))"
    by (rule stream_range.step_ok_stream [OF valid_range [OF assms(1)] assms(3)]) (simp split: option.split)
  show ?thesis
  proof (cases ev)
    case (Feedback f)
    then show ?thesis using feedback_step [OF assms(1,3)] by simp
  next
    case (Command c)
    then show ?thesis using command_step [OF assms(2,3)] v by simp
  next
    case (Source src)
    then show ?thesis using source_step [OF assms(3), of cfg now src] v assms(4)
      by (auto simp: not_skipped_def split: option.splits FrameSource.splits)
  next
    case (Qos wall_ms)
    then show ?thesis using qos_step [OF assms(3)] by (simp add: qos_feedback_def)
  next
    case (Refresh b)
    then show ?thesis using refresh_step [OF assms(3)] by simp
  qed
qed

lemma run_in_step:
  assumes "cfg_ok cfg" "\<not> vc_control_only cfg"
  shows "valid_stream st \<Longrightarrow> \<forall>(t, ev) \<in> set evs. not_skipped ev \<Longrightarrow>
    fst (host_receive (snd (viewer_run cfg evs st)) (host_view st)) = host_view (fst (viewer_run cfg evs st))"
proof (induction evs arbitrary: st)
  case (Cons e evs)
  obtain t ev where e: "e = (t, ev)" by fastforce
  let ?st = "fst (viewer_step cfg t ev st)"
  have v: "valid_stream ?st"
    by (rule stream_range.step_ok_stream [OF valid_range [OF assms(1)] Cons.prems(1)]) (simp split: option.split)
  have "fst (host_receive (snd (viewer_step cfg t ev st)) (host_view st)) = host_view ?st"
    using step_in_step [OF assms Cons.prems(1)] Cons.prems(2) e by simp
  then show ?case using Cons.IH [OF v] Cons.prems(2) e by (simp add: split_def host_receive_append_fst)
qed simp

lemma start_in_step:
  assumes "cfg_ok cfg" "\<not> vc_control_only cfg"
  shows "fst (host_receive (snd (viewer_start cfg pref adaptive now)) hs) = host_view (fst (viewer_start cfg pref adaptive now))"
proof -
  let ?st = "viewer_new cfg pref adaptive now"
  have "5 \<le> vs_target_fps ?st" "vs_target_fps ?st \<le> 60" "vs_quality ?st \<noteq> NotSet"
    using assms(1) by (simp_all add: viewer_new_def cfg_ok_def initial_quality_set)
  then show ?thesis using assms(2)
    by (simp add: viewer_start_def Let_def split_def host_receive_append_fst host_receive_start host_view_def)
qed

section \<open>Properties\<close>



text \<open>The frame rate the owner of the host allows holds only until the first message. The login is granted at most the
  configured rate, but the options the viewer sends when its session starts are taken without it.\<close>

theorem host_fps_limit_bypassed:
  assumes "10 < n" "n \<le> 60"
  shows "negotiated_target_fps (Some (video_option_message_quality caps (int n) pref q)) 10 = 10
    \<and> hs_target_fps (fst (host_receive (snd (viewer_start (viewer_config caps n 5 False) pref adaptive now)) \<lparr>hs_target_fps = 10, hs_quality_milli = m\<rparr>)) = n"
proof -
  let ?cfg = "viewer_config caps n 5 False"
  have "vc_initial_fps ?cfg = int n" "\<not> vc_control_only ?cfg" using assms by (simp_all add: viewer_config_def clamp_id)
  moreover from this have "vs_target_fps (fst (viewer_start ?cfg pref adaptive now)) = int n"
    by (simp add: viewer_start_def Let_def split_def viewer_new_def)
  ultimately have "hs_target_fps (fst (host_receive (snd (viewer_start ?cfg pref adaptive now)) \<lparr>hs_target_fps = 10, hs_quality_milli = m\<rparr>)) = n"
    using start_in_step [OF viewer_config_ok, of caps n 5 False pref adaptive now] by (simp add: host_view_def)
  then show ?thesis using assms
    by (simp add: negotiated_target_fps_def video_option_message_quality_def clamp_id clamp_fps_id Let_def)
qed

theorem host_fps_limit_bypassed_witness:
  "let caps = \<lparr>cap_h264 = True, cap_h265 = False, cap_av1 = False, cap_vp9 = True, cap_vp8 = True, cap_vpx_feature = True\<rparr>
   in negotiated_target_fps (Some (video_option_message_quality caps 60 WantAuto Low)) 10 = 10
    \<and> hs_target_fps (fst (host_receive (snd (viewer_start (viewer_config caps 60 5 False) WantAuto True 0)) \<lparr>hs_target_fps = 10, hs_quality_milli = 700\<rparr>)) = 60"
  using host_fps_limit_bypassed [of 60 _ WantAuto Low True 0 700] by (simp add: Let_def)

end
