(* ===== verification/Host_Pipeline.thy ===== *)
theory Host_Pipeline
  imports Host_Options
begin

text \<open>
  The command loop of the host's video pipeline (\<^verbatim>\<open>src/src/video_pipeline.rs\<close>, \<open>run\<close> and
  \<open>set_subscribed_displays\<close>): which displays have a capture service, with which codec, and when services are
  started again. The loop decides once whether a session runs on the screen codec or in game mode, commits the codec of
  a game session once, and lets the screen codec give way to a hardware codec and come back.

  The local variables of \<open>run\<close> are the record \<open>Pipeline\<close>. The flags other threads set (the peer of the UDP session,
  the requests for a hardware codec) are set by events of their own. Starting a capture service, its threads and the
  log are left out: a service is what it was started with. The order in which a \<open>HashMap\<close> yields its services is
  taken to be that of the displays. Displays of this machine are the argument \<open>infos\<close>, times are in milliseconds.
\<close>

datatype StreamingMode = Support | Interactive | Game

section \<open>State\<close>

record VideoService =
  sv_client_video :: ClientVideoSupport
  sv_using_evrtck :: bool
  sv_mode :: StreamingMode

record Pipeline =
  pl_want_evrtck :: bool
  pl_first_codec_set :: bool
  pl_pending_game_video :: ClientVideoSupport
  pl_game_codec_committed :: bool
  pl_client_video :: ClientVideoSupport
  pl_services :: "(int \<times> VideoService) list"
  pl_subscribed :: "int set"
  pl_evrt_active :: "nat option"
  pl_prev_evrt :: "nat option"
  pl_idr_requests :: nat
  pl_target_fps :: nat
  pl_quality :: nat
  pl_cursor :: "nat \<times> nat"
  pl_silicon_requested :: bool
  pl_return_requested :: bool
  pl_silicon_active :: bool
  pl_audio_mirrors :: nat
  pl_stopped :: bool

datatype PipelineOut =
    ServiceStopped int
  | ServiceStarted int VideoService
  | SendIdr int
  | SwitchDisplayTo int

record PipelineEnv =
  pe_mode :: StreamingMode
  pe_infos :: "int list"
  pe_evrt_deadline :: nat

definition prefers_evrtck :: "PreferCodec \<Rightarrow> bool" where
  "prefers_evrtck prefer \<longleftrightarrow> prefer = PreferAuto \<or> prefer = PreferVp9"

section \<open>Services\<close>

text \<open>\<open>send_ordered_switch_display\<close>: the display asked for, or the first one, is announced.\<close>

definition switch_display_to :: "PipelineEnv \<Rightarrow> int \<Rightarrow> PipelineOut list" where
  "switch_display_to env display =
     (case List.find (\<lambda>i. i = max display 0) (pe_infos env) of
        Some i \<Rightarrow> [SwitchDisplayTo i]
      | None \<Rightarrow> (case pe_infos env of [] \<Rightarrow> [] | i # _ \<Rightarrow> [SwitchDisplayTo i]))"

definition new_service :: "PipelineEnv \<Rightarrow> Pipeline \<Rightarrow> VideoService" where
  "new_service env p =
     \<lparr>sv_client_video = pl_client_video p, sv_using_evrtck = pl_want_evrtck p,
      sv_mode = (if \<not> pl_want_evrtck p \<and> pe_mode env = Support then Game else pe_mode env)\<rparr>"

definition stale :: "Pipeline \<Rightarrow> VideoService \<Rightarrow> bool" where
  "stale p sv \<longleftrightarrow> sv_client_video sv \<noteq> pl_client_video p \<or> sv_using_evrtck sv \<noteq> pl_want_evrtck p"

definition set_subscribed_displays :: "PipelineEnv \<Rightarrow> int list \<Rightarrow> Pipeline \<Rightarrow> Pipeline \<times> PipelineOut list" where
  "set_subscribed_displays env displays p =
     (let asked = remdups (sort (map (\<lambda>d. max d 0) displays));
          next = (if asked = [] then [0] else asked);
          restart = filter (\<lambda>d. d \<in> pl_subscribed p \<and>
                      (case map_of (pl_services p) d of Some sv \<Rightarrow> stale p sv | None \<Rightarrow> False)) next;
          removed = sorted_list_of_set (pl_subscribed p - set next) @ restart;
          stopped = filter (\<lambda>d. map_of (pl_services p) d \<noteq> None) removed;
          kept = filter (\<lambda>(d, sv). d \<notin> set removed) (pl_services p);
          added = filter (\<lambda>d. map_of kept d = None) next;
          started = map (\<lambda>d. (d, new_service env p)) added
      in (p\<lparr>pl_services := kept @ started, pl_subscribed := set next\<rparr>,
          map ServiceStopped stopped @ map (\<lambda>(d, sv). ServiceStarted d sv) started @ switch_display_to env (hd next)))"

definition resubscribe :: "PipelineEnv \<Rightarrow> Pipeline \<Rightarrow> Pipeline \<times> PipelineOut list" where
  "resubscribe env p = set_subscribed_displays env (sorted_list_of_set (pl_subscribed p)) p"

definition resubscribe_if_any :: "PipelineEnv \<Rightarrow> Pipeline \<Rightarrow> Pipeline \<times> PipelineOut list" where
  "resubscribe_if_any env p = (if pl_subscribed p = {} then (p, []) else resubscribe env p)"

text \<open>The state before the loop: display 0 is subscribed.\<close>

definition pipeline_new :: "ClientVideoSupport \<Rightarrow> nat \<Rightarrow> nat \<Rightarrow> Pipeline" where
  "pipeline_new client fps quality =
     \<lparr>pl_want_evrtck = prefers_evrtck (cv_prefer client), pl_first_codec_set = False, pl_pending_game_video = client,
      pl_game_codec_committed = False, pl_client_video = client, pl_services = [], pl_subscribed = {},
      pl_evrt_active = None, pl_prev_evrt = None, pl_idr_requests = 0, pl_target_fps = min (max fps 5) 60,
      pl_quality = max quality 1, pl_cursor = (0, 0), pl_silicon_requested = False, pl_return_requested = False,
      pl_silicon_active = False, pl_audio_mirrors = 0, pl_stopped = False\<rparr>"

definition pipeline_start :: "PipelineEnv \<Rightarrow> ClientVideoSupport \<Rightarrow> nat \<Rightarrow> nat \<Rightarrow> Pipeline \<times> PipelineOut list" where
  "pipeline_start env client fps quality = set_subscribed_displays env [0] (pipeline_new client fps quality)"

section \<open>The parts of a turn\<close>

definition drain_idr_requests :: "Pipeline \<Rightarrow> Pipeline \<times> PipelineOut list" where
  "drain_idr_requests p =
     (p\<lparr>pl_idr_requests := 0\<rparr>, concat (replicate (pl_idr_requests p) (map SendIdr (sort (map fst (pl_services p))))))"

definition commit_codec :: "PreferCodec \<Rightarrow> Pipeline \<Rightarrow> Pipeline" where
  "commit_codec prefer p = p\<lparr>pl_game_codec_committed := True, pl_client_video := (pl_pending_game_video p)\<lparr>cv_prefer := prefer\<rparr>\<rparr>"

definition best_prefer :: "ClientVideoSupport \<Rightarrow> PreferCodec" where
  "best_prefer pending =
     (if cv_prefer pending = PreferAv1 \<and> cv_av1 pending then PreferAv1
      else if cv_prefer pending = PreferH265 \<and> cv_h265 pending then PreferH265
      else if cv_prefer pending = PreferH264 \<and> cv_h264 pending then PreferH264
      else if cv_h265 pending then PreferH265
      else cv_prefer pending)"

definition poll_evrt :: "PipelineEnv \<Rightarrow> Pipeline \<Rightarrow> Pipeline \<times> PipelineOut list" where
  "poll_evrt env p =
     (if pl_evrt_active p = pl_prev_evrt p then (p, [])
      else let p = p\<lparr>pl_prev_evrt := pl_evrt_active p\<rparr>
           in case pl_evrt_active p of
                None \<Rightarrow> (p, [])
              | Some addr \<Rightarrow>
                  (let p = p\<lparr>pl_idr_requests := pl_idr_requests p + 1\<rparr>
                   in if \<not> pl_want_evrtck p \<and> \<not> pl_game_codec_committed p
                      then resubscribe_if_any env (commit_codec (best_prefer (pl_pending_game_video p)) p)
                      else (p, [])))"

text \<open>The deadline for the UDP session. The capture thread for sound over the relay is started with it.\<close>

definition evrt_timeout :: "PipelineEnv \<Rightarrow> nat \<Rightarrow> Pipeline \<Rightarrow> Pipeline \<times> PipelineOut list" where
  "evrt_timeout env now p =
     (if \<not> pl_want_evrtck p \<and> \<not> pl_game_codec_committed p \<and> pe_evrt_deadline env \<le> now then
        (case resubscribe_if_any env (commit_codec PreferH264 p) of
           (p, out) \<Rightarrow> (p\<lparr>pl_audio_mirrors := pl_audio_mirrors p + 1\<rparr>, out))
      else (p, []))"

definition evrtck_silicon_prefer :: "ClientVideoSupport \<Rightarrow> bool \<Rightarrow> PreferCodec option" where
  "evrtck_silicon_prefer client evrt_live =
     (if cv_h264 client then Some PreferH264
      else if evrt_live \<and> cv_h265 client then Some PreferH265
      else if evrt_live \<and> cv_av1 client then Some PreferAv1
      else None)"

definition set_client_codec :: "PipelineEnv \<Rightarrow> ClientVideoSupport \<Rightarrow> Pipeline \<Rightarrow> Pipeline \<times> PipelineOut list" where
  "set_client_codec env new_video p =
     (let p = (if \<not> pl_first_codec_set p
               then p\<lparr>pl_first_codec_set := True, pl_want_evrtck := prefers_evrtck (cv_prefer new_video)\<rparr> else p)
      in if \<not> pl_want_evrtck p then
           (let p = (if \<not> pl_game_codec_committed p then p\<lparr>pl_pending_game_video := new_video\<rparr>
                     else p\<lparr>pl_idr_requests := pl_idr_requests p + 1\<rparr>)
            in (p\<lparr>pl_client_video := (pl_client_video p)\<lparr>cv_h264 := cv_h264 new_video, cv_h265 := cv_h265 new_video,
                                                      cv_av1 := cv_av1 new_video\<rparr>\<rparr>, []))
         else
           let evrt_live = (pl_evrt_active p \<noteq> None);
               eff_video = (if \<not> evrt_live \<and> (cv_prefer new_video = PreferH265 \<or> cv_prefer new_video = PreferAv1)
                            then new_video\<lparr>cv_prefer := PreferH264\<rparr> else new_video)
           in if cv_prefer eff_video = cv_prefer (pl_client_video p) then (p\<lparr>pl_client_video := eff_video\<rparr>, [])
              else resubscribe env (p\<lparr>pl_client_video := eff_video\<rparr>))"

text \<open>No command within 50 ms: the requests of the encoder threads are looked at.\<close>

definition take_silicon_request :: "PipelineEnv \<Rightarrow> Pipeline \<Rightarrow> Pipeline \<times> PipelineOut list" where
  "take_silicon_request env p =
     (let requested = pl_silicon_requested p; p = p\<lparr>pl_silicon_requested := False\<rparr>
      in if requested \<and> pl_want_evrtck p then
           (case evrtck_silicon_prefer (pl_client_video p) (pl_evrt_active p \<noteq> None) of
              Some prefer \<Rightarrow>
                (case resubscribe env (p\<lparr>pl_want_evrtck := False, pl_silicon_active := True,
                                        pl_client_video := (pl_client_video p)\<lparr>cv_prefer := prefer\<rparr>\<rparr>) of
                   (p, out) \<Rightarrow> (p\<lparr>pl_idr_requests := pl_idr_requests p + 1\<rparr>, out))
            | None \<Rightarrow> (p, []))
         else (p, []))"

definition take_return_request :: "PipelineEnv \<Rightarrow> Pipeline \<Rightarrow> Pipeline \<times> PipelineOut list" where
  "take_return_request env p =
     (let requested = pl_return_requested p; p = p\<lparr>pl_return_requested := False\<rparr>
      in if requested \<and> pl_silicon_active p then
           (case resubscribe env (p\<lparr>pl_silicon_active := False, pl_want_evrtck := True,
                                   pl_client_video := (pl_client_video p)\<lparr>cv_prefer := PreferAuto\<rparr>\<rparr>) of
              (p, out) \<Rightarrow> (p\<lparr>pl_idr_requests := pl_idr_requests p + 1\<rparr>, out))
         else (p, []))"

definition then_do :: "('s \<Rightarrow> 's \<times> 'o list) \<Rightarrow> ('s \<Rightarrow> 's \<times> 'o list) \<Rightarrow> 's \<Rightarrow> 's \<times> 'o list" where
  "then_do f g s = (case f s of (s', out1) \<Rightarrow> case g s' of (s'', out2) \<Rightarrow> (s'', out1 @ out2))"

fun on_pipeline_cmd :: "PipelineEnv \<Rightarrow> PipelineCmd \<Rightarrow> Pipeline \<Rightarrow> Pipeline \<times> PipelineOut list" where
  "on_pipeline_cmd env Stop p = (p\<lparr>pl_stopped := True\<rparr>, [])"
| "on_pipeline_cmd env (SetFps fps) p = (p\<lparr>pl_target_fps := min (max fps 5) 60\<rparr>, [])"
| "on_pipeline_cmd env (SetQuality q) p = (p\<lparr>pl_quality := q\<rparr>, [])"
| "on_pipeline_cmd env (CursorMoved x y) p = (p\<lparr>pl_cursor := (x, y)\<rparr>, [])"
| "on_pipeline_cmd env (SetDisplay display) p = set_subscribed_displays env [max display 0] p"
| "on_pipeline_cmd env (SetSubscribedDisplays displays) p = set_subscribed_displays env displays p"
| "on_pipeline_cmd env (AddSubscribedDisplays displays) p =
     set_subscribed_displays env (sorted_list_of_set (pl_subscribed p) @ map (\<lambda>d. max d 0) displays) p"
| "on_pipeline_cmd env (RemoveSubscribedDisplays displays) p =
     set_subscribed_displays env (filter (\<lambda>d. d \<notin> set (map (\<lambda>d. max d 0) displays)) (sorted_list_of_set (pl_subscribed p))) p"
| "on_pipeline_cmd env (RefreshDisplay display) p =
     (p, (if map_of (pl_services p) (max display 0) \<noteq> None then [SendIdr (max display 0)] else [])
         @ switch_display_to env (max display 0))"
| "on_pipeline_cmd env (SendSwitchDisplay display) p = (p, switch_display_to env (max display 0))"
| "on_pipeline_cmd env RequestIdr p = (p\<lparr>pl_idr_requests := pl_idr_requests p + 1\<rparr>, [])"
| "on_pipeline_cmd env (EvrtPeerConnected addr) p = (p, [])"
| "on_pipeline_cmd env EvrtSessionEnded p = (p, [])"
| "on_pipeline_cmd env (SetClientCodec new_video) p = set_client_codec env new_video p"

text \<open>What a turn receives.\<close>

datatype Received = Cmd PipelineCmd | Timeout | Disconnected

fun on_received :: "PipelineEnv \<Rightarrow> Received \<Rightarrow> Pipeline \<Rightarrow> Pipeline \<times> PipelineOut list" where
  "on_received env (Cmd c) p = on_pipeline_cmd env c p"
| "on_received env Timeout p = then_do (take_silicon_request env) (take_return_request env) p"
| "on_received env Disconnected p = (p\<lparr>pl_stopped := True\<rparr>, [])"

definition pipeline_turn :: "PipelineEnv \<Rightarrow> nat \<Rightarrow> Received \<Rightarrow> Pipeline \<Rightarrow> Pipeline \<times> PipelineOut list" where
  "pipeline_turn env now r p =
     (if pl_stopped p then (p, [])
      else then_do (then_do drain_idr_requests (poll_evrt env)) (then_do (evrt_timeout env now) (on_received env r)) p)"

text \<open>Turns of the loop, with what other threads do in between.\<close>

datatype PipelineEvent =
    Turn nat Received
  | EvrtIs "nat option"
  | RequestSilicon
  | RequestReturn

fun pipeline_step :: "PipelineEnv \<Rightarrow> PipelineEvent \<Rightarrow> Pipeline \<Rightarrow> Pipeline \<times> PipelineOut list" where
  "pipeline_step env (Turn now r) p = pipeline_turn env now r p"
| "pipeline_step env (EvrtIs addr) p = (p\<lparr>pl_evrt_active := addr\<rparr>, [])"
| "pipeline_step env RequestSilicon p = (p\<lparr>pl_silicon_requested := True\<rparr>, [])"
| "pipeline_step env RequestReturn p = (p\<lparr>pl_return_requested := True\<rparr>, [])"

fun pipeline_run :: "PipelineEnv \<Rightarrow> PipelineEvent list \<Rightarrow> Pipeline \<Rightarrow> Pipeline \<times> PipelineOut list" where
  "pipeline_run env [] p = (p, [])"
| "pipeline_run env (ev # evs) p = then_do (pipeline_step env ev) (pipeline_run env evs) p"

section \<open>Lemmas: services\<close>

definition services_match :: "Pipeline \<Rightarrow> bool" where
  "services_match p \<longleftrightarrow> distinct (map fst (pl_services p)) \<and> set (map fst (pl_services p)) = pl_subscribed p"

definition services_current :: "Pipeline \<Rightarrow> bool" where
  "services_current p \<longleftrightarrow> services_match p \<and> pl_subscribed p \<noteq> {} \<and> (\<forall>d \<in> pl_subscribed p. 0 \<le> d)
     \<and> (\<forall>(d, sv) \<in> set (pl_services p). cv_prefer (sv_client_video sv) = cv_prefer (pl_client_video p))"

lemma services_finite: "services_match p \<Longrightarrow> finite (pl_subscribed p)"
  unfolding services_match_def by (metis List.finite_set)

lemma set_subscribed_only:
  "\<exists>svs ds'. fst (set_subscribed_displays env ds p) = p\<lparr>pl_services := svs, pl_subscribed := ds'\<rparr>"
  unfolding set_subscribed_displays_def Let_def fst_conv by (intro exI) (rule refl)

lemma set_subscribed_fields [simp]:
  "pl_client_video (fst (set_subscribed_displays env ds p)) = pl_client_video p"
  "pl_want_evrtck (fst (set_subscribed_displays env ds p)) = pl_want_evrtck p"
  "pl_game_codec_committed (fst (set_subscribed_displays env ds p)) = pl_game_codec_committed p"
  "pl_first_codec_set (fst (set_subscribed_displays env ds p)) = pl_first_codec_set p"
  "pl_pending_game_video (fst (set_subscribed_displays env ds p)) = pl_pending_game_video p"
  "pl_evrt_active (fst (set_subscribed_displays env ds p)) = pl_evrt_active p"
  "pl_prev_evrt (fst (set_subscribed_displays env ds p)) = pl_prev_evrt p"
  "pl_silicon_active (fst (set_subscribed_displays env ds p)) = pl_silicon_active p"
  "pl_silicon_requested (fst (set_subscribed_displays env ds p)) = pl_silicon_requested p"
  "pl_return_requested (fst (set_subscribed_displays env ds p)) = pl_return_requested p"
  "pl_audio_mirrors (fst (set_subscribed_displays env ds p)) = pl_audio_mirrors p"
  "pl_stopped (fst (set_subscribed_displays env ds p)) = pl_stopped p"
  using set_subscribed_only [of env ds p] by (elim exE; simp)+

lemmas resubscribe_fields [simp] = set_subscribed_fields [of env "sorted_list_of_set (pl_subscribed p)" p, folded resubscribe_def] for env p

lemma services_rebuilt:
  assumes m: "services_match p" and nxt: "distinct ds" "ds \<noteq> []" "\<forall>d \<in> set ds. 0 \<le> d"
    and removed: "set removed = (pl_subscribed p - set ds)
      \<union> {d \<in> set ds \<inter> pl_subscribed p. case map_of (pl_services p) d of Some sv \<Rightarrow> stale p sv | None \<Rightarrow> False}"
    and kept: "kept = filter (\<lambda>(d, sv). d \<notin> set removed) (pl_services p)"
    and started: "started = map (\<lambda>d. (d, new_service env p)) (filter (\<lambda>d. map_of kept d = None) ds)"
  shows "services_current (p\<lparr>pl_services := kept @ started, pl_subscribed := set ds\<rparr>)"
proof -
  have fst_started: "map fst started = filter (\<lambda>d. map_of kept d = None) ds" by (simp add: started o_def)
  have kept_next: "d \<in> set ds \<and> \<not> stale p sv" if "(d, sv) \<in> set kept" for d sv
  proof -
    have d: "(d, sv) \<in> set (pl_services p)" "d \<notin> set removed" using that by (auto simp: kept)
    have sub: "d \<in> pl_subscribed p" using d(1) m by (force simp: services_match_def)
    have "map_of (pl_services p) d = Some sv" using d(1) m by (simp add: services_match_def)
    then show ?thesis using d(2) sub by (simp add: removed)
  qed
  have "distinct (map fst kept)" using m by (simp add: kept services_match_def distinct_map_filter)
  moreover have "set (map fst kept) \<inter> set (map fst started) = {}"
    unfolding fst_started set_filter map_of_eq_None_iff by auto
  moreover have "distinct (map fst started)" unfolding fst_started using nxt(1) by simp
  ultimately have dist: "distinct (map fst (kept @ started))" by simp
  have "set (map fst kept) \<subseteq> set ds" using kept_next by fastforce
  moreover have "set ds \<subseteq> set (map fst kept) \<union> set (map fst started)"
    unfolding fst_started set_filter map_of_eq_None_iff by auto
  moreover have "set (map fst started) \<subseteq> set ds" unfolding fst_started by auto
  ultimately have dom: "set (map fst (kept @ started)) = set ds" by auto
  have cur: "cv_prefer (sv_client_video sv) = cv_prefer (pl_client_video p)" if sv: "(d, sv) \<in> set (kept @ started)" for d sv
    using sv kept_next [of d sv] by (auto simp: started stale_def new_service_def)
  show ?thesis unfolding services_current_def services_match_def using dist dom cur nxt by auto
qed

lemma set_subscribed_current:
  assumes m: "services_match p"
  shows "services_current (fst (set_subscribed_displays env ds p))"
  unfolding set_subscribed_displays_def Let_def fst_conv
  by (rule services_rebuilt [OF m _ _ _ _ refl refl]) (use services_finite [OF m] in auto)

lemma services_current_match: "services_current p \<Longrightarrow> services_match p"
  by (simp add: services_current_def)

lemma services_match_upd [simp]:
  "services_match (p\<lparr>pl_client_video := v\<rparr>) = services_match p"
  "services_match (p\<lparr>pl_want_evrtck := b\<rparr>) = services_match p"
  "services_match (p\<lparr>pl_silicon_active := b\<rparr>) = services_match p"
  "services_match (p\<lparr>pl_silicon_requested := b\<rparr>) = services_match p"
  "services_match (p\<lparr>pl_return_requested := b\<rparr>) = services_match p"
  "services_match (p\<lparr>pl_idr_requests := n\<rparr>) = services_match p"
  "services_match (p\<lparr>pl_game_codec_committed := b\<rparr>) = services_match p"
  by (simp_all add: services_match_def)

lemma resubscribe_current: "services_match p \<Longrightarrow> services_current (fst (resubscribe env p))"
  unfolding resubscribe_def by (rule set_subscribed_current)

lemma services_current_upd [simp]:
  "services_current (p\<lparr>pl_idr_requests := n\<rparr>) = services_current p"
  "services_current (p\<lparr>pl_prev_evrt := a\<rparr>) = services_current p"
  "services_current (p\<lparr>pl_evrt_active := a\<rparr>) = services_current p"
  "services_current (p\<lparr>pl_silicon_requested := b\<rparr>) = services_current p"
  "services_current (p\<lparr>pl_return_requested := b\<rparr>) = services_current p"
  "services_current (p\<lparr>pl_audio_mirrors := n\<rparr>) = services_current p"
  "services_current (p\<lparr>pl_stopped := b\<rparr>) = services_current p"
  "services_current (p\<lparr>pl_target_fps := n\<rparr>) = services_current p"
  "services_current (p\<lparr>pl_quality := n\<rparr>) = services_current p"
  "services_current (p\<lparr>pl_cursor := c\<rparr>) = services_current p"
  by (simp_all add: services_current_def services_match_def)

lemma services_current_upd2 [simp]:
  "services_current (p\<lparr>pl_first_codec_set := b\<rparr>) = services_current p"
  "services_current (p\<lparr>pl_want_evrtck := b\<rparr>) = services_current p"
  "services_current (p\<lparr>pl_pending_game_video := v\<rparr>) = services_current p"
  by (simp_all add: services_current_def services_match_def)

lemma services_current_client:
  "cv_prefer v = cv_prefer (pl_client_video p) \<Longrightarrow> services_current (p\<lparr>pl_client_video := v\<rparr>) = services_current p"
  by (simp add: services_current_def services_match_def)

lemma commit_current: "services_current p \<Longrightarrow> services_current (fst (resubscribe_if_any env (commit_codec prefer p)))"
proof -
  assume c: "services_current p"
  then have "pl_subscribed (commit_codec prefer p) \<noteq> {}" by (simp add: commit_codec_def services_current_def)
  moreover have "services_match (commit_codec prefer p)" using services_current_match [OF c] by (simp add: commit_codec_def services_match_def)
  ultimately show ?thesis by (simp add: resubscribe_if_any_def resubscribe_current)
qed

lemma then_do_fst: "fst (then_do f g s) = fst (g (fst (f s)))"
  by (simp add: then_do_def split_def)

lemma set_client_codec_current:
  assumes "services_current p"
  shows "services_current (fst (set_client_codec env v p))"
proof -
  define q where "q = (if \<not> pl_first_codec_set p then p\<lparr>pl_first_codec_set := True, pl_want_evrtck := prefers_evrtck (cv_prefer v)\<rparr> else p)"
  have q: "services_current q" using assms by (simp add: q_def)
  have m: "services_match (q\<lparr>pl_client_video := w\<rparr>)" for w using services_current_match [OF q] by simp
  show ?thesis unfolding set_client_codec_def q_def [symmetric] Let_def
    using q resubscribe_current [OF m] by (auto simp: services_current_client)
qed

lemma silicon_current: "services_current p \<Longrightarrow> services_current (fst (take_silicon_request env p))"
  by (auto simp: take_silicon_request_def Let_def split_def services_current_match intro!: resubscribe_current split: option.split)

lemma return_current: "services_current p \<Longrightarrow> services_current (fst (take_return_request env p))"
  by (auto simp: take_return_request_def Let_def split_def services_current_match intro!: resubscribe_current)

lemma cmd_current: "services_current p \<Longrightarrow> services_current (fst (on_pipeline_cmd env c p))"
  by (cases c) (simp_all add: set_subscribed_current services_current_match set_client_codec_current)

lemma turn_current: "services_current p \<Longrightarrow> services_current (fst (pipeline_turn env now r p))"
proof -
  assume c: "services_current p"
  let ?p1 = "fst (poll_evrt env (fst (drain_idr_requests p)))"
  have "services_current (fst (drain_idr_requests p))" using c by (simp add: drain_idr_requests_def)
  then have 1: "services_current ?p1" by (auto simp: poll_evrt_def Let_def commit_current split: option.split)
  have 2: "services_current (fst (evrt_timeout env now ?p1))" using commit_current [OF 1, of env PreferH264] 1
    by (simp add: evrt_timeout_def split_def)
  have "services_current (fst (on_received env r (fst (evrt_timeout env now ?p1))))"
    using 2 by (cases r) (simp_all add: cmd_current then_do_fst silicon_current return_current)
  then show ?thesis using c by (simp add: pipeline_turn_def then_do_fst)
qed

lemma run_current: "services_current p \<Longrightarrow> services_current (fst (pipeline_run env evs p))"
proof (induction evs arbitrary: p)
  case (Cons ev evs)
  have "services_current (fst (pipeline_step env ev p))" using Cons.prems by (cases ev) (simp_all add: turn_current)
  then show ?case using Cons.IH by (simp add: then_do_fst)
qed simp

lemma start_current: "services_current (fst (pipeline_start env client fps quality))"
  by (simp add: pipeline_start_def pipeline_new_def set_subscribed_current services_match_def)

section \<open>Lemmas: the codec of a game session\<close>

definition codec_locked :: "PreferCodec \<Rightarrow> Pipeline \<Rightarrow> bool" where
  "codec_locked prefer p \<longleftrightarrow> pl_game_codec_committed p \<and> pl_first_codec_set p \<and> \<not> pl_want_evrtck p \<and> \<not> pl_silicon_active p
     \<and> cv_prefer (pl_client_video p) = prefer"

lemma codec_locked_upd [simp]:
  "codec_locked prefer (p\<lparr>pl_idr_requests := n\<rparr>) = codec_locked prefer p"
  "codec_locked prefer (p\<lparr>pl_prev_evrt := a\<rparr>) = codec_locked prefer p"
  "codec_locked prefer (p\<lparr>pl_evrt_active := a\<rparr>) = codec_locked prefer p"
  "codec_locked prefer (p\<lparr>pl_silicon_requested := b\<rparr>) = codec_locked prefer p"
  "codec_locked prefer (p\<lparr>pl_return_requested := b\<rparr>) = codec_locked prefer p"
  "codec_locked prefer (p\<lparr>pl_stopped := b\<rparr>) = codec_locked prefer p"
  "codec_locked prefer (p\<lparr>pl_target_fps := n\<rparr>) = codec_locked prefer p"
  "codec_locked prefer (p\<lparr>pl_quality := n\<rparr>) = codec_locked prefer p"
  "codec_locked prefer (p\<lparr>pl_cursor := c\<rparr>) = codec_locked prefer p"
  "codec_locked prefer (fst (set_subscribed_displays env ds p)) = codec_locked prefer p"
  by (simp_all add: codec_locked_def)

lemma locked_cmd: "codec_locked prefer p \<Longrightarrow> codec_locked prefer (fst (on_pipeline_cmd env c p))"
  by (cases c) (simp_all, auto simp: codec_locked_def set_client_codec_def Let_def)

lemma locked_turn: "codec_locked prefer p \<Longrightarrow> codec_locked prefer (fst (pipeline_turn env now r p))"
proof -
  assume c: "codec_locked prefer p"
  let ?p1 = "fst (poll_evrt env (fst (drain_idr_requests p)))"
  have "codec_locked prefer (fst (drain_idr_requests p))" using c by (simp add: drain_idr_requests_def)
  then have 1: "codec_locked prefer ?p1" by (auto simp: poll_evrt_def Let_def codec_locked_def split: option.split)
  have 2: "codec_locked prefer (fst (evrt_timeout env now ?p1))" using 1 by (auto simp: evrt_timeout_def codec_locked_def)
  have t: "codec_locked prefer (fst (then_do (take_silicon_request env) (take_return_request env) q))" if "codec_locked prefer q" for q
    using that by (auto simp: then_do_fst take_silicon_request_def take_return_request_def Let_def codec_locked_def)
  have "codec_locked prefer (fst (on_received env r (fst (evrt_timeout env now ?p1))))"
    using 2 by (cases r) (simp_all add: locked_cmd t)
  then show ?thesis using c by (simp add: pipeline_turn_def then_do_fst)
qed

lemma locked_run: "codec_locked prefer p \<Longrightarrow> codec_locked prefer (fst (pipeline_run env evs p))"
proof (induction evs arbitrary: p)
  case (Cons ev evs)
  have "codec_locked prefer (fst (pipeline_step env ev p))" using Cons.prems by (cases ev) (simp_all add: locked_turn)
  then show ?case using Cons.IH by (simp add: then_do_fst)
qed simp

section \<open>Lemmas: a session without UDP\<close>

definition high_end :: "PreferCodec \<Rightarrow> bool" where
  "high_end prefer \<longleftrightarrow> prefer = PreferH265 \<or> prefer = PreferAv1"

definition relay_only :: "Pipeline \<Rightarrow> bool" where
  "relay_only p \<longleftrightarrow> pl_evrt_active p = None \<and> pl_prev_evrt p = None \<and> \<not> high_end (cv_prefer (pl_client_video p))"

lemma relay_only_upd [simp]:
  "relay_only (p\<lparr>pl_idr_requests := n\<rparr>) = relay_only p"
  "relay_only (p\<lparr>pl_silicon_requested := b\<rparr>) = relay_only p"
  "relay_only (p\<lparr>pl_return_requested := b\<rparr>) = relay_only p"
  "relay_only (p\<lparr>pl_stopped := b\<rparr>) = relay_only p"
  "relay_only (p\<lparr>pl_target_fps := n\<rparr>) = relay_only p"
  "relay_only (p\<lparr>pl_quality := n\<rparr>) = relay_only p"
  "relay_only (p\<lparr>pl_cursor := c\<rparr>) = relay_only p"
  "relay_only (p\<lparr>pl_audio_mirrors := n\<rparr>) = relay_only p"
  "relay_only (fst (set_subscribed_displays env ds p)) = relay_only p"
  "relay_only (fst (resubscribe env p)) = relay_only p"
  by (simp_all add: relay_only_def)

lemma relay_cmd: "relay_only p \<Longrightarrow> relay_only (fst (on_pipeline_cmd env c p))"
  by (cases c) (simp_all, auto simp: relay_only_def set_client_codec_def Let_def high_end_def)

lemma relay_timeout: "relay_only p \<Longrightarrow> relay_only (fst (then_do (take_silicon_request env) (take_return_request env) p))"
proof -
  assume r: "relay_only p"
  have 1: "relay_only (fst (take_silicon_request env p))"
    using r by (auto simp: take_silicon_request_def Let_def split_def evrtck_silicon_prefer_def) (auto simp: relay_only_def high_end_def)
  have 2: "relay_only (fst (take_return_request env q))" if "relay_only q" for q
    using that by (auto simp: take_return_request_def Let_def split_def) (auto simp: relay_only_def high_end_def)
  show ?thesis using 2 [OF 1] by (simp add: then_do_fst)
qed

lemma relay_turn: "relay_only p \<Longrightarrow> relay_only (fst (pipeline_turn env now r p))"
proof -
  assume c: "relay_only p"
  let ?p0 = "fst (drain_idr_requests p)"
  have 0: "relay_only ?p0" using c by (simp add: drain_idr_requests_def)
  then have 1: "poll_evrt env ?p0 = (?p0, [])" by (simp add: poll_evrt_def relay_only_def)
  have "relay_only (fst (resubscribe_if_any env (commit_codec PreferH264 ?p0)))"
    using 0 by (simp add: resubscribe_if_any_def) (simp add: relay_only_def commit_codec_def high_end_def)
  then have 2: "relay_only (fst (evrt_timeout env now ?p0))" using 0 by (simp add: evrt_timeout_def split_def)
  have "relay_only (fst (on_received env r (fst (evrt_timeout env now ?p0))))"
    using 2 by (cases r) (simp_all add: relay_cmd relay_timeout)
  then show ?thesis using c 1 by (simp add: pipeline_turn_def then_do_fst)
qed

section \<open>Properties\<close>

text \<open>C13: The capture services are the ones they should be. After any turns of the pipeline loop, with any commands, requests
  of the encoders and changes of the UDP session, there is exactly one service for each subscribed display and none
  besides, at least one display is subscribed and none has a negative number, and every service runs with the codec
  preference in force.\<close>

theorem pipeline_services_current:
  "let p = fst (pipeline_run env evs (fst (pipeline_start env client fps quality)))
   in distinct (map fst (pl_services p)) \<and> set (map fst (pl_services p)) = pl_subscribed p
     \<and> pl_subscribed p \<noteq> {} \<and> pl_subscribed p \<subseteq> {0..}
     \<and> cv_prefer ` sv_client_video ` snd ` set (pl_services p) = {cv_prefer (pl_client_video p)}"
proof -
  let ?p = "fst (pipeline_run env evs (fst (pipeline_start env client fps quality)))"
  have c: "services_current ?p" by (intro run_current start_current)
  then have "set (map fst (pl_services ?p)) \<noteq> {}" by (simp add: services_current_def services_match_def)
  then have "pl_services ?p \<noteq> []" by auto
  then show ?thesis using c unfolding Let_def services_current_def services_match_def
    by (cases "pl_services ?p") (auto simp: image_iff)
qed



text \<open>C17: Over the relay alone the pipeline never switches to H265 or AV1. In a session that starts with another codec and
  never gets a UDP peer, no service is ever run with either, whatever the viewer asks for and the encoders suggest.\<close>

theorem relay_never_gets_high_end_codecs:
  assumes "\<not> high_end (cv_prefer client)" "\<forall>ev \<in> set evs. \<forall>addr. ev \<noteq> EvrtIs (Some addr)"
    and "(d, sv) \<in> set (pl_services (fst (pipeline_run env evs (fst (pipeline_start env client fps quality)))))"
  shows "\<not> high_end (cv_prefer (sv_client_video sv))"
proof -
  have r: "relay_only (fst (pipeline_run env evs q))" if "relay_only q" for q
    using that assms(2)
  proof (induction evs arbitrary: q)
    case (Cons ev evs)
    have "relay_only (fst (pipeline_step env ev q))"
      using Cons.prems by (cases ev) (auto simp: relay_turn, auto simp: relay_only_def)
    then show ?case using Cons.IH Cons.prems(2) by (simp add: then_do_fst)
  qed simp
  let ?p = "fst (pipeline_run env evs (fst (pipeline_start env client fps quality)))"
  have "relay_only (fst (pipeline_start env client fps quality))"
    using assms(1) by (simp add: pipeline_start_def) (simp add: relay_only_def pipeline_new_def)
  then have "\<not> high_end (cv_prefer (pl_client_video ?p))" using r by (simp add: relay_only_def)
  moreover have "services_current ?p" by (intro run_current start_current)
  ultimately show ?thesis using assms(3) by (auto simp: services_current_def)
qed

theorem relay_never_gets_high_end_codecs_witness:
  "let env = \<lparr>pe_mode = Support, pe_infos = [0], pe_evrt_deadline = 3000\<rparr>;
       asked = (\<lambda>prefer. \<lparr>cv_h264 = True, cv_h265 = True, cv_av1 = False, cv_prefer = prefer\<rparr>)
   in \<exists>sv. pl_services (fst (pipeline_run env [Turn 10 (Cmd (SetClientCodec (asked PreferAuto))), Turn 60 (Cmd (SetClientCodec (asked PreferH265)))]
          (fst (pipeline_start env (asked PreferAuto) 30 1000)))) = [(0, sv)] \<and> \<not> high_end (cv_prefer (sv_client_video sv))"
proof -
  let ?env = "\<lparr>pe_mode = Support, pe_infos = [0], pe_evrt_deadline = 3000\<rparr>"
  let ?asked = "\<lambda>prefer. \<lparr>cv_h264 = True, cv_h265 = True, cv_av1 = False, cv_prefer = prefer\<rparr>"
  let ?evs = "[Turn 10 (Cmd (SetClientCodec (?asked PreferAuto))), Turn 60 (Cmd (SetClientCodec (?asked PreferH265)))]"
  let ?p = "fst (pipeline_run ?env ?evs (fst (pipeline_start ?env (?asked PreferAuto) 30 1000)))"
  have "\<exists>sv. pl_services ?p = [(0, sv)]"
    by (simp add: then_do_def pipeline_turn_def pipeline_start_def pipeline_new_def set_subscribed_displays_def
        prefers_evrtck_def new_service_def drain_idr_requests_def poll_evrt_def evrt_timeout_def set_client_codec_def stale_def
        resubscribe_def Let_def)
  then obtain sv where s: "pl_services ?p = [(0, sv)]" by blast
  have "\<not> high_end (cv_prefer (?asked PreferAuto))" by (simp add: high_end_def)
  from relay_never_gets_high_end_codecs [OF this, of ?evs 0 sv ?env 30 1000] s have "\<not> high_end (cv_prefer (sv_client_video sv))"
    by simp
  then show ?thesis using s by (simp only: Let_def) blast
qed

text \<open>C32: A switch from the screen codec to a hardware codec is undone by the deadline for the UDP session. The switch
  puts the session into what the loop takes for an uncommitted game session; when the deadline has passed, as it has a few
  seconds into any session, the next turn replaces the codec that was chosen by H264, with the capabilities the viewer
  had when it logged in, and starts the capture of sound for the relay, although the UDP session is up.\<close>

theorem silicon_switch_overridden:
  assumes "\<not> pl_stopped p" "pl_want_evrtck p" "\<not> pl_game_codec_committed p" "pl_evrt_active p = pl_prev_evrt p"
    and "pl_silicon_requested p" "\<not> pl_return_requested p"
    and "evrtck_silicon_prefer (pl_client_video p) (pl_evrt_active p \<noteq> None) = Some prefer"
    and "pe_evrt_deadline env \<le> t2"
    and "p1 = fst (pipeline_turn env t1 Timeout p)" "p2 = fst (pipeline_turn env t2 Timeout p1)"
  shows "cv_prefer (pl_client_video p1) = prefer \<and> pl_audio_mirrors p1 = pl_audio_mirrors p
    \<and> pl_client_video p2 = (pl_pending_game_video p)\<lparr>cv_prefer := PreferH264\<rparr>
    \<and> pl_audio_mirrors p2 = pl_audio_mirrors p + 1 \<and> pl_evrt_active p2 = pl_evrt_active p"
proof -
  have p1: "pl_client_video p1 = (pl_client_video p)\<lparr>cv_prefer := prefer\<rparr> \<and> pl_audio_mirrors p1 = pl_audio_mirrors p
      \<and> \<not> pl_want_evrtck p1 \<and> \<not> pl_game_codec_committed p1 \<and> pl_pending_game_video p1 = pl_pending_game_video p
      \<and> pl_evrt_active p1 = pl_evrt_active p \<and> pl_prev_evrt p1 = pl_prev_evrt p \<and> \<not> pl_stopped p1
      \<and> \<not> pl_silicon_requested p1 \<and> \<not> pl_return_requested p1"
    unfolding assms(9) pipeline_turn_def
    using assms(1-7) by (simp add: then_do_fst drain_idr_requests_def poll_evrt_def evrt_timeout_def take_silicon_request_def
        take_return_request_def Let_def split_def)
  have "pl_client_video p2 = (pl_pending_game_video p1)\<lparr>cv_prefer := PreferH264\<rparr>
      \<and> pl_audio_mirrors p2 = pl_audio_mirrors p1 + 1 \<and> pl_evrt_active p2 = pl_evrt_active p1"
    unfolding assms(10) pipeline_turn_def
    using p1 assms(4,8) by (simp add: then_do_fst drain_idr_requests_def poll_evrt_def evrt_timeout_def take_silicon_request_def
        take_return_request_def Let_def split_def resubscribe_if_any_def commit_codec_def)
  then show ?thesis using p1 by simp
qed

theorem silicon_switch_overridden_witness:
  "let env = \<lparr>pe_mode = Support, pe_infos = [0], pe_evrt_deadline = 3000\<rparr>;
       p = (pipeline_new \<lparr>cv_h264 = False, cv_h265 = True, cv_av1 = False, cv_prefer = PreferAuto\<rparr> 60 1000)
             \<lparr>pl_evrt_active := Some 1, pl_prev_evrt := Some 1, pl_silicon_requested := True\<rparr>;
       p1 = fst (pipeline_turn env 9000 Timeout p); p2 = fst (pipeline_turn env 9050 Timeout p1)
   in cv_prefer (pl_client_video p1) = PreferH265 \<and> pl_audio_mirrors p1 = 0
     \<and> cv_prefer (pl_client_video p2) = PreferH264 \<and> \<not> cv_h264 (pl_client_video p2) \<and> pl_audio_mirrors p2 = 1"
proof -
  let ?env = "\<lparr>pe_mode = Support, pe_infos = [0], pe_evrt_deadline = 3000\<rparr>"
  let ?p = "(pipeline_new \<lparr>cv_h264 = False, cv_h265 = True, cv_av1 = False, cv_prefer = PreferAuto\<rparr> 60 1000)
             \<lparr>pl_evrt_active := Some 1, pl_prev_evrt := Some 1, pl_silicon_requested := True\<rparr>"
  show ?thesis using silicon_switch_overridden [of ?p PreferH265 ?env 9050 _ 9000, OF _ _ _ _ _ _ _ _ refl refl]
    by (simp add: pipeline_new_def prefers_evrtck_def evrtck_silicon_prefer_def Let_def)
qed

end
