(* ===== verification/Change_Detector.thy ===== *)
theory Change_Detector
  imports Complex_Main Evrt1_Packet
begin

unbundle bit_operations_syntax

text \<open>
  The change detector of the host (\<^verbatim>\<open>src/src/host.rs\<close>: \<open>FrameChangeDetector\<close>, \<open>FrameFingerprint\<close>,
  \<open>tile_hash\<close>; \<^verbatim>\<open>src/src/colorconv.rs\<close>: \<open>frame_signature\<close>). Before a captured frame is encoded its
  fingerprint is compared with that of the last frame sent: a hash over at most about a thousand pixels of the frame
  and one over a few pixels of every tile of 32 by 32 pixels. A frame with the same fingerprint is skipped, unless a
  keyframe is due or nothing was sent for two seconds.

  Widths, heights and positions are natural numbers (they are \<open>u32\<close> and \<open>usize\<close> in the source and stay below
  \<open>2 ^ 32 - 32\<close>), times are milliseconds. The two counters that only feed a log line are left out.
\<close>

section \<open>Hashing\<close>

definition FNV_OFFSET :: u64 where "FNV_OFFSET = 14695981039346656037"
definition FNV_PRIME :: u64 where "FNV_PRIME = 1099511628211"

definition fnv :: "u64 \<Rightarrow> u8 \<Rightarrow> u64" where
  "fnv hash c = (hash * FNV_PRIME) XOR ucast c"

text \<open>Red, green and blue of the pixel that starts at byte \<open>base\<close>.\<close>

definition fnv_pixel :: "bytes \<Rightarrow> nat \<Rightarrow> u64 \<Rightarrow> u64" where
  "fnv_pixel bgra base hash = fnv (fnv (fnv hash (bgra ! (base + 2))) (bgra ! (base + 1))) (bgra ! base)"

text \<open>\<open>while idx < pixels { ..; idx += step; }\<close>\<close>

function sample_loop :: "(nat \<Rightarrow> u64 \<Rightarrow> u64) \<Rightarrow> nat \<Rightarrow> nat \<Rightarrow> nat \<Rightarrow> u64 \<Rightarrow> u64" where
  "sample_loop f pixels step idx hash =
     (if idx < pixels \<and> 0 < step then sample_loop f pixels step (idx + step) (f idx hash) else hash)"
  by auto
termination by (relation "measure (\<lambda>(f, pixels, step, idx, hash). pixels - idx)") auto

declare sample_loop.simps [simp del]

definition frame_signature :: "bytes \<Rightarrow> nat \<Rightarrow> nat \<Rightarrow> u64" where
  "frame_signature bgra w h =
     (if length bgra < w * h * 4 \<or> w = 0 \<or> h = 0 then 0
      else sample_loop (\<lambda>idx. fnv_pixel bgra (idx * 4)) (w * h) (max (w * h div 512) 1) 0 FNV_OFFSET)"

definition DIRTY_TILE_SIZE :: nat where "DIRTY_TILE_SIZE = 32"
definition TILE_HASH_TARGET_SAMPLES :: nat where "TILE_HASH_TARGET_SAMPLES = 16"

text \<open>The byte at which pixel \<open>local\<close> of the tile starts.\<close>

definition sample_base :: "nat \<Rightarrow> nat \<Rightarrow> nat \<Rightarrow> nat \<Rightarrow> nat \<Rightarrow> nat" where
  "sample_base width x0 y0 tile_w lc = ((y0 + lc div tile_w) * width + (x0 + lc mod tile_w)) * 4"

definition tile_hash :: "nat \<Rightarrow> bytes \<Rightarrow> nat \<Rightarrow> nat \<Rightarrow> nat \<Rightarrow> nat \<Rightarrow> u64" where
  "tile_hash width bgra x0 y0 x1 y1 =
     (let tile_w = max (x1 - x0) 1; tile_h = max (y1 - y0) 1; pixels = tile_w * tile_h
      in sample_loop (\<lambda>lc hash. if sample_base width x0 y0 tile_w lc + 2 < length bgra
             then fnv_pixel bgra (sample_base width x0 y0 tile_w lc) hash else hash)
           pixels (max (pixels div TILE_HASH_TARGET_SAMPLES) 1) 0 FNV_OFFSET)"

definition div_ceil_u32 :: "nat \<Rightarrow> nat \<Rightarrow> nat" where
  "div_ceil_u32 value divisor = (if value = 0 then 0 else 1 + (value - 1) div max divisor 1)"

record FrameFingerprint =
  ff_width :: nat
  ff_height :: nat
  ff_hash :: u64
  ff_tile_cols :: nat
  ff_tile_rows :: nat
  ff_tile_hashes :: "u64 list"

text \<open>The hash of the tile in row \<open>row\<close> and column \<open>col\<close>.\<close>

definition hash_at :: "nat \<Rightarrow> nat \<Rightarrow> bytes \<Rightarrow> nat \<Rightarrow> nat \<Rightarrow> u64" where
  "hash_at width height bgra row col =
     tile_hash width bgra (col * DIRTY_TILE_SIZE) (row * DIRTY_TILE_SIZE)
       (min ((col + 1) * DIRTY_TILE_SIZE) width) (min ((row + 1) * DIRTY_TILE_SIZE) height)"

definition fingerprint_build :: "nat \<Rightarrow> nat \<Rightarrow> bytes \<Rightarrow> FrameFingerprint" where
  "fingerprint_build width height bgra =
     (if width = 0 \<or> height = 0 \<or> length bgra < width * height * 4 then
        \<lparr>ff_width = width, ff_height = height, ff_hash = frame_signature bgra width height,
         ff_tile_cols = 0, ff_tile_rows = 0, ff_tile_hashes = []\<rparr>
      else
        let tile_cols = div_ceil_u32 width DIRTY_TILE_SIZE; tile_rows = div_ceil_u32 height DIRTY_TILE_SIZE
        in \<lparr>ff_width = width, ff_height = height, ff_hash = frame_signature bgra width height,
            ff_tile_cols = tile_cols, ff_tile_rows = tile_rows,
            ff_tile_hashes = concat (map (\<lambda>row. map (hash_at width height bgra row) [0..<tile_cols]) [0..<tile_rows])\<rparr>)"

section \<open>The detector\<close>

record FrameChangeDetector =
  cd_width :: nat
  cd_height :: nat
  cd_last_hash :: u64
  cd_last_tile_cols :: nat
  cd_last_tile_rows :: nat
  cd_last_tile_hashes :: "u64 list"
  cd_pending_fingerprint :: "FrameFingerprint option"
  cd_last_sent_at :: "nat option"
  cd_consecutive_static_skips :: nat

definition detector_default :: FrameChangeDetector where
  "detector_default = \<lparr>cd_width = 0, cd_height = 0, cd_last_hash = 0, cd_last_tile_cols = 0, cd_last_tile_rows = 0,
     cd_last_tile_hashes = [], cd_pending_fingerprint = None, cd_last_sent_at = None, cd_consecutive_static_skips = 0\<rparr>"

record FrameDecision =
  fd_send :: bool
  fd_force_key :: bool
  fd_roi :: RoiRect

definition STATIC_REFRESH :: nat where "STATIC_REFRESH = 2000"

definition full_screen_roi :: RoiRect where
  "full_screen_roi = \<lparr>roi_frame_id = 0, roi_x = 0, roi_y = 0, roi_w = 0, roi_h = 0\<rparr>"

definition frame_changed :: "FrameChangeDetector \<Rightarrow> FrameFingerprint \<Rightarrow> bool" where
  "frame_changed d current \<longleftrightarrow>
     cd_last_hash d = 0 \<or> ff_hash current \<noteq> cd_last_hash d \<or> ff_tile_cols current \<noteq> cd_last_tile_cols d
     \<or> ff_tile_rows current \<noteq> cd_last_tile_rows d \<or> ff_tile_hashes current \<noteq> cd_last_tile_hashes d"

text \<open>The bounding box of the tiles whose hash changed: one turn of the loop over rows and columns.\<close>

record DirtyBox =
  db_min_col :: nat
  db_min_row :: nat
  db_max_col :: nat
  db_max_row :: nat
  db_any :: bool

definition note_tile :: "FrameChangeDetector \<Rightarrow> FrameFingerprint \<Rightarrow> nat \<times> nat \<Rightarrow> DirtyBox \<Rightarrow> DirtyBox" where
  "note_tile d current rc b = (case rc of (row, col) \<Rightarrow>
     let idx = row * ff_tile_cols current + col
     in if ff_tile_hashes current ! idx \<noteq> cd_last_tile_hashes d ! idx then
          \<lparr>db_min_col = min (db_min_col b) col, db_min_row = min (db_min_row b) row,
           db_max_col = max (db_max_col b) col, db_max_row = max (db_max_row b) row, db_any = True\<rparr>
        else b)"

definition grid_positions :: "FrameFingerprint \<Rightarrow> (nat \<times> nat) list" where
  "grid_positions current = concat (map (\<lambda>row. map (Pair row) [0..<ff_tile_cols current]) [0..<ff_tile_rows current])"

definition dirty_box :: "FrameChangeDetector \<Rightarrow> FrameFingerprint \<Rightarrow> DirtyBox" where
  "dirty_box d current = fold (note_tile d current) (grid_positions current)
     \<lparr>db_min_col = ff_tile_cols current, db_min_row = ff_tile_rows current, db_max_col = 0, db_max_row = 0, db_any = False\<rparr>"

definition dirty_roi :: "FrameChangeDetector \<Rightarrow> FrameFingerprint \<Rightarrow> RoiRect option" where
  "dirty_roi d current =
     (if ff_width current \<noteq> cd_width d \<or> ff_height current \<noteq> cd_height d
         \<or> ff_tile_cols current \<noteq> cd_last_tile_cols d \<or> ff_tile_rows current \<noteq> cd_last_tile_rows d
         \<or> length (ff_tile_hashes current) \<noteq> length (cd_last_tile_hashes d) then Some full_screen_roi
      else let b = dirty_box d current
           in if \<not> db_any b then None
              else let x = db_min_col b * DIRTY_TILE_SIZE; y = db_min_row b * DIRTY_TILE_SIZE;
                       right = min ((db_max_col b + 1) * DIRTY_TILE_SIZE) (ff_width current);
                       bottom = min ((db_max_row b + 1) * DIRTY_TILE_SIZE) (ff_height current)
                   in Some \<lparr>roi_frame_id = 0, roi_x = of_nat x, roi_y = of_nat y,
                            roi_w = of_nat (right - x), roi_h = of_nat (bottom - y)\<rparr>)"

definition idle_refresh :: "nat \<Rightarrow> FrameChangeDetector \<Rightarrow> bool" where
  "idle_refresh now d = (case cd_last_sent_at d of None \<Rightarrow> True | Some t \<Rightarrow> STATIC_REFRESH \<le> now - t)"

definition decide ::
  "nat \<Rightarrow> nat \<Rightarrow> nat \<Rightarrow> bytes \<Rightarrow> bool \<Rightarrow> FrameChangeDetector \<Rightarrow> FrameChangeDetector \<times> FrameDecision" where
  "decide now width height bgra periodic_key d =
     (let size_changed = (cd_width d \<noteq> width \<or> cd_height d \<noteq> height);
          current = fingerprint_build width height bgra;
          idle = idle_refresh now d;
          changed = (size_changed \<or> frame_changed d current);
          send = (changed \<or> periodic_key \<or> idle);
          roi = (if size_changed \<or> cd_last_hash d = 0 \<or> periodic_key \<or> idle then full_screen_roi
                 else if changed then (case dirty_roi d current of Some r \<Rightarrow> r | None \<Rightarrow> full_screen_roi)
                 else full_screen_roi);
          d = d\<lparr>cd_pending_fingerprint := Some current\<rparr>
      in if send then (d, \<lparr>fd_send = True, fd_force_key = (size_changed \<or> periodic_key \<or> idle), fd_roi = roi\<rparr>)
         else (d\<lparr>cd_consecutive_static_skips := min (cd_consecutive_static_skips d + 1) (2 ^ 32 - 1)\<rparr>,
               \<lparr>fd_send = False, fd_force_key = False, fd_roi = roi\<rparr>))"

definition detector_mark_sent :: "nat \<Rightarrow> nat \<Rightarrow> nat \<Rightarrow> bytes \<Rightarrow> FrameChangeDetector \<Rightarrow> FrameChangeDetector" where
  "detector_mark_sent now width height bgra d =
     (let fingerprint = (case cd_pending_fingerprint d of
            Some fp \<Rightarrow> (if ff_width fp = width \<and> ff_height fp = height then fp else fingerprint_build width height bgra)
          | None \<Rightarrow> fingerprint_build width height bgra)
      in d\<lparr>cd_width := width, cd_height := height, cd_pending_fingerprint := None, cd_last_hash := ff_hash fingerprint,
           cd_last_tile_cols := ff_tile_cols fingerprint, cd_last_tile_rows := ff_tile_rows fingerprint,
           cd_last_tile_hashes := ff_tile_hashes fingerprint, cd_last_sent_at := Some now,
           cd_consecutive_static_skips := 0\<rparr>)"

text \<open>How long the encoder sleeps after a skipped frame, in milliseconds; \<open>saturating_mul\<close> cannot saturate here.\<close>

definition static_backoff_delay :: "nat \<Rightarrow> FrameChangeDetector \<Rightarrow> nat option" where
  "static_backoff_delay fps d =
     (let fps = min (max fps 5) 60
      in if cd_consecutive_static_skips d < fps then None
         else if cd_consecutive_static_skips d < fps * 4 then Some 25 else Some 50)"

section \<open>Lemmas: hashing\<close>

text \<open>The pixels a loop looks at.\<close>

definition sampled :: "nat \<Rightarrow> nat \<Rightarrow> nat \<Rightarrow> nat \<Rightarrow> bool" where
  "sampled pixels step idx j \<longleftrightarrow> idx \<le> j \<and> j < pixels \<and> step dvd (j - idx)"

lemma sampled_step: "sampled n s (i + s) j \<Longrightarrow> sampled n s i j"
  unfolding sampled_def by (metis add_leD1 diff_diff_left dvd_minus_self le_add_diff_inverse add_diff_cancel_left' dvd_add_right_iff dvd_refl add.commute le_diff_conv2)

lemma sampled_next: "sampled n s i j \<Longrightarrow> j \<noteq> i \<Longrightarrow> sampled n s (i + s) j"
  unfolding sampled_def
  by (metis Nat.le_diff_conv2 add.commute diff_diff_left dvd_diff_nat dvd_imp_le dvd_refl le_neq_implies_less zero_less_diff)

lemma sample_loop_cong:
  "(\<And>j h. sampled n s i j \<Longrightarrow> f j h = g j h) \<Longrightarrow> sample_loop f n s i h = sample_loop g n s i h"
proof (induction f n s i h rule: sample_loop.induct)
  case (1 f n s i h)
  show ?case
  proof (cases "i < n \<and> 0 < s")
    case True
    then have "sampled n s i i" by (simp add: sampled_def)
    then have h: "f i h = g i h" by (rule "1.prems")
    have "sample_loop f n s (i + s) (f i h) = sample_loop g n s (i + s) (f i h)"
      using "1.IH" [OF True] "1.prems" sampled_step by blast
    then show ?thesis using True h by (simp add: sample_loop.simps [of _ n s i])
  qed (auto simp: sample_loop.simps [of _ n s i])
qed

lemma sample_loop_inj:
  "(\<And>j. inj (f j)) \<Longrightarrow> sample_loop f n s i h = sample_loop f n s i h' \<Longrightarrow> h = h'"
proof (induction f n s i h arbitrary: h' rule: sample_loop.induct)
  case (1 f n s i h)
  show ?case
  proof (cases "i < n \<and> 0 < s")
    case True
    then have "f i h = f i h'"
      using "1.IH" [OF True "1.prems"(1)] "1.prems"(2) by (simp add: sample_loop.simps [of _ n s i])
    then show ?thesis using "1.prems"(1) by (meson injD)
  next
    case False
    then show ?thesis using "1.prems"(2) by (auto simp: sample_loop.simps [of _ n s i])
  qed
qed

lemma sample_loop_differs:
  assumes "\<And>j. inj (f j)" "\<And>j h. j \<noteq> p \<Longrightarrow> f j h = g j h" "\<And>h. f p h \<noteq> g p h" "0 < s"
  shows "sampled n s i p \<Longrightarrow> sample_loop f n s i h \<noteq> sample_loop g n s i h"
  using assms
proof (induction f n s i h rule: sample_loop.induct)
  case (1 f n s i h)
  have run: "i < n \<and> 0 < s" using "1.prems" by (simp add: sampled_def)
  show ?case
  proof (cases "i = p")
    case True
    have "sample_loop g n s (i + s) (g i h) = sample_loop f n s (i + s) (g i h)"
      by (rule sample_loop_cong) (use True run "1.prems"(3) in \<open>auto simp: sampled_def\<close>)
    moreover have "sample_loop f n s (i + s) (f i h) \<noteq> sample_loop f n s (i + s) (g i h)"
      using sample_loop_inj [of f n s "i + s" "f i h" "g i h"] "1.prems"(2,4) True by blast
    ultimately show ?thesis using run by (simp add: sample_loop.simps [of _ n s i])
  next
    case False
    then have "sample_loop f n s (i + s) (f i h) \<noteq> sample_loop g n s (i + s) (f i h)"
      by (intro "1.IH" [OF run] sampled_next "1.prems") auto
    then show ?thesis using run False "1.prems"(3) by (simp add: sample_loop.simps [of _ n s i])
  qed
qed

text \<open>One step of the hash is injective: the prime is odd.\<close>

lemma fnv_prime_inverse: "x * FNV_PRIME * 14886173955864302971 = x"
proof -
  have "FNV_PRIME * 14886173955864302971 = 1" by (simp add: FNV_PRIME_def)
  then show ?thesis by (simp only: mult.assoc mult_1_right)
qed

lemma fnv_inj: "fnv h c = fnv h' c \<Longrightarrow> h = h'"
proof -
  assume "fnv h c = fnv h' c"
  then have "fnv h c XOR ucast c = fnv h' c XOR ucast c" by simp
  then have "h * FNV_PRIME = h' * FNV_PRIME" by (simp add: fnv_def xor.assoc)
  then have "h * FNV_PRIME * 14886173955864302971 = h' * FNV_PRIME * 14886173955864302971" by simp
  then show "h = h'" unfolding fnv_prime_inverse .
qed

lemma fnv_pixel_inj: "inj (fnv_pixel bgra base)"
  by (rule injI) (auto simp: fnv_pixel_def dest!: fnv_inj)

text \<open>A byte that is mixed in moves the hash by less than 256, and the three colours of a pixel cannot cancel out.\<close>

lemma xor_byte_int:
  assumes "0 \<le> (c :: int)" "c < 256"
  shows "\<exists>e. \<bar>e\<bar> \<le> 255 \<and> x XOR c = x + e"
proof -
  have split: "y = 256 * drop_bit 8 y + take_bit 8 y" for y :: int
    by (simp add: drop_bit_eq_div take_bit_eq_mod)
  have small: "0 \<le> take_bit 8 y" "take_bit 8 y < 256" for y :: int by (simp_all add: take_bit_eq_mod)
  have "drop_bit 8 c = 0" using assms by (simp add: drop_bit_eq_div)
  then have same: "drop_bit 8 (x XOR c) = drop_bit 8 x" by (simp add: drop_bit_xor)
  obtain e where e_def: "e = take_bit 8 (x XOR c) - take_bit 8 x" by blast
  have "x XOR c = x + e" using split [of x] split [of "x XOR c"] unfolding same e_def by linarith
  moreover have "\<bar>e\<bar> \<le> 255" using small [of x] small [of "x XOR c"] unfolding e_def by linarith
  ultimately show ?thesis by blast
qed

lemma fnv_moves: "\<exists>e. \<bar>e\<bar> \<le> 255 \<and> fnv h c = h * FNV_PRIME + of_int e"
proof -
  let ?x = "h * FNV_PRIME"
  have c: "0 \<le> uint c" "uint c < 256" using uint_bounded [of c] by simp_all
  then obtain e where e: "\<bar>e\<bar> \<le> 255" "uint ?x XOR uint c = uint ?x + e" using xor_byte_int by blast
  have "uint (ucast c :: u64) = uint c" using c by (simp add: unsigned_ucast_eq take_bit_int_eq_self)
  then have "uint (fnv h c) = uint ?x + e" unfolding fnv_def using e(2) by (simp add: unsigned_xor_eq)
  then have "fnv h c = ?x + of_int e" by (metis of_int_add word_of_int_uint of_int_uint)
  then show ?thesis using e(1) by blast
qed

lemma small_multiple:
  assumes "(m :: int) dvd x" "x < m \<and> - m < x"
  shows "x = 0"
proof (rule ccontr)
  assume "x \<noteq> 0"
  then have "\<bar>m\<bar> \<le> \<bar>x\<bar>" using assms(1) by (rule dvd_imp_le_int)
  then show False using assms(2) by linarith
qed

lemma small_combination:
  fixes d k e :: int
  assumes "\<bar>d\<bar> \<le> 510" "\<bar>k\<bar> \<le> 510" "\<bar>e\<bar> \<le> 510"
    and "of_int d * FNV_PRIME * FNV_PRIME + of_int k * FNV_PRIME + of_int e = 0"
  shows "d = 0 \<and> k = 0 \<and> e = 0"
proof -
  let ?D = "d * (870 * 2 ^ 40 + 189225) + k * (2 ^ 40 + 435) + e"
  have p: "FNV_PRIME * FNV_PRIME = of_int (870 * 2 ^ 40 + 189225)" "FNV_PRIME = of_int (2 ^ 40 + 435)"
    by (simp_all add: FNV_PRIME_def)
  have "(of_int ?D :: u64) = of_int d * (FNV_PRIME * FNV_PRIME) + of_int k * FNV_PRIME + of_int e"
    unfolding p(1) by (simp add: p(2))
  then have "(of_int ?D :: u64) = 0" using assms(4) by (simp add: mult.assoc)
  then have "2 ^ LENGTH(64) dvd ?D" by (rule iffD1 [OF word_of_int_eq_0_iff])
  then have "2 ^ 64 dvd ?D" by simp
  moreover have b: "d \<le> 510" "- 510 \<le> d" "k \<le> 510" "- 510 \<le> k" "e \<le> 510" "- 510 \<le> e" using assms(1-3) by linarith+
  have "?D < 2 ^ 64 \<and> - (2 ^ 64) < ?D" using b by simp
  ultimately have "?D = 0" using small_multiple by blast
  then have z: "1099511627776 * (870 * d + k) + (189225 * d + 435 * k + e) = 0" by (simp add: algebra_simps)
  have m: "870 * d + k = 0"
  proof (rule ccontr)
    assume "870 * d + k \<noteq> 0"
    moreover have "\<bar>189225 * d + 435 * k + e\<bar> < 1099511627776" using b by linarith
    moreover have "1099511627776 dvd 189225 * d + 435 * k + e"
      using z by (metis dvd_triv_left dvd_add_right_iff dvd_0_right)
    ultimately have "189225 * d + 435 * k + e = 0" using small_multiple by (smt (verit))
    then show False using z \<open>870 * d + k \<noteq> 0\<close> by simp
  qed
  have "d = 0"
  proof (rule ccontr)
    assume "d \<noteq> 0"
    then consider "1 \<le> d" | "d \<le> - 1" by linarith
    then show False by cases (use m b in linarith)+
  qed
  then show ?thesis using m z by simp
qed

lemma fnv_byte_inj: "fnv h c = fnv h c' \<Longrightarrow> c = c'"
proof -
  assume "fnv h c = fnv h c'"
  then have "(h * FNV_PRIME) XOR fnv h c = (h * FNV_PRIME) XOR fnv h c'" by simp
  then have "(ucast c :: u64) = ucast c'" by (simp add: fnv_def flip: xor.assoc)
  then have "uint (ucast c :: u64) = uint (ucast c' :: u64)" by simp
  moreover have "uint (ucast b :: u64) = uint b" for b :: u8
    using uint_bounded [of b] by (simp add: unsigned_ucast_eq take_bit_int_eq_self)
  ultimately show "c = c'" by (simp add: word_uint_eq_iff)
qed

lemma fnv_colours_inj:
  assumes eq: "fnv (fnv (fnv h r) g) b = fnv (fnv (fnv h r') g') b'"
  shows "r = r' \<and> g = g' \<and> b = b'"
proof -
  obtain e1 e1' where 1: "fnv h r = h * FNV_PRIME + of_int e1" "fnv h r' = h * FNV_PRIME + of_int e1'" "\<bar>e1\<bar> \<le> 255" "\<bar>e1'\<bar> \<le> 255"
    using fnv_moves by blast
  obtain e2 e2' where 2: "fnv (fnv h r) g = fnv h r * FNV_PRIME + of_int e2" "fnv (fnv h r') g' = fnv h r' * FNV_PRIME + of_int e2'"
      "\<bar>e2\<bar> \<le> 255" "\<bar>e2'\<bar> \<le> 255"
    using fnv_moves by blast
  obtain e3 e3' where 3: "fnv (fnv (fnv h r) g) b = fnv (fnv h r) g * FNV_PRIME + of_int e3"
      "fnv (fnv (fnv h r') g') b' = fnv (fnv h r') g' * FNV_PRIME + of_int e3'" "\<bar>e3\<bar> \<le> 255" "\<bar>e3'\<bar> \<le> 255"
    using fnv_moves by blast
  have expanded: "((h * FNV_PRIME + of_int e1) * FNV_PRIME + of_int e2) * FNV_PRIME + of_int e3
      = ((h * FNV_PRIME + of_int e1') * FNV_PRIME + of_int e2') * FNV_PRIME + of_int e3'"
    using eq unfolding 3(1,2) unfolding 2(1,2) unfolding 1(1,2) .
  have "of_int (e1 - e1') * FNV_PRIME * FNV_PRIME + of_int (e2 - e2') * FNV_PRIME + of_int (e3 - e3') = 0"
    using expanded by (simp add: algebra_simps)
  moreover have "\<bar>e1 - e1'\<bar> \<le> 510" "\<bar>e2 - e2'\<bar> \<le> 510" "\<bar>e3 - e3'\<bar> \<le> 510"
    using 1(3,4) 2(3,4) 3(3,4) by linarith+
  ultimately have "e1 = e1'" "e2 = e2'" "e3 = e3'" using small_combination by fastforce+
  then have same: "fnv h r = fnv h r'" "fnv (fnv h r) g = fnv (fnv h r') g'" using 1 2 by simp_all
  have r: "r = r'" using same(1) by (rule fnv_byte_inj)
  have g: "g = g'" using same(2) unfolding r by (rule fnv_byte_inj)
  have "b = b'" using eq unfolding r g by (rule fnv_byte_inj)
  then show ?thesis using r g by simp
qed

section \<open>Lemmas: fingerprints\<close>

text \<open>Lists over a grid, row by row.\<close>

lemma length_grid: "length (concat (map (\<lambda>row. map (f row) [0..<cols]) [0..<rows])) = rows * cols"
  by (induction rows) simp_all

lemma nth_grid:
  "row < rows \<Longrightarrow> col < cols \<Longrightarrow> concat (map (\<lambda>row. map (f row) [0..<cols]) [0..<rows]) ! (row * cols + col) = f row col"
proof (induction rows)
  case (Suc rows)
  show ?case
  proof (cases "row < rows")
    case True
    then have "row * cols + col < rows * cols"
      using Suc.prems(2) by (metis add.commute add_less_cancel_left less_le_trans mult_Suc mult_le_mono1 Suc_leI)
    then show ?thesis using Suc True length_grid [of f cols rows] by (simp add: nth_append)
  next
    case False
    then have "row = rows" using Suc.prems(1) by simp
    then show ?thesis using Suc.prems(2) length_grid [of f cols rows] by (simp add: nth_append)
  qed
qed simp

lemma grid_as_map:
  "concat (map (\<lambda>row. map (f row) [0..<cols]) [0..<rows])
     = map (\<lambda>(row, col). f row col) (concat (map (\<lambda>row. map (Pair row) [0..<cols]) [0..<rows]))"
  by (simp add: map_concat o_def)

lemma set_grid: "set (concat (map (\<lambda>row. map (Pair row) [0..<cols]) [0..<rows])) = {(row, col). row < rows \<and> col < cols}"
  by auto

lemma grid_eq_iff:
  "concat (map (\<lambda>row. map (f row) [0..<cols]) [0..<rows]) = concat (map (\<lambda>row. map (g row) [0..<cols]) [0..<rows])
     \<longleftrightarrow> (\<forall>row < rows. \<forall>col < cols. f row col = g row col)"
  unfolding grid_as_map [of f] grid_as_map [of g] map_eq_conv set_grid by auto

lemma div_ceil_less: "i < div_ceil_u32 n 32 \<longleftrightarrow> i * 32 < n"
  by (auto simp: div_ceil_u32_def)

text \<open>Frames with a geometry the detector hashes.\<close>

definition frame_valid :: "nat \<Rightarrow> nat \<Rightarrow> bytes \<Rightarrow> bool" where
  "frame_valid w h bgra \<longleftrightarrow> 0 < w \<and> 0 < h \<and> length bgra = w * h * 4"

lemma fingerprint_valid:
  assumes "frame_valid w h bgra"
  shows "fingerprint_build w h bgra = \<lparr>ff_width = w, ff_height = h, ff_hash = frame_signature bgra w h,
    ff_tile_cols = div_ceil_u32 w 32, ff_tile_rows = div_ceil_u32 h 32,
    ff_tile_hashes = concat (map (\<lambda>row. map (hash_at w h bgra row) [0..<div_ceil_u32 w 32]) [0..<div_ceil_u32 h 32])\<rparr>"
  using assms by (simp add: fingerprint_build_def frame_valid_def DIRTY_TILE_SIZE_def Let_def)

lemma fingerprint_eq_iff:
  assumes "frame_valid w h A" "frame_valid w h B"
  shows "fingerprint_build w h A = fingerprint_build w h B \<longleftrightarrow> frame_signature A w h = frame_signature B w h
    \<and> (\<forall>row col. row * 32 < h \<and> col * 32 < w \<longrightarrow> hash_at w h A row col = hash_at w h B row col)"
  unfolding fingerprint_valid [OF assms(1)] fingerprint_valid [OF assms(2)]
  by (auto simp: grid_eq_iff div_ceil_less)

text \<open>The detector after a frame has been decided on and sent.\<close>

lemma detector_after_send:
  "detector_mark_sent t w h A (fst (decide t0 w h A key d)) = (fst (decide t0 w h A key d))
     \<lparr>cd_width := w, cd_height := h, cd_pending_fingerprint := None, cd_last_hash := ff_hash (fingerprint_build w h A),
      cd_last_tile_cols := ff_tile_cols (fingerprint_build w h A), cd_last_tile_rows := ff_tile_rows (fingerprint_build w h A),
      cd_last_tile_hashes := ff_tile_hashes (fingerprint_build w h A), cd_last_sent_at := Some t,
      cd_consecutive_static_skips := 0\<rparr>"
proof -
  have "cd_pending_fingerprint (fst (decide t0 w h A key d)) = Some (fingerprint_build w h A)"
    by (simp add: decide_def Let_def)
  moreover have "ff_width (fingerprint_build w h A) = w \<and> ff_height (fingerprint_build w h A) = h"
    by (simp add: fingerprint_build_def Let_def)
  ultimately show ?thesis by (simp add: detector_mark_sent_def Let_def)
qed

lemma changed_after_send:
  assumes "ff_width fp = w" "ff_height fp = h" "fp = fingerprint_build w h B" "frame_valid w h A"
  shows "frame_changed (detector_mark_sent t w h A (fst (decide t0 w h A key d))) fp
    \<longleftrightarrow> frame_signature A w h = 0 \<or> fp \<noteq> fingerprint_build w h A"
proof -
  have A: "ff_width (fingerprint_build w h A) = w" "ff_height (fingerprint_build w h A) = h"
      "ff_hash (fingerprint_build w h A) = frame_signature A w h"
    by (simp_all add: fingerprint_valid [OF assms(4)])
  show ?thesis unfolding frame_changed_def detector_after_send
    using assms(1,2) A by (cases fp; cases "fingerprint_build w h A") auto
qed

text \<open>What makes the detector send: a keyframe that is due, two seconds without a frame, or another fingerprint.\<close>

lemma decide_send_iff:
  assumes "frame_valid w h A" "frame_valid w h B"
    and "d = detector_mark_sent t w h A (fst (decide t0 w h A key0 d0))"
  shows "fd_send (snd (decide now w h B key d)) \<longleftrightarrow> key \<or> STATIC_REFRESH \<le> now - t \<or> frame_signature A w h = 0
    \<or> fingerprint_build w h B \<noteq> fingerprint_build w h A"
proof -
  have dims: "ff_width (fingerprint_build w h B) = w" "ff_height (fingerprint_build w h B) = h"
    by (simp_all add: fingerprint_valid [OF assms(2)])
  have d: "cd_width d = w" "cd_height d = h" "cd_last_sent_at d = Some t" unfolding assms(3) detector_after_send by simp_all
  show ?thesis
    using changed_after_send [OF dims refl assms(1), of t t0 key0 d0, folded assms(3)]
    by (simp add: decide_def Let_def d idle_refresh_def) blast
qed

section \<open>Lemmas: one pixel\<close>

definition only_pixel :: "nat \<Rightarrow> bytes \<Rightarrow> bytes \<Rightarrow> bool" where
  "only_pixel p A B \<longleftrightarrow> length A = length B \<and> (\<forall>i < length A. i div 4 \<noteq> p \<longrightarrow> A ! i = B ! i)
     \<and> (A ! (p * 4), A ! (p * 4 + 1), A ! (p * 4 + 2)) \<noteq> (B ! (p * 4), B ! (p * 4 + 1), B ! (p * 4 + 2))"

lemma pixel_same:
  assumes "only_pixel p A B" "j \<noteq> p" "j * 4 + 2 < length A"
  shows "fnv_pixel A (j * 4) hash = fnv_pixel B (j * 4) hash"
proof -
  have "A ! (j * 4 + k) = B ! (j * 4 + k)" if "k < 3" for k
  proof -
    have "(j * 4 + k) div 4 = j" "j * 4 + k < length A" using that assms(3) by simp_all
    then show ?thesis using assms(1,2) unfolding only_pixel_def by metis
  qed
  from this [of 0] this [of 1] this [of 2] show ?thesis by (simp add: fnv_pixel_def)
qed

lemma pixel_differs: "only_pixel p A B \<Longrightarrow> fnv_pixel A (p * 4) hash \<noteq> fnv_pixel B (p * 4) hash"
  unfolding only_pixel_def fnv_pixel_def using fnv_colours_inj by (metis (no_types, lifting))

lemma signature_differs:
  assumes "frame_valid w h A" "only_pixel p A B" "p < w * h"
  shows "frame_signature A w h \<noteq> frame_signature B w h \<longleftrightarrow> sampled (w * h) (max (w * h div 512) 1) 0 p"
proof -
  let ?step = "max (w * h div 512) 1"
  have len: "length A = w * h * 4" "length B = w * h * 4" "0 < w" "0 < h"
    using assms by (simp_all add: frame_valid_def only_pixel_def)
  have sig: "frame_signature C w h = sample_loop (\<lambda>idx. fnv_pixel C (idx * 4)) (w * h) ?step 0 FNV_OFFSET"
    if "length C = w * h * 4" for C
    using that len by (simp add: frame_signature_def)
  have same: "fnv_pixel A (j * 4) hash = fnv_pixel B (j * 4) hash" if "j \<noteq> p" "j < w * h" for j hash
    by (rule pixel_same [OF assms(2)]) (use that len in auto)
  let ?B = "\<lambda>j. if j < w * h then fnv_pixel B (j * 4) else fnv_pixel A (j * 4)"
  have B: "sample_loop (\<lambda>idx. fnv_pixel B (idx * 4)) (w * h) ?step 0 FNV_OFFSET = sample_loop ?B (w * h) ?step 0 FNV_OFFSET"
    by (rule sample_loop_cong) (simp add: sampled_def)
  show ?thesis
  proof (cases "sampled (w * h) ?step 0 p")
    case True
    have "sample_loop (\<lambda>idx. fnv_pixel A (idx * 4)) (w * h) ?step 0 FNV_OFFSET \<noteq> sample_loop ?B (w * h) ?step 0 FNV_OFFSET"
      by (rule sample_loop_differs [OF fnv_pixel_inj _ _ _ True]) (use same pixel_differs [OF assms(2)] assms(3) in auto)
    then show ?thesis using True sig B len by simp
  next
    case False
    have "sample_loop (\<lambda>idx. fnv_pixel A (idx * 4)) (w * h) ?step 0 FNV_OFFSET = sample_loop ?B (w * h) ?step 0 FNV_OFFSET"
    proof (rule sample_loop_cong)
      fix j h' assume j: "sampled (w * h) ?step 0 j"
      then have "j \<noteq> p" "j < w * h" using False by (auto simp: sampled_def)
      then show "fnv_pixel A (j * 4) h' = ?B j h'" using same by simp
    qed
    then show ?thesis using False sig B len by simp
  qed
qed

text \<open>The pixel that position \<open>lc\<close> of a tile stands for.\<close>

definition pixel_of :: "nat \<Rightarrow> nat \<Rightarrow> nat \<Rightarrow> nat \<Rightarrow> nat \<Rightarrow> nat" where
  "pixel_of w x0 y0 tw lc = (y0 + lc div tw) * w + (x0 + lc mod tw)"

lemma pixel_of_row_col:
  assumes "0 < tw" "x0 + tw \<le> w"
  shows "pixel_of w x0 y0 tw lc div w = y0 + lc div tw" "pixel_of w x0 y0 tw lc mod w = x0 + lc mod tw"
proof -
  have b: "x0 + lc mod tw < w" using assms mod_less_divisor [of tw lc] by linarith
  then have "0 < w" by simp
  then show "pixel_of w x0 y0 tw lc div w = y0 + lc div tw" "pixel_of w x0 y0 tw lc mod w = x0 + lc mod tw"
    unfolding pixel_of_def using b by (simp_all add: div_mult_self3 mod_mult_self3)
qed

lemma pixel_of_inj:
  assumes "0 < tw" "x0 + tw \<le> w" "pixel_of w x0 y0 tw j = pixel_of w x0 y0 tw j'"
  shows "j = j'"
proof -
  have "y0 + j div tw = y0 + j' div tw" "x0 + j mod tw = x0 + j' mod tw"
    using pixel_of_row_col [OF assms(1,2), of y0 j] pixel_of_row_col [OF assms(1,2), of y0 j'] unfolding assms(3) by simp_all
  then show ?thesis by (metis add_left_cancel div_mult_mod_eq)
qed

lemma pixel_of_less:
  assumes "0 < tw" "x0 + tw \<le> w" "y0 + th \<le> h" "lc < tw * th"
  shows "pixel_of w x0 y0 tw lc < w * h"
proof -
  have "lc div tw < th" using assms(4) by (simp add: less_mult_imp_div_less mult.commute)
  then have y: "Suc (y0 + lc div tw) \<le> h" using assms(3) by simp
  have "x0 + lc mod tw < w" using assms(1,2) mod_less_divisor [of tw lc] by linarith
  then have "pixel_of w x0 y0 tw lc < Suc (y0 + lc div tw) * w" by (simp add: pixel_of_def)
  also have "\<dots> \<le> h * w" using y by (rule mult_le_mono1)
  finally show ?thesis by (simp add: mult.commute)
qed

lemma tile_hash_differs:
  assumes "frame_valid w h A" "only_pixel p A B" "0 < tw" "0 < th" "x0 + tw \<le> w" "y0 + th \<le> h"
  shows "tile_hash w A x0 y0 (x0 + tw) (y0 + th) \<noteq> tile_hash w B x0 y0 (x0 + tw) (y0 + th)
    \<longleftrightarrow> (\<exists>lc. sampled (tw * th) (max (tw * th div 16) 1) 0 lc \<and> pixel_of w x0 y0 tw lc = p)"
proof -
  let ?step = "max (tw * th div 16) 1"
  let ?px = "pixel_of w x0 y0 tw"
  let ?g = "\<lambda>C j. if j < tw * th then fnv_pixel C (?px j * 4) else (\<lambda>h. h)"
  have len: "length A = w * h * 4" "length B = w * h * 4" using assms(1,2) by (simp_all add: frame_valid_def only_pixel_def)
  have less: "?px j < w * h" if "j < tw * th" for j by (rule pixel_of_less [OF assms(3,5,6) that])
  have hash: "tile_hash w C x0 y0 (x0 + tw) (y0 + th) = sample_loop (?g C) (tw * th) ?step 0 FNV_OFFSET"
    if "length C = w * h * 4" for C
  proof -
    have "tile_hash w C x0 y0 (x0 + tw) (y0 + th) = sample_loop (\<lambda>lc hash. if ?px lc * 4 + 2 < length C
        then fnv_pixel C (?px lc * 4) hash else hash) (tw * th) ?step 0 FNV_OFFSET"
    proof -
      have "max (x0 + tw - x0) 1 = tw" "max (y0 + th - y0) 1 = th" "sample_base w x0 y0 tw lc = ?px lc * 4" for lc
        using assms(3,4) by (simp_all add: sample_base_def pixel_of_def)
      then show ?thesis unfolding tile_hash_def Let_def TILE_HASH_TARGET_SAMPLES_def by (simp only:)
    qed
    also have "\<dots> = sample_loop (?g C) (tw * th) ?step 0 FNV_OFFSET"
    proof (rule sample_loop_cong)
      fix j hash assume "sampled (tw * th) ?step 0 j"
      then have j: "j < tw * th" by (simp add: sampled_def)
      then have "?px j * 4 + 2 < length C" using less [OF j] that by simp
      then show "(if ?px j * 4 + 2 < length C then fnv_pixel C (?px j * 4) hash else hash) = ?g C j hash" using j by simp
    qed
    finally show ?thesis .
  qed
  have same: "?g A j hash = ?g B j hash" if "?px j \<noteq> p" for j hash
  proof (cases "j < tw * th")
    case True
    have "?px j * 4 + 2 < length A" using less [OF True] len by linarith
    then show ?thesis using pixel_same [OF assms(2) that] by simp
  qed simp
  have inj: "inj (?g A j)" for j by (cases "j < tw * th") (simp_all add: fnv_pixel_inj)
  show ?thesis
  proof (cases "\<exists>lc. sampled (tw * th) ?step 0 lc \<and> ?px lc = p")
    case True
    then obtain lc where lc: "sampled (tw * th) ?step 0 lc" "?px lc = p" by blast
    have "?px j \<noteq> p" if "j \<noteq> lc" for j using pixel_of_inj [OF assms(3,5)] lc(2) that by blast
    moreover have "?g A lc hash \<noteq> ?g B lc hash" for hash
      using lc pixel_differs [OF assms(2)] by (simp add: sampled_def)
    ultimately have "sample_loop (?g A) (tw * th) ?step 0 FNV_OFFSET \<noteq> sample_loop (?g B) (tw * th) ?step 0 FNV_OFFSET"
      by (intro sample_loop_differs [OF inj _ _ _ lc(1)] same) simp_all
    then show ?thesis using True hash len by simp
  next
    case False
    have "sample_loop (?g A) (tw * th) ?step 0 FNV_OFFSET = sample_loop (?g B) (tw * th) ?step 0 FNV_OFFSET"
      by (rule sample_loop_cong) (use False same in blast)
    then show ?thesis using False hash len by simp
  qed
qed

text \<open>The tile of a pixel, its size, and the position of the pixel in it.\<close>

definition tile_width :: "nat \<Rightarrow> nat \<Rightarrow> nat" where "tile_width n i = min ((i + 1) * 32) n - i * 32"

definition tile_sampled :: "nat \<Rightarrow> nat \<Rightarrow> nat \<Rightarrow> bool" where
  "tile_sampled w h p =
     (let row = p div w div 32; col = p mod w div 32; tw = tile_width w col; th = tile_width h row
      in sampled (tw * th) (max (tw * th div 16) 1) 0 ((p div w - row * 32) * tw + (p mod w - col * 32)))"

lemma tile_width_bounds: "i * 32 < n \<Longrightarrow> 0 < tile_width n i \<and> i * 32 + tile_width n i \<le> n \<and> tile_width n i \<le> 32
    \<and> i * 32 + tile_width n i = min ((i + 1) * 32) n"
  by (simp add: tile_width_def min_def) arith

lemma hash_at_differs:
  assumes "frame_valid w h A" "only_pixel p A B" "p < w * h" "row * 32 < h" "col * 32 < w"
  shows "hash_at w h A row col \<noteq> hash_at w h B row col
    \<longleftrightarrow> row = p div w div 32 \<and> col = p mod w div 32 \<and> tile_sampled w h p"
proof -
  let ?tw = "tile_width w col" and ?th = "tile_width h row"
  note bw = tile_width_bounds [OF assms(5)] and bh = tile_width_bounds [OF assms(4)]
  have px: "pixel_of w (col * 32) (row * 32) ?tw lc div w = row * 32 + lc div ?tw"
      "pixel_of w (col * 32) (row * 32) ?tw lc mod w = col * 32 + lc mod ?tw" for lc
    using pixel_of_row_col bw by simp_all
  have "hash_at w h A row col \<noteq> hash_at w h B row col
      \<longleftrightarrow> (\<exists>lc. sampled (?tw * ?th) (max (?tw * ?th div 16) 1) 0 lc \<and> pixel_of w (col * 32) (row * 32) ?tw lc = p)"
    using tile_hash_differs [OF assms(1,2), of ?tw ?th "col * 32" "row * 32"] bw bh
    by (simp add: hash_at_def DIRTY_TILE_SIZE_def)
  also have "\<dots> \<longleftrightarrow> row = p div w div 32 \<and> col = p mod w div 32 \<and> tile_sampled w h p"
  proof
    assume "\<exists>lc. sampled (?tw * ?th) (max (?tw * ?th div 16) 1) 0 lc \<and> pixel_of w (col * 32) (row * 32) ?tw lc = p"
    then obtain lc where lc: "sampled (?tw * ?th) (max (?tw * ?th div 16) 1) 0 lc" "pixel_of w (col * 32) (row * 32) ?tw lc = p"
      by blast
    have p: "p div w = row * 32 + lc div ?tw" "p mod w = col * 32 + lc mod ?tw" using px [of lc] lc(2) by simp_all
    have "lc div ?tw < ?th" using lc(1) by (simp add: sampled_def less_mult_imp_div_less mult.commute)
    then have row: "p div w div 32 = row" using p(1) bh by simp
    have "lc mod ?tw < ?tw" using bw by simp
    then have "lc mod ?tw < 32" using bw by linarith
    then have col: "p mod w div 32 = col" using p(2) by simp
    have "(p div w - row * 32) * ?tw + (p mod w - col * 32) = lc"
      by (simp only: p add_diff_cancel_left' div_mult_mod_eq)
    then show "row = p div w div 32 \<and> col = p mod w div 32 \<and> tile_sampled w h p"
      using lc(1) row col by (simp add: tile_sampled_def Let_def)
  next
    assume r: "row = p div w div 32 \<and> col = p mod w div 32 \<and> tile_sampled w h p"
    let ?lc = "(p div w - row * 32) * ?tw + (p mod w - col * 32)"
    have "p mod w < w" using assms(1) by (simp add: frame_valid_def)
    moreover have "p mod w < (col + 1) * 32" "col * 32 \<le> p mod w" using r by simp_all
    ultimately have "p mod w < col * 32 + ?tw" "col * 32 \<le> p mod w" using bw by simp_all
    then have "p mod w - col * 32 < ?tw" by linarith
    then have "?lc div ?tw = p div w - row * 32" "?lc mod ?tw = p mod w - col * 32" by simp_all
    then have "pixel_of w (col * 32) (row * 32) ?tw ?lc = p div w * w + p mod w" using r by (simp add: pixel_of_def)
    then show "\<exists>lc. sampled (?tw * ?th) (max (?tw * ?th div 16) 1) 0 lc \<and> pixel_of w (col * 32) (row * 32) ?tw lc = p"
      using r by (intro exI [of _ ?lc]) (simp add: tile_sampled_def Let_def)
  qed
  finally show ?thesis .
qed

lemma fingerprint_differs:
  assumes "frame_valid w h A" "only_pixel p A B" "p < w * h"
  shows "fingerprint_build w h B \<noteq> fingerprint_build w h A
    \<longleftrightarrow> sampled (w * h) (max (w * h div 512) 1) 0 p \<or> tile_sampled w h p"
proof -
  have B: "frame_valid w h B" using assms(1,2) by (simp add: frame_valid_def only_pixel_def)
  have "p div w < h" using assms(3) by (simp add: less_mult_imp_div_less mult.commute)
  then have in_grid: "p div w div 32 * 32 < h" by (meson div_times_less_eq_dividend le_less_trans)
  have "p mod w < w" using assms(1) by (simp add: frame_valid_def)
  then have "p mod w div 32 * 32 < w" by (meson div_times_less_eq_dividend le_less_trans)
  then show ?thesis
    using fingerprint_eq_iff [OF assms(1) B] signature_differs [OF assms] hash_at_differs [OF assms] in_grid by metis
qed

section \<open>Lemmas: the region of interest\<close>

text \<open>A box bounds a set of tiles tightly.\<close>

definition bounds_tiles :: "nat \<Rightarrow> nat \<Rightarrow> (nat \<times> nat) set \<Rightarrow> DirtyBox \<Rightarrow> bool" where
  "bounds_tiles rows cols S b \<longleftrightarrow> (db_any b \<longleftrightarrow> S \<noteq> {})
     \<and> (S = {} \<longrightarrow> db_min_col b = cols \<and> db_min_row b = rows \<and> db_max_col b = 0 \<and> db_max_row b = 0)
     \<and> (\<forall>(r, c) \<in> S. db_min_row b \<le> r \<and> r \<le> db_max_row b \<and> db_min_col b \<le> c \<and> c \<le> db_max_col b)
     \<and> (S \<noteq> {} \<longrightarrow> (\<exists>c. (db_min_row b, c) \<in> S) \<and> (\<exists>c. (db_max_row b, c) \<in> S)
          \<and> (\<exists>r. (r, db_min_col b) \<in> S) \<and> (\<exists>r. (r, db_max_col b) \<in> S))"

definition tile_differs :: "FrameChangeDetector \<Rightarrow> FrameFingerprint \<Rightarrow> nat \<times> nat \<Rightarrow> bool" where
  "tile_differs d current rc \<longleftrightarrow> (case rc of (row, col) \<Rightarrow>
     ff_tile_hashes current ! (row * ff_tile_cols current + col) \<noteq> cd_last_tile_hashes d ! (row * ff_tile_cols current + col))"

lemma note_tile_bounds:
  assumes "bounds_tiles rows cols S b" "fst rc < rows" "snd rc < cols"
  shows "bounds_tiles rows cols (S \<union> {x. x = rc \<and> tile_differs d current x}) (note_tile d current rc b)"
proof -
  obtain r c where rc: "rc = (r, c)" by fastforce
  show ?thesis
  proof (cases "tile_differs d current rc")
    case False
    then have "S \<union> {x. x = rc \<and> tile_differs d current x} = S" "note_tile d current rc b = b"
      using rc by (auto simp: note_tile_def tile_differs_def Let_def)
    then show ?thesis using assms(1) by simp
  next
    case True
    then have S: "S \<union> {x. x = rc \<and> tile_differs d current x} = insert (r, c) S" using rc by auto
    have n: "note_tile d current rc b = \<lparr>db_min_col = min (db_min_col b) c, db_min_row = min (db_min_row b) r,
        db_max_col = max (db_max_col b) c, db_max_row = max (db_max_row b) r, db_any = True\<rparr>"
      using True rc by (simp add: note_tile_def tile_differs_def Let_def)
    show ?thesis
    proof (cases "S = {}")
      case True
      then show ?thesis unfolding S n using assms rc by (auto simp: bounds_tiles_def)
    next
      case False
      then have ex: "\<exists>c. (db_min_row b, c) \<in> S" "\<exists>c. (db_max_row b, c) \<in> S"
          "\<exists>r. (r, db_min_col b) \<in> S" "\<exists>r. (r, db_max_col b) \<in> S"
          and le: "\<forall>(r, c) \<in> S. db_min_row b \<le> r \<and> r \<le> db_max_row b \<and> db_min_col b \<le> c \<and> c \<le> db_max_col b"
        using assms(1) unfolding bounds_tiles_def by blast+
      have "\<exists>c'. (min (db_min_row b) r, c') \<in> insert (r, c) S" "\<exists>c'. (max (db_max_row b) r, c') \<in> insert (r, c) S"
          "\<exists>r'. (r', min (db_min_col b) c) \<in> insert (r, c) S" "\<exists>r'. (r', max (db_max_col b) c) \<in> insert (r, c) S"
        using ex unfolding min_def max_def by auto
      moreover have "\<forall>(r', c') \<in> insert (r, c) S. min (db_min_row b) r \<le> r' \<and> r' \<le> max (db_max_row b) r
          \<and> min (db_min_col b) c \<le> c' \<and> c' \<le> max (db_max_col b) c"
        using le by (auto simp: min_le_iff_disj le_max_iff_disj)
      ultimately show ?thesis unfolding S n bounds_tiles_def by simp
    qed
  qed
qed

lemma dirty_box_bounds:
  "bounds_tiles (ff_tile_rows current) (ff_tile_cols current)
     {rc \<in> set (grid_positions current). tile_differs d current rc} (dirty_box d current)"
proof -
  let ?rows = "ff_tile_rows current" and ?cols = "ff_tile_cols current"
  have "bounds_tiles ?rows ?cols (S \<union> {rc \<in> set ps. tile_differs d current rc}) (fold (note_tile d current) ps b)"
    if "bounds_tiles ?rows ?cols S b" "\<forall>rc \<in> set ps. fst rc < ?rows \<and> snd rc < ?cols" for ps S b
    using that
  proof (induction ps arbitrary: S b)
    case (Cons rc ps)
    have "S \<union> {x \<in> set (rc # ps). tile_differs d current x}
        = S \<union> {x. x = rc \<and> tile_differs d current x} \<union> {x \<in> set ps. tile_differs d current x}" by auto
    then show ?case using Cons.IH [OF note_tile_bounds [OF Cons.prems(1)]] Cons.prems(2) by simp
  qed simp
  note run = this
  have "bounds_tiles ?rows ?cols {} \<lparr>db_min_col = ?cols, db_min_row = ?rows, db_max_col = 0, db_max_row = 0, db_any = False\<rparr>"
    by (simp add: bounds_tiles_def)
  moreover have "\<forall>rc \<in> set (grid_positions current). fst rc < ?rows \<and> snd rc < ?cols"
    by (auto simp: grid_positions_def)
  ultimately show ?thesis unfolding dirty_box_def using run [of "{}"] by simp
qed

text \<open>A tile of a frame whose hash differs in another frame.\<close>

definition tile_changed :: "nat \<Rightarrow> nat \<Rightarrow> bytes \<Rightarrow> bytes \<Rightarrow> nat \<Rightarrow> nat \<Rightarrow> bool" where
  "tile_changed w h A B row col \<longleftrightarrow> row * 32 < h \<and> col * 32 < w \<and> hash_at w h A row col \<noteq> hash_at w h B row col"

lemma dirty_box_changed:
  assumes "frame_valid w h A" "frame_valid w h B" "d = detector_mark_sent t w h A (fst (decide t0 w h A key d0))"
  shows "bounds_tiles (div_ceil_u32 h 32) (div_ceil_u32 w 32) {(row, col). tile_changed w h A B row col}
    (dirty_box d (fingerprint_build w h B))"
proof -
  have fp: "cd_last_tile_hashes d = concat (map (\<lambda>row. map (hash_at w h A row) [0..<div_ceil_u32 w 32]) [0..<div_ceil_u32 h 32])"
    unfolding assms(3) detector_after_send by (simp add: fingerprint_valid [OF assms(1)])
  have "{rc \<in> set (grid_positions (fingerprint_build w h B)). tile_differs d (fingerprint_build w h B) rc}
      = {(row, col). tile_changed w h A B row col}"
    unfolding grid_positions_def set_grid
    by (auto simp: tile_differs_def fp fingerprint_valid [OF assms(2)] nth_grid tile_changed_def div_ceil_less)
  then show ?thesis using dirty_box_bounds [of "fingerprint_build w h B" d] by (simp add: fingerprint_valid [OF assms(2)])
qed

lemma dirty_roi_after_send:
  assumes "frame_valid w h A" "frame_valid w h B" "d = detector_mark_sent t w h A (fst (decide t0 w h A key d0))"
    and "tile_changed w h A B row0 col0"
  shows "\<exists>b. bounds_tiles (div_ceil_u32 h 32) (div_ceil_u32 w 32) {(row, col). tile_changed w h A B row col} b
    \<and> dirty_roi d (fingerprint_build w h B) = Some \<lparr>roi_frame_id = 0, roi_x = of_nat (db_min_col b * 32),
        roi_y = of_nat (db_min_row b * 32), roi_w = of_nat (min ((db_max_col b + 1) * 32) w - db_min_col b * 32),
        roi_h = of_nat (min ((db_max_row b + 1) * 32) h - db_min_row b * 32)\<rparr>"
proof (intro exI conjI)
  show b: "bounds_tiles (div_ceil_u32 h 32) (div_ceil_u32 w 32) {(row, col). tile_changed w h A B row col}
    (dirty_box d (fingerprint_build w h B))" by (rule dirty_box_changed [OF assms(1-3)])
  have "db_any (dirty_box d (fingerprint_build w h B))" using b assms(4) by (auto simp: bounds_tiles_def)
  moreover have "cd_width d = w" "cd_height d = h" "cd_last_tile_cols d = div_ceil_u32 w 32" "cd_last_tile_rows d = div_ceil_u32 h 32"
      "length (cd_last_tile_hashes d) = length (ff_tile_hashes (fingerprint_build w h B))"
    unfolding assms(3) detector_after_send by (simp_all add: fingerprint_valid [OF assms(1)] fingerprint_valid [OF assms(2)] length_grid)
  ultimately show "dirty_roi d (fingerprint_build w h B) = Some \<lparr>roi_frame_id = 0,
      roi_x = of_nat (db_min_col (dirty_box d (fingerprint_build w h B)) * 32),
      roi_y = of_nat (db_min_row (dirty_box d (fingerprint_build w h B)) * 32),
      roi_w = of_nat (min ((db_max_col (dirty_box d (fingerprint_build w h B)) + 1) * 32) w
        - db_min_col (dirty_box d (fingerprint_build w h B)) * 32),
      roi_h = of_nat (min ((db_max_row (dirty_box d (fingerprint_build w h B)) + 1) * 32) h
        - db_min_row (dirty_box d (fingerprint_build w h B)) * 32)\<rparr>"
    by (simp add: dirty_roi_def fingerprint_valid [OF assms(2)] DIRTY_TILE_SIZE_def Let_def)
qed

lemma decide_changed:
  assumes "frame_valid w h A" "frame_valid w h B" "d = detector_mark_sent t w h A (fst (decide t0 w h A key0 d0))"
    and "now - t < STATIC_REFRESH" "frame_signature A w h \<noteq> 0" "tile_changed w h A B row0 col0"
    and "dirty_roi d (fingerprint_build w h B) \<noteq> None"
  shows "fd_send (snd (decide now w h B False d)) \<and> \<not> fd_force_key (snd (decide now w h B False d))
    \<and> fd_roi (snd (decide now w h B False d)) = the (dirty_roi d (fingerprint_build w h B))"
proof -
  have dims: "ff_width (fingerprint_build w h B) = w" "ff_height (fingerprint_build w h B) = h"
    by (simp_all add: fingerprint_valid [OF assms(2)])
  have d: "cd_width d = w" "cd_height d = h" "cd_last_sent_at d = Some t" "cd_last_hash d = frame_signature A w h"
    unfolding assms(3) detector_after_send by (simp_all add: fingerprint_valid [OF assms(1)])
  have "fingerprint_build w h B \<noteq> fingerprint_build w h A"
    using fingerprint_eq_iff [OF assms(1,2)] assms(6) unfolding tile_changed_def by metis
  then have "frame_changed d (fingerprint_build w h B)"
    using changed_after_send [OF dims refl assms(1), of t t0 key0 d0, folded assms(3)] by blast
  then show ?thesis using assms(4,5,7) by (auto simp: decide_def Let_def d idle_refresh_def)
qed

lemma roi_unat:
  assumes "r = \<lparr>roi_frame_id = 0, roi_x = of_nat a, roi_y = of_nat b, roi_w = of_nat c, roi_h = of_nat e\<rparr>"
    and "a < 4294967296" "b < 4294967296" "c < 4294967296" "e < 4294967296"
  shows "unat (roi_x r) = a \<and> unat (roi_y r) = b \<and> unat (roi_w r) = c \<and> unat (roi_h r) = e"
  using assms unat_of_nat_u32 by simp

text \<open>A black frame has an odd hash.\<close>

lemma sample_loop_invariant:
  "(\<And>j h. sampled n s i j \<Longrightarrow> P h \<Longrightarrow> P (f j h)) \<Longrightarrow> P h \<Longrightarrow> P (sample_loop f n s i h)"
proof (induction f n s i h rule: sample_loop.induct)
  case (1 f n s i h)
  show ?case
  proof (cases "i < n \<and> 0 < s")
    case True
    then have "P (f i h)" using "1.prems" by (simp add: sampled_def)
    then show ?thesis using "1.IH" [OF True] "1.prems"(1) sampled_step True by (simp add: sample_loop.simps [of f n s i])
  next
    case False
    then show ?thesis using "1.prems"(2) by (auto simp: sample_loop.simps [of f n s i])
  qed
qed

lemma black_signature:
  assumes "0 < w" "0 < h"
  shows "frame_signature (replicate (w * h * 4) 0) w h \<noteq> 0"
proof -
  have "odd (sample_loop (\<lambda>idx. fnv_pixel (replicate (w * h * 4) 0) (idx * 4)) (w * h) (max (w * h div 512) 1) 0 FNV_OFFSET)"
  proof (rule sample_loop_invariant)
    fix j and hash :: u64 assume "sampled (w * h) (max (w * h div 512) 1) 0 j" "odd hash"
    then have "j < w * h" "odd (hash * FNV_PRIME * FNV_PRIME * FNV_PRIME)" by (simp_all add: sampled_def FNV_PRIME_def)
    then show "odd (fnv_pixel (replicate (w * h * 4) 0) (j * 4) hash)" by (simp add: fnv_pixel_def fnv_def)
  qed (simp add: FNV_OFFSET_def)
  then show ?thesis using assms by (auto simp: frame_signature_def)
qed

section \<open>Properties\<close>

text \<open>C26: What the change detector sees of a single pixel. When the colour of one pixel is all that differs from the last frame
  sent, the new frame is sent at once if the frame hash or the hash of the pixel's tile looks at that pixel: the colours
  of a pixel cannot cancel out in the hash. If neither does, it is skipped until a keyframe is due or two seconds have
  passed, unless the hash of the last frame happens to be zero.\<close>

theorem single_pixel_change:
  assumes "frame_valid w h A" "only_pixel p A B" "p < w * h"
    and "d = detector_mark_sent t w h A (fst (decide t0 w h A key0 d0))"
  shows "fd_send (snd (decide now w h B key d)) \<longleftrightarrow>
    sampled (w * h) (max (w * h div 512) 1) 0 p \<or> tile_sampled w h p
    \<or> key \<or> STATIC_REFRESH \<le> now - t \<or> frame_signature A w h = 0"
proof -
  have "frame_valid w h B" using assms(1,2) by (simp add: frame_valid_def only_pixel_def)
  from decide_send_iff [OF assms(1) this assms(4)] fingerprint_differs [OF assms(1-3)] show ?thesis by blast
qed

theorem single_pixel_change_witness:
  "let A = replicate (32 * 32 * 4) (0 :: u8); d = detector_mark_sent 10 32 32 A (fst (decide 10 32 32 A True detector_default))
   in \<not> fd_send (snd (decide 50 32 32 (A[5 := 200]) False d)) \<and> fd_send (snd (decide 50 32 32 (A[9 := 200]) False d))"
proof -
  let ?A = "replicate (32 * 32 * 4) (0 :: u8)"
  have v: "frame_valid 32 32 ?A" by (simp add: frame_valid_def)
  have p: "only_pixel 1 ?A (?A[5 := 200])" "only_pixel 2 ?A (?A[9 := 200])"
    by (auto simp: only_pixel_def nth_list_update)
  have s: "\<not> sampled (32 * 32) (max (32 * 32 div 512) 1) 0 1" "\<not> tile_sampled 32 32 1"
      "sampled (32 * 32) (max (32 * 32 div 512) 1) 0 2"
    by (simp_all add: sampled_def tile_sampled_def tile_width_def numeral_2_eq_2)
  have "frame_signature ?A 32 32 \<noteq> 0" by (rule black_signature) simp_all
  then show ?thesis
    using single_pixel_change [OF v p(1) _ refl, of 50 False 10 10 True detector_default]
      single_pixel_change [OF v p(2) _ refl, of 50 False 10 10 True detector_default] s
    by (simp add: STATIC_REFRESH_def Let_def)
qed

text \<open>C27: The region of interest. When a frame is sent because its tiles differ from those of the last frame sent, no keyframe
  is forced and the region handed to the bitrate control is the bounding box of the tiles whose hash changed: it covers
  all of them, lies in the frame, and each of its edges is the edge of such a tile.\<close>

theorem detector_roi_exact:
  assumes "frame_valid w h A" "frame_valid w h B" "w < 2 ^ 32" "h < 2 ^ 32"
    and "d = detector_mark_sent t w h A (fst (decide t0 w h A key0 d0))"
    and "now - t < STATIC_REFRESH" "frame_signature A w h \<noteq> 0" "tile_changed w h A B row0 col0"
    and "dec = snd (decide now w h B False d)" "x = unat (roi_x (fd_roi dec))" "y = unat (roi_y (fd_roi dec))"
    and "right = x + unat (roi_w (fd_roi dec))" "bottom = y + unat (roi_h (fd_roi dec))"
  shows "fd_send dec \<and> \<not> fd_force_key dec \<and> right \<le> w \<and> bottom \<le> h
    \<and> (\<forall>row col. tile_changed w h A B row col \<longrightarrow> x \<le> col * 32 \<and> col * 32 + tile_width w col \<le> right
         \<and> y \<le> row * 32 \<and> row * 32 + tile_width h row \<le> bottom)
    \<and> (\<exists>row col. tile_changed w h A B row col \<and> col * 32 = x)
    \<and> (\<exists>row col. tile_changed w h A B row col \<and> col * 32 + tile_width w col = right)
    \<and> (\<exists>row col. tile_changed w h A B row col \<and> row * 32 = y)
    \<and> (\<exists>row col. tile_changed w h A B row col \<and> row * 32 + tile_width h row = bottom)"
proof -
  obtain b where b: "bounds_tiles (div_ceil_u32 h 32) (div_ceil_u32 w 32) {(row, col). tile_changed w h A B row col} b"
    and roi: "dirty_roi d (fingerprint_build w h B) = Some \<lparr>roi_frame_id = 0, roi_x = of_nat (db_min_col b * 32),
        roi_y = of_nat (db_min_row b * 32), roi_w = of_nat (min ((db_max_col b + 1) * 32) w - db_min_col b * 32),
        roi_h = of_nat (min ((db_max_row b + 1) * 32) h - db_min_row b * 32)\<rparr>"
    using dirty_roi_after_send [OF assms(1,2,5,8)] by blast
  have dec: "fd_send dec \<and> \<not> fd_force_key dec \<and> fd_roi dec = the (dirty_roi d (fingerprint_build w h B))"
    unfolding assms(9) by (rule decide_changed [OF assms(1,2,5-8)]) (simp only: roi option.distinct(2) not_False_eq_True)
  note dec_roi = dec [unfolded roi option.sel, THEN conjunct2, THEN conjunct2]
  have box: "\<forall>row col. tile_changed w h A B row col \<longrightarrow> db_min_row b \<le> row \<and> row \<le> db_max_row b \<and> db_min_col b \<le> col \<and> col \<le> db_max_col b"
    and touch: "\<exists>c. tile_changed w h A B (db_min_row b) c" "\<exists>c. tile_changed w h A B (db_max_row b) c"
      "\<exists>r. tile_changed w h A B r (db_min_col b)" "\<exists>r. tile_changed w h A B r (db_max_col b)"
    using b assms(8) unfolding bounds_tiles_def by auto
  have "db_min_col b \<le> db_max_col b" "db_min_row b \<le> db_max_row b" using box assms(8) le_trans by blast+
  moreover have "db_min_col b * 32 < w" "db_min_row b * 32 < h" using touch by (auto simp: tile_changed_def)
  ultimately have xy: "x = db_min_col b * 32" "y = db_min_row b * 32"
      "right = min ((db_max_col b + 1) * 32) w" "bottom = min ((db_max_row b + 1) * 32) h"
    using roi_unat [of "fd_roi dec" _ _ "min ((db_max_col b + 1) * 32) w - db_min_col b * 32"
          "min ((db_max_row b + 1) * 32) h - db_min_row b * 32", OF dec_roi] assms(3,4,10-13) by simp_all
  have edge: "col * 32 + tile_width w col = min ((col + 1) * 32) w" "row * 32 + tile_width h row = min ((row + 1) * 32) h"
    if "tile_changed w h A B row col" for row col
    using that tile_width_bounds [of col w] tile_width_bounds [of row h] by (simp_all add: tile_changed_def)
  have cover: "x \<le> col * 32 \<and> col * 32 + tile_width w col \<le> right \<and> y \<le> row * 32 \<and> row * 32 + tile_width h row \<le> bottom"
    if "tile_changed w h A B row col" for row col
    using box that edge [OF that] unfolding xy by (simp add: min_le_iff_disj)
  obtain r c r' c' where rc: "tile_changed w h A B r (db_min_col b)" "tile_changed w h A B r' (db_max_col b)"
      "tile_changed w h A B (db_min_row b) c" "tile_changed w h A B (db_max_row b) c'" using touch by blast
  have "db_max_col b * 32 + tile_width w (db_max_col b) = right" "db_max_row b * 32 + tile_width h (db_max_row b) = bottom"
    using edge(1) [OF rc(2)] edge(2) [OF rc(4)] xy(3,4) by simp_all
  moreover have "right \<le> w \<and> bottom \<le> h" using xy(3,4) by simp
  ultimately show ?thesis using dec cover rc xy(1,2) by blast
qed

theorem detector_roi_exact_witness:
  "let A = replicate (64 * 32 * 4) (0 :: u8); d = detector_mark_sent 10 64 32 A (fst (decide 10 64 32 A True detector_default));
       roi = fd_roi (snd (decide 50 64 32 (A[128 := 200]) False d))
   in unat (roi_x roi) = 32 \<and> unat (roi_y roi) = 0 \<and> unat (roi_w roi) = 32 \<and> unat (roi_h roi) = 32"
proof -
  let ?A = "replicate (64 * 32 * 4) (0 :: u8)"
  let ?B = "?A[128 := 200]"
  have v: "frame_valid 64 32 ?A" "frame_valid 64 32 ?B" by (simp_all add: frame_valid_def)
  have p: "only_pixel 32 ?A ?B" by (auto simp: only_pixel_def nth_list_update)
  have changed: "tile_changed 64 32 ?A ?B row col \<longleftrightarrow> row = 0 \<and> col = 1" for row col
    using hash_at_differs [OF v(1) p, of row col]
    by (auto simp: tile_changed_def tile_sampled_def tile_width_def sampled_def)
  have sig: "frame_signature ?A 64 32 \<noteq> 0" by (rule black_signature) simp_all
  have w: "tile_width 64 (Suc 0) = 32" "tile_width 32 0 = 32" by (simp_all add: tile_width_def)
  from detector_roi_exact [OF v _ _ refl _ sig _ refl refl refl refl refl, of 50 10 0 1 10 True detector_default]
  show ?thesis unfolding changed by (simp add: w STATIC_REFRESH_def Let_def)
qed

end
