(* ===== verification/Spec2Isabelle.thy ===== *)
theory Spec2Isabelle
  imports Evrt2_Session Frame_Queue Channel_Delivery Adaptive Evrtck_Capture Relay_Login Viewer_Host Host_Pipeline Change_Detector
begin

text \<open>
  EvertyDesk is a remote desktop program in Rust. Its own logic is the transport of screen frames from a host to a
  viewer, under \<^verbatim>\<open>src/src\<close>; the rest of the repository is a vendored copy of RustDesk
  (\<^verbatim>\<open>src/rustdesk-master\<close>), bindings to codecs and operating systems, and user interfaces. This
  development models the transport and proves what makes it correct.

  \<^bold>\<open>The program.\<close> A host captures the screen and encodes it, either with the lossless screen codec EVRTCK or with a
  hardware video codec. Frames reach the viewer on one of three ways: over UDP with the protocol EVRT2 (packets with XOR repair
  packets beside them, authenticated and encrypted), over UDP with its predecessor EVRT1, or over a TCP relay with the messages of RustDesk. The relay connection comes first: framing, an optional secure handshake, the
  login. Then the viewer asks for a stream and keeps adjusting it; the host starts capture services for the displays the
  viewer asks for. On the viewer a queue smooths what comes over UDP, and a decoder thread trims and decodes what comes
  over the relay.

  \<^bold>\<open>Theories.\<close> Each names its source files in its first text. In the order of their imports:

  \<^item> \<open>Prelude\<close>: bytes, big- and little-endian numbers, slices, chunks, padded XOR, XOR sums, association lists as
    hash maps, option and list lemmas, runs of a step relation (\<open>steps\<close>) and the locale \<open>simulation\<close> that carries
    refinement from steps to runs.
  \<^item> EVRT2 (\<^verbatim>\<open>evrt2_packet.rs\<close>, \<^verbatim>\<open>evrt2_fec.rs\<close>, \<^verbatim>\<open>evrt2_scheduler.rs\<close>,
    \<^verbatim>\<open>evrt2_modes.rs\<close>, \<^verbatim>\<open>evrt2_crypto.rs\<close>, \<^verbatim>\<open>evrt2_session.rs\<close>):
    \<open>Evrt2_Packet\<close> is the header, \<open>Evrt2_Fec\<close> the repair packets, \<open>Evrt2_Scheduler\<close> the order and the visible region in
    which slices are sent, \<open>Evrt2_Modes\<close> the mode selector with its hysteresis, \<open>Evrt2_Crypto\<close> signing and encryption of
    a packet, \<open>Evrt2_Reassembly\<close> fragmentation (\<open>build_frame_packets\<close>) and the receiver (\<open>ingest\<close>), \<open>Evrt2_Session\<close> the
    session endpoint (\<open>send_frame\<close>, \<open>recv_one\<close>, control messages).
  \<^item> EVRT1 (\<^verbatim>\<open>evrt.rs\<close>): \<open>Evrt1_Packet\<close> (header, tag, packetization, messages) and \<open>Evrt1_Fec\<close>.
  \<^item> Receiving queues (\<^verbatim>\<open>frame_queue.rs\<close>): \<open>Frame_Queue\<close> (the jitter queue in front of the decoder),
    \<open>Channel_Reassembler\<close> (frames of EVRT1 from packets), \<open>Channel_Delivery\<close> (its composition with \<open>Evrt1_Packet\<close>),
    \<open>Adaptive\<close> (the controllers of the jitter delay and of the bitrate relief).
  \<^item> The screen codec (\<^verbatim>\<open>evrtck.rs\<close>): \<open>Evrtck_Zrle\<close> (zero runs), \<open>Evrtck_Tile\<close> (tile grid, tile modes),
    \<open>Evrtck_Frame\<close> (packet, encoder and decoder of frames), \<open>Evrtck_Capture\<close> (the encoder of the capture side with
    scroll detection, absolute tiles and its composition with the decoder).
  \<^item> The relay (\<^verbatim>\<open>transport.rs\<close>, \<^verbatim>\<open>crypto.rs\<close>, \<^verbatim>\<open>host.rs\<close>,
    \<^verbatim>\<open>rustdesk_proto.rs\<close>): \<open>Relay_Framing\<close> (frames on the TCP stream), \<open>Relay_Cipher\<close> (signatures, sealed
    key, stream cipher), \<open>Relay_Peer\<close> (peer messages and the secure handshake of both ends), \<open>Relay_Login\<close> (the login
    loop of the host, \<open>relay_session_inner\<close>, and the request of the client).
  \<^item> The viewer (\<^verbatim>\<open>transport.rs\<close>): \<open>Tcp_Viewer\<close> (\<open>decode_frame_loop\<close>: a batch is trimmed, decoded and shown),
    \<open>Viewer_Messages\<close> (what is asked of the host, the ladders of rates and qualities), \<open>Viewer_Control\<close> (the loop of
    \<open>run_session\<close>: its locals are \<open>ViewerState\<close>, each branch is a handler, \<open>viewer_step\<close> joins them).
  \<^item> The host (\<^verbatim>\<open>host.rs\<close>, \<^verbatim>\<open>video_pipeline.rs\<close>): \<open>Host_Options\<close> (stream options of login
    and session, codec negotiation), \<open>Host_Pipeline\<close> (the command loop of \<open>run\<close>, its locals are \<open>Pipeline\<close>), and
    \<open>Viewer_Host\<close> (the viewer with the host that receives its messages). \<open>Change_Detector\<close> (\<^verbatim>\<open>host.rs\<close>,
    \<^verbatim>\<open>colorconv.rs\<close>) decides which captured frames are worth encoding, from hashes over sampled pixels.
  \<^item> This theory: one frame across a whole EVRT2 session, from \<open>send_frame\<close> through \<open>recv_one\<close> to \<open>ingest\<close>.

  \<^bold>\<open>How the code is translated.\<close> Structs are records, enums are datatypes with the constructors of the source
  (renamed where a name is taken), locals of a long-running loop are a record too. Words have their width and wrap as in a
  release build; \<open>usize\<close> is \<open>nat\<close>. \<open>Result\<close> is a sum, \<open>Option\<close> is option, a panic is \<open>None\<close>. \<open>HashMap\<close> is an association
  list; where the source iterates over one, the order is a parameter of which only is assumed that it permutes the entries
  (\<open>hash_iter\<close>). Clocks, random bytes and decisions of the user are arguments. \<open>f32\<close> rates are rational numbers and their
  rounding is left out; \<open>Evrt2_Modes\<close> needs only comparisons. Loops are structural recursions over what they consume, so no
  fuel is needed; the loops that search (chunking, zero runs, the loop of \<open>dequeue\<close>) have measures and are total. Loops that
  read until the connection ends consume an explicit list of inputs.

  \<^bold>\<open>Libraries.\<close> Code of other crates is a parameter with the documented behaviour the code relies on as named hypotheses:
  \<open>digest_sizes\<close> (a SHA-256 digest has 32 bytes), \<open>secretbox_law\<close> (opening a sealed box returns its content, which is 16 bytes
  shorter), \<open>secretbox_nonce_law\<close> (and fails under another nonce), \<open>sign_law\<close> and \<open>box_law\<close> (signed and boxed messages open
  with the other key of the pair), \<open>proto_ok\<close> (the protobuf codec decodes what it encoded), \<open>zstd_ok\<close> (so does zstd on what a
  tile holds). Every property with such a hypothesis has a witness on a concrete instance of it.

  \<^bold>\<open>What is shown.\<close> The properties carry their number in the text before them. They fall into these groups:

  \<^item> Delivery: a frame cut into EVRT2 packets is put together from any sufficient subset in any order, without and with
    session encryption; EVRT1 frames come out of the channel reassembler in order; the jitter queue refines a lossy FIFO;
    framed and encrypted peer messages arrive in order; a captured screen is decoded without loss.
  \<^item> Error correction: one loss per repair class (EVRT2) or group (EVRT1) is restored exactly.
  \<^item> Authenticity: a receiver accepts exactly what was built with its key; an encrypted relay stream accepts its frames in
    order only; a login request passes only with a password that verifies or the consent of the user, and guesses are bounded.
  \<^item> State: counters and budgets of the queues and the reassembler, the size of the decoder's picture, the bounds of the
    stream the viewer asks for, the services of the pipeline.
  \<^item> Control: relief comes in steps with a cooldown, a decoder that keeps up climbs back, the host has what the viewer asked
    for, the negotiated codec is the best usable one, codecs that the relay cannot carry are not used on it. The change
    detector sends a change it looks at and reports exactly the region that changed.
  \<^item> Round trips of the wire formats, termination of the loop of \<open>dequeue\<close>, and what goes wrong: theorems that show the
    code's behaviour on inputs where it is not what a comment or a caller expects.

  \<^bold>\<open>Interfaces.\<close> \<open>simulation\<close> (interpreted by the frame queue), \<open>packet_stream\<close> (a packetizer whose packets come back,
  interpreted by EVRT1 for the channel reassembler), \<open>wire_codec\<close> (an encoder and parser of a control message, interpreted by
  five messages of a session), \<open>aligned_ciphers\<close> (two ends of a cipher, interpreted by the whole and by the split cipher),
  \<open>stream_range\<close> (a range the frame rate keeps, interpreted by the widest and by the configured one).

  \<^bold>\<open>Not modelled.\<close>

  \<^item> The vendored RustDesk tree: another project; EvertyDesk only keeps to its wire format.
  \<^item> Threads, sockets and processes: registration with the rendezvous server, hole punching (\<^verbatim>\<open>evrt_client.rs\<close>,
    \<^verbatim>\<open>evrt_session.rs\<close>), services and agents of the host, writer threads. Their logic is in the parts that
    are modelled; what remains are calls into the operating system.
  \<^item> The capture and encoder threads of a service: frames come from the operating system and go into hardware encoders, and
    their pacing and bitrate control use \<open>f32\<close>. So do the estimators of EVRT2 (\<^verbatim>\<open>evrt2_rtt.rs\<close>,
    \<^verbatim>\<open>evrt2_jitter.rs\<close>, \<^verbatim>\<open>evrt2_attention.rs\<close>, \<^verbatim>\<open>evrt2_apf.rs\<close>):
    averages whose value depends on the rounding of IEEE arithmetic, which the libraries used here do not have.
  \<^item> Capture, colour conversion, scaling, codecs of platforms and GPUs, audio devices: bindings and SIMD code.
  \<^item> User interfaces, Android bindings, virtual-machine providers, settings files, address book, discovery, diagnostics.
  \<^item> Inside modelled parts: log and progress texts; decoders other than EVRTCK (one parameter with a state of its own);
    the bootstrap of the client before its loop; input, clipboard, file and shell messages.
\<close>

section \<open>A frame across a session\<close>

text \<open>C2: a frame sent with \<open>send_frame\<close> arrives. The sender is any session a program can reach, the receiver
  one with the same key; the receiver's socket or channel yields datagrams that were sent, in any order,
  with losses and repetitions. Then the receiving loop (\<open>recv_one\<close>, then \<open>ingest\<close>) does not panic and does
  not change the session, completes only with the bytes of the frame, and does complete if the packets it
  was given are enough in the sense of the FEC classes.\<close>

theorem session_frame_delivery:
  assumes laws: "digest_sizes c" "secretbox_law c" and reach: "session_reach c s"
    and key: "es_auth_key s = es_auth_key s'"
    and it: "hash_iter iter\<^sub>s" "hash_iter iter\<^sub>r" and fits: "frame_fits (es_mode s) fb" and "fb \<noteq> []"
    and sent: "send_frame c nets iter\<^sub>s now_us s fb fid kf sil h265 vr = Some (wires, Inr n)"
    and fp: "fp = \<lparr>fp_id = fid, fp_mode = es_mode s, fp_flags = base_flags_of kf sil h265 (fec_for_mode (es_mode s)),
               fp_pts = now_us, fp_ranges = vr\<rparr>"
    and evs: "list_all2 (\<lambda>ev pkt. pkt \<in> frame_packets fp fb \<and> event_of c s s' ev pkt) evs pkts"
    and none: "map_of (fr_pending r) fid = None"
  shows "(\<forall>pkt \<in> set pkts. \<exists>w \<in> set wires. protect c s (wire_of pkt) = Some w)
    \<and> (\<exists>r' ress. receive_frames c iter\<^sub>r evs s' r = Some (s', r', ress)
        \<and> (\<forall>res \<in> set ress. res = Pending \<or> res = FrameComplete fid fb)
        \<and> (enough fp fb (set pkts) \<longrightarrow> FrameComplete fid fb \<in> set ress))"
proof -
  let ?built = "build_frame_packets iter\<^sub>s fb fid (es_mode s) kf sil h265 now_us vr (fec_for_mode (es_mode s))"
  have fec: "es_fec s = fec_for_mode (es_mode s)" by (rule session_reach_fec [OF reach])
  have fpm: "fp_mode fp = es_mode s" "fp_id fp = fid" using fp by simp_all
  have built: "set ?built = wire_of ` frame_packets fp fb"
    using build_frame_packets_set [OF it(1) fits] fp by (simp add: wire_of_def split_def)
  have prot: "list_all2 (\<lambda>w pkt. protect c s pkt = Some w) wires ?built"
    using send_loop_wires [of c nets s _ 0 wires n] sent unfolding send_frame_def fec by blast
  have ev: "list_all2 (event_of c s s') evs pkts" using evs by (rule list_all2_mono) blast
  have inset: "set pkts \<subseteq> frame_packets fp fb"
    using evs by (induction rule: list_all2_induct) auto
  have "\<exists>w \<in> set wires. protect c s (wire_of pkt) = Some w" if "pkt \<in> set pkts" for pkt
  proof -
    have "wire_of pkt \<in> set ?built" using built inset that by blast
    from list_all2_ex_left [OF prot this] show ?thesis .
  qed
  moreover
  let ?zs = "zip evs pkts"
  let ?arr = "map (\<lambda>(ev, pkt). (snd ev, pkt)) ?zs"
  have len: "length evs = length pkts" using ev by (rule list_all2_lengthD)
  have snd_arr: "snd ` set ?arr = set pkts" by (rule snd_set_zip_map [OF len])
  have arr: "map (\<lambda>(t, pkt). (t, wire_of pkt)) ?arr = map (\<lambda>(ev, pkt). (snd ev, wire_of pkt)) ?zs"
    by (simp add: split_def)
  have fits': "frame_fits (fp_mode fp) fb" using fits fpm by simp
  have ok: "entry_ok fp fb r" using none fpm by (simp add: entry_ok_def)
  obtain r' ress where run: "ingest_wires iter\<^sub>r (map (\<lambda>(t, pkt). (t, wire_of pkt)) ?arr) r = Some (r', ress)"
      "\<forall>res \<in> set ress. res = Pending \<or> res = FrameComplete fid fb"
    using ingest_wires_sound [OF it(2) fits', of ?arr r] inset snd_arr ok fpm by auto
  have "receive_frames c iter\<^sub>r evs s' r = Some (s', r', ress)"
    using receive_frames_ingest [OF laws key ev, of iter\<^sub>r r] run(1) unfolding arr by simp
  moreover have "FrameComplete fid fb \<in> set ress" if "enough fp fb (set pkts)"
  proof (rule ccontr)
    assume no: "FrameComplete fid fb \<notin> set ress"
    have "0 < length (chunks CHUNK_MAX fb)" using \<open>fb \<noteq> []\<close> by (simp add: CHUNK_MAX_value)
    then have "\<not> enough fp fb {}" by (auto simp: enough_def)
    from ingest_wires_complete [OF it(2) fits' _ ok run(1) _ this] no inset snd_arr fpm that
    show False by simp
  qed
  ultimately show ?thesis using run(2) by blast
qed

theorem session_frame_delivery_witness:
  "\<exists>w r' ress. receive_frames toy_crypto id [(demo_net w, 5)]
      (set_auth_key (Some [1, 2]) (session_new Relay 1 Ar)) reassembler_new
    = Some (set_auth_key (Some [1, 2]) (session_new Relay 1 Ar), r', ress) \<and> FrameComplete 9 [1, 2, 3] \<in> set ress"
proof -
  let ?s = "set_auth_key (Some [1, 2]) (session_new Relay (1::nat) Ar)"
  let ?pkt = "repair_packet demo_fp [1, 2, 3] 0 0"
  have it: "hash_iter id" by (simp add: hash_iter_def)
  have reach: "session_reach toy_crypto ?s" by (intro reach_auth_key reach_new)
  have m: "es_mode ?s = Ar" by (simp add: session_ops)
  have fits: "frame_fits (es_mode ?s) [1, 2, 3]"
    by (simp add: m frame_fits_def demo_facts fec_is_enabled_def fec_config_defs)
  have rng: "set (build_frame_packets id [1, 2, 3] 9 Ar True False False 77 [(0, 1)] (fec_for_mode Ar)) \<subseteq> range wire_of"
    unfolding build_frame_packets_set [OF it fits [unfolded m]] wire_of_eq by blast
  obtain ws n where ws: "send_frame toy_crypto (\<lambda>_. demo_net []) id 77 ?s [1, 2, 3] 9 True False False [(0, 1)]
      = Some (ws, Inr n)"
  proof -
    have "es_transport ?s = Relay" "es_fec ?s = fec_for_mode Ar" by (simp_all add: session_ops)
    moreover have "\<forall>i :: nat. net_outbound_open ((\<lambda>_. demo_net []) i)" by (simp add: demo_net_def)
    ultimately show ?thesis
      using send_loop_relay [OF toy_crypto_laws _ _ rng, of ?s "\<lambda>_. demo_net []" 0] that
      unfolding send_frame_def m by metis
  qed
  obtain w where w: "protect toy_crypto ?s (wire_of ?pkt) = Some w"
    using protect_with_key [OF toy_crypto_laws, of ?s "[1, 2]" "fst ?pkt" "snd ?pkt"]
    by (auto simp: session_ops wire_of_def)
  have pkt: "?pkt \<in> frame_packets demo_fp [1, 2, 3]"
    using demo_facts(4,5) by (force simp: frame_packets_def)
  have ev: "event_of toy_crypto ?s ?s (demo_net w, 5) ?pkt"
    using w by (simp add: event_of_def receive_raw_def demo_net_def session_ops)
  have en: "enough demo_fp [1, 2, 3] (set [?pkt])"
    unfolding enough_def using demo_facts by simp (rule disjI2, rule exI [of _ 0], simp)
  have evs: "list_all2 (\<lambda>ev pkt. pkt \<in> frame_packets demo_fp [1, 2, 3] \<and> event_of toy_crypto ?s ?s ev pkt)
      [(demo_net w, 5)] [?pkt]" using ev pkt by simp
  have fp: "demo_fp = \<lparr>fp_id = 9, fp_mode = es_mode ?s, fp_flags = base_flags_of True False False (fec_for_mode (es_mode ?s)),
      fp_pts = 77, fp_ranges = [(0, 1)]\<rparr>" unfolding m by (simp add: demo_fp_def)
  have new: "map_of (fr_pending reassembler_new) 9 = None" by (simp add: reassembler_new_def)
  have ne: "[1, 2, 3 :: u8] \<noteq> []" by simp
  from session_frame_delivery [OF toy_crypto_laws reach refl it it fits ne ws fp evs new] en
  have "\<exists>r' ress. receive_frames toy_crypto id [(demo_net w, 5)] ?s reassembler_new = Some (?s, r', ress)
      \<and> FrameComplete 9 [1, 2, 3] \<in> set ress" by blast
  then show ?thesis by blast
qed

end
